(* ===== verification/Go_Prelude.thy ===== *)
theory Go_Prelude
  imports Main "HOL-Library.Word" "HOL-Library.Multiset"
    "HOL-Library.List_Lexorder" "HOL-Library.Char_ord"
begin

text \<open>
  Shared vocabulary of the development: the outcomes of Go code that stops abnormally, the
  zero-terminated search loops (\<open>for i := range xs { if p(xs[i]) { ...; break } }\<close>) that
  several components use, step-counted reachability, and the generic lemmas on lists and
  64-bit words that the component proofs share.
\<close>

named_theorems go_simps \<open>unfolding rules of small model operations\<close>
named_theorems frame \<open>fields an operation leaves unchanged\<close>
named_theorems preserved \<open>invariant preservation rules of the components\<close>

subsection \<open>Abnormal outcomes of Go code\<close>

text \<open>
  A Go function that dereferences nil, indexes out of range, makes a slice of negative length,
  calls \<open>log.Fatalf\<close> or \<open>panic\<close>, or divides by zero does not return; the model returns \<open>Inl\<close> of the reason.
\<close>

datatype go_panic = NilDeref | IndexOutOfRange | SliceOutOfRange | MakeSlice | DivideByZero | LogFatal | PanicErr | TypeAssertion

type_synonym 'a go = "go_panic + 'a"

definition bind_go :: "'a go \<Rightarrow> ('a \<Rightarrow> 'b go) \<Rightarrow> 'b go" where
  "bind_go r f = (case r of Inl e \<Rightarrow> Inl e | Inr x \<Rightarrow> f x)"

lemma bind_go_simps [simp]:
  "bind_go (Inl e) f = Inl e"
  "bind_go (Inr x) f = f x"
  by (simp_all add: bind_go_def)

text \<open>Indexing a slice.\<close>

definition nth_go :: "'a list \<Rightarrow> nat \<Rightarrow> 'a go" where
  "nth_go xs i = (if i < length xs then Inr (xs ! i) else Inl IndexOutOfRange)"

lemma bind_go_eq_Inr [simp]: "bind_go r f = Inr y \<longleftrightarrow> (\<exists>x. r = Inr x \<and> f x = Inr y)"
  by (cases r) auto

text \<open>Indexing and updating a slice with an \<open>int\<close>, and the wrap-around of 64-bit sums.\<close>

definition nth_int :: "'a list \<Rightarrow> int \<Rightarrow> 'a go" where
  "nth_int xs i = (if 0 \<le> i \<and> i < int (length xs) then Inr (xs ! nat i) else Inl IndexOutOfRange)"

definition upd_go :: "'a list \<Rightarrow> int \<Rightarrow> 'a \<Rightarrow> 'a list go" where
  "upd_go xs i v = (if 0 \<le> i \<and> i < int (length xs) then Inr (xs[nat i := v]) else Inl IndexOutOfRange)"

definition make_slice :: "int \<Rightarrow> int list go" where
  "make_slice n = (if n < 0 then Inl MakeSlice else Inr (replicate (nat n) 0))"

definition wrap64 :: "int \<Rightarrow> int" where
  "wrap64 x = (x + 2 ^ 63) mod 2 ^ 64 - 2 ^ 63"

lemma wrap64_id [simp]: "- (2 ^ 63) \<le> x \<Longrightarrow> x < 2 ^ 63 \<Longrightarrow> wrap64 x = x"
  by (simp add: wrap64_def)

text \<open>Sums and products may be reduced early or late.\<close>

lemma wrap64_cong: "x mod 2 ^ 64 = y mod 2 ^ 64 \<Longrightarrow> wrap64 x = wrap64 y"
  unfolding wrap64_def by (metis mod_add_left_eq)

lemma wrap64_mod: "wrap64 x mod 2 ^ 64 = x mod 2 ^ 64"
  unfolding wrap64_def by (metis add_diff_cancel_right' mod_diff_left_eq)

lemma wrap64_add: "wrap64 (wrap64 x + wrap64 y) = wrap64 (x + y)"
  by (rule wrap64_cong) (metis mod_add_eq wrap64_mod)

lemma wrap64_mult: "wrap64 (wrap64 x * y) = wrap64 (x * y)"
  by (rule wrap64_cong) (metis mod_mult_left_eq wrap64_mod)

lemma nth_int_ok [simp]: "0 \<le> i \<Longrightarrow> i < int (length xs) \<Longrightarrow> nth_int xs i = Inr (xs ! nat i)"
  by (simp add: nth_int_def)

lemma nth_int_InrD: "nth_int xs i = Inr v \<Longrightarrow> 0 \<le> i \<and> i < int (length xs) \<and> v = xs ! nat i"
  by (auto simp: nth_int_def split: if_splits)

subsection \<open>First-match loops\<close>

text \<open>\<open>find_index p xs\<close> is the first index whose element satisfies \<open>p\<close>.\<close>

fun find_index :: "('a \<Rightarrow> bool) \<Rightarrow> 'a list \<Rightarrow> nat option" where
  "find_index p [] = None"
| "find_index p (x # xs) = (if p x then Some 0 else map_option Suc (find_index p xs))"

lemma find_index_None [simp]: "find_index p xs = None \<longleftrightarrow> (\<forall>x\<in>set xs. \<not> p x)"
  by (induction xs) auto

lemma find_index_SomeD:
  "find_index p xs = Some i \<Longrightarrow> i < length xs \<and> p (xs ! i) \<and> (\<forall>j<i. \<not> p (xs ! j))"
proof (induction xs arbitrary: i)
  case Nil
  then show ?case by simp
next
  case (Cons x xs)
  show ?case
  proof (cases "p x")
    case True
    with Cons.prems show ?thesis by simp
  next
    case False
    with Cons.prems obtain k where k: "find_index p xs = Some k" "i = Suc k"
      by auto
    from Cons.IH [OF k(1)] False k(2) show ?thesis
      by (auto simp: nth_Cons split: nat.splits)
  qed
qed

lemma find_index_lt: "find_index p xs = Some i \<Longrightarrow> i < length xs"
  and find_index_sat: "find_index p xs = Some i \<Longrightarrow> p (xs ! i)"
  by (simp_all add: find_index_SomeD)

lemma find_index_ex: "\<exists>x\<in>set xs. p x \<Longrightarrow> \<exists>i. find_index p xs = Some i"
  by (metis find_index_None not_None_eq)

subsection \<open>Replacing one element\<close>

lemma length_filter_update:
  assumes "i < length xs"
  shows "int (length (filter p (xs[i := y])))
    = int (length (filter p xs)) - (if p (xs ! i) then 1 else 0) + (if p y then 1 else 0)"
  using assms
proof (induction xs arbitrary: i)
  case Nil
  then show ?case by simp
next
  case (Cons x xs)
  show ?case
  proof (cases i)
    case 0
    then show ?thesis by simp
  next
    case (Suc k)
    with Cons.prems have "k < length xs" by simp
    from Cons.IH [OF this] Suc show ?thesis by (auto split: if_splits)
  qed
qed

lemma count_list_update:
  assumes "i < length xs"
  shows "int (count_list (xs[i := y]) a)
    = int (count_list xs a) - (if xs ! i = a then 1 else 0) + (if y = a then 1 else 0)"
  using assms
proof (induction xs arbitrary: i)
  case Nil
  then show ?case by simp
next
  case (Cons x xs)
  show ?case
  proof (cases i)
    case 0
    then show ?thesis by simp
  next
    case (Suc k)
    with Cons.prems have "k < length xs" by simp
    from Cons.IH [OF this] Suc show ?thesis by (auto split: if_splits)
  qed
qed

lemma set_list_update_memI: "i < length xs \<Longrightarrow> x \<in> set (xs[i := x])"
  by (simp add: set_update_memI)

subsection \<open>Step-counted reachability\<close>

text \<open>
  \<open>reach_in r s n t\<close>: \<open>t\<close> is reached from \<open>s\<close> by exactly \<open>n\<close> steps of
  \<open>r\<close>. The step count bounds 64-bit counters that advance at most once per step.
\<close>

inductive reach_in :: "('s \<Rightarrow> 's \<Rightarrow> bool) \<Rightarrow> 's \<Rightarrow> nat \<Rightarrow> 's \<Rightarrow> bool" for r and s where
  reach_refl: "reach_in r s 0 s"
| reach_step: "reach_in r s n t \<Longrightarrow> r t u \<Longrightarrow> reach_in r s (Suc n) u"

lemma reach_in_invariant:
  assumes "reach_in r s n t" and "I 0 s"
    and "\<And>k u v. I k u \<Longrightarrow> r u v \<Longrightarrow> Suc k \<le> n \<Longrightarrow> I (Suc k) v"
  shows "I n t"
proof -
  have "reach_in r s k u \<Longrightarrow> k \<le> n \<Longrightarrow> I k u" for k u
    by (induction rule: reach_in.induct) (use assms(2,3) in auto)
  with assms(1) show ?thesis by blast
qed

subsection \<open>64-bit version counters\<close>

type_synonym u64 = "64 word"

lemma unat_Suc_u64:
  fixes v :: u64
  shows "unat v < 2 ^ 64 - 1 \<Longrightarrow> unat (v + 1) = unat v + 1"
proof -
  assume a: "unat v < 2 ^ 64 - 1"
  then have "unat v + unat (1::u64) < 2 ^ LENGTH(64)" by simp
  from unat_add_lem [THEN iffD1, OF this] show ?thesis by simp
qed

subsection \<open>The 32-bit FNV-1a hash (\<open>hash/fnv\<close>)\<close>

unbundle bit_operations_syntax

definition fnv32a :: "string \<Rightarrow> 32 word" where
  "fnv32a key = foldl (\<lambda>h c. (h XOR of_char c) * 16777619) 2166136261 key"

lemma fnv32a_examples: "fnv32a '''' = 2166136261" "fnv32a ''a'' = 0xE40C292C"
  by (simp_all add: fnv32a_def)

subsection \<open>Decimal numerals (\<open>strconv.Itoa\<close>, \<open>%d\<close>)\<close>

definition digit_char :: "nat \<Rightarrow> char" where
  "digit_char d = char_of (48 + d)"

definition digit_val :: "char \<Rightarrow> nat" where
  "digit_val c = of_char c - 48"

definition is_digit :: "char \<Rightarrow> bool" where
  "is_digit c \<longleftrightarrow> 48 \<le> (of_char c :: nat) \<and> (of_char c :: nat) \<le> 57"

fun dec_string :: "nat \<Rightarrow> string" where
  "dec_string n = (if n < 10 then [digit_char n] else dec_string (n div 10) @ [digit_char (n mod 10)])"

declare dec_string.simps [simp del]

definition itoa :: "int \<Rightarrow> string" where
  "itoa i = (if i < 0 then CHR ''-'' # dec_string (nat (- i)) else dec_string (nat i))"

definition dec_value :: "string \<Rightarrow> nat" where
  "dec_value cs = foldl (\<lambda>a c. 10 * a + digit_val c) 0 cs"

lemma digit_val_char [simp]: "d < 10 \<Longrightarrow> digit_val (digit_char d) = d"
  by (simp add: digit_val_def digit_char_def)

lemma is_digit_char [simp]: "d < 10 \<Longrightarrow> is_digit (digit_char d)"
  by (simp add: is_digit_def digit_char_def)

lemma dec_value_snoc: "dec_value (cs @ [c]) = 10 * dec_value cs + digit_val c"
  by (simp add: dec_value_def)

lemma dec_value_string [simp]: "dec_value (dec_string n) = n"
proof (induction n rule: dec_string.induct)
  case (1 n)
  show ?case
  proof (cases "n < 10")
    case True
    then show ?thesis by (subst dec_string.simps) (simp add: dec_value_def)
  next
    case False
    with "1" have "dec_value (dec_string (n div 10)) = n div 10" by simp
    with False show ?thesis by (subst dec_string.simps) (simp add: dec_value_snoc)
  qed
qed

lemma dec_string_digits: "\<forall>c\<in>set (dec_string n). is_digit c"
proof (induction n rule: dec_string.induct)
  case (1 n)
  then show ?case by (subst dec_string.simps) auto
qed

lemma dec_string_nonempty [simp]: "dec_string n \<noteq> []"
  by (subst dec_string.simps) simp

lemma dec_string_inject [simp]: "dec_string m = dec_string n \<longleftrightarrow> m = n"
  by (metis dec_value_string)

lemma itoa_nonempty [simp]: "itoa i \<noteq> []"
  by (simp add: itoa_def)

lemma minus_not_digit [simp]: "\<not> is_digit (CHR ''-'')"
  by (simp add: is_digit_def)

lemma itoa_inject [simp]: "itoa i = itoa j \<longleftrightarrow> i = j"
proof
  assume eq: "itoa i = itoa j"
  have minus: "CHR ''-'' # xs \<noteq> dec_string n" for xs n
    using dec_string_digits [of n] minus_not_digit by (metis list.set_intros(1))
  from eq show "i = j"
    by (auto simp: itoa_def minus minus [symmetric] split: if_splits)
qed simp


lemma itoa_no_dash: "0 \<le> i \<Longrightarrow> CHR ''-'' \<notin> set (itoa i)"
  using dec_string_digits [of "nat i"] minus_not_digit by (auto simp: itoa_def)

lemma append_split:
  assumes "x \<notin> set xs" and "x \<notin> set ys"
  shows "xs @ x # us = ys @ x # vs \<longleftrightarrow> xs = ys \<and> us = vs"
  using assms
proof (induction xs arbitrary: ys)
  case Nil
  then show ?case by (cases ys) auto
next
  case (Cons y xs)
  then show ?case by (cases ys) auto
qed

lemma append_split_last:
  assumes "x \<notin> set us" and "x \<notin> set vs"
  shows "xs @ x # us = ys @ x # vs \<longleftrightarrow> xs = ys \<and> us = vs"
proof -
  have "xs @ x # us = ys @ x # vs \<longleftrightarrow> rev us @ x # rev xs = rev vs @ x # rev ys"
    by (metis append.assoc append_Cons append_Nil rev.simps(2) rev_append rev_rev_ident)
  then show ?thesis using append_split [of x "rev us" "rev vs" "rev xs" "rev ys"] assms by auto
qed

subsection \<open>Invariants of transition systems\<close>

text \<open>
  The shape every safety argument below has: a step relation and a predicate that the steps keep.
  The components interpret it with their own steps.
\<close>

locale step_invariant =
  fixes step :: "'s \<Rightarrow> 's \<Rightarrow> bool"
    and inv :: "'s \<Rightarrow> bool"
    and le :: "'s \<Rightarrow> 's \<Rightarrow> bool"
  assumes keeps: "inv s \<Longrightarrow> step s t \<Longrightarrow> inv t"
    and grows: "inv s \<Longrightarrow> step s t \<Longrightarrow> le s t"
    and le_refl: "le s s"
    and le_trans: "le s t \<Longrightarrow> le t u \<Longrightarrow> le s u"
begin

lemma reach_inv: "step\<^sup>*\<^sup>* s t \<Longrightarrow> inv s \<Longrightarrow> inv t"
  by (induction rule: rtranclp_induct) (auto intro: keeps)

lemma reach_le: "step\<^sup>*\<^sup>* s t \<Longrightarrow> inv s \<Longrightarrow> le s t"
proof (induction rule: rtranclp_induct)
  case base
  show ?case by (rule le_refl)
next
  case (step t u)
  then have "inv t" using reach_inv by blast
  then show ?case using step grows le_trans by blast
qed

end

end
