(* ===== verification/Kv_Server.thy ===== *)
theory Kv_Server
  imports Go_Prelude
begin

text \<open>
  The versioned key/value server: the RPC vocabulary of \<open>kvsrv1/rpc/rpc.go\<close> and the two
  handlers of \<open>kvsrv1/server.go\<close>. Both handlers hold \<open>kv.mu\<close> from entry to return, so
  each is one atomic operation on the server's map. Versions are \<open>uint64\<close> and stay 64-bit
  words here: the increment of a successful \<open>Put\<close> wraps.

  The locale \<open>versioned_store\<close> states what clients of the store rely on (compare-and-set on
  the version, no deletion); the lemmas about sequences of requests are proved from those laws
  and reach the server through the interpretation \<open>kvs\<close>.
\<close>

subsection \<open>RPC types\<close>

datatype err = OK | ErrNoKey | ErrVersion | ErrMaybe | ErrWrongLeader | ErrWrongGroup | NoErr

text \<open>\<open>Err\<close> is a Go string; \<open>NoErr\<close> is its zero value, the empty string.\<close>

fun err_string :: "err \<Rightarrow> string" where
  "err_string OK = ''OK''"
| "err_string ErrNoKey = ''ErrNoKey''"
| "err_string ErrVersion = ''ErrVersion''"
| "err_string ErrMaybe = ''ErrMaybe''"
| "err_string ErrWrongLeader = ''ErrWrongLeader''"
| "err_string ErrWrongGroup = ''ErrWrongGroup''"
| "err_string NoErr = ''''"

lemma err_string_inject [simp]: "err_string e = err_string e' \<longleftrightarrow> e = e'"
  by (cases e; cases e') simp_all

type_synonym Tversion = u64

record PutArgs =
  pa_Key :: string
  pa_Value :: string
  pa_Version :: Tversion

record PutReply =
  pr_Err :: err

record GetArgs =
  ga_Key :: string

record GetReply =
  gr_Value :: string
  gr_Version :: Tversion
  gr_Err :: err

subsection \<open>The server\<close>

record KVServer =
  kv :: "string \<rightharpoonup> PutArgs"

definition MakeKVServer :: KVServer where
  "MakeKVServer = \<lparr>kv = Map.empty\<rparr>"

text \<open>A reply starts as the zero value; \<open>Get\<close> fills all fields only when the key exists.\<close>

definition Get :: "KVServer \<Rightarrow> GetArgs \<Rightarrow> GetReply" where
  "Get s args =
     (case kv s (ga_Key args) of
        Some value \<Rightarrow>
          \<lparr>gr_Value = pa_Value value, gr_Version = pa_Version value, gr_Err = OK\<rparr>
      | None \<Rightarrow> \<lparr>gr_Value = '''', gr_Version = 0, gr_Err = ErrNoKey\<rparr>)"

definition Put :: "KVServer \<Rightarrow> PutArgs \<Rightarrow> KVServer \<times> PutReply" where
  "Put s args =
     (case kv s (pa_Key args) of
        Some value \<Rightarrow>
          if pa_Version value = pa_Version args then
            let newArgs = args\<lparr>pa_Version := pa_Version args + 1\<rparr>
            in (s\<lparr>kv := (kv s)(pa_Key args \<mapsto> newArgs)\<rparr>, \<lparr>pr_Err = OK\<rparr>)
          else (s, \<lparr>pr_Err = ErrVersion\<rparr>)
      | None \<Rightarrow>
          if pa_Version args = 0 then
            let newArgs = args\<lparr>pa_Version := pa_Version args + 1\<rparr>
            in (s\<lparr>kv := (kv s)(pa_Key args \<mapsto> newArgs)\<rparr>, \<lparr>pr_Err = OK\<rparr>)
          else (s, \<lparr>pr_Err = ErrNoKey\<rparr>))"

text \<open>The state after a \<open>Put\<close> and the error it replies with.\<close>

abbreviation Put_state :: "KVServer \<Rightarrow> PutArgs \<Rightarrow> KVServer" where
  "Put_state s a \<equiv> fst (Put s a)"

abbreviation Put_err :: "KVServer \<Rightarrow> PutArgs \<Rightarrow> err" where
  "Put_err s a \<equiv> pr_Err (snd (Put s a))"

subsection \<open>Abstract contents\<close>

text \<open>
  What a client can observe of a key: nothing, or its value and version. The server's map also
  stores the key inside the entry; that copy always agrees with the map key.
\<close>

definition lookup :: "KVServer \<Rightarrow> string \<Rightarrow> (string \<times> Tversion) option" where
  "lookup s k = map_option (\<lambda>a. (pa_Value a, pa_Version a)) (kv s k)"

text \<open>The version a client must name to write the key: 0 while the key is absent.\<close>

definition version_of :: "KVServer \<Rightarrow> string \<Rightarrow> nat" where
  "version_of s k = (case lookup s k of None \<Rightarrow> 0 | Some (v, n) \<Rightarrow> unat n)"

definition keys_agree :: "KVServer \<Rightarrow> bool" where
  "keys_agree s \<longleftrightarrow> (\<forall>k a. kv s k = Some a \<longrightarrow> pa_Key a = k)"

definition store_put :: "string \<Rightarrow> string \<Rightarrow> Tversion \<Rightarrow> KVServer \<Rightarrow> KVServer" where
  "store_put k v n s = Put_state s \<lparr>pa_Key = k, pa_Value = v, pa_Version = n\<rparr>"

definition store_err :: "string \<Rightarrow> Tversion \<Rightarrow> KVServer \<Rightarrow> err" where
  "store_err k n s = Put_err s \<lparr>pa_Key = k, pa_Value = '''', pa_Version = n\<rparr>"

lemma Get_lookup:
  "Get s \<lparr>ga_Key = k\<rparr> =
    (case lookup s k of
       None \<Rightarrow> \<lparr>gr_Value = '''', gr_Version = 0, gr_Err = ErrNoKey\<rparr>
     | Some (v, n) \<Rightarrow> \<lparr>gr_Value = v, gr_Version = n, gr_Err = OK\<rparr>)"
  by (auto simp: Get_def lookup_def split: option.splits)

lemma Put_err_lookup:
  "Put_err s a =
    (case lookup s (pa_Key a) of
       None \<Rightarrow> if pa_Version a = 0 then OK else ErrNoKey
     | Some (v, n) \<Rightarrow> if n = pa_Version a then OK else ErrVersion)"
  by (auto simp: Put_def lookup_def Let_def split: option.splits)

lemma lookup_Put:
  "lookup (Put_state s a) =
    (if Put_err s a = OK
     then (lookup s)(pa_Key a \<mapsto> (pa_Value a, pa_Version a + 1)) else lookup s)"
  by (auto simp: Put_def lookup_def Let_def fun_eq_iff split: option.splits)

lemma Put_unchanged: "Put_err s a \<noteq> OK \<Longrightarrow> Put_state s a = s"
  by (auto simp: Put_def Let_def split: option.splits if_splits)

lemma keys_agree_make [preserved]: "keys_agree MakeKVServer"
  by (simp add: keys_agree_def MakeKVServer_def)

lemma keys_agree_Put [preserved]: "keys_agree s \<Longrightarrow> keys_agree (Put_state s a)"
  by (auto simp: keys_agree_def Put_def Let_def split: option.splits if_splits)

lemma store_err_put: "Put_err s \<lparr>pa_Key = k, pa_Value = v, pa_Version = n\<rparr> = store_err k n s"
  by (simp add: store_err_def Put_err_lookup split: option.split)

subsection \<open>The contract of a versioned store\<close>

locale versioned_store =
  fixes look :: "'s \<Rightarrow> string \<Rightarrow> (string \<times> Tversion) option"
    and ver :: "'s \<Rightarrow> string \<Rightarrow> nat"
    and put :: "string \<Rightarrow> string \<Rightarrow> Tversion \<Rightarrow> 's \<Rightarrow> 's"
    and perr :: "string \<Rightarrow> Tversion \<Rightarrow> 's \<Rightarrow> err"
  assumes ver_def: "ver s k = (case look s k of None \<Rightarrow> 0 | Some (w, m) \<Rightarrow> unat m)"
    and perr_present: "look s k = Some (w, m) \<Longrightarrow> perr k n s = (if m = n then OK else ErrVersion)"
    and perr_absent: "look s k = None \<Longrightarrow> perr k n s = (if n = 0 then OK else ErrNoKey)"
    and look_put: "look (put k v n s) =
      (if perr k n s = OK then (look s)(k \<mapsto> (v, n + 1)) else look s)"
begin

lemma perr_OK_ver: "perr k n s = OK \<Longrightarrow> ver s k = unat n"
  by (cases "look s k") (auto simp: ver_def perr_present perr_absent split: if_splits)

lemma perr_range: "perr k n s \<in> {OK, ErrNoKey, ErrVersion}"
  by (cases "look s k") (auto simp: perr_present perr_absent split: if_splits)

lemma ver_put:
  assumes "ver s k < 2 ^ 64 - 1"
  shows "ver (put k' v n s) k = (if k' = k \<and> perr k' n s = OK then ver s k + 1 else ver s k)"
proof (cases "k' = k \<and> perr k' n s = OK")
  case True
  then have n: "ver s k = unat n" by (auto dest: perr_OK_ver)
  with assms have "unat (n + 1) = unat n + 1" by (simp add: unat_Suc_u64)
  with True n show ?thesis by (simp add: ver_def look_put)
next
  case False
  then show ?thesis by (auto simp: ver_def look_put)
qed

lemma ver_put_le: "ver s k < 2 ^ 64 - 1 \<Longrightarrow> ver (put k' v n s) k \<le> ver s k + 1"
  and ver_put_ge: "ver s k < 2 ^ 64 - 1 \<Longrightarrow> ver s k \<le> ver (put k' v n s) k"
  by (simp_all add: ver_put)

lemma present_stays: "look s k \<noteq> None \<Longrightarrow> look (put k' v n s) k \<noteq> None"
  by (auto simp: look_put)

text \<open>A request whose version is already behind is refused and changes nothing.\<close>

lemma stale_refused:
  assumes "unat n < ver s k"
  shows "perr k n s = ErrVersion"
proof (cases "look s k")
  case None
  with assms show ?thesis by (simp add: ver_def)
next
  case (Some p)
  obtain w m where p: "p = (w, m)" by (cases p)
  with Some assms have "m \<noteq> n" by (auto simp: ver_def)
  with Some p show ?thesis by (simp add: perr_present)
qed

end

interpretation kvs: versioned_store lookup version_of store_put store_err
proof unfold_locales
  show "version_of s k = (case lookup s k of None \<Rightarrow> 0 | Some (w, m) \<Rightarrow> unat m)" for s k
    by (simp add: version_of_def)
  show "lookup s k = Some (w, m) \<Longrightarrow> store_err k n s = (if m = n then OK else ErrVersion)"
    for s k w m n
    by (simp add: store_err_def Put_err_lookup)
  show "lookup s k = None \<Longrightarrow> store_err k n s = (if n = 0 then OK else ErrNoKey)" for s k n
    by (simp add: store_err_def Put_err_lookup)
  show "lookup (store_put k v n s) =
      (if store_err k n s = OK then (lookup s)(k \<mapsto> (v, n + 1)) else lookup s)" for k v n s
    by (simp add: store_put_def lookup_Put store_err_put)
qed

end
