(* ===== verification/Kv_Clerk.thy ===== *)
theory Kv_Clerk
  imports Kv_Server
begin

text \<open>
  The client library \<open>kvsrv1/client.go\<close>. \<open>Clerk.Get\<close> and \<open>Clerk.Put\<close> retry an RPC until
  the network answers. A retry loop is modelled as recursion over the schedule of its attempts:
  what other clients did at the server before the attempt arrived, and the fate of the attempt
  (request lost, executed with the reply lost, or answered), which is what
  \<open>labrpc\<close>'s \<open>Call\<close> can do with a single live server. An exhausted schedule means the loop is
  still running (\<open>None\<close>).

  The clerk's requests that reached the server are recorded with the state they met, so that
  "how often was my Put performed" is a statement about the model's own run.
\<close>

datatype fate = ReqLost | ReplyLost | Answered

record attempt =
  others :: "PutArgs list"
  outcome :: fate

fun serve :: "KVServer \<Rightarrow> PutArgs list \<Rightarrow> KVServer" where
  "serve s [] = s"
| "serve s (a # as) = serve (Put_state s a) as"

text \<open>One line of \<open>Clerk.Put\<close>: what an answered attempt returns to the application.\<close>

definition put_result :: "bool \<Rightarrow> err \<Rightarrow> err" where
  "put_result retry e = (if retry \<and> e = ErrVersion then ErrMaybe else e)"

type_synonym put_event = "KVServer \<times> err"

fun Clerk_Put :: "attempt list \<Rightarrow> bool \<Rightarrow> PutArgs \<Rightarrow> KVServer \<Rightarrow> KVServer \<times> err option \<times> put_event list"
where
  "Clerk_Put [] retry args s = (s, None, [])"
| "Clerk_Put (a # as) retry args s =
     (let s1 = serve s (others a) in
      case outcome a of
        ReqLost \<Rightarrow> Clerk_Put as True args s1
      | ReplyLost \<Rightarrow>
          (let (s2, r, es) = Clerk_Put as True args (Put_state s1 args)
           in (s2, r, (s1, Put_err s1 args) # es))
      | Answered \<Rightarrow>
          (Put_state s1 args, Some (put_result retry (Put_err s1 args)), [(s1, Put_err s1 args)]))"

fun Clerk_Get :: "attempt list \<Rightarrow> GetArgs \<Rightarrow> KVServer \<Rightarrow> KVServer \<times> GetReply option" where
  "Clerk_Get [] args s = (s, None)"
| "Clerk_Get (a # as) args s =
     (let s1 = serve s (others a) in
      case outcome a of
        Answered \<Rightarrow> (s1, Some (Get s1 args))
      | ReqLost \<Rightarrow> Clerk_Get as args s1
      | ReplyLost \<Rightarrow> Clerk_Get as args s1)"

abbreviation put_ret :: "KVServer \<times> err option \<times> put_event list \<Rightarrow> err option" where
  "put_ret r \<equiv> fst (snd r)"

abbreviation put_events :: "KVServer \<times> err option \<times> put_event list \<Rightarrow> put_event list" where
  "put_events r \<equiv> snd (snd r)"

text \<open>How often the server performed the clerk's request.\<close>

definition performed :: "put_event list \<Rightarrow> nat" where
  "performed es = length (filter (\<lambda>(s, e). e = OK) es)"

text \<open>Requests that can reach the server during the schedule.\<close>

fun load :: "attempt list \<Rightarrow> nat" where
  "load [] = 0"
| "load (a # as) = length (others a) + 1 + load as"

lemma performed_simps [simp]:
  "performed [] = 0"
  "performed ((s, e) # es) = (if e = OK then 1 else 0) + performed es"
  by (simp_all add: performed_def)

text \<open>The retry loop through its two observations: the value returned and the events.\<close>

lemma Clerk_Put_Cons:
  "outcome a = ReqLost \<Longrightarrow>
    Clerk_Put (a # as) retry args s = Clerk_Put as True args (serve s (others a))"
  "outcome a = Answered \<Longrightarrow>
    Clerk_Put (a # as) retry args s =
      (Put_state (serve s (others a)) args,
       Some (put_result retry (Put_err (serve s (others a)) args)),
       [(serve s (others a), Put_err (serve s (others a)) args)])"
  "outcome a = ReplyLost \<Longrightarrow>
    put_ret (Clerk_Put (a # as) retry args s) =
      put_ret (Clerk_Put as True args (Put_state (serve s (others a)) args))"
  "outcome a = ReplyLost \<Longrightarrow>
    put_events (Clerk_Put (a # as) retry args s) =
      (serve s (others a), Put_err (serve s (others a)) args)
        # put_events (Clerk_Put as True args (Put_state (serve s (others a)) args))"
  by (auto simp: Let_def split: prod.splits)

declare Clerk_Put.simps(2) [simp del] Clerk_Put_Cons [simp]

subsection \<open>Versions under load\<close>

lemma Put_state_store: "Put_state s a = store_put (pa_Key a) (pa_Value a) (pa_Version a) s"
  by (cases a) (simp add: store_put_def)

lemma Put_err_store: "Put_err s a = store_err (pa_Key a) (pa_Version a) s"
  by (cases a) (simp add: store_err_put)

lemma version_Put_mono:
  "version_of s k < 2 ^ 64 - 1 \<Longrightarrow> version_of s k \<le> version_of (Put_state s a) k"
  "version_of s k < 2 ^ 64 - 1 \<Longrightarrow> version_of (Put_state s a) k \<le> version_of s k + 1"
  by (simp_all only: Put_state_store kvs.ver_put_ge kvs.ver_put_le)

lemma version_Put_OK:
  assumes "Put_err s a = OK" and "version_of s (pa_Key a) < 2 ^ 64 - 1"
  shows "version_of (Put_state s a) (pa_Key a) = unat (pa_Version a) + 1"
  using assms kvs.perr_OK_ver [of "pa_Key a" "pa_Version a" s]
  by (simp add: Put_state_store Put_err_store kvs.ver_put)

lemma serve_version:
  "version_of s k + length as < 2 ^ 64 \<Longrightarrow>
    version_of s k \<le> version_of (serve s as) k \<and> version_of (serve s as) k \<le> version_of s k + length as"
proof (induction as arbitrary: s)
  case Nil
  then show ?case by simp
next
  case (Cons a as)
  let ?s = "Put_state s a"
  have m: "version_of s k \<le> version_of ?s k" "version_of ?s k \<le> version_of s k + 1"
    using Cons.prems version_Put_mono [of s k a] by simp_all
  with Cons.prems Cons.IH [of ?s] show ?case by simp
qed

lemma serve_present: "lookup s k \<noteq> None \<Longrightarrow> lookup (serve s as) k \<noteq> None"
proof (induction as arbitrary: s)
  case (Cons a as)
  then show ?case
    using kvs.present_stays [of s k "pa_Key a" "pa_Value a" "pa_Version a"]
    by (simp add: Put_state_store)
qed simp

lemma version_pos_present: "0 < version_of s k \<Longrightarrow> lookup s k \<noteq> None"
  by (auto simp: version_of_def split: option.splits)

lemma stale_Put_err: "unat (pa_Version a) < version_of s (pa_Key a) \<Longrightarrow> Put_err s a = ErrVersion"
  by (simp add: Put_err_store kvs.stale_refused)

subsection \<open>At most once\<close>

text \<open>Once the version has moved past the request's, no later attempt is performed.\<close>

lemma Clerk_Put_stale:
  assumes "unat (pa_Version args) < version_of s (pa_Key args)"
    and "version_of s (pa_Key args) + load as < 2 ^ 64"
  shows "performed (put_events (Clerk_Put as retry args s)) = 0 \<and>
    put_ret (Clerk_Put as retry args s) \<in> {None, Some (put_result retry ErrVersion), Some ErrMaybe}"
  using assms
proof (induction as arbitrary: s retry)
  case Nil
  then show ?case by simp
next
  case (Cons a as)
  let ?k = "pa_Key args" and ?s1 = "serve s (others a)"
  have v: "version_of s ?k \<le> version_of ?s1 ?k" "version_of ?s1 ?k \<le> version_of s ?k + length (others a)"
    using serve_version [of s ?k "others a"] Cons.prems by auto
  then have stale: "unat (pa_Version args) < version_of ?s1 ?k" and
    ld: "version_of ?s1 ?k + load as < 2 ^ 64"
    using Cons.prems by auto
  from stale have e: "Put_err ?s1 args = ErrVersion" by (rule stale_Put_err)
  then have u: "Put_state ?s1 args = ?s1" by (simp add: Put_unchanged)
  note IH = Cons.IH [OF stale ld, of True]
  show ?case
  proof (cases "outcome a")
    case ReqLost
    with IH show ?thesis by (auto simp: put_result_def split: if_splits)
  next
    case ReplyLost
    with IH e u show ?thesis by (auto simp: put_result_def)
  next
    case Answered
    with e show ?thesis by simp
  qed
qed

text \<open>An earlier refusal for a missing key does not hide a later success, and conversely.\<close>

lemma Clerk_Put_once:
  assumes "version_of s (pa_Key args) + load as < 2 ^ 64"
  shows "performed (put_events (Clerk_Put as retry args s)) \<le> 1"
  using assms
proof (induction as arbitrary: s retry)
  case Nil
  then show ?case by simp
next
  case (Cons a as)
  let ?k = "pa_Key args" and ?s1 = "serve s (others a)"
  have v: "version_of s ?k \<le> version_of ?s1 ?k" "version_of ?s1 ?k \<le> version_of s ?k + length (others a)"
    using serve_version [of s ?k "others a"] Cons.prems by auto
  have ld: "version_of ?s1 ?k + 1 + load as < 2 ^ 64" using v Cons.prems by simp
  show ?case
  proof (cases "outcome a = ReplyLost \<and> Put_err ?s1 args = OK")
    case True
    have nv: "version_of (Put_state ?s1 args) ?k = unat (pa_Version args) + 1"
      using True ld by (intro version_Put_OK) auto
    have "version_of (Put_state ?s1 args) ?k \<le> version_of ?s1 ?k + 1"
      using ld by (intro version_Put_mono(2)) simp
    with nv ld have "performed (put_events (Clerk_Put as True args (Put_state ?s1 args))) = 0"
      using Clerk_Put_stale [of args "Put_state ?s1 args" as True] by simp
    with True show ?thesis by auto
  next
    case False
    have u: "Put_err ?s1 args \<noteq> OK \<Longrightarrow> Put_state ?s1 args = ?s1" by (rule Put_unchanged)
    note IH = Cons.IH [of ?s1 True]
    show ?thesis
    proof (cases "outcome a")
      case ReqLost
      with IH ld show ?thesis by simp
    next
      case ReplyLost
      with False u IH ld show ?thesis by auto
    next
      case Answered
      then show ?thesis by simp
    qed
  qed
qed

subsection \<open>What each return value means\<close>

lemma put_result_simps [simp]:
  "put_result r OK = OK" "put_result r ErrNoKey = ErrNoKey" "put_result False e = e"
  "put_result True ErrVersion = ErrMaybe" "put_result True e \<noteq> ErrVersion"
  by (simp_all add: put_result_def)

lemma put_result_OK [simp]: "put_result r e = OK \<longleftrightarrow> e = OK"
  and put_result_NoKey [simp]: "put_result r e = ErrNoKey \<longleftrightarrow> e = ErrNoKey"
  by (auto simp: put_result_def)

lemma Put_err_range: "Put_err s a \<in> {OK, ErrNoKey, ErrVersion}"
  unfolding Put_err_store by (rule kvs.perr_range)

lemma Clerk_Put_retry_ErrVersion: "put_ret (Clerk_Put as True args s) \<noteq> Some ErrVersion"
proof (induction as arbitrary: s)
  case (Cons a as)
  then show ?case by (cases "outcome a") auto
qed simp

text \<open>The last event explains the returned error.\<close>

lemma Clerk_Put_last:
  assumes "put_ret (Clerk_Put as retry args s) = Some e"
  shows "\<exists>s0. last (put_events (Clerk_Put as retry args s)) = (s0, Put_err s0 args) \<and>
    put_events (Clerk_Put as retry args s) \<noteq> [] \<and>
    (e = Put_err s0 args \<or> e = ErrMaybe \<and> Put_err s0 args = ErrVersion)"
  using assms
proof (induction as arbitrary: s retry)
  case (Cons a as)
  let ?s1 = "serve s (others a)"
  show ?case
  proof (cases "outcome a")
    case ReqLost
    with Cons show ?thesis by auto
  next
    case ReplyLost
    with Cons.prems Cons.IH [of True "Put_state ?s1 args"] show ?thesis
      by auto
  next
    case Answered
    with Cons.prems show ?thesis by (auto simp: put_result_def split: if_splits)
  qed
qed simp

lemma Clerk_Put_event_shape:
  "(s0, e) \<in> set (put_events (Clerk_Put as retry args s)) \<Longrightarrow> e = Put_err s0 args"
proof (induction as arbitrary: s retry)
  case (Cons a as)
  then show ?case by (cases "outcome a") auto
qed simp

lemma performed_pos: "0 < performed es \<longleftrightarrow> (\<exists>s. (s, OK) \<in> set es)"
  by (auto simp: performed_def filter_empty_conv)

lemma Clerk_Put_OK_performed:
  assumes "put_ret (Clerk_Put as retry args s) = Some OK"
  shows "0 < performed (put_events (Clerk_Put as retry args s))"
  using Clerk_Put_last [OF assms] performed_pos last_in_set by fastforce

lemma Clerk_Put_NoKey_performed:
  assumes "version_of s (pa_Key args) + load as < 2 ^ 64"
    and "put_ret (Clerk_Put as retry args s) = Some ErrNoKey"
  shows "performed (put_events (Clerk_Put as retry args s)) = 0"
  using assms
proof (induction as arbitrary: s retry)
  case (Cons a as)
  let ?k = "pa_Key args" and ?s1 = "serve s (others a)"
  have ld: "version_of ?s1 ?k + 1 + load as < 2 ^ 64"
    using serve_version [of s ?k "others a"] Cons.prems by auto
  show ?case
  proof (cases "outcome a")
    case ReqLost
    with Cons.IH [of ?s1 True] Cons.prems ld show ?thesis by simp
  next
    case ReplyLost
    have nOK: "Put_err ?s1 args \<noteq> OK"
    proof
      assume ok: "Put_err ?s1 args = OK"
      have nv: "version_of (Put_state ?s1 args) ?k = unat (pa_Version args) + 1"
        using ok ld by (intro version_Put_OK) auto
      have "version_of (Put_state ?s1 args) ?k \<le> version_of ?s1 ?k + 1"
        using ld by (intro version_Put_mono(2)) simp
      with nv ld have "put_ret (Clerk_Put as True args (Put_state ?s1 args)) \<noteq> Some ErrNoKey"
        using Clerk_Put_stale [of args "Put_state ?s1 args" as True] by auto
      with ReplyLost Cons.prems show False by auto
    qed
    then have "Put_state ?s1 args = ?s1" by (rule Put_unchanged)
    with nOK ReplyLost Cons.IH [of ?s1 True] Cons.prems ld show ?thesis
      by auto
  next
    case Answered
    with Cons.prems show ?thesis by simp
  qed
qed simp

lemma Clerk_Put_ErrVersion_performed:
  assumes "put_ret (Clerk_Put as False args s) = Some ErrVersion"
  shows "performed (put_events (Clerk_Put as False args s)) = 0"
proof (cases as)
  case (Cons a as')
  with assms Clerk_Put_retry_ErrVersion [of as'] show ?thesis
    by (cases "outcome a") auto
qed (use assms in simp)

subsection \<open>Termination\<close>

lemma Clerk_Put_returns:
  "\<exists>a\<in>set as. outcome a = Answered \<Longrightarrow> \<exists>e. put_ret (Clerk_Put as retry args s) = Some e"
proof (induction as arbitrary: s retry)
  case (Cons a as)
  let ?s1 = "serve s (others a)"
  show ?case
  proof (cases "outcome a")
    case ReqLost
    with Cons show ?thesis by auto
  next
    case ReplyLost
    with Cons.prems Cons.IH [of True "Put_state ?s1 args"] show ?thesis
      by auto
  qed simp
qed simp

lemma Clerk_Get_reads:
  "snd (Clerk_Get as args s) = Some r \<Longrightarrow> \<exists>s0 bs. s0 = serve s bs \<and> r = Get s0 args"
proof (induction as arbitrary: s)
  case (Cons a as)
  have app: "serve (serve s bs) cs = serve s (bs @ cs)" for bs cs
    by (induction bs arbitrary: s) auto
  show ?case
  proof (cases "outcome a")
    case Answered
    with Cons.prems show ?thesis by (auto simp: Let_def)
  next
    case ReqLost
    with Cons.prems Cons.IH [of "serve s (others a)"] app show ?thesis by (auto simp: Let_def)
  next
    case ReplyLost
    with Cons.prems Cons.IH [of "serve s (others a)"] app show ?thesis by (auto simp: Let_def)
  qed
qed simp

end
