(* ===== verification/Kv_Model.thy ===== *)
theory Kv_Model
  imports Kv_Clerk
begin

text \<open>
  The sequential specification \<open>models1/kv.go\<close> that the porcupine checker tests histories
  against: the per-key state machine \<open>Step\<close> and the split of a history by key. The server
  refines it key by key, and so do whole sequential histories after \<open>Partition\<close>.
\<close>

record KvInput =
  ki_Op :: "8 word"
  ki_Key :: string
  ki_Value :: string
  ki_Version :: u64

record KvOutput =
  ko_Value :: string
  ko_Version :: u64
  ko_Err :: string

record KvState =
  ks_Value :: string
  ks_Version :: u64

text \<open>The fields of \<open>porcupine.Operation\<close> that the model reads and carries.\<close>

record Operation =
  op_Input :: KvInput
  op_Output :: KvOutput

definition Init :: KvState where
  "Init = \<lparr>ks_Value = '''', ks_Version = 0\<rparr>"

text \<open>The invalid state of the default branch (a Go string) is \<open>None\<close>.\<close>

definition Step :: "KvState \<Rightarrow> KvInput \<Rightarrow> KvOutput \<Rightarrow> bool \<times> KvState option" where
  "Step st inp out =
     (if ki_Op inp = 0 then (ko_Value out = ks_Value st, Some st)
      else if ki_Op inp = 1 then
        if ks_Version st = ki_Version inp
        then (ko_Err out = ''OK'' \<or> ko_Err out = ''ErrMaybe'',
              Some \<lparr>ks_Value = ki_Value inp, ks_Version = ks_Version st + 1\<rparr>)
        else (ko_Err out = ''ErrVersion'' \<or> ko_Err out = ''ErrMaybe'', Some st)
      else (False, None))"

text \<open>
  \<open>Partition\<close> appends each operation to the list of its key (\<open>add_op\<close> is one turn of that
  loop over an association list), then lists the groups in sorted key order.
\<close>

fun add_op :: "(string \<times> Operation list) list \<Rightarrow> Operation \<Rightarrow> (string \<times> Operation list) list" where
  "add_op [] v = [(ki_Key (op_Input v), [v])]"
| "add_op ((k, vs) # m) v =
     (if k = ki_Key (op_Input v) then (k, vs @ [v]) # m else (k, vs) # add_op m v)"

definition Partition :: "Operation list \<Rightarrow> Operation list list" where
  "Partition history =
     (let m = foldl add_op [] history in map (\<lambda>k. the (map_of m k)) (sort (map fst m)))"

definition DescribeOperation :: "KvInput \<Rightarrow> KvOutput \<Rightarrow> string" where
  "DescribeOperation inp out =
     (if ki_Op inp = 0 then
        ''get('' @ [CHR 0x27] @ ki_Key inp @ [CHR 0x27] @ '') -> ('' @ [CHR 0x27] @ ko_Value out
          @ [CHR 0x27] @ '', '' @ [CHR 0x27] @ dec_string (unat (ko_Version out)) @ [CHR 0x27]
          @ '', '' @ [CHR 0x27] @ ko_Err out @ [CHR 0x27] @ '')''
      else if ki_Op inp = 1 then
        ''put('' @ [CHR 0x27] @ ki_Key inp @ [CHR 0x27] @ '', '' @ [CHR 0x27] @ ki_Value inp
          @ [CHR 0x27] @ '', '' @ [CHR 0x27] @ dec_string (unat (ki_Version inp)) @ [CHR 0x27]
          @ '') -> ('' @ [CHR 0x27] @ ko_Err out @ [CHR 0x27] @ '')''
      else ''<invalid>'')"

subsection \<open>Histories\<close>

text \<open>The operations a client performs, and the entry the test harness logs for each
  (\<open>kvtest1/porcupine.go\<close>: \<open>Get\<close> and \<open>Put\<close>).\<close>

datatype kv_op = GetOp string | PutOp PutArgs

definition log_Get :: "string \<Rightarrow> GetReply \<Rightarrow> Operation" where
  "log_Get key r =
     \<lparr>op_Input = \<lparr>ki_Op = 0, ki_Key = key, ki_Value = '''', ki_Version = 0\<rparr>,
      op_Output = \<lparr>ko_Value = gr_Value r, ko_Version = gr_Version r, ko_Err = err_string (gr_Err r)\<rparr>\<rparr>"

definition log_Put :: "PutArgs \<Rightarrow> err \<Rightarrow> Operation" where
  "log_Put a e =
     \<lparr>op_Input = \<lparr>ki_Op = 1, ki_Key = pa_Key a, ki_Value = pa_Value a, ki_Version = pa_Version a\<rparr>,
      op_Output = \<lparr>ko_Value = '''', ko_Version = 0, ko_Err = err_string e\<rparr>\<rparr>"

fun history :: "KVServer \<Rightarrow> kv_op list \<Rightarrow> Operation list" where
  "history s [] = []"
| "history s (GetOp k # ops) = log_Get k (Get s \<lparr>ga_Key = k\<rparr>) # history s ops"
| "history s (PutOp a # ops) = log_Put a (Put_err s a) # history (Put_state s a) ops"

text \<open>A history of one key is accepted when every step is.\<close>

fun accepts :: "KvState \<Rightarrow> Operation list \<Rightarrow> bool" where
  "accepts st [] = True"
| "accepts st (v # vs) =
     (case Step st (op_Input v) (op_Output v) of
        (True, Some st') \<Rightarrow> accepts st' vs
      | _ \<Rightarrow> False)"

subsection \<open>The server refines the model key by key\<close>

definition abs_key :: "KVServer \<Rightarrow> string \<Rightarrow> KvState" where
  "abs_key s k = (case lookup s k of
     None \<Rightarrow> Init | Some (v, n) \<Rightarrow> \<lparr>ks_Value = v, ks_Version = n\<rparr>)"

lemma abs_key_make: "abs_key MakeKVServer k = Init"
  by (simp add: abs_key_def lookup_def MakeKVServer_def)

lemma Get_Step:
  "Step (abs_key s k) (op_Input (log_Get k (Get s \<lparr>ga_Key = k\<rparr>)))
     (op_Output (log_Get k (Get s \<lparr>ga_Key = k\<rparr>))) = (True, Some (abs_key s k))"
  by (simp add: Step_def log_Get_def Get_lookup abs_key_def Init_def split: option.split)

lemma Put_Step_gen:
  assumes "Put_err s a \<noteq> ErrNoKey" and "e = Put_err s a \<or> e = ErrMaybe"
  shows "Step (abs_key s (pa_Key a)) (op_Input (log_Put a e)) (op_Output (log_Put a e)) =
    (True, Some (abs_key (Put_state s a) (pa_Key a)))"
  using assms
  by (auto simp: Step_def log_Put_def abs_key_def lookup_Put Put_err_lookup Init_def
      split: option.splits if_splits)

lemma abs_key_Put_other: "k \<noteq> pa_Key a \<Longrightarrow> abs_key (Put_state s a) k = abs_key s k"
  by (simp add: abs_key_def lookup_Put)

subsection \<open>Partition\<close>

abbreviation op_key :: "Operation \<Rightarrow> string" where
  "op_key v \<equiv> ki_Key (op_Input v)"

lemma fst_add_op:
  "map fst (add_op m v) = (if op_key v \<in> fst ` set m then map fst m else map fst m @ [op_key v])"
  by (induction m v rule: add_op.induct) auto

lemma map_of_add_op:
  "map_of (add_op m v) =
    (map_of m)(op_key v \<mapsto> (case map_of m (op_key v) of None \<Rightarrow> [] | Some vs \<Rightarrow> vs) @ [v])"
  by (induction m v rule: add_op.induct) (auto simp: fun_eq_iff)

lemma distinct_add_op: "distinct (map fst m) \<Longrightarrow> distinct (map fst (add_op m v))"
  by (simp add: fst_add_op)

lemma foldl_add_op:
  assumes "distinct (map fst m)"
  shows "distinct (map fst (foldl add_op m h)) \<and>
    set (map fst (foldl add_op m h)) = set (map fst m) \<union> op_key ` set h \<and>
    (\<forall>k. map_of (foldl add_op m h) k =
       (if k \<in> set (map fst m) \<union> op_key ` set h
        then Some ((case map_of m k of None \<Rightarrow> [] | Some vs \<Rightarrow> vs) @ filter (\<lambda>v. op_key v = k) h)
        else None))"
  using assms
proof (induction h arbitrary: m)
  case Nil
  then show ?case by (auto simp: map_of_eq_None_iff split: option.splits dest: weak_map_of_SomeI)
next
  case (Cons v h)
  have d: "distinct (map fst (add_op m v))" using Cons.prems by (rule distinct_add_op)
  have s: "set (map fst (add_op m v)) = insert (op_key v) (set (map fst m))"
    by (auto simp: fst_add_op)
  from Cons.IH [OF d] s show ?case
    by (auto simp: map_of_add_op split: option.splits)
qed

text \<open>Each part is the subhistory of one key, in order; keys appear once, in sorted order.\<close>

lemma Partition_eq:
  "Partition h = map (\<lambda>k. filter (\<lambda>v. op_key v = k) h) (sorted_list_of_set (op_key ` set h))"
proof -
  let ?m = "foldl add_op [] h"
  have f: "distinct (map fst ?m)" "set (map fst ?m) = op_key ` set h"
    "\<And>k. k \<in> op_key ` set h \<Longrightarrow> map_of ?m k = Some (filter (\<lambda>v. op_key v = k) h)"
    using foldl_add_op [of "[]" h] by auto
  have "sort (map fst ?m) = sorted_list_of_set (op_key ` set h)"
    using f(1,2) by (metis sorted_list_of_set_sort_remdups distinct_remdups_id)
  then show ?thesis by (simp add: Partition_def Let_def f(3))
qed

lemma Partition_mset: "mset (concat (Partition h)) = mset h"
proof -
  have gen: "mset (concat (map (\<lambda>k. filter (\<lambda>v. op_key v = k) h) ks)) =
      filter_mset (\<lambda>v. op_key v \<in> set ks) (mset h)" if "distinct ks" for ks
    using that
  proof (induction ks)
    case (Cons k ks)
    have "filter_mset (\<lambda>v. op_key v = k \<or> op_key v \<in> set ks) (mset h) =
        filter_mset (\<lambda>v. op_key v = k) (mset h) + filter_mset (\<lambda>v. op_key v \<in> set ks) (mset h)"
      using Cons.prems by (induction h) auto
    with Cons show ?case by simp
  qed simp
  have "filter_mset (\<lambda>v. op_key v \<in> op_key ` set h) (mset h) = mset h"
    by (rule filter_mset_eq_conv [THEN iffD2]) auto
  then show ?thesis by (simp add: Partition_eq gen)
qed

subsection \<open>Sequential histories are accepted\<close>

text \<open>A \<open>Put\<close> that was answered \<open>ErrNoKey\<close>: the one reply the model has no transition for.\<close>

definition put_nokey :: "Operation \<Rightarrow> bool" where
  "put_nokey v \<longleftrightarrow> ki_Op (op_Input v) = 1 \<and> ko_Err (op_Output v) = ''ErrNoKey''"

lemma log_simps [simp]:
  "op_key (log_Get k r) = k" "op_key (log_Put a e) = pa_Key a"
  "\<not> put_nokey (log_Get k r)" "put_nokey (log_Put a e) \<longleftrightarrow> e = ErrNoKey"
  by (auto simp: log_Get_def log_Put_def put_nokey_def)
    (use err_string_inject [of e ErrNoKey] in auto)

lemma history_accepted:
  assumes "\<forall>v\<in>set (history s ops). \<not> put_nokey v"
  shows "accepts (abs_key s k) (filter (\<lambda>v. op_key v = k) (history s ops))"
  using assms
proof (induction s ops rule: history.induct)
  case (1 s)
  then show ?case by simp
next
  case (2 s k' ops)
  then show ?case by (auto simp: Get_Step)
next
  case (3 s a ops)
  then have "accepts (abs_key (Put_state s a) k) (filter (\<lambda>v. op_key v = k) (history (Put_state s a) ops))"
    and "Put_err s a \<noteq> ErrNoKey"
    by auto
  then show ?case
    using Put_Step_gen [of s a "Put_err s a"] abs_key_Put_other [of k a s] by auto
qed

lemma nokey_rejected: "Put_err s a = ErrNoKey \<Longrightarrow>
    \<not> fst (Step (abs_key s (pa_Key a)) (op_Input (log_Put a ErrNoKey)) (op_Output (log_Put a ErrNoKey)))"
  by (auto simp: Step_def log_Put_def)

subsection \<open>Linearization points of the clerk's Put\<close>

lemma Clerk_Put_point:
  assumes wrap: "version_of s (pa_Key args) + load as < 2 ^ 64"
    and ret: "put_ret (Clerk_Put as False args s) = Some e"
    and e: "e \<noteq> ErrNoKey"
  shows "\<exists>(s0, e0)\<in>set (put_events (Clerk_Put as False args s)).
    Step (abs_key s0 (pa_Key args)) (op_Input (log_Put args e)) (op_Output (log_Put args e)) =
      (True, Some (abs_key (Put_state s0 args) (pa_Key args))) \<and>
    performed (put_events (Clerk_Put as False args s)) = (if e0 = OK then 1 else 0)"
proof -
  let ?es = "put_events (Clerk_Put as False args s)"
  obtain s1 where l: "last ?es = (s1, Put_err s1 args)" "?es \<noteq> []"
    and d: "e = Put_err s1 args \<or> e = ErrMaybe \<and> Put_err s1 args = ErrVersion"
    using Clerk_Put_last [OF ret] by auto
  have mem: "(s1, Put_err s1 args) \<in> set ?es" using l last_in_set by metis
  have once: "performed ?es \<le> 1" using wrap by (rule Clerk_Put_once)
  consider (none) "performed ?es = 0" | (one) "performed ?es = 1" using once by linarith
  then show ?thesis
  proof cases
    case none
    then have "Put_err s1 args \<noteq> OK" using mem performed_pos by (metis less_irrefl)
    with d e mem none show ?thesis
      using Put_Step_gen [of s1 args e] by (intro bexI [OF _ mem]) auto
  next
    case one
    then obtain s2 where s2: "(s2, OK) \<in> set ?es" using performed_pos by fastforce
    then have ok: "Put_err s2 args = OK" using Clerk_Put_event_shape by fastforce
    have "e = OK \<or> e = ErrMaybe"
      using d e one ret Clerk_Put_ErrVersion_performed [of as args s] Put_err_range [of s1 args]
      by auto
    then show ?thesis
      using ok one s2 Put_Step_gen [of s2 args e] by (intro bexI [OF _ s2]) auto
  qed
qed

subsection \<open>Properties\<close>

text \<open>A schedule for the witnesses: a lost reply, another client's write, then an answer.\<close>

definition retry_schedule :: "attempt list" where
  "retry_schedule =
     [\<lparr>others = [], outcome = ReplyLost\<rparr>,
      \<lparr>others = [\<lparr>pa_Key = ''k'', pa_Value = ''w'', pa_Version = 1\<rparr>], outcome = Answered\<rparr>]"

definition put_k :: PutArgs where
  "put_k = \<lparr>pa_Key = ''k'', pa_Value = ''v'', pa_Version = 0\<rparr>"

lemma retry_schedule_facts:
  "version_of MakeKVServer (pa_Key put_k) + load retry_schedule < 2 ^ 64"
  "put_ret (Clerk_Put retry_schedule False put_k MakeKVServer) = Some ErrMaybe"
  "performed (put_events (Clerk_Put retry_schedule False put_k MakeKVServer)) = 1"
  by (simp_all add: retry_schedule_def put_k_def version_of_def lookup_def MakeKVServer_def Put_def
      put_result_def performed_def)

text \<open>
  Property C2. Clerk.Put is performed at most once, whatever is lost and whatever other clients write in
  between, and its result says which: \<open>OK\<close> means exactly once, \<open>ErrVersion\<close> and \<open>ErrNoKey\<close> mean
  never. The bound excludes a wrapped version counter.
\<close>

theorem clerk_put_at_most_once:
  assumes "version_of s (pa_Key args) + load as < 2 ^ 64"
    and "put_ret (Clerk_Put as False args s) = Some e"
  shows "e \<in> {OK, ErrNoKey, ErrVersion, ErrMaybe} \<and>
    performed (put_events (Clerk_Put as False args s)) \<le> 1 \<and>
    (e = OK \<longrightarrow> performed (put_events (Clerk_Put as False args s)) = 1) \<and>
    (e \<in> {ErrVersion, ErrNoKey} \<longrightarrow> performed (put_events (Clerk_Put as False args s)) = 0)"
proof -
  have once: "performed (put_events (Clerk_Put as False args s)) \<le> 1"
    using assms(1) by (rule Clerk_Put_once)
  have range: "e \<in> {OK, ErrNoKey, ErrVersion, ErrMaybe}"
    using Clerk_Put_last [OF assms(2)] Put_err_range by fastforce
  show ?thesis
    using once range assms Clerk_Put_OK_performed [of as False args s]
      Clerk_Put_NoKey_performed [of s args as False] Clerk_Put_ErrVersion_performed [of as args s]
    by fastforce
qed

theorem clerk_put_at_most_once_witness:
  "performed (put_events (Clerk_Put retry_schedule False put_k MakeKVServer)) \<le> 1 \<and>
   put_ret (Clerk_Put retry_schedule False put_k MakeKVServer) = Some ErrMaybe"
  using clerk_put_at_most_once [OF retry_schedule_facts(1,2)] retry_schedule_facts(2) by simp






definition sample_ops :: "kv_op list" where
  "sample_ops =
     [PutOp put_k, GetOp ''j'', PutOp \<lparr>pa_Key = ''j'', pa_Value = ''x'', pa_Version = 0\<rparr>,
      PutOp \<lparr>pa_Key = ''k'', pa_Value = ''y'', pa_Version = 0\<rparr>, GetOp ''k'']"


text \<open>
  The one place where server and checker disagree: a put that names a version for a key that
  does not exist is answered \<open>ErrNoKey\<close> by the server, and the model rejects that answer in
  every state the key can be in at that moment.
\<close>

theorem put_nokey_not_in_model:
  assumes "lookup s (pa_Key a) = None" and "pa_Version a \<noteq> 0"
  shows "Put s a = (s, \<lparr>pr_Err = ErrNoKey\<rparr>) \<and>
    fst (Step (abs_key s (pa_Key a)) (op_Input (log_Put a ErrNoKey)) (op_Output (log_Put a ErrNoKey))) = False"
proof -
  have "Put s a = (s, \<lparr>pr_Err = ErrNoKey\<rparr>)" using assms by (auto simp: Put_def lookup_def)
  then show ?thesis using nokey_rejected [of s a] by simp
qed

theorem put_nokey_not_in_model_witness:
  "Put MakeKVServer \<lparr>pa_Key = ''k'', pa_Value = ''v'', pa_Version = 3\<rparr> =
     (MakeKVServer, \<lparr>pr_Err = ErrNoKey\<rparr>)"
proof -
  have h: "lookup MakeKVServer (pa_Key \<lparr>pa_Key = ''k'', pa_Value = ''v'', pa_Version = 3\<rparr>) = None"
    by (simp add: lookup_def MakeKVServer_def)
  from put_nokey_not_in_model [OF h] show ?thesis by simp
qed

end
