(* ===== verification/Kv_Lock.thy ===== *)
theory Kv_Lock
  imports Kv_Clerk
begin

text \<open>
  The lock service \<open>kvsrv1/lock/lock.go\<close> on top of the versioned store. A client is its
  \<open>Lock\<close> object and the place it has reached in \<open>Acquire\<close> or \<open>Release\<close>; every RPC it makes
  is one step of a system of arbitrarily many clients and one server. A \<open>Get\<close> is one atomic
  read (lost attempts of \<open>Clerk.Get\<close> change nothing); a \<open>Put\<close> is a sequence of attempts with
  the retry flag of \<open>Clerk.Put\<close>, each lost on the way, executed with the reply lost, or
  answered.

  The invariant ties the value and version stored under the lock's key to the place of every
  client; mutual exclusion, and that a holder's \<open>Release\<close> succeeds, follow from it.
\<close>

record Lock =
  version :: Tversion
  l :: string
  name :: string

definition MakeLock :: "string \<Rightarrow> Lock" where
  "MakeLock nm = \<lparr>version = 0, l = ''key'', name = nm\<rparr>"

text \<open>
  Places: before \<open>Acquire\<close>; at its first \<open>Get\<close>; inside \<open>Put(l, name, newVersion)\<close> (with the
  clerk's retry flag); at the check \<open>Get\<close> after \<open>ErrMaybe\<close>; the same two places of the branch for
  a key that does not exist yet; after \<open>Acquire\<close> returned; inside \<open>Release\<close>'s \<open>Put\<close>.
\<close>

datatype pc = Idle | AcqGet | AcqPut Tversion bool | AcqChk Tversion | FstPut bool | FstChk
  | Held | RelPut bool

record client =
  lk :: Lock
  at :: pc

text \<open>\<open>Acquire\<close>, line by line: what the client does with the answer to each of its RPCs.\<close>

definition acq_got :: "client \<Rightarrow> GetReply \<Rightarrow> client" where
  "acq_got c r =
     (if gr_Err r = OK then
        if gr_Value r \<noteq> '''' then c\<lparr>at := AcqGet\<rparr> else c\<lparr>at := AcqPut (gr_Version r) False\<rparr>
      else c\<lparr>at := FstPut False\<rparr>)"

definition acq_put_done :: "client \<Rightarrow> Tversion \<Rightarrow> err \<Rightarrow> client" where
  "acq_put_done c newVersion e =
     (if e = OK then c\<lparr>lk := (lk c)\<lparr>version := newVersion\<rparr>, at := Held\<rparr>
      else if e = ErrMaybe then c\<lparr>at := AcqChk newVersion\<rparr>
      else c\<lparr>at := AcqGet\<rparr>)"

definition acq_checked :: "client \<Rightarrow> Tversion \<Rightarrow> GetReply \<Rightarrow> client" where
  "acq_checked c newVersion r =
     (if gr_Err r = OK \<and> gr_Value r = name (lk c)
      then c\<lparr>lk := (lk c)\<lparr>version := newVersion\<rparr>, at := Held\<rparr>
      else c\<lparr>at := AcqGet\<rparr>)"

definition fst_put_done :: "client \<Rightarrow> err \<Rightarrow> client" where
  "fst_put_done c e =
     (if e = OK then c\<lparr>at := Held\<rparr>
      else if e = ErrMaybe then c\<lparr>at := FstChk\<rparr>
      else c\<lparr>at := AcqGet\<rparr>)"

definition fst_checked :: "client \<Rightarrow> GetReply \<Rightarrow> client" where
  "fst_checked c r =
     (if gr_Err r = OK \<and> gr_Value r = name (lk c) then c\<lparr>at := Held\<rparr> else c\<lparr>at := AcqGet\<rparr>)"

definition rel_put_done :: "client \<Rightarrow> err \<Rightarrow> client" where
  "rel_put_done c e = c\<lparr>at := Idle\<rparr>"

text \<open>The request a client is sending, with the clerk's retry flag; and its next place.\<close>

fun pending :: "client \<Rightarrow> (PutArgs \<times> bool) option" where
  "pending c = (case at c of
     AcqPut v r \<Rightarrow> Some (\<lparr>pa_Key = l (lk c), pa_Value = name (lk c), pa_Version = v\<rparr>, r)
   | FstPut r \<Rightarrow> Some (\<lparr>pa_Key = l (lk c), pa_Value = name (lk c), pa_Version = 0\<rparr>, r)
   | RelPut r \<Rightarrow> Some (\<lparr>pa_Key = l (lk c), pa_Value = '''', pa_Version = version (lk c) + 1\<rparr>, r)
   | _ \<Rightarrow> None)"

fun retrying :: "client \<Rightarrow> client" where
  "retrying c = (case at c of
     AcqPut v r \<Rightarrow> c\<lparr>at := AcqPut v True\<rparr>
   | FstPut r \<Rightarrow> c\<lparr>at := FstPut True\<rparr>
   | RelPut r \<Rightarrow> c\<lparr>at := RelPut True\<rparr>
   | _ \<Rightarrow> c)"

fun put_done :: "client \<Rightarrow> err \<Rightarrow> client" where
  "put_done c e = (case at c of
     AcqPut v r \<Rightarrow> acq_put_done c v e
   | FstPut r \<Rightarrow> fst_put_done c e
   | RelPut r \<Rightarrow> rel_put_done c e
   | _ \<Rightarrow> c)"

fun get_done :: "client \<Rightarrow> GetReply \<Rightarrow> client" where
  "get_done c r = (case at c of
     AcqGet \<Rightarrow> acq_got c r
   | AcqChk v \<Rightarrow> acq_checked c v r
   | FstChk \<Rightarrow> fst_checked c r
   | _ \<Rightarrow> c)"

record sys =
  srv :: KVServer
  cl :: "nat \<Rightarrow> client"

definition init_sys :: "(nat \<Rightarrow> string) \<Rightarrow> sys" where
  "init_sys names = \<lparr>srv = MakeKVServer, cl = (\<lambda>i. \<lparr>lk = MakeLock (names i), at = Idle\<rparr>)\<rparr>"

definition set_client :: "sys \<Rightarrow> nat \<Rightarrow> client \<Rightarrow> sys" where
  "set_client s i c = s\<lparr>cl := (cl s)(i := c)\<rparr>"

inductive lock_step :: "sys \<Rightarrow> sys \<Rightarrow> bool" where
  acquire: "at (cl s i) = Idle \<Longrightarrow> lock_step s (set_client s i ((cl s i)\<lparr>at := AcqGet\<rparr>))"
| release: "at (cl s i) = Held \<Longrightarrow> lock_step s (set_client s i ((cl s i)\<lparr>at := RelPut False\<rparr>))"
| get: "lock_step s (set_client s i (get_done (cl s i) (Get (srv s) \<lparr>ga_Key = l (lk (cl s i))\<rparr>)))"
| req_lost: "lock_step s (set_client s i (retrying (cl s i)))"
| reply_lost: "pending (cl s i) = Some (a, r) \<Longrightarrow>
    lock_step s ((set_client s i (retrying (cl s i)))\<lparr>srv := Put_state (srv s) a\<rparr>)"
| answered: "pending (cl s i) = Some (a, r) \<Longrightarrow>
    lock_step s ((set_client s i (put_done (cl s i) (put_result r (Put_err (srv s) a))))
      \<lparr>srv := Put_state (srv s) a\<rparr>)"

subsection \<open>The lock word\<close>

text \<open>What is stored under the lock's key: the value (empty while absent) and its version.\<close>

definition lock_val :: "KVServer \<Rightarrow> string" where
  "lock_val s = (case lookup s ''key'' of None \<Rightarrow> '''' | Some (v, n) \<Rightarrow> v)"

abbreviation lock_ver :: "KVServer \<Rightarrow> nat" where
  "lock_ver s \<equiv> version_of s ''key''"

text \<open>
  \<open>place_ok nm v n z p\<close>: a client named \<open>nm\<close> whose lock object has version \<open>z\<close> may be at
  place \<open>p\<close> while the lock word is \<open>v\<close> with version \<open>n\<close>.
\<close>

definition may_write :: "string \<Rightarrow> string \<Rightarrow> nat \<Rightarrow> nat \<Rightarrow> bool" where
  "may_write nm v n w \<longleftrightarrow> v \<noteq> nm \<and> (w < n \<or> w = n \<and> v = '''')"

fun place_ok :: "string \<Rightarrow> string \<Rightarrow> nat \<Rightarrow> nat \<Rightarrow> pc \<Rightarrow> bool" where
  "place_ok nm v n z Idle = (v \<noteq> nm)"
| "place_ok nm v n z AcqGet = (v \<noteq> nm)"
| "place_ok nm v n z (AcqPut w r) =
     (0 < n \<and> (may_write nm v n (unat w) \<or> r \<and> v = nm \<and> n = unat w + 1))"
| "place_ok nm v n z (AcqChk w) = (0 < n \<and> (v = nm \<longrightarrow> n = unat w + 1))"
| "place_ok nm v n z (FstPut r) =
     (z = 0 \<and> (may_write nm v n 0 \<or> r \<and> v = nm \<and> n = 1))"
| "place_ok nm v n z FstChk = (z = 0 \<and> (v = nm \<longrightarrow> n = 1))"
| "place_ok nm v n z Held = (v = nm \<and> n = z + 1)"
| "place_ok nm v n z (RelPut r) = (v = nm \<and> n = z + 1 \<or> r \<and> v \<noteq> nm \<and> z + 1 < n)"

definition client_ok :: "string \<Rightarrow> KVServer \<Rightarrow> client \<Rightarrow> bool" where
  "client_ok nm s c \<longleftrightarrow>
     name (lk c) = nm \<and> l (lk c) = ''key'' \<and> (0 < unat (version (lk c)) \<longrightarrow> 0 < lock_ver s) \<and>
     place_ok nm (lock_val s) (lock_ver s) (unat (version (lk c))) (at c)"

definition lock_inv :: "(nat \<Rightarrow> string) \<Rightarrow> nat \<Rightarrow> sys \<Rightarrow> bool" where
  "lock_inv names n s \<longleftrightarrow>
     lock_ver (srv s) \<le> n \<and> (lock_ver (srv s) = 0 \<longleftrightarrow> lookup (srv s) ''key'' = None) \<and>
     (\<forall>i. client_ok (names i) (srv s) (cl s i))"

lemma lock_inv_init:
  assumes "\<And>i. names i \<noteq> ''''"
  shows "lock_inv names 0 (init_sys names)"
  using assms
  by (simp add: lock_inv_def init_sys_def MakeLock_def client_ok_def MakeKVServer_def
      lock_val_def version_of_def lookup_def neq_commute)

subsection \<open>One request on the lock word\<close>

text \<open>
  Under the key, below the last version, a \<open>Put\<close> succeeds exactly when it names the current
  version; it then installs its value and advances the version by one.
\<close>

definition word_ok :: "KVServer \<Rightarrow> bool" where
  "word_ok s \<longleftrightarrow> lock_ver s < 2 ^ 64 - 1 \<and> (lock_ver s = 0 \<longleftrightarrow> lookup s ''key'' = None)"

lemma Put_err_word:
  assumes "word_ok s" and "pa_Key a = ''key''"
  shows "Put_err s a =
    (if unat (pa_Version a) = lock_ver s then OK else if lock_ver s = 0 then ErrNoKey else ErrVersion)"
  using assms
  by (auto simp: Put_err_lookup word_ok_def version_of_def unat_eq_0 split: option.splits
      dest: word_unat_eq_iff [THEN iffD2])

lemma Put_word:
  assumes "word_ok s" and "pa_Key a = ''key''" and "unat (pa_Version a) = lock_ver s"
  shows "lock_val (Put_state s a) = pa_Value a" "lock_ver (Put_state s a) = lock_ver s + 1"
    "lookup (Put_state s a) ''key'' \<noteq> None"
proof -
  have ok: "Put_err s a = OK" using assms by (simp add: Put_err_word)
  show "lock_val (Put_state s a) = pa_Value a" "lookup (Put_state s a) ''key'' \<noteq> None"
    using ok assms(2) by (simp_all add: lock_val_def lookup_Put)
  show "lock_ver (Put_state s a) = lock_ver s + 1"
    using version_Put_OK [OF ok] assms by (simp add: word_ok_def)
qed

lemma Put_word_miss:
  assumes "word_ok s" and "pa_Key a = ''key''" and "unat (pa_Version a) \<noteq> lock_ver s"
  shows "Put_state s a = s"
  using assms by (intro Put_unchanged) (simp add: Put_err_word)

lemma pending_key: "client_ok nm s c \<Longrightarrow> pending c = Some (a, r) \<Longrightarrow> pa_Key a = ''key''"
  by (auto simp: client_ok_def split: pc.splits)

text \<open>A request that names the current version meets a free word, or its own on release.\<close>

lemma pending_hit:
  assumes "client_ok nm s c" and "word_ok s" and "pending c = Some (a, r)"
    and "unat (pa_Version a) = lock_ver s" and "nm \<noteq> ''''"
  shows "(at c \<noteq> RelPut r \<longrightarrow> lock_val s = '''' \<and> pa_Value a = nm) \<and>
    (at c = RelPut r \<longrightarrow> lock_val s = nm \<and> pa_Value a = '''')"
proof -
  have "unat (version (lk c) + 1) = unat (version (lk c)) + 1"
    if "unat (version (lk c)) + 1 \<le> lock_ver s"
    using that assms(2) by (intro unat_Suc_u64) (simp add: word_ok_def)
  with assms show ?thesis
    by (auto simp: client_ok_def may_write_def split: pc.splits)
qed

lemma other_client_ok:
  assumes c: "client_ok nm s c" and c': "client_ok nm' s c'" and w: "word_ok s"
    and p: "pending c = Some (a, r)" and nm: "nm \<noteq> nm'" "nm \<noteq> ''''" "nm' \<noteq> ''''"
  shows "client_ok nm' (Put_state s a) c'"
proof (cases "unat (pa_Version a) = lock_ver s")
  case True
  have k: "pa_Key a = ''key''" using c p by (rule pending_key)
  note e = Put_word [OF w k True]
  have v: "lock_val s \<noteq> nm'" "pa_Value a \<noteq> nm'"
    using pending_hit [OF c w p True nm(2)] nm by (cases "at c = RelPut r"; auto)+
  then show ?thesis
    using c' e by (cases "at c'") (auto simp: client_ok_def may_write_def)
next
  case False
  with c' p c w show ?thesis by (simp add: Put_word_miss pending_key)
qed

lemma own_reply_lost:
  assumes c: "client_ok nm s c" and w: "word_ok s" and p: "pending c = Some (a, r)" and nm: "nm \<noteq> ''''"
  shows "client_ok nm (Put_state s a) (retrying c)"
proof (cases "unat (pa_Version a) = lock_ver s")
  case True
  have k: "pa_Key a = ''key''" using c p by (rule pending_key)
  note e = Put_word [OF w k True]
  from c p e True pending_hit [OF c w p True nm] nm show ?thesis
    by (cases "at c") (auto simp: client_ok_def may_write_def)
next
  case False
  then have "Put_state s a = s" using w c p by (intro Put_word_miss) (auto intro: pending_key)
  with c p show ?thesis by (cases "at c") (auto simp: client_ok_def)
qed

lemma own_answered:
  assumes c: "client_ok nm s c" and w: "word_ok s" and p: "pending c = Some (a, r)" and nm: "nm \<noteq> ''''"
  shows "client_ok nm (Put_state s a) (put_done c (put_result r (Put_err s a)))"
proof (cases "unat (pa_Version a) = lock_ver s")
  case True
  have k: "pa_Key a = ''key''" using c p by (rule pending_key)
  note e = Put_word [OF w k True]
  have ok: "Put_err s a = OK" using w k True by (simp add: Put_err_word)
  from c p e ok True pending_hit [OF c w p True nm] nm show ?thesis
    by (cases "at c")
      (auto simp: client_ok_def may_write_def acq_put_done_def fst_put_done_def rel_put_done_def)
next
  case False
  have k: "pa_Key a = ''key''" using c p by (rule pending_key)
  then have "Put_state s a = s" using w False by (intro Put_word_miss) auto
  moreover have "Put_err s a = (if lock_ver s = 0 then ErrNoKey else ErrVersion)"
    using w k False by (simp add: Put_err_word)
  moreover have "at c = RelPut r \<Longrightarrow> lock_val s \<noteq> nm"
    using c p False w unat_Suc_u64 [of "version (lk c)"]
    by (auto simp: client_ok_def word_ok_def)
  ultimately show ?thesis
    using c p False nm
    by (cases "at c")
      (auto simp: client_ok_def may_write_def acq_put_done_def fst_put_done_def rel_put_done_def
        put_result_def)
qed

lemma own_get:
  assumes c: "client_ok nm s c" and w: "word_ok s" and nm: "nm \<noteq> ''''"
  shows "client_ok nm s (get_done c (Get s \<lparr>ga_Key = l (lk c)\<rparr>))"
proof -
  have g: "Get s \<lparr>ga_Key = l (lk c)\<rparr> =
      (if lock_ver s = 0 then \<lparr>gr_Value = '''', gr_Version = 0, gr_Err = ErrNoKey\<rparr>
       else \<lparr>gr_Value = lock_val s, gr_Version = word_of_nat (lock_ver s), gr_Err = OK\<rparr>)"
    using c w by (auto simp: client_ok_def Get_lookup lock_val_def version_of_def word_ok_def split: option.splits)
  have u: "unat (word_of_nat (lock_ver s) :: u64) = lock_ver s"
    using w by (simp add: word_ok_def unat_of_nat)
  have z: "lock_ver s = 0 \<Longrightarrow> lock_val s = ''''"
    using w by (auto simp: word_ok_def lock_val_def)
  show ?thesis
    using c nm u z unfolding g
    by (cases "at c")
      (auto simp: client_ok_def may_write_def acq_got_def acq_checked_def fst_checked_def)
qed

subsection \<open>The invariant\<close>

lemma pending_cases:
  assumes "pending c = Some (a, r)"
  shows "at (retrying c) \<noteq> Idle" "lk (retrying c) = lk c"
  using assms by (auto split: pc.splits)

lemma own_req_lost: "client_ok nm s c \<Longrightarrow> client_ok nm s (retrying c)"
  by (cases "at c") (auto simp: client_ok_def)

lemma own_acquire: "client_ok nm s c \<Longrightarrow> at c = Idle \<Longrightarrow> client_ok nm s (c\<lparr>at := AcqGet\<rparr>)"
  and own_release: "client_ok nm s c \<Longrightarrow> at c = Held \<Longrightarrow> client_ok nm s (c\<lparr>at := RelPut False\<rparr>)"
  by (auto simp: client_ok_def)

lemma lock_inv_word: "lock_inv names n s \<Longrightarrow> n < 2 ^ 64 - 1 \<Longrightarrow> word_ok (srv s)"
  by (auto simp: lock_inv_def word_ok_def)

text \<open>A step that only moves client \<open>i\<close>.\<close>

lemma lock_inv_local:
  "lock_inv names n s \<Longrightarrow> client_ok (names i) (srv s) c \<Longrightarrow> lock_inv names (Suc n) (set_client s i c)"
  by (auto simp: lock_inv_def set_client_def)

text \<open>A step in which the server executes the request of client \<open>i\<close>.\<close>

lemma lock_inv_put:
  assumes inv: "lock_inv names n s" and n: "n < 2 ^ 64 - 1"
    and names: "inj names" "\<And>i. names i \<noteq> ''''"
    and p: "pending (cl s i) = Some (a, r)"
    and c: "client_ok (names i) (Put_state (srv s) a) c"
  shows "lock_inv names (Suc n) ((set_client s i c)\<lparr>srv := Put_state (srv s) a\<rparr>)"
proof -
  have w: "word_ok (srv s)" using inv n by (rule lock_inv_word)
  have ci: "client_ok (names j) (srv s) (cl s j)" for j using inv by (simp add: lock_inv_def)
  have others: "client_ok (names j) (Put_state (srv s) a) (cl s j)" if "j \<noteq> i" for j
    using ci ci w p names that by (intro other_client_ok [of "names i"]) (auto dest: injD)
  have k: "pa_Key a = ''key''" using ci p by (rule pending_key)
  have "lock_ver (Put_state (srv s) a) \<le> Suc n \<and>
    (lock_ver (Put_state (srv s) a) = 0 \<longleftrightarrow> lookup (Put_state (srv s) a) ''key'' = None)"
  proof (cases "unat (pa_Version a) = lock_ver (srv s)")
    case True
    with inv Put_word [OF w k True] show ?thesis by (simp add: lock_inv_def)
  next
    case False
    with inv w k show ?thesis by (simp add: Put_word_miss lock_inv_def)
  qed
  with others c show ?thesis by (auto simp: lock_inv_def set_client_def)
qed

lemma lock_step_inv:
  assumes "lock_step s t" and inv: "lock_inv names n s" and n: "n < 2 ^ 64 - 1"
    and names: "inj names" "\<And>i. names i \<noteq> ''''"
  shows "lock_inv names (Suc n) t"
proof -
  have c: "client_ok (names i) (srv s) (cl s i)" for i using inv by (simp add: lock_inv_def)
  have w: "word_ok (srv s)" using inv n by (rule lock_inv_word)
  from assms(1) show ?thesis
  proof cases
    case (acquire i)
    from lock_inv_local [OF inv own_acquire [OF c acquire(2)]] acquire(1) show ?thesis by simp
  next
    case (release i)
    from lock_inv_local [OF inv own_release [OF c release(2)]] release(1) show ?thesis by simp
  next
    case (get i)
    from lock_inv_local [OF inv own_get [OF c w names(2)]] get show ?thesis by simp
  next
    case (req_lost i)
    from lock_inv_local [OF inv own_req_lost [OF c]] req_lost show ?thesis by simp
  next
    case (reply_lost i a r)
    from lock_inv_put [OF inv n names reply_lost(2) own_reply_lost [OF c w reply_lost(2) names(2)]]
      reply_lost(1) show ?thesis by simp
  next
    case (answered i a r)
    from lock_inv_put [OF inv n names answered(2) own_answered [OF c w answered(2) names(2)]]
      answered(1) show ?thesis by simp
  qed
qed

lemma lock_inv_reachable:
  assumes "reach_in lock_step (init_sys names) n s" and "n < 2 ^ 64 - 1"
    and "inj names" and "\<And>i. names i \<noteq> ''''"
  shows "lock_inv names n s"
  using assms(1)
  by (rule reach_in_invariant)
    (use assms(2-4) in \<open>auto intro!: lock_inv_init intro: lock_step_inv\<close>)

lemma held_word:
  assumes "lock_inv names n s" and "at (cl s i) = Held"
  shows "lock_val (srv s) = names i" "lock_ver (srv s) = unat (version (lk (cl s i))) + 1"
proof -
  have "client_ok (names i) (srv s) (cl s i)" using assms(1) by (simp add: lock_inv_def)
  with assms(2) show "lock_val (srv s) = names i"
    "lock_ver (srv s) = unat (version (lk (cl s i))) + 1"
    by (simp_all add: client_ok_def)
qed

lemma held_unique:
  assumes "lock_inv names n s" and "inj names" and "at (cl s i) = Held" and "at (cl s j) = Held"
  shows "i = j"
  using held_word(1) [OF assms(1,3)] held_word(1) [OF assms(1,4)] assms(2) by (auto dest: injD)

text \<open>A holder's \<open>Release\<close>: its first \<open>Put\<close>, once executed, frees the lock word.\<close>

lemma held_release:
  assumes inv: "lock_inv names n s" and n: "n < 2 ^ 64 - 1" and held: "at (cl s i) = Held"
    and p: "pending ((cl s i)\<lparr>at := RelPut False\<rparr>) = Some (a, r)"
  shows "Put_err (srv s) a = OK \<and> lock_val (Put_state (srv s) a) = ''''"
proof -
  have w: "word_ok (srv s)" using inv n by (rule lock_inv_word)
  have c: "client_ok (names i) (srv s) (cl s i)" using inv by (simp add: lock_inv_def)
  have a: "a = \<lparr>pa_Key = ''key'', pa_Value = '''', pa_Version = version (lk (cl s i)) + 1\<rparr>"
    using c p by (simp add: client_ok_def)
  have "unat (version (lk (cl s i)) + 1) = lock_ver (srv s)"
    using held_word(2) [OF inv held] w unat_Suc_u64 [of "version (lk (cl s i))"]
    by (simp add: word_ok_def)
  then show ?thesis using w a Put_word [of "srv s" a] by (simp add: Put_err_word)
qed

subsection \<open>Schedules\<close>

text \<open>An executable scheduler: which client moves and what the network does with its RPC.\<close>

datatype lock_act = DoAcquire | DoRelease | DoGet | LoseReq | LoseReply | Answer

fun lock_exec :: "sys \<Rightarrow> nat \<times> lock_act \<Rightarrow> sys option" where
  "lock_exec s (i, DoAcquire) =
     (if at (cl s i) = Idle then Some (set_client s i ((cl s i)\<lparr>at := AcqGet\<rparr>)) else None)"
| "lock_exec s (i, DoRelease) =
     (if at (cl s i) = Held then Some (set_client s i ((cl s i)\<lparr>at := RelPut False\<rparr>)) else None)"
| "lock_exec s (i, DoGet) =
     Some (set_client s i (get_done (cl s i) (Get (srv s) \<lparr>ga_Key = l (lk (cl s i))\<rparr>)))"
| "lock_exec s (i, LoseReq) = Some (set_client s i (retrying (cl s i)))"
| "lock_exec s (i, LoseReply) =
     (case pending (cl s i) of None \<Rightarrow> None
      | Some (a, r) \<Rightarrow> Some ((set_client s i (retrying (cl s i)))\<lparr>srv := Put_state (srv s) a\<rparr>))"
| "lock_exec s (i, Answer) =
     (case pending (cl s i) of None \<Rightarrow> None
      | Some (a, r) \<Rightarrow> Some ((set_client s i (put_done (cl s i) (put_result r (Put_err (srv s) a))))
          \<lparr>srv := Put_state (srv s) a\<rparr>))"

fun lock_run :: "sys \<Rightarrow> (nat \<times> lock_act) list \<Rightarrow> sys option" where
  "lock_run s [] = Some s"
| "lock_run s (x # xs) = Option.bind (lock_exec s x) (\<lambda>t. lock_run t xs)"

lemma lock_exec_step: "lock_exec s x = Some t \<Longrightarrow> lock_step s t"
  by (cases "(s, x)" rule: lock_exec.cases)
    (auto simp del: pending.simps retrying.simps put_done.simps get_done.simps
      intro: lock_step.intros split: if_splits option.splits)

lemma lock_run_reach:
  assumes "lock_run s xs = Some t"
  shows "reach_in lock_step s (length xs) t"
proof -
  have "reach_in lock_step s0 k s \<Longrightarrow> lock_run s xs = Some t \<Longrightarrow> reach_in lock_step s0 (k + length xs) t" for s0 k s xs
  proof (induction xs arbitrary: s k)
    case (Cons x xs)
    then obtain u where u: "lock_exec s x = Some u" "lock_run u xs = Some t"
      by (auto simp: bind_eq_Some_conv)
    have "reach_in lock_step s0 (Suc k) u"
      using Cons.prems(1) lock_exec_step [OF u(1)] by (rule reach_in.reach_step)
    from Cons.IH [OF this u(2)] show ?case by simp
  qed simp
  from this [OF reach_in.reach_refl assms] show ?thesis by simp
qed

text \<open>Names used by the example runs: pairwise distinct and not empty.\<close>

definition tally :: "nat \<Rightarrow> string" where
  "tally i = replicate (Suc i) CHR ''a''"

lemma tally_names [simp]: "inj tally" "tally i \<noteq> ''''"
  by (auto simp: inj_def tally_def)

lemmas lock_eval = init_sys_def set_client_def MakeLock_def MakeKVServer_def Get_def Put_def
  acq_got_def acq_put_done_def acq_checked_def fst_put_done_def fst_checked_def rel_put_done_def
  put_result_def tally_def

definition taken_once :: sys where
  "taken_once = the (lock_run (init_sys tally)
     [(0, DoAcquire), (1, DoAcquire), (0, DoGet), (1, DoGet), (0, LoseReply), (1, LoseReq),
      (1, Answer), (1, DoGet), (0, Answer), (0, DoGet)])"

lemma taken_once_run:
  "lock_run (init_sys tally)
     [(0, DoAcquire), (1, DoAcquire), (0, DoGet), (1, DoGet), (0, LoseReply), (1, LoseReq),
      (1, Answer), (1, DoGet), (0, Answer), (0, DoGet)] = Some taken_once"
  "at (cl taken_once 0) = Held" "at (cl taken_once 1) = AcqGet"
  by (simp_all add: taken_once_def lock_eval)

lemma taken_once_reach: "reach_in lock_step (init_sys tally) 10 taken_once"
  using lock_run_reach [OF taken_once_run(1)] by (simp add: eval_nat_numeral)

subsection \<open>Properties\<close>

text \<open>
  Property C1. Mutual exclusion: with distinct, non-empty lock identities, whatever the network
  loses and however the clients interleave, a client that has returned from \<open>Acquire\<close> is the only
  one, the lock word carries its name, and the version its lock object remembers is one behind
  the server's (so that \<open>Release\<close> names the right version). The bound excludes a wrapped counter.
\<close>

theorem lock_mutual_exclusion:
  assumes "reach_in lock_step (init_sys names) n s" and "n < 2 ^ 64 - 1"
    and "inj names" and "\<forall>i. names i \<noteq> ''''"
    and "at (cl s i) = Held"
  shows "(\<forall>j. at (cl s j) = Held \<longrightarrow> j = i) \<and> lock_val (srv s) = names i \<and>
    version_of (srv s) ''key'' = unat (version (lk (cl s i))) + 1"
proof -
  have inv: "lock_inv names n s" using assms by (intro lock_inv_reachable) auto
  with held_word [OF inv assms(5)] show ?thesis using held_unique [OF inv assms(3) _ assms(5)] by blast
qed

theorem lock_mutual_exclusion_witness:
  "at (cl taken_once 0) = Held \<and> at (cl taken_once 1) \<noteq> Held \<and>
   lock_val (srv taken_once) = tally 0"
  using lock_mutual_exclusion [OF taken_once_reach _ tally_names(1) _ taken_once_run(2)]
    taken_once_run(2) by auto

text \<open>
  A holder can always give the lock back: the request \<open>Release\<close> sends is accepted by
  the server on its first execution and leaves the lock word free.
\<close>

theorem lock_release_frees:
  assumes "reach_in lock_step (init_sys names) n s" and "n < 2 ^ 64 - 1"
    and "inj names" and "\<forall>i. names i \<noteq> ''''"
    and "at (cl s i) = Held"
  shows "\<exists>a. pending ((cl s i)\<lparr>at := RelPut False\<rparr>) = Some (a, False) \<and>
    Put_err (srv s) a = OK \<and> lock_val (Put_state (srv s) a) = ''''"
proof -
  have inv: "lock_inv names n s" using assms by (intro lock_inv_reachable) auto
  let ?c = "(cl s i)\<lparr>at := RelPut False\<rparr>"
  obtain a where p: "pending ?c = Some (a, False)" by simp
  from held_release [OF inv assms(2,5) p] p show ?thesis by blast
qed

theorem lock_release_frees_witness:
  "\<exists>a. pending ((cl taken_once 0)\<lparr>at := RelPut False\<rparr>) = Some (a, False) \<and>
    Put_err (srv taken_once) a = OK \<and> lock_val (Put_state (srv taken_once) a) = ''''"
  using lock_release_frees [OF taken_once_reach _ tally_names(1) _ taken_once_run(2)] by simp

text \<open>
  Property C28. The lock identity is the argument of \<open>MakeLock\<close>, not its key: two clients that
  call \<open>MakeLock\<close> with the same argument can both return from \<open>Acquire\<close>, because the check after
  \<open>ErrMaybe\<close> takes the other client's entry for its own.
\<close>

theorem lock_same_name_both_hold:
  "\<exists>s. reach_in lock_step (init_sys (\<lambda>_. ''L'')) 8 s \<and> at (cl s 0) = Held \<and> at (cl s 1) = Held"
proof -
  let ?run = "[(0, DoAcquire), (1, DoAcquire), (0, DoGet), (1, DoGet), (0, Answer),
    (1, LoseReq), (1, Answer), (1, DoGet)]"
  obtain s where s: "lock_run (init_sys (\<lambda>_. ''L'')) ?run = Some s"
    and h: "at (cl s 0) = Held \<and> at (cl s 1) = Held"
    by (simp add: lock_eval)
  from lock_run_reach [OF s] have "reach_in lock_step (init_sys (\<lambda>_. ''L'')) 8 s"
    by (simp add: eval_nat_numeral)
  with h show ?thesis by blast
qed

end
