(* ===== verification/Shard_Config.thy ===== *)
theory Shard_Config
  imports Go_Prelude "HOL-Library.While_Combinator" "HOL-Library.AList"
begin

text \<open>
  Shard configurations, \<open>shardkv1/shardcfg/shardcfg.go\<close>: the assignment of \<open>NShards\<close> shards to
  groups and its maintenance by \<open>Join\<close>, \<open>Leave\<close> and \<open>Rebalance\<close>. A Go map from group ids to
  server lists is an association list with distinct keys; its order stands for the order in
  which Go happens to iterate, so a statement about every such list covers every order.

  \<open>Rebalance\<close> ends with a loop without a bound; \<open>while_option\<close> keeps it as it is, and the loop is
  shown to return. The locale \<open>load_extremes\<close> is what the balancing loop needs from \<open>analyze\<close>: a
  most and a least loaded group.
\<close>

subsection \<open>Data\<close>

type_synonym Tgid = int

definition NShards :: nat where
  "NShards = 12"

definition Key2Shard :: "string \<Rightarrow> nat" where
  "Key2Shard key = unat (fnv32a key) mod NShards"

record ShardConfig =
  Num :: int
  Shards :: "Tgid list"
  Groups :: "(Tgid \<times> string list) list"

definition MakeShardConfig :: ShardConfig where
  "MakeShardConfig = \<lparr>Num = 0, Shards = replicate NShards 0, Groups = []\<rparr>"

abbreviation gids :: "ShardConfig \<Rightarrow> Tgid set" where
  "gids c \<equiv> fst ` set (Groups c)"

text \<open>The type invariant of the Go struct: a 12-element array and a map.\<close>

definition cfg_ok :: "ShardConfig \<Rightarrow> bool" where
  "cfg_ok c \<longleftrightarrow> length (Shards c) = NShards \<and> distinct (map fst (Groups c))"

fun Copy_groups :: "(Tgid \<times> string list) list \<Rightarrow> (Tgid \<times> string list) list \<Rightarrow> (Tgid \<times> string list) list" where
  "Copy_groups [] acc = acc"
| "Copy_groups ((k, srvs) # gs) acc = Copy_groups gs (AList.update k srvs acc)"

definition Copy :: "ShardConfig \<Rightarrow> ShardConfig" where
  "Copy cfg = (let c = MakeShardConfig in
     c\<lparr>Num := Num cfg, Shards := Shards cfg, Groups := Copy_groups (Groups cfg) (Groups c)\<rparr>)"

subsection \<open>Load analysis\<close>

definition counts :: "Tgid list \<Rightarrow> Tgid \<Rightarrow> int" where
  "counts shards = foldl (\<lambda>m g. m(g := m g + 1)) (\<lambda>_. 0) shards"

fun analyze_step :: "(Tgid \<Rightarrow> int) \<Rightarrow> Tgid \<times> int \<times> Tgid \<times> int \<Rightarrow> Tgid \<Rightarrow> Tgid \<times> int \<times> Tgid \<times> int" where
  "analyze_step cnt (mg, mn, lg, ln) g =
     (let (lg, ln) = (if cnt g < ln then (g, cnt g) else (lg, ln));
          (mg, mn) = (if cnt g > mn then (g, cnt g) else (mg, mn))
      in (mg, mn, lg, ln))"

definition analyze :: "ShardConfig \<Rightarrow> Tgid \<times> int \<times> Tgid \<times> int" where
  "analyze c = foldl (analyze_step (counts (Shards c))) (-1, -1, -1, 257) (sort (map fst (Groups c)))"

definition least :: "ShardConfig \<Rightarrow> Tgid" where
  "least c = (case analyze c of (mg, mn, lg, ln) \<Rightarrow> lg)"

subsection \<open>Rebalance\<close>

text \<open>
  \<open>for s, g := range c.Shards\<close> iterates over a copy of the array taken at the start: the pairs
  \<open>(s, g)\<close> are fixed before the first iteration.
\<close>

fun assign_orphans :: "(nat \<times> Tgid) list \<Rightarrow> ShardConfig \<Rightarrow> ShardConfig" where
  "assign_orphans [] c = c"
| "assign_orphans ((s, g) # sg) c =
     assign_orphans sg
       (if g \<in> gids c then c else c\<lparr>Shards := (Shards c)[s := least c]\<rparr>)"

definition unbalanced :: "ShardConfig \<Rightarrow> bool" where
  "unbalanced c = (case analyze c of (mg, mn, lg, ln) \<Rightarrow> \<not> mn < ln + 2)"

definition move_one :: "ShardConfig \<Rightarrow> ShardConfig" where
  "move_one c = (case analyze c of (mg, mn, lg, ln) \<Rightarrow>
     (case find_index (\<lambda>g. g = mg) (Shards c) of
        None \<Rightarrow> c
      | Some s \<Rightarrow> c\<lparr>Shards := (Shards c)[s := lg]\<rparr>))"

text \<open>The value is \<open>None\<close> when the last loop does not end.\<close>

definition Rebalance :: "ShardConfig \<Rightarrow> ShardConfig option" where
  "Rebalance c =
     (if Groups c = [] then Some (c\<lparr>Shards := map (\<lambda>_. 0) (Shards c)\<rparr>)
      else while_option unbalanced move_one
             (assign_orphans (enumerate 0 (Shards c)) c))"

subsection \<open>Join and Leave\<close>

definition clash :: "(Tgid \<times> string list) list \<Rightarrow> string list \<Rightarrow> bool" where
  "clash groups servers = (\<exists>(xgid, xservers)\<in>set groups. \<exists>s1\<in>set xservers. \<exists>s2\<in>set servers. s1 = s2)"

text \<open>The loop of \<open>Join\<close>; an early \<open>return false\<close> keeps the groups added so far.\<close>

fun join_groups :: "(Tgid \<times> string list) list \<Rightarrow> ShardConfig \<Rightarrow> bool \<Rightarrow> (ShardConfig \<times> bool \<times> bool) go" where
  "join_groups [] cfg changed = Inr (cfg, True, changed)"
| "join_groups ((gid, servers) # rest) cfg changed =
     (if gid \<in> gids cfg then Inr (cfg, False, changed)
      else if clash (Groups cfg) servers then Inl LogFatal
      else join_groups rest (cfg\<lparr>Groups := Groups cfg @ [(gid, servers)]\<rparr>) True)"

definition Join :: "ShardConfig \<Rightarrow> (Tgid \<times> string list) list \<Rightarrow> (ShardConfig \<times> bool) go" where
  "Join cfg servers =
     bind_go (join_groups servers cfg False) (\<lambda>(cfg', completed, changed).
       if \<not> completed then Inr (cfg', False)
       else if \<not> changed then Inl LogFatal
       else Inr (cfg'\<lparr>Num := Num cfg' + 1\<rparr>, True))"

fun leave_groups :: "Tgid list \<Rightarrow> ShardConfig \<Rightarrow> bool \<Rightarrow> ShardConfig \<times> bool \<times> bool" where
  "leave_groups [] cfg changed = (cfg, True, changed)"
| "leave_groups (gid # rest) cfg changed =
     (if gid \<notin> gids cfg then (cfg, False, changed)
      else leave_groups rest (cfg\<lparr>Groups := filter (\<lambda>(g, _). g \<noteq> gid) (Groups cfg)\<rparr>) True)"

definition Leave :: "ShardConfig \<Rightarrow> Tgid list \<Rightarrow> (ShardConfig \<times> bool) go" where
  "Leave cfg gs =
     (case leave_groups gs cfg False of (cfg', completed, changed) \<Rightarrow>
       if \<not> completed then Inr (cfg', False)
       else if \<not> changed then Inl LogFatal
       else Inr (cfg'\<lparr>Num := Num cfg' + 1\<rparr>, True))"

definition JoinBalance :: "ShardConfig \<Rightarrow> (Tgid \<times> string list) list \<Rightarrow> (ShardConfig \<times> bool) go option" where
  "JoinBalance cfg servers =
     (case Join cfg servers of
        Inl e \<Rightarrow> Some (Inl e)
      | Inr (cfg', ok) \<Rightarrow>
          if \<not> ok then Some (Inr (cfg', False))
          else map_option (\<lambda>c. Inr (c, True)) (Rebalance cfg'))"

definition LeaveBalance :: "ShardConfig \<Rightarrow> Tgid list \<Rightarrow> (ShardConfig \<times> bool) go option" where
  "LeaveBalance cfg gs =
     (case Leave cfg gs of
        Inl e \<Rightarrow> Some (Inl e)
      | Inr (cfg', ok) \<Rightarrow>
          if \<not> ok then Some (Inr (cfg', False))
          else map_option (\<lambda>c. Inr (c, True)) (Rebalance cfg'))"

subsection \<open>Queries and the consistency check\<close>

definition GidServers :: "ShardConfig \<Rightarrow> nat \<Rightarrow> (Tgid \<times> string list \<times> bool) go" where
  "GidServers cfg sh =
     (if sh < length (Shards cfg) then
        let gid = Shards cfg ! sh in
        Inr (case map_of (Groups cfg) gid of
               None \<Rightarrow> (gid, [], False)
             | Some srvs \<Rightarrow> (gid, srvs, True))
      else Inl IndexOutOfRange)"

fun IsMember_loop :: "Tgid list \<Rightarrow> Tgid \<Rightarrow> bool" where
  "IsMember_loop [] gid = False"
| "IsMember_loop (g # gs) gid = (if g = gid then True else IsMember_loop gs gid)"

definition IsMember :: "ShardConfig \<Rightarrow> Tgid \<Rightarrow> bool" where
  "IsMember cfg gid = IsMember_loop (Shards cfg) gid"

datatype cfg_fault = GroupCount int int | MissingGroup Tgid | InvalidGroup nat Tgid | Unbalanced int int

fun min_max_step :: "(Tgid \<Rightarrow> int) \<Rightarrow> int \<times> int \<Rightarrow> Tgid \<Rightarrow> int \<times> int" where
  "min_max_step cnt (mx, mn) g =
     (let mx = (if cnt g > mx then cnt g else mx);
          mn = (if cnt g < mn then cnt g else mn) in (mx, mn))"

definition CheckConfig :: "ShardConfig \<Rightarrow> Tgid list \<Rightarrow> cfg_fault + unit" where
  "CheckConfig cfg groups =
     (if length (Groups cfg) \<noteq> length groups
      then Inl (GroupCount (int (length groups)) (int (length (Groups cfg))))
      else case find (\<lambda>g. g \<notin> gids cfg) groups of Some g \<Rightarrow> Inl (MissingGroup g)
      | None \<Rightarrow>
        case (if length groups > 0 then find (\<lambda>(s, g). g \<notin> gids cfg) (enumerate 0 (Shards cfg)) else None) of
          Some (s, g) \<Rightarrow> Inl (InvalidGroup s g)
        | None \<Rightarrow>
          let (mx, mn) = foldl (min_max_step (counts (Shards cfg))) (0, 257) (map fst (Groups cfg)) in
          if mx > mn + 1 then Inl (Unbalanced mx mn) else Inr ())"

subsection \<open>What analyze computes\<close>

abbreviation load :: "ShardConfig \<Rightarrow> Tgid \<Rightarrow> nat" where
  "load c g \<equiv> count_list (Shards c) g"

lemma counts_eq [simp]: "counts xs g = int (count_list xs g)"
proof -
  have "foldl (\<lambda>m g. m(g := m g + 1)) f xs g = f g + int (count_list xs g)" for f :: "Tgid \<Rightarrow> int"
    by (induction xs arbitrary: f) auto
  then show ?thesis by (simp add: counts_def)
qed

lemma analyze_fold:
  assumes "foldl (analyze_step cnt) (mg0, mn0, lg0, ln0) gs = (mg, mn, lg, ln)"
  shows "mn0 \<le> mn \<and> (\<forall>g\<in>set gs. cnt g \<le> mn) \<and> ((mg, mn) = (mg0, mn0) \<or> mg \<in> set gs \<and> mn = cnt mg) \<and>
    ln \<le> ln0 \<and> (\<forall>g\<in>set gs. ln \<le> cnt g) \<and> ((lg, ln) = (lg0, ln0) \<or> lg \<in> set gs \<and> ln = cnt lg)"
  using assms
proof (induction gs arbitrary: mg0 mn0 lg0 ln0)
  case Nil
  then show ?case by simp
next
  case (Cons g gs)
  obtain mg1 mn1 lg1 ln1 where st: "analyze_step cnt (mg0, mn0, lg0, ln0) g = (mg1, mn1, lg1, ln1)"
    by (metis prod_cases4)
  then have "foldl (analyze_step cnt) (mg1, mn1, lg1, ln1) gs = (mg, mn, lg, ln)"
    using Cons.prems by simp
  from Cons.IH [OF this] st show ?case
    by (cases "cnt g < ln0"; cases "cnt g > mn0") (auto simp: Let_def)
qed

lemma count_le_shards: "cfg_ok c \<Longrightarrow> load c g \<le> 12"
  using count_le_length [of "Shards c" g] by (simp add: cfg_ok_def NShards_def)

lemma analyze_spec:
  assumes "cfg_ok c" and "Groups c \<noteq> []" and "analyze c = (mg, mn, lg, ln)"
  shows "mg \<in> gids c \<and> mn = int (load c mg) \<and> (\<forall>g\<in>gids c. load c g \<le> load c mg) \<and>
    lg \<in> gids c \<and> ln = int (load c lg) \<and> (\<forall>g\<in>gids c. load c lg \<le> load c g)"
proof -
  have ne: "gids c \<noteq> {}" using assms(2) by simp
  then obtain g0 where g0: "g0 \<in> gids c" unfolding ex_in_conv [symmetric] by (elim exE)
  have b: "int (load c g0) < 257" "(0::int) \<le> int (load c g0)"
    using count_le_shards [OF assms(1), of g0] by simp_all
  have "foldl (analyze_step (counts (Shards c))) (-1, -1, -1, 257) (sort (map fst (Groups c))) =
      (mg, mn, lg, ln)" using assms(3) by (simp add: analyze_def)
  note f = analyze_fold [OF this, simplified]
  have "int (load c g0) \<le> mn" "ln \<le> int (load c g0)" using f g0 by blast+
  then have "mn \<noteq> -1" "ln \<noteq> 257" using b by linarith+
  then have "mg \<in> gids c" "mn = int (load c mg)" "lg \<in> gids c" "ln = int (load c lg)" using f by blast+
  then show ?thesis using f by (auto simp: image_iff)
qed

subsection \<open>The contract of the balancing loop\<close>

text \<open>
  \<open>potential c\<close>, the sum of the squared loads, decreases when a shard moves from a group to one
  that has at least two shards less.
\<close>

definition potential :: "ShardConfig \<Rightarrow> nat" where
  "potential c = (\<Sum>g\<in>gids c. (load c g)\<^sup>2)"

definition all_assigned :: "ShardConfig \<Rightarrow> bool" where
  "all_assigned c \<longleftrightarrow> set (Shards c) \<subseteq> gids c"

definition balanced :: "ShardConfig \<Rightarrow> bool" where
  "balanced c \<longleftrightarrow> (\<forall>g\<in>gids c. \<forall>h\<in>gids c. load c g \<le> load c h + 1)"

definition same_groups :: "ShardConfig \<Rightarrow> ShardConfig \<Rightarrow> bool" where
  "same_groups c c' \<longleftrightarrow> Groups c' = Groups c \<and> Num c' = Num c \<and> length (Shards c') = length (Shards c)"

lemma load_move:
  assumes "s < length (Shards c)" and "Shards c ! s = g" and "g \<noteq> h"
  shows "load (c\<lparr>Shards := (Shards c)[s := h]\<rparr>) x =
    (if x = g then load c g - 1 else if x = h then load c h + 1 else load c x)"
proof -
  have "int (load (c\<lparr>Shards := (Shards c)[s := h]\<rparr>) x) =
      int (load c x) - (if g = x then 1 else 0) + (if h = x then 1 else 0)"
    using count_list_update [OF assms(1), of h x] assms(2) by simp
  moreover have "0 < load c g"
    using assms(1,2) by (metis count_list_0_iff nth_mem neq0_conv)
  ultimately show ?thesis using assms(3) by (auto split: if_splits)
qed

lemma potential_move:
  assumes s: "s < length (Shards c)" and g: "Shards c ! s = g"
    and mem: "g \<in> gids c" "h \<in> gids c" and gap: "load c h + 2 \<le> load c g"
  shows "potential (c\<lparr>Shards := (Shards c)[s := h]\<rparr>) < potential c"
proof -
  let ?c = "c\<lparr>Shards := (Shards c)[s := h]\<rparr>"
  have ne: "g \<noteq> h" using gap by auto
  have fin: "finite (gids c)" by simp
  have split: "(\<Sum>x\<in>gids c. (f x)\<^sup>2) = (f g)\<^sup>2 + ((f h)\<^sup>2 + (\<Sum>x\<in>gids c - {g} - {h}. (f x)\<^sup>2))"
    for f :: "Tgid \<Rightarrow> nat"
  proof -
    have "h \<in> gids c - {g}" using mem ne by simp
    then have "(\<Sum>x\<in>gids c - {g}. (f x)\<^sup>2) = (f h)\<^sup>2 + (\<Sum>x\<in>gids c - {g} - {h}. (f x)\<^sup>2)"
      using fin by (intro sum.remove) simp_all
    then show ?thesis using sum.remove [OF fin mem(1), of "\<lambda>x. (f x)\<^sup>2"] by simp
  qed
  have rest: "(\<Sum>x\<in>gids c - {g} - {h}. (load ?c x)\<^sup>2) = (\<Sum>x\<in>gids c - {g} - {h}. (load c x)\<^sup>2)"
    by (rule sum.cong) (use load_move [OF s g ne] in auto)
  have arith: "(a - 1)\<^sup>2 + (b + 1)\<^sup>2 < a\<^sup>2 + b\<^sup>2" if ba: "b + 2 \<le> a" for a b :: nat
  proof -
    obtain d where d: "a = b + 2 + d" using le_Suc_ex [OF ba] by (elim exE)
    show ?thesis unfolding d by (simp add: power2_eq_square algebra_simps)
  qed
  have "potential ?c = (load c g - 1)\<^sup>2 + ((load c h + 1)\<^sup>2 + (\<Sum>x\<in>gids c - {g} - {h}. (load c x)\<^sup>2))"
  proof -
    have "load ?c g = load c g - 1" "load ?c h = load c h + 1"
      unfolding load_move [OF s g ne] using ne by simp_all
    moreover have "potential ?c = (\<Sum>x\<in>gids c. (load ?c x)\<^sup>2)" by (simp add: potential_def)
    ultimately show ?thesis using split [of "load ?c"] rest by (simp only:)
  qed
  moreover have "potential c = (load c g)\<^sup>2 + ((load c h)\<^sup>2 + (\<Sum>x\<in>gids c - {g} - {h}. (load c x)\<^sup>2))"
    using split [of "load c"] by (simp add: potential_def)
  ultimately show ?thesis using arith [OF gap] by linarith
qed

locale load_extremes =
  fixes hi lo :: "ShardConfig \<Rightarrow> Tgid"
    and ok :: "ShardConfig \<Rightarrow> bool"
  assumes hi_mem: "ok c \<Longrightarrow> hi c \<in> gids c"
    and hi_max: "ok c \<Longrightarrow> g \<in> gids c \<Longrightarrow> load c g \<le> load c (hi c)"
    and lo_mem: "ok c \<Longrightarrow> lo c \<in> gids c"
    and lo_min: "ok c \<Longrightarrow> g \<in> gids c \<Longrightarrow> load c (lo c) \<le> load c g"
    and ok_shards: "ok c \<Longrightarrow> length sh = length (Shards c) \<Longrightarrow> ok (c\<lparr>Shards := sh\<rparr>)"
begin

lemma gap_balanced: "ok c \<Longrightarrow> load c (hi c) < load c (lo c) + 2 \<Longrightarrow> balanced c"
  unfolding balanced_def
proof (intro ballI)
  fix g h assume a: "ok c" "load c (hi c) < load c (lo c) + 2" and "g \<in> gids c" "h \<in> gids c"
  then have "load c g \<le> load c (hi c)" "load c (lo c) \<le> load c h" by (simp_all only: hi_max lo_min)
  then show "load c g \<le> load c h + 1" using a(2) by linarith
qed

lemma gap_decreases:
  assumes "ok c" and "load c (lo c) + 2 \<le> load c (hi c)" and "s < length (Shards c)" and "Shards c ! s = hi c"
  shows "potential (c\<lparr>Shards := (Shards c)[s := lo c]\<rparr>) < potential c"
  using assms hi_mem lo_mem by (intro potential_move) auto

lemma hi_occurs:
  assumes "load c (lo c) + 2 \<le> load c (hi c)"
  shows "\<exists>s. find_index (\<lambda>g. g = hi c) (Shards c) = Some s"
proof -
  have "hi c \<in> set (Shards c)"
  proof (rule ccontr)
    assume "hi c \<notin> set (Shards c)"
    then have "load c (hi c) = 0" by (rule count_notin)
    then show False using assms by simp
  qed
  then show ?thesis by (intro find_index_ex) auto
qed

end

definition most :: "ShardConfig \<Rightarrow> Tgid" where
  "most c = fst (analyze c)"

definition has_groups :: "ShardConfig \<Rightarrow> bool" where
  "has_groups c \<longleftrightarrow> cfg_ok c \<and> Groups c \<noteq> []"

lemma analyze_eq:
  assumes "has_groups c"
  shows "analyze c = (most c, int (load c (most c)), least c, int (load c (least c)))"
proof -
  obtain mg mn lg ln where a: "analyze c = (mg, mn, lg, ln)" by (metis prod_cases4)
  from analyze_spec [OF _ _ a] assms have "mn = int (load c mg)" "ln = int (load c lg)"
    by (simp_all add: has_groups_def)
  then show ?thesis using a by (simp add: most_def least_def)
qed

interpretation shard_load: load_extremes most least has_groups
proof
  fix c g assume ok: "has_groups c"
  note sp = analyze_spec [OF _ _ analyze_eq [OF ok]]
  show "most c \<in> gids c" "least c \<in> gids c" using sp ok by (simp_all add: has_groups_def)
  assume "g \<in> gids c"
  then show "load c g \<le> load c (most c)" "load c (least c) \<le> load c g"
    using sp ok unfolding has_groups_def by simp_all (auto simp: image_iff)
next
  fix c :: ShardConfig and sh :: "Tgid list"
  assume "has_groups c" "length sh = length (Shards c)"
  then show "has_groups (c\<lparr>Shards := sh\<rparr>)" by (simp add: has_groups_def cfg_ok_def)
qed

subsection \<open>Rebalance\<close>

lemma unbalanced_eq: "has_groups c \<Longrightarrow> unbalanced c \<longleftrightarrow> load c (least c) + 2 \<le> load c (most c)"
  by (simp add: unbalanced_def analyze_eq) linarith

lemma same_groups_has: "same_groups c c' \<Longrightarrow> has_groups c' = has_groups c"
  by (auto simp: same_groups_def has_groups_def cfg_ok_def)

lemma move_one_spec:
  assumes "has_groups c" and "unbalanced c"
  shows "same_groups c (move_one c) \<and> potential (move_one c) < potential c \<and>
    (all_assigned c \<longrightarrow> all_assigned (move_one c))"
proof -
  have gap: "load c (least c) + 2 \<le> load c (most c)" using assms unbalanced_eq by simp
  obtain s where s: "find_index (\<lambda>g. g = most c) (Shards c) = Some s"
    using shard_load.hi_occurs [OF gap] by (elim exE)
  have len: "s < length (Shards c)" and at: "Shards c ! s = most c"
    using find_index_lt [OF s] find_index_sat [OF s] by simp_all
  have m: "move_one c = c\<lparr>Shards := (Shards c)[s := least c]\<rparr>"
    by (simp add: move_one_def analyze_eq [OF assms(1)] s)
  have "set ((Shards c)[s := least c]) \<subseteq> gids c" if "all_assigned c"
    using set_update_subset_insert [of "Shards c" s "least c"] shard_load.lo_mem [OF assms(1)] that
    by (auto simp: all_assigned_def)
  then show ?thesis
    using shard_load.gap_decreases [OF assms(1) gap len at] unfolding m
    by (simp add: same_groups_def all_assigned_def)
qed

lemma balance_loop:
  assumes "has_groups c" and "all_assigned c"
  shows "\<exists>c'. while_option unbalanced move_one c = Some c' \<and> same_groups c c' \<and> all_assigned c' \<and> balanced c'"
proof -
  let ?P = "\<lambda>d. same_groups c d \<and> all_assigned d"
  have P: "?P (move_one d) \<and> potential (move_one d) < potential d" if "?P d" "unbalanced d" for d
    using move_one_spec [of d] that assms(1) same_groups_has [of c d] by (simp add: same_groups_def)
  have P0: "?P c" using assms(2) by (simp add: same_groups_def)
  obtain c' where c': "while_option unbalanced move_one c = Some c'"
    using measure_while_option_Some [of ?P unbalanced move_one potential c] P P0 by auto
  have "?P c'" by (rule while_option_rule [OF _ c', of ?P]) (use P P0 in auto)
  moreover have "balanced c'"
  proof -
    have "has_groups c'" using \<open>?P c'\<close> same_groups_has [of c c'] assms(1) by simp
    moreover have "\<not> unbalanced c'" using while_option_stop [OF c'] .
    ultimately show ?thesis using unbalanced_eq shard_load.gap_balanced by simp
  qed
  ultimately show ?thesis using c' by simp
qed

lemma assign_orphans_spec:
  assumes "has_groups c" and "distinct (map fst sg)"
    and "\<forall>(s, g)\<in>set sg. s < length (Shards c) \<and> Shards c ! s = g"
  shows "same_groups c (assign_orphans sg c) \<and>
    (\<forall>i<length (Shards c). Shards (assign_orphans sg c) ! i =
       Shards c ! i \<or> i \<in> fst ` set sg \<and> Shards c ! i \<notin> gids c) \<and>
    (\<forall>i\<in>fst ` set sg. Shards (assign_orphans sg c) ! i \<in> gids c)"
  using assms
proof (induction sg arbitrary: c)
  case Nil
  then show ?case by (simp add: same_groups_def)
next
  case (Cons x sg)
  obtain s g where x: "x = (s, g)" by (cases x)
  define d where "d = (if g \<in> gids c then c else c\<lparr>Shards := (Shards c)[s := least c]\<rparr>)"
  have sl: "s < length (Shards c)" "Shards c ! s = g" using Cons.prems(3) x by auto
  have sg: "same_groups c d" by (simp add: same_groups_def d_def)
  then have gd: "gids d = gids c" and ld: "length (Shards d) = length (Shards c)"
    by (simp_all add: same_groups_def)
  have at: "Shards d ! s \<in> gids c" "g \<in> gids c \<Longrightarrow> Shards d ! s = g"
    using sl shard_load.lo_mem [OF Cons.prems(1)] by (simp_all add: d_def)
  have off: "Shards d ! a = Shards c ! a" if "a \<noteq> s" for a using that by (simp add: d_def)
  have sn: "s \<notin> fst ` set sg" using Cons.prems(2) x by simp
  have pre: "\<forall>(a, b)\<in>set sg. a < length (Shards d) \<and> Shards d ! a = b"
  proof clarify
    fix a b assume ab: "(a, b) \<in> set sg"
    then have "a \<noteq> s" using sn by (force simp: image_iff)
    moreover have "a < length (Shards c) \<and> Shards c ! a = b" using Cons.prems(3) ab by auto
    ultimately show "a < length (Shards d) \<and> Shards d ! a = b" using off ld by simp
  qed
  have "has_groups d" using same_groups_has [OF sg] Cons.prems(1) by simp
  from Cons.IH [OF this _ pre] Cons.prems(2) x gd ld
  have r: "same_groups d (assign_orphans sg d)"
    "\<forall>i<length (Shards c). Shards (assign_orphans sg d) ! i = Shards d ! i \<or> i \<in> fst ` set sg \<and> Shards d ! i \<notin> gids c"
    "\<forall>i\<in>fst ` set sg. Shards (assign_orphans sg d) ! i \<in> gids c" by simp_all
  have s_r: "Shards (assign_orphans sg d) ! s = Shards d ! s" using r(2) sl(1) sn by blast
  have step: "assign_orphans (x # sg) c = assign_orphans sg d" by (simp add: x d_def)
  have "same_groups c (assign_orphans sg d)" using sg r(1) by (simp add: same_groups_def)
  moreover have "Shards (assign_orphans sg d) ! i = Shards c ! i \<or> i \<in> fst ` set (x # sg) \<and> Shards c ! i \<notin> gids c"
    if "i < length (Shards c)" for i
  proof (cases "i = s")
    case True
    then show ?thesis using s_r at(2) sl(2) x by (cases "g \<in> gids c") simp_all
  next
    case False
    from r(2) that have "Shards (assign_orphans sg d) ! i = Shards d ! i \<or> i \<in> fst ` set sg \<and> Shards d ! i \<notin> gids c"
      by simp
    then show ?thesis unfolding off [OF False] by (elim disjE) simp_all
  qed
  moreover have "Shards (assign_orphans sg d) ! i \<in> gids c" if "i \<in> fst ` set (x # sg)" for i
  proof (cases "i = s")
    case True
    then show ?thesis using s_r at(1) by simp
  next
    case False
    then have "i \<in> fst ` set sg" using that x by simp
    then show ?thesis by (rule bspec [OF r(3)])
  qed
  ultimately show ?case unfolding step by simp
qed


lemma orphans_gone:
  assumes "has_groups c"
  shows "same_groups c (assign_orphans (enumerate 0 (Shards c)) c) \<and>
    all_assigned (assign_orphans (enumerate 0 (Shards c)) c) \<and>
    (all_assigned c \<longrightarrow> assign_orphans (enumerate 0 (Shards c)) c = c)"
proof -
  let ?sg = "enumerate 0 (Shards c)" and ?r = "assign_orphans (enumerate 0 (Shards c)) c"
  have dom: "fst ` set ?sg = {0..<length (Shards c)}" by (simp flip: set_map)
  have pre: "\<forall>(s, g)\<in>set ?sg. s < length (Shards c) \<and> Shards c ! s = g"
    by (auto simp: in_set_enumerate_eq)
  note spec = assign_orphans_spec [OF assms _ pre, unfolded dom]
  then have sg: "same_groups c ?r" and asg: "\<forall>i<length (Shards c). Shards ?r ! i \<in> gids c"
    and keep: "\<forall>i<length (Shards c). Shards ?r ! i = Shards c ! i \<or> Shards c ! i \<notin> gids c" by simp_all
  have "Shards ?r = Shards c" if "all_assigned c"
    using sg keep that by (intro nth_equalityI) (auto simp: same_groups_def all_assigned_def subset_iff)
  then have "all_assigned c \<longrightarrow> ?r = c" using sg by (simp add: same_groups_def)
  moreover have "all_assigned ?r"
    unfolding all_assigned_def using sg asg by (simp add: same_groups_def all_set_conv_all_nth subset_code(1))
  ultimately show ?thesis using sg by simp
qed

lemma Rebalance_spec:
  assumes "has_groups c"
  shows "\<exists>c'. Rebalance c = Some c' \<and> same_groups c c' \<and> all_assigned c' \<and> balanced c'"
proof -
  let ?r = "assign_orphans (enumerate 0 (Shards c)) c"
  have r: "same_groups c ?r" "all_assigned ?r" using orphans_gone [OF assms] by simp_all
  then have "has_groups ?r" using same_groups_has assms by simp
  from balance_loop [OF this r(2)] r(1) show ?thesis
    using assms by (auto simp: Rebalance_def has_groups_def same_groups_def)
qed

lemma balanced_not_unbalanced: "has_groups c \<Longrightarrow> balanced c \<Longrightarrow> \<not> unbalanced c"
  using shard_load.hi_mem shard_load.lo_mem by (fastforce simp: unbalanced_eq balanced_def)

text \<open>
  Property C6. \<open>Rebalance\<close> always returns (its last loop has no bound in the code), and on a
  configuration with groups every shard is afterwards assigned to a group of the configuration,
  the loads of any two groups differ by at most one, and the groups, the configuration number and
  the number of shards are what they were.\<close>

theorem rebalance_balances:
  assumes "cfg_ok c"
  shows "\<exists>c'. Rebalance c = Some c' \<and> Groups c' = Groups c \<and> Num c' = Num c \<and> cfg_ok c' \<and>
    (if Groups c = [] then set (Shards c') = {0}
     else all_assigned c' \<and> balanced c')"
proof (cases "Groups c = []")
  case True
  then show ?thesis using assms by (cases "Shards c") (auto simp: Rebalance_def cfg_ok_def NShards_def)
next
  case False
  then have "has_groups c" using assms by (simp add: has_groups_def)
  from Rebalance_spec [OF this] show ?thesis using assms False by (auto simp: same_groups_def cfg_ok_def)
qed

text \<open>
  \<open>Rebalance\<close> moves no shard when there is nothing to do: on a configuration whose
  shards are all assigned and whose loads differ by at most one it is the identity.\<close>

theorem rebalance_stable:
  assumes "cfg_ok c" and "Groups c \<noteq> []" and "all_assigned c" and "balanced c"
  shows "Rebalance c = Some c"
proof -
  have "has_groups c" using assms by (simp add: has_groups_def)
  then have "assign_orphans (enumerate 0 (Shards c)) c = c" "\<not> unbalanced c"
    using orphans_gone balanced_not_unbalanced assms(3,4) by simp_all
  then show ?thesis using assms(2) by (simp add: Rebalance_def while_option_unfold)
qed


theorem rebalance_balances_witness:
  "\<exists>c'. Rebalance MakeShardConfig = Some c' \<and> Groups c' = Groups MakeShardConfig \<and> Num c' = Num MakeShardConfig \<and>
    cfg_ok c' \<and> (if Groups MakeShardConfig = [] then set (Shards c') = {0} else all_assigned c' \<and> balanced c')"
  by (rule rebalance_balances) (simp add: cfg_ok_def MakeShardConfig_def)

theorem rebalance_stable_witness:
  "Rebalance \<lparr>Num = 1, Shards = replicate 6 1 @ replicate 6 2, Groups = [(1, [''a'']), (2, [''b''])]\<rparr> =
    Some \<lparr>Num = 1, Shards = replicate 6 1 @ replicate 6 2, Groups = [(1, [''a'']), (2, [''b''])]\<rparr>"
  by (rule rebalance_stable)
    (simp_all add: cfg_ok_def NShards_def all_assigned_def balanced_def eval_nat_numeral)

subsection \<open>Join, Leave and CheckConfig\<close>

definition fresh_groups :: "ShardConfig \<Rightarrow> (Tgid \<times> string list) list \<Rightarrow> bool" where
  "fresh_groups cfg servers \<longleftrightarrow> distinct (map fst servers) \<and> gids cfg \<inter> fst ` set servers = {}"

definition all_servers :: "(Tgid \<times> string list) list \<Rightarrow> string set" where
  "all_servers gs = (\<Union>(g, ss)\<in>set gs. set ss)"

fun disjoint_servers :: "string set \<Rightarrow> (Tgid \<times> string list) list \<Rightarrow> bool" where
  "disjoint_servers used [] = True"
| "disjoint_servers used ((g, ss) # gs) = (used \<inter> set ss = {} \<and> disjoint_servers (used \<union> set ss) gs)"

lemma clash_eq: "clash groups servers \<longleftrightarrow> all_servers groups \<inter> set servers \<noteq> {}"
  by (force simp: clash_def all_servers_def)

lemma all_servers_snoc: "all_servers (gs @ [(g, ss)]) = all_servers gs \<union> set ss"
  by (auto simp: all_servers_def)

lemma join_groups_prefix:
  assumes "disjoint_servers (all_servers (Groups cfg)) servers" and "distinct (map fst servers)"
  shows "join_groups servers cfg changed =
    (let new = takeWhile (\<lambda>(g, _). g \<notin> gids cfg) servers in
     Inr (cfg\<lparr>Groups := Groups cfg @ new\<rparr>, new = servers, changed \<or> new \<noteq> []))"
  using assms
proof (induction servers arbitrary: cfg changed)
  case Nil
  then show ?case by simp
next
  case (Cons x servers)
  obtain g ss where x: "x = (g, ss)" by (cases x)
  show ?case
  proof (cases "g \<in> gids cfg")
    case True
    then show ?thesis using x by (simp add: Let_def)
  next
    case False
    let ?c = "cfg\<lparr>Groups := Groups cfg @ [(g, ss)]\<rparr>"
    have nc: "\<not> clash (Groups cfg) ss" using Cons.prems(1) x by (simp add: clash_eq)
    have tw: "takeWhile (\<lambda>(h, _). h \<notin> gids ?c) servers = takeWhile (\<lambda>(h, _). h \<notin> gids cfg) servers"
      using Cons.prems(2) x by (intro takeWhile_cong) (auto simp: image_iff)
    have "join_groups servers ?c True =
        (let new = takeWhile (\<lambda>(h, _). h \<notin> gids ?c) servers in
         Inr (?c\<lparr>Groups := Groups ?c @ new\<rparr>, new = servers, True \<or> new \<noteq> []))"
      by (rule Cons.IH) (use Cons.prems x in \<open>simp_all add: all_servers_snoc\<close>)
    then show ?thesis unfolding tw using False nc x by (simp add: Let_def)
  qed
qed

lemma Join_fresh:
  assumes "fresh_groups cfg servers" and "disjoint_servers (all_servers (Groups cfg)) servers" and "servers \<noteq> []"
  shows "Join cfg servers = Inr (cfg\<lparr>Groups := Groups cfg @ servers, Num := Num cfg + 1\<rparr>, True)"
proof -
  have "takeWhile (\<lambda>(g, _). g \<notin> gids cfg) servers = servers"
    using assms(1) by (fastforce simp: takeWhile_eq_all_conv fresh_groups_def disjoint_iff image_iff)
  moreover have "join_groups servers cfg False =
      (let new = takeWhile (\<lambda>(g, _). g \<notin> gids cfg) servers in
       Inr (cfg\<lparr>Groups := Groups cfg @ new\<rparr>, new = servers, False \<or> new \<noteq> []))"
    by (rule join_groups_prefix [OF assms(2)]) (use assms(1) in \<open>simp add: fresh_groups_def\<close>)
  ultimately have "join_groups servers cfg False = Inr (cfg\<lparr>Groups := Groups cfg @ servers\<rparr>, True, True)"
    using assms(3) by (simp only: Let_def) simp
  then show ?thesis by (simp add: Join_def)
qed

lemma leave_groups_all:
  assumes "set gs \<subseteq> gids cfg" and "distinct gs"
  shows "leave_groups gs cfg changed =
    (cfg\<lparr>Groups := filter (\<lambda>(g, _). g \<notin> set gs) (Groups cfg)\<rparr>, True, changed \<or> gs \<noteq> [])"
  using assms
proof (induction gs arbitrary: cfg changed)
  case Nil
  have "filter (\<lambda>(g, _). True) xs = xs" for xs :: "(Tgid \<times> string list) list" by (induction xs) auto
  then show ?case by simp
next
  case (Cons g gs)
  let ?c = "cfg\<lparr>Groups := filter (\<lambda>(h, _). h \<noteq> g) (Groups cfg)\<rparr>"
  have sub: "set gs \<subseteq> gids ?c"
  proof
    fix h assume h: "h \<in> set gs"
    then have "h \<in> gids cfg" "h \<noteq> g" using Cons.prems by auto
    then show "h \<in> gids ?c" by (force simp: image_iff)
  qed
  have eq: "filter (\<lambda>(h, _). h \<notin> set gs) (filter (\<lambda>(h, _). h \<noteq> g) xs) =
      filter (\<lambda>(h, _). h \<notin> set (g # gs)) xs" for xs :: "(Tgid \<times> string list) list"
    by (induction xs) auto
  have "leave_groups (g # gs) cfg changed = leave_groups gs ?c True" using Cons.prems(1) by simp
  also have "\<dots> = (?c\<lparr>Groups := filter (\<lambda>(h, _). h \<notin> set gs) (Groups ?c)\<rparr>, True, True \<or> gs \<noteq> [])"
    by (rule Cons.IH [OF sub]) (use Cons.prems in simp)
  finally show ?case using eq [of "Groups cfg"] by simp
qed

lemma min_max_fold:
  assumes "foldl (min_max_step cnt) (mx0, mn0) gs = (mx, mn)"
  shows "(mx = mx0 \<or> mx \<in> cnt ` set gs) \<and> (mn = mn0 \<or> mn \<in> cnt ` set gs) \<and> mn \<le> mn0 \<and> (\<forall>g\<in>set gs. mn \<le> cnt g)"
  using assms
proof (induction gs arbitrary: mx0 mn0)
  case (Cons g gs)
  obtain mx1 mn1 where st: "min_max_step cnt (mx0, mn0) g = (mx1, mn1)" by fastforce
  then have "foldl (min_max_step cnt) (mx1, mn1) gs = (mx, mn)" using Cons.prems by simp
  from Cons.IH [OF this] st show ?case
    by (cases "cnt g > mx0"; cases "cnt g < mn0") (auto simp: Let_def)
qed simp


lemma CheckConfig_ok:
  assumes "cfg_ok c" and "distinct groups" and "set groups = gids c"
    and "Groups c \<noteq> [] \<Longrightarrow> all_assigned c \<and> balanced c"
  shows "CheckConfig c groups = Inr ()"
proof -
  let ?fold = "foldl (min_max_step (counts (Shards c))) (0, 257) (map fst (Groups c))"
  obtain mx mn where fm: "?fold = (mx, mn)" by fastforce
  have len: "length (Groups c) = length groups"
    using assms(1-3) distinct_card [of groups] distinct_card [of "map fst (Groups c)"] by (simp add: cfg_ok_def)
  have missing: "find (\<lambda>g. g \<notin> gids c) groups = None" using assms(3) by (simp add: find_None_iff)
  have invalid: "(if length groups > 0 then find (\<lambda>(s, g). g \<notin> gids c) (enumerate 0 (Shards c)) else None) = None"
  proof (cases "groups = []")
    case False
    then have "Groups c \<noteq> []" using len by auto
    then have "\<forall>g\<in>set (Shards c). g \<in> gids c" using assms(4) by (auto simp: all_assigned_def)
    then have "\<forall>(s, g)\<in>set (enumerate 0 (Shards c)). g \<in> gids c" by (auto simp: in_set_enumerate_eq)
    then show ?thesis by (auto simp: find_None_iff)
  qed simp
  have "\<not> mx > mn + 1"
  proof (cases "Groups c = []")
    case True
    then show ?thesis using fm by simp
  next
    case False
    note f = min_max_fold [OF fm]
    have bal: "load c g \<le> load c h + 1" if "g \<in> gids c" "h \<in> gids c" for g h
      using assms(4) [OF False] that unfolding balanced_def by (elim conjE) (drule bspec, assumption, erule bspec)
    obtain g0 where g0: "g0 \<in> gids c" using False by (cases "Groups c") auto
    then have "mn \<le> int (load c g0)" using f by auto
    then have "mn \<noteq> 257" using count_le_shards [OF assms(1), of g0] by linarith
    then obtain h where h: "h \<in> gids c" "mn = int (load c h)" using f by auto
    consider "mx = 0" | g where "g \<in> gids c" "mx = int (load c g)" using f by auto
    then show ?thesis using h bal [of _ h] by cases fastforce+
  qed
  then show ?thesis unfolding CheckConfig_def missing invalid fm using len by simp
qed

lemma Rebalance_checks:
  assumes "cfg_ok c" and "distinct groups" and "set groups = gids c"
  shows "\<exists>c'. Rebalance c = Some c' \<and> Groups c' = Groups c \<and> Num c' = Num c \<and> CheckConfig c' groups = Inr ()"
proof (cases "Groups c = []")
  case True
  then have "CheckConfig (c\<lparr>Shards := map (\<lambda>_. 0) (Shards c)\<rparr>) groups = Inr ()"
    using assms by (intro CheckConfig_ok) (simp_all add: cfg_ok_def)
  then show ?thesis using True by (simp add: Rebalance_def)
next
  case False
  then have "has_groups c" using assms by (simp add: has_groups_def)
  from Rebalance_spec [OF this] obtain c' where c': "Rebalance c = Some c'" "same_groups c c'"
    "all_assigned c'" "balanced c'" by (elim exE conjE)
  then have "cfg_ok c'" using assms(1) by (simp add: same_groups_def cfg_ok_def)
  then have "CheckConfig c' groups = Inr ()" using c' assms by (intro CheckConfig_ok) (simp_all add: same_groups_def)
  then show ?thesis using c' by (simp add: same_groups_def)
qed

text \<open>
  Property C19. \<open>JoinBalance\<close> with new groups, whose servers are in no other group, returns true:
  the configuration has the old and the new groups, its number is incremented, and it passes
  \<open>CheckConfig\<close> for exactly these groups (nothing missing, no shard on an unknown group, loads
  within one of each other), from any starting assignment of the shards.\<close>

theorem join_balance_checks:
  assumes "cfg_ok cfg" and "fresh_groups cfg servers" and "disjoint_servers (all_servers (Groups cfg)) servers"
    and "servers \<noteq> []" and "distinct groups" and "set groups = gids cfg \<union> fst ` set servers"
  shows "\<exists>c'. JoinBalance cfg servers = Some (Inr (c', True)) \<and> Groups c' = Groups cfg @ servers \<and>
    Num c' = Num cfg + 1 \<and> CheckConfig c' groups = Inr ()"
proof -
  let ?c = "cfg\<lparr>Groups := Groups cfg @ servers, Num := Num cfg + 1\<rparr>"
  have "cfg_ok ?c" using assms(1,2) by (simp add: cfg_ok_def fresh_groups_def)
  from Rebalance_checks [OF this assms(5)] assms(6) have
    "\<exists>c'. Rebalance ?c = Some c' \<and> Groups c' = Groups cfg @ servers \<and> Num c' = Num cfg + 1 \<and> CheckConfig c' groups = Inr ()"
    by (simp add: image_Un)
  then show ?thesis using Join_fresh [OF assms(2-4)] by (auto simp: JoinBalance_def)
qed

text \<open>
  \<open>LeaveBalance\<close> with groups of the configuration returns true: exactly these groups
  are gone, the number is incremented, and the result passes \<open>CheckConfig\<close> for the groups that
  are left, also when none is left.\<close>

theorem leave_balance_checks:
  assumes "cfg_ok cfg" and "set gs \<subseteq> gids cfg" and "distinct gs" and "gs \<noteq> []"
    and "distinct groups" and "set groups = gids cfg - set gs"
  shows "\<exists>c'. LeaveBalance cfg gs = Some (Inr (c', True)) \<and>
    Groups c' = filter (\<lambda>(g, _). g \<notin> set gs) (Groups cfg) \<and>
    Num c' = Num cfg + 1 \<and> CheckConfig c' groups = Inr ()"
proof -
  let ?c = "cfg\<lparr>Groups := filter (\<lambda>(g, _). g \<notin> set gs) (Groups cfg), Num := Num cfg + 1\<rparr>"
  have "distinct (map fst (filter (\<lambda>(g, _). g \<notin> set gs) (Groups cfg)))"
    using assms(1) by (intro distinct_map_filter) (simp add: cfg_ok_def)
  then have "cfg_ok ?c" using assms(1) by (simp add: cfg_ok_def)
  moreover have "set groups = gids ?c" unfolding assms(6) by (force simp: image_iff)
  ultimately have "\<exists>c'. Rebalance ?c = Some c' \<and> Groups c' = Groups ?c \<and> Num c' = Num cfg + 1 \<and> CheckConfig c' groups = Inr ()"
    using Rebalance_checks [of ?c groups] assms(5) by simp
  then show ?thesis using leave_groups_all [OF assms(2,3), of False] assms(4) by (auto simp: LeaveBalance_def Leave_def)
qed

text \<open>
  A \<open>JoinBalance\<close> that hits a group the configuration already has returns false, but
  the configuration is not what it was: the groups before the first old one have been added,
  while the number and the assignment of the shards are unchanged.\<close>

theorem rejected_join_keeps_prefix:
  assumes "disjoint_servers (all_servers (Groups cfg)) servers" and "distinct (map fst servers)"
    and "\<exists>g\<in>fst ` set servers. g \<in> gids cfg"
  shows "JoinBalance cfg servers =
    Some (Inr (cfg\<lparr>Groups := Groups cfg @ takeWhile (\<lambda>(g, _). g \<notin> gids cfg) servers\<rparr>, False))"
proof -
  have "takeWhile (\<lambda>(g, _). g \<notin> gids cfg) servers \<noteq> servers"
    using assms(3) unfolding takeWhile_eq_all_conv by fastforce
  then show ?thesis using join_groups_prefix [OF assms(1,2), of False] by (simp add: JoinBalance_def Join_def Let_def)
qed

theorem rejected_join_keeps_prefix_witness:
  "JoinBalance \<lparr>Num = 1, Shards = replicate 12 1, Groups = [(1, [''a''])]\<rparr> [(2, [''b'']), (1, [''c''])] =
   Some (Inr (\<lparr>Num = 1, Shards = replicate 12 1, Groups = [(1, [''a'']), (2, [''b''])]\<rparr>, False))"
  using rejected_join_keeps_prefix
    [of "\<lparr>Num = 1, Shards = replicate 12 1, Groups = [(1, [''a''])]\<rparr>" "[(2, [''b'']), (1, [''c''])]"]
  by (simp add: all_servers_def)

theorem join_balance_checks_witness:
  "\<exists>c'. JoinBalance MakeShardConfig [(1, [''a'']), (2, [''b''])] = Some (Inr (c', True)) \<and>
    Groups c' = [(1, [''a'']), (2, [''b''])] \<and> Num c' = 1 \<and> CheckConfig c' [1, 2] = Inr ()"
  using join_balance_checks [of MakeShardConfig "[(1, [''a'']), (2, [''b''])]" "[1, 2]"]
  by (simp add: cfg_ok_def fresh_groups_def all_servers_def MakeShardConfig_def)

theorem leave_balance_checks_witness:
  "\<exists>c'. LeaveBalance \<lparr>Num = 1, Shards = replicate 12 1, Groups = [(1, [''a'']), (2, [''b''])]\<rparr> [1] =
      Some (Inr (c', True)) \<and> Groups c' = [(2, [''b''])] \<and> Num c' = 2 \<and> CheckConfig c' [2] = Inr ()"
  using leave_balance_checks [of "\<lparr>Num = 1, Shards = replicate 12 1, Groups = [(1, [''a'']), (2, [''b''])]\<rparr>" "[1]" "[2]"]
  by (simp add: cfg_ok_def NShards_def)

end
