(* ===== verification/Mr_Coordinator.thy ===== *)
theory Mr_Coordinator
  imports Go_Prelude
begin

text \<open>
  The MapReduce coordinator, \<open>mr/coordinator.go\<close> and \<open>mr/rpc.go\<close>: the table of map and reduce
  tasks, the registered workers and the phase of the job, with the handlers \<open>Register\<close>, \<open>Report\<close>
  and \<open>Heartbeat\<close>, the assignment of tasks and the removal of workers that stopped sending
  heartbeats. A handler is one atomic step here; in the code no handler takes the mutex.
  A dereference of a worker that is not in the table is the value \<open>Inl NilDeref\<close>: the process ends.
  Times are nanoseconds.
\<close>

subsection \<open>Data\<close>

definition StateReduce :: string where "StateReduce = ''reduce''"
definition StateMap :: string where "StateMap = ''map''"
definition StateFinish :: string where "StateFinish = ''finish''"

lemma State_distinct [simp]:
  "StateReduce \<noteq> StateMap" "StateMap \<noteq> StateReduce" "StateReduce \<noteq> StateFinish"
  "StateFinish \<noteq> StateReduce" "StateMap \<noteq> StateFinish" "StateFinish \<noteq> StateMap"
  by (simp_all add: StateReduce_def StateMap_def StateFinish_def)

record File =
  Name :: string
  Index :: int
  Assigned :: bool
  Done :: bool
  Owner :: int
  Type :: string

text \<open>The zero value \<open>File{}\<close> of the struct.\<close>

definition no_File :: File where
  "no_File = \<lparr>Name = [], Index = 0, Assigned = False, Done = False, Owner = 0, Type = []\<rparr>"

record WorkerItem =
  WorkerID :: int
  wNReduce :: int
  wNMap :: int
  LastSeen :: int
  wFile :: File

definition no_WorkerItem :: WorkerItem where
  "no_WorkerItem = \<lparr>WorkerID = 0, wNReduce = 0, wNMap = 0, LastSeen = 0, wFile = no_File\<rparr>"

record Coordinator =
  State :: string
  Counter :: int
  Files :: "File list"
  NReduce :: int
  Workers :: "int \<rightharpoonup> WorkerItem"

record RegisterReply =
  rWorkerID :: int
  rNReduce :: int
  rNMap :: int

record ReportArgs =
  aWorkerID :: int
  aFile :: int

record ReportReply =
  Response :: string
  rFile :: File

definition no_ReportReply :: ReportReply where
  "no_ReportReply = \<lparr>Response = [], rFile = no_File\<rparr>"

subsection \<open>Operations\<close>

definition map_file :: "int \<Rightarrow> string \<Rightarrow> File" where
  "map_file i name =
     \<lparr>Name = name, Index = i, Assigned = False, Done = False, Owner = -1, Type = StateMap\<rparr>"

definition reduce_file :: "int \<Rightarrow> int \<Rightarrow> File" where
  "reduce_file nMap k =
     \<lparr>Name = itoa k, Index = k + nMap, Assigned = False, Done = False, Owner = -1, Type = StateReduce\<rparr>"

definition MakeCoordinator :: "string list \<Rightarrow> nat \<Rightarrow> Coordinator" where
  "MakeCoordinator files nReduce =
     (let nMap = length files in
      \<lparr>State = StateMap, Counter = 0,
       Files = map (\<lambda>i. map_file (int i) (files ! i)) [0..<nMap] @
               map (\<lambda>k. reduce_file (int nMap) (int k)) [0..<nReduce],
       NReduce = int nReduce, Workers = Map.empty\<rparr>)"

definition Register :: "Coordinator \<Rightarrow> int \<Rightarrow> Coordinator \<times> RegisterReply" where
  "Register c now =
     (let cur = Counter c;
          count = int (length (filter (\<lambda>f. Type f = StateMap) (Files c))) in
      (c\<lparr>Counter := cur + 1,
         Workers := (Workers c)(cur \<mapsto> no_WorkerItem\<lparr>WorkerID := cur, LastSeen := now\<rparr>)\<rparr>,
       \<lparr>rWorkerID = cur, rNReduce = NReduce c, rNMap = count\<rparr>))"

text \<open>
  The loop that hands out the first free task of a type: the files after it, the task, and
  whether every task of that type was found done.
\<close>

fun take_task :: "string \<Rightarrow> WorkerItem option \<Rightarrow> File list \<Rightarrow> bool \<Rightarrow> (File list \<times> File option \<times> bool) go" where
  "take_task ty w [] allDone = Inr ([], None, allDone)"
| "take_task ty w (file # files) allDone =
     (if Type file = ty \<and> \<not> Done file \<and> \<not> Assigned file then
        (case w of
           None \<Rightarrow> Inl NilDeref
         | Some wi \<Rightarrow>
             let file' = file\<lparr>Assigned := True, Owner := WorkerID wi\<rparr> in
             Inr (file' # files, Some file', allDone))
      else
        bind_go (take_task ty w files (if Type file = ty \<and> \<not> Done file then False else allDone))
          (\<lambda>(files', t, d). Inr (file # files', t, d)))"

definition doReduce :: "WorkerItem option \<Rightarrow> Coordinator \<Rightarrow> (Coordinator \<times> File) go" where
  "doReduce w c =
     bind_go (take_task StateReduce w (Files c) True) (\<lambda>(files, t, _).
       case t of
         Some file \<Rightarrow> Inr (c\<lparr>Files := files\<rparr>, file)
       | None \<Rightarrow>
           let allDone = (\<forall>f\<in>set (Files c). \<not> (Type f = StateReduce \<and> \<not> Done f)) in
           Inr (if allDone then c\<lparr>State := StateFinish\<rparr> else c, no_File))"

definition assign :: "WorkerItem option \<Rightarrow> Coordinator \<Rightarrow> (Coordinator \<times> File) go" where
  "assign w c =
     (if State c = StateMap then
        bind_go (take_task StateMap w (Files c) True) (\<lambda>(files, t, allDone).
          case t of
            Some file \<Rightarrow> Inr (c\<lparr>Files := files\<rparr>, file)
          | None \<Rightarrow>
              if allDone then doReduce w (c\<lparr>State := StateReduce\<rparr>)
              else Inr (c, no_File))
      else doReduce w c)"

definition allFinished :: "Coordinator \<Rightarrow> bool" where
  "allFinished c \<longleftrightarrow> State c = StateFinish"

definition allProcessed :: "Coordinator \<Rightarrow> bool" where
  "allProcessed c \<longleftrightarrow> list_all Assigned (Files c)"

text \<open>The loop of \<open>Report\<close> that marks the reported task; \<open>break\<close> leaves the rest as it is.\<close>

fun mark_done :: "int \<Rightarrow> int \<Rightarrow> File list \<Rightarrow> File list" where
  "mark_done fileIndex wid [] = []"
| "mark_done fileIndex wid (file # files) =
     (if Index file = fileIndex \<and> Owner file = wid \<and> \<not> Done file
      then file\<lparr>Done := True, Assigned := True\<rparr> # files
      else file # mark_done fileIndex wid files)"

definition Report :: "Coordinator \<Rightarrow> ReportArgs \<Rightarrow> (Coordinator \<times> ReportReply) go" where
  "Report c args =
     (let wid = aWorkerID args; fileIndex = aFile args; reply = no_ReportReply in
      if fileIndex = -1 then
        bind_go (assign (Workers c wid) c) (\<lambda>(c, assigned).
          if Name assigned = [] then
            Inr (c, reply\<lparr>Response := (if allFinished c then ''done'' else ''wait''), rFile := no_File\<rparr>)
          else Inr (c, reply\<lparr>rFile := assigned, Response := ''doing''\<rparr>))
      else
        let c = c\<lparr>Files := mark_done fileIndex wid (Files c)\<rparr> in
        bind_go (assign (Workers c wid) c) (\<lambda>(c, assigned).
          if Name assigned = [] then
            if allFinished c then Inr (c, reply\<lparr>Response := ''done''\<rparr>)
            else Inr (c, reply\<lparr>Response := ''wait'', rFile := no_File\<lparr>Index := -1\<rparr>\<rparr>)
          else Inr (c, reply\<lparr>rFile := assigned, Response := ''doing''\<rparr>)))"

definition Heartbeat :: "Coordinator \<Rightarrow> int \<Rightarrow> int \<Rightarrow> Coordinator \<times> string" where
  "Heartbeat c wid now =
     (case Workers c wid of
        Some w \<Rightarrow> (c\<lparr>Workers := (Workers c)(wid \<mapsto> w\<lparr>LastSeen := now\<rparr>)\<rparr>, ''ok'')
      | None \<Rightarrow> (c, ''ok''))"

definition deleteWorker :: "Coordinator \<Rightarrow> int \<Rightarrow> Coordinator go" where
  "deleteWorker c wid =
     (case Workers c wid of
        None \<Rightarrow> if Files c = [] then Inr (c\<lparr>Workers := (Workers c)(wid := None)\<rparr>) else Inl NilDeref
      | Some worker \<Rightarrow>
          Inr (c\<lparr>Workers := (Workers c)(wid := None),
                 Files := map (\<lambda>file. if Owner file = WorkerID worker \<and> Done file = False
                                       then file\<lparr>Assigned := False, Owner := -1\<rparr> else file) (Files c)\<rparr>))"

text \<open>
  One pass of \<open>scanWorkers\<close>; \<open>ids\<close> is the order in which Go ranges over the map, and a worker
  that is no longer in the map is not visited.
\<close>

fun scan_pass :: "int \<Rightarrow> int list \<Rightarrow> Coordinator \<Rightarrow> Coordinator go" where
  "scan_pass now [] c = Inr c"
| "scan_pass now (wid # ids) c =
     (case Workers c wid of
        None \<Rightarrow> scan_pass now ids c
      | Some worker \<Rightarrow>
          if now - LastSeen worker > 10 * 1000000000
          then bind_go (deleteWorker c wid) (scan_pass now ids)
          else scan_pass now ids c)"

definition Coordinator_Done :: "Coordinator \<Rightarrow> bool" where
  "Coordinator_Done c = allFinished c"


subsection \<open>Runs\<close>

text \<open>
  The steps of a running coordinator. A worker only uses an identifier that \<open>Register\<close> gave it;
  it may report any task index, and any worker may be silent for any time. There is no step
  after a panic.
\<close>

inductive coord_step :: "Coordinator \<Rightarrow> Coordinator \<Rightarrow> bool" where
  register: "coord_step c (fst (Register c now))"
| report: "0 \<le> aWorkerID args \<Longrightarrow> aWorkerID args < Counter c \<Longrightarrow> Report c args = Inr (c', r) \<Longrightarrow> coord_step c c'"
| heartbeat: "coord_step c (fst (Heartbeat c wid now))"
| scan: "scan_pass now wids c = Inr c' \<Longrightarrow> coord_step c c'"

definition type_done :: "string \<Rightarrow> Coordinator \<Rightarrow> bool" where
  "type_done ty c \<longleftrightarrow> (\<forall>f\<in>set (Files c). Type f = ty \<longrightarrow> Done f)"

definition all_done :: "Coordinator \<Rightarrow> bool" where
  "all_done c \<longleftrightarrow> (\<forall>f\<in>set (Files c). Done f)"

definition file_ok :: "Coordinator \<Rightarrow> File \<Rightarrow> bool" where
  "file_ok c f \<longleftrightarrow> (Type f = StateMap \<or> Type f = StateReduce) \<and> (Done f \<longrightarrow> Assigned f) \<and>
     (if Assigned f then 0 \<le> Owner f \<and> Owner f < Counter c \<and> (Done f \<or> Owner f \<in> dom (Workers c))
      else Owner f = -1)"

definition workers_ok :: "Coordinator \<Rightarrow> bool" where
  "workers_ok c \<longleftrightarrow> 0 \<le> Counter c \<and>
     (\<forall>i w. Workers c i = Some w \<longrightarrow> WorkerID w = i \<and> 0 \<le> i \<and> i < Counter c)"

definition phase_ok :: "Coordinator \<Rightarrow> bool" where
  "phase_ok c \<longleftrightarrow>
     (State c = StateMap \<and> (\<forall>f\<in>set (Files c). Type f = StateReduce \<longrightarrow> \<not> Assigned f)) \<or>
     (State c = StateReduce \<and> type_done StateMap c) \<or>
     (State c = StateFinish \<and> type_done StateMap c \<and> type_done StateReduce c)"

definition coord_inv :: "Coordinator \<Rightarrow> bool" where
  "coord_inv c \<longleftrightarrow> list_all (file_ok c) (Files c) \<and> workers_ok c \<and> phase_ok c"

definition phase_rank :: "string \<Rightarrow> nat" where
  "phase_rank s = (if s = StateMap then 0 else if s = StateReduce then 1 else 2)"

definition file_le :: "File \<Rightarrow> File \<Rightarrow> bool" where
  "file_le f g \<longleftrightarrow> Name g = Name f \<and> Index g = Index f \<and> Type g = Type f \<and> (Done f \<longrightarrow> Done g)"

text \<open>The order in which a job advances: tasks stay done and phases do not go back.\<close>

definition coord_le :: "Coordinator \<Rightarrow> Coordinator \<Rightarrow> bool" where
  "coord_le c d \<longleftrightarrow> list_all2 file_le (Files c) (Files d) \<and> phase_rank (State c) \<le> phase_rank (State d) \<and>
     Counter c \<le> Counter d \<and> NReduce d = NReduce c"

lemma file_le_refl [simp]: "file_le f f"
  by (simp add: file_le_def)

lemma files_le_refl [simp]: "list_all2 file_le fs fs"
  by (simp add: list_all2_refl)

lemma coord_le_refl: "coord_le c c"
  by (simp add: coord_le_def)

lemma coord_le_trans: "coord_le c d \<Longrightarrow> coord_le d e \<Longrightarrow> coord_le c e"
proof -
  assume "coord_le c d" "coord_le d e"
  moreover then have "list_all2 file_le (Files c) (Files e)"
    by (intro list_all2_trans [of file_le file_le file_le "Files c" "Files d" "Files e"])
      (auto simp: coord_le_def file_le_def)
  ultimately show ?thesis by (auto simp: coord_le_def)
qed

subsection \<open>Handing out a task\<close>

definition free :: "string \<Rightarrow> File \<Rightarrow> bool" where
  "free ty f \<longleftrightarrow> Type f = ty \<and> \<not> Done f \<and> \<not> Assigned f"

definition owned :: "WorkerItem \<Rightarrow> File \<Rightarrow> File" where
  "owned wi f = f\<lparr>Assigned := True, Owner := WorkerID wi\<rparr>"

lemma take_task_None:
  "find_index (free ty) fs = None \<Longrightarrow>
    take_task ty w fs d = Inr (fs, None, d \<and> (\<forall>f\<in>set fs. Type f = ty \<longrightarrow> Done f))"
  by (induction fs arbitrary: d) (auto simp: free_def split: if_splits)

lemma take_task_Some:
  "find_index (free ty) fs = Some i \<Longrightarrow>
    \<exists>d'. take_task ty w fs d = (case w of None \<Rightarrow> Inl NilDeref
      | Some wi \<Rightarrow> Inr (fs[i := owned wi (fs ! i)], Some (owned wi (fs ! i)), d'))"
proof (induction fs arbitrary: d i)
  case (Cons f fs)
  show ?case
  proof (cases "free ty f")
    case True
    then show ?thesis using Cons.prems by (auto simp: free_def owned_def Let_def split: option.splits)
  next
    case False
    then obtain j where j: "find_index (free ty) fs = Some j" "i = Suc j"
      using Cons.prems by (auto split: option.splits)
    have nf: "\<not> (Type f = ty \<and> \<not> Done f \<and> \<not> Assigned f)" using False by (simp add: free_def)
    from Cons.IH [OF j(1), of "if Type f = ty \<and> \<not> Done f then False else d"] show ?thesis
      using nf j(2) by (auto split: option.splits)
  qed
qed simp


text \<open>The abstract scheduler: the task the next request gets, and the phase afterwards.\<close>

definition next_task :: "Coordinator \<Rightarrow> nat option" where
  "next_task c =
     (if State c = StateMap \<and> \<not> type_done StateMap c then find_index (free StateMap) (Files c)
      else find_index (free StateReduce) (Files c))"

definition next_state :: "Coordinator \<Rightarrow> string" where
  "next_state c =
     (if State c = StateMap \<and> \<not> type_done StateMap c then StateMap
      else if type_done StateReduce c then StateFinish
      else if State c = StateMap then StateReduce else State c)"

lemma doReduce_eq:
  "doReduce w c =
    (case find_index (free StateReduce) (Files c) of
       None \<Rightarrow> Inr (c\<lparr>State := (if type_done StateReduce c then StateFinish else State c)\<rparr>, no_File)
     | Some i \<Rightarrow> (case w of None \<Rightarrow> Inl NilDeref
        | Some wi \<Rightarrow> Inr (c\<lparr>Files := (Files c)[i := owned wi (Files c ! i)]\<rparr>, owned wi (Files c ! i))))"
proof (cases "find_index (free StateReduce) (Files c)")
  case None
  show ?thesis unfolding doReduce_def take_task_None [OF None] None by (auto simp: type_done_def Let_def)
next
  case (Some i)
  from take_task_Some [OF this, of w True] Some show ?thesis
    by (cases w) (auto simp del: bind_go_eq_Inr simp: doReduce_def)
qed

lemma same_State [simp]: "State c = s \<Longrightarrow> c\<lparr>State := s\<rparr> = c"
  by (cases c) simp

lemma free_type_done: "find_index (free ty) (Files c) = Some i \<Longrightarrow> \<not> type_done ty c"
  using find_index_SomeD [of "free ty" "Files c" i] nth_mem [of i "Files c"]
  unfolding type_done_def free_def by blast

theorem assign_eq:
  "assign w c =
    (case next_task c of
       None \<Rightarrow> Inr (c\<lparr>State := next_state c\<rparr>, no_File)
     | Some i \<Rightarrow> (case w of None \<Rightarrow> Inl NilDeref
        | Some wi \<Rightarrow> Inr (c\<lparr>State := next_state c, Files := (Files c)[i := owned wi (Files c ! i)]\<rparr>,
                       owned wi (Files c ! i))))"
proof (cases "State c = StateMap")
  case st: True
  show ?thesis
  proof (cases "find_index (free StateMap) (Files c)")
    case None
    have a: "assign w c = (if type_done StateMap c then doReduce w (c\<lparr>State := StateReduce\<rparr>) else Inr (c, no_File))"
      unfolding assign_def take_task_None [OF None] by (simp add: st type_done_def)
    show ?thesis
    proof (cases "type_done StateMap c")
      case True
      have n: "next_task c = find_index (free StateReduce) (Files c)" by (simp add: next_task_def True)
      have td: "type_done StateReduce (c\<lparr>State := StateReduce\<rparr>) = type_done StateReduce c"
        by (simp add: type_done_def)
      show ?thesis unfolding a n if_P [OF True] doReduce_eq td
        by (cases "find_index (free StateReduce) (Files c)"; cases w)
          (simp_all add: next_state_def True st free_type_done del: find_index_None)
    next
      case False
      then show ?thesis using a None by (simp add: next_task_def next_state_def st del: find_index_None)
    qed
  next
    case (Some i)
    have nd: "\<not> type_done StateMap c" by (rule free_type_done [OF Some])
    then have n: "next_task c = Some i" "next_state c = StateMap" by (simp_all add: next_task_def next_state_def st Some)
    from take_task_Some [OF Some, of w True] show ?thesis unfolding n
      by (cases w) (auto simp del: bind_go_eq_Inr simp: assign_def st)
  qed
next
  case False
  then have a: "assign w c = doReduce w c" "next_task c = find_index (free StateReduce) (Files c)"
    by (simp_all add: assign_def next_task_def)
  show ?thesis unfolding a doReduce_eq
    by (cases "find_index (free StateReduce) (Files c)"; cases w)
      (simp_all add: next_state_def False free_type_done del: find_index_None)
qed

definition marked :: "Coordinator \<Rightarrow> ReportArgs \<Rightarrow> Coordinator" where
  "marked c args = (if aFile args = -1 then c
     else c\<lparr>Files := mark_done (aFile args) (aWorkerID args) (Files c)\<rparr>)"

definition reply_to :: "ReportArgs \<Rightarrow> Coordinator \<Rightarrow> File \<Rightarrow> ReportReply" where
  "reply_to args c f =
     (if Name f \<noteq> [] then \<lparr>Response = ''doing'', rFile = f\<rparr>
      else if allFinished c then \<lparr>Response = ''done'', rFile = no_File\<rparr>
      else \<lparr>Response = ''wait'', rFile = (if aFile args = -1 then no_File else no_File\<lparr>Index := -1\<rparr>)\<rparr>)"

lemma Report_eq:
  "Report c args = bind_go (assign (Workers c (aWorkerID args)) (marked c args)) (\<lambda>(c', f). Inr (c', reply_to args c' f))"
  by (cases "assign (Workers c (aWorkerID args)) (marked c args)"; cases "aFile args = -1")
    (simp_all add: Report_def marked_def reply_to_def no_ReportReply_def Let_def split: prod.split)


lemma mark_done_rel:
  "list_all2 (\<lambda>f g. g = f \<or> Index f = k \<and> Owner f = wid \<and> \<not> Done f \<and> g = f\<lparr>Done := True, Assigned := True\<rparr>)
     fs (mark_done k wid fs)"
  by (induction fs) (auto intro: list_all2_refl)

lemma mark_done_le: "list_all2 file_le fs (mark_done k wid fs)"
  by (rule list_all2_mono [OF mark_done_rel]) (auto simp: file_le_def)

subsection \<open>The invariant\<close>

lemma type_done_le: "type_done ty c \<Longrightarrow> list_all2 file_le (Files c) (Files d) \<Longrightarrow> type_done ty d"
  by (auto simp: type_done_def file_le_def list_all2_conv_all_nth all_set_conv_all_nth)

lemma inv_marked:
  assumes "coord_inv c" and "0 \<le> aWorkerID args" "aWorkerID args < Counter c"
  shows "coord_inv (marked c args)"
proof (cases "aFile args = -1")
  case True
  then show ?thesis using assms by (simp add: marked_def)
next
  case False
  let ?w = "aWorkerID args"
  let ?d = "c\<lparr>Files := mark_done (aFile args) ?w (Files c)\<rparr>"
  note rel = mark_done_rel [of "aFile args" ?w "Files c"]
  have each: "\<exists>f\<in>set (Files c). g = f \<or> Owner f = ?w \<and> g = f\<lparr>Done := True, Assigned := True\<rparr>"
    if "g \<in> set (Files ?d)" for g
    using rel that by (fastforce simp: list_all2_conv_all_nth in_set_conv_nth)
  have ok: "file_ok c f" if "f \<in> set (Files c)" for f
    using assms(1) that by (simp add: coord_inv_def list_all_iff)
  have asg: "Assigned f" if "f \<in> set (Files c)" "Owner f = ?w" for f
    using ok [OF that(1)] that(2) assms(2) by (auto simp: file_ok_def split: if_splits)
  have "file_ok ?d g" if "g \<in> set (Files ?d)" for g
  proof -
    from each [OF that] obtain f where f: "f \<in> set (Files c)" "g = f \<or> Owner f = ?w \<and> g = f\<lparr>Done := True, Assigned := True\<rparr>"
      by (elim bexE)
    from f(2) ok [OF f(1)] asg [OF f(1)] assms(2,3) show ?thesis
      by (elim disjE) (simp_all add: file_ok_def)
  qed
  moreover have "phase_ok ?d"
  proof -
    have td: "type_done ty ?d" if "type_done ty c" for ty
      using type_done_le [OF that, of ?d] mark_done_le by simp
    have "\<forall>g\<in>set (Files ?d). Type g = StateReduce \<longrightarrow> \<not> Assigned g"
      if "\<forall>f\<in>set (Files c). Type f = StateReduce \<longrightarrow> \<not> Assigned f"
      using each that asg by fastforce
    then show ?thesis using assms(1) td by (auto simp: coord_inv_def phase_ok_def)
  qed
  ultimately show ?thesis using assms(1) False
    by (simp add: marked_def coord_inv_def workers_ok_def list_all_iff)
qed

lemma next_task_free: "next_task c = Some i \<Longrightarrow> i < length (Files c) \<and>
    free (if State c = StateMap \<and> \<not> type_done StateMap c then StateMap else StateReduce) (Files c ! i)"
  by (auto simp: next_task_def dest!: find_index_SomeD split: if_splits)

lemma inv_next_state: "coord_inv c \<Longrightarrow> coord_inv (c\<lparr>State := next_state c\<rparr>)"
  by (auto simp: coord_inv_def phase_ok_def file_ok_def workers_ok_def next_state_def type_done_def list_all_iff)

lemma inv_assign:
  assumes "coord_inv c" and "assign (Workers c wid) c = Inr (c', f)"
  shows "coord_inv c' \<and> coord_le c c' \<and> Workers c' = Workers c \<and> Counter c' = Counter c"
proof (cases "next_task c")
  case None
  then have c': "c' = c\<lparr>State := next_state c\<rparr>" using assms(2) by (simp add: assign_eq)
  have "phase_rank (State c) \<le> phase_rank (next_state c)"
    using assms(1) by (auto simp: phase_rank_def next_state_def coord_inv_def phase_ok_def)
  then show ?thesis using inv_next_state [OF assms(1)] by (simp add: c' coord_le_def)
next
  case (Some i)
  then obtain wi where wi: "Workers c wid = Some wi" using assms(2) by (auto simp: assign_eq split: option.splits)
  let ?g = "owned wi (Files c ! i)"
  have c': "c' = c\<lparr>State := next_state c, Files := (Files c)[i := ?g]\<rparr>"
    using assms(2) Some wi by (auto simp: assign_eq)
  note fr = next_task_free [OF Some]
  have old: "coord_inv (c\<lparr>State := next_state c\<rparr>)" by (rule inv_next_state [OF assms(1)])
  have w: "WorkerID wi = wid" "0 \<le> wid" "wid < Counter c"
    using assms(1) wi by (auto simp: coord_inv_def workers_ok_def)
  have gok: "file_ok c' ?g"
    using fr old w wi by (auto simp: file_ok_def owned_def free_def c' split: if_splits)
  have sub: "set (Files c') \<subseteq> insert ?g (set (Files c))" by (simp add: c' set_update_subset_insert)
  have "\<forall>f\<in>set (Files c). file_ok c' f"
    using old by (auto simp: coord_inv_def list_all_iff file_ok_def c')
  then have files: "list_all (file_ok c') (Files c')" using gok sub by (auto simp: list_all_iff)
  have le: "list_all2 file_le (Files c) (Files c')"
    using fr by (auto simp: c' list_all2_conv_all_nth nth_list_update file_le_def owned_def)
  have "phase_ok c'"
  proof (cases "next_state c = StateMap")
    case True
    then have "Type ?g = StateMap" using fr by (auto simp: next_state_def owned_def free_def split: if_splits)
    moreover have "\<forall>f\<in>set (Files c). Type f = StateReduce \<longrightarrow> \<not> Assigned f"
      using old True by (auto simp: coord_inv_def phase_ok_def)
    ultimately show ?thesis using sub True by (auto simp: phase_ok_def c')
  next
    case False
    have td: "type_done ty c'" if "type_done ty c" for ty using type_done_le [OF that le] .
    then show ?thesis using old False by (auto simp: coord_inv_def phase_ok_def c' type_done_def)
  qed
  moreover have "phase_rank (State c) \<le> phase_rank (next_state c)"
    using assms(1) by (auto simp: phase_rank_def next_state_def coord_inv_def phase_ok_def)
  ultimately show ?thesis using files le assms(1) by (auto simp: coord_inv_def workers_ok_def coord_le_def c')
qed


definition keeps_job :: "Coordinator \<Rightarrow> Coordinator \<Rightarrow> bool" where
  "keeps_job c d \<longleftrightarrow> coord_inv d \<and> coord_le c d"

lemma inv_Register:
  assumes "coord_inv c"
  shows "keeps_job c (fst (Register c now))"
proof -
  have "workers_ok (fst (Register c now))"
    using assms by (force simp: coord_inv_def workers_ok_def Register_def Let_def)
  moreover have "list_all (file_ok (fst (Register c now))) (Files c)"
    using assms by (auto simp: coord_inv_def file_ok_def Register_def Let_def list_all_iff)
  moreover have "phase_ok (fst (Register c now)) = phase_ok c"
    by (simp add: phase_ok_def type_done_def Register_def Let_def)
  ultimately show ?thesis using assms
    by (simp add: keeps_job_def coord_inv_def coord_le_def Register_def Let_def)
qed

lemma inv_Heartbeat: "coord_inv c \<Longrightarrow> keeps_job c (fst (Heartbeat c wid now))"
  by (cases "Workers c wid")
    (auto simp: keeps_job_def coord_inv_def coord_le_def Heartbeat_def phase_ok_def type_done_def
      workers_ok_def file_ok_def list_all_iff)

lemma inv_Report:
  assumes "coord_inv c" and "0 \<le> aWorkerID args" "aWorkerID args < Counter c" and "Report c args = Inr (c', r)"
  shows "keeps_job c c'"
proof -
  obtain f where a: "assign (Workers c (aWorkerID args)) (marked c args) = Inr (c', f)"
    using assms(4) by (auto simp: Report_eq)
  have "Workers (marked c args) = Workers c" by (simp add: marked_def)
  moreover have "coord_le c (marked c args)" by (simp add: marked_def coord_le_def mark_done_le)
  ultimately show ?thesis
    using inv_assign [OF inv_marked [OF assms(1-3)], of "aWorkerID args" c' f] a coord_le_trans by (simp add: keeps_job_def)
qed

definition released :: "int \<Rightarrow> File \<Rightarrow> File" where
  "released wid f = (if Owner f = wid \<and> \<not> Done f then f\<lparr>Assigned := False, Owner := -1\<rparr> else f)"

lemma deleteWorker_inv_eq:
  assumes "coord_inv c" and "Workers c wid \<noteq> None"
  shows "deleteWorker c wid = Inr (c\<lparr>Workers := (Workers c)(wid := None), Files := map (released wid) (Files c)\<rparr>)"
  using assms by (auto simp: deleteWorker_def coord_inv_def workers_ok_def released_def)

lemma inv_deleteWorker:
  assumes "coord_inv c" and "Workers c wid \<noteq> None"
  shows "\<exists>d. deleteWorker c wid = Inr d \<and> keeps_job c d"
proof -
  let ?d = "c\<lparr>Workers := (Workers c)(wid := None), Files := map (released wid) (Files c)\<rparr>"
  have le: "list_all2 file_le (Files c) (Files ?d)"
    by (simp add: list_all2_conv_all_nth file_le_def released_def)
  have td: "type_done ty ?d" if "type_done ty c" for ty using type_done_le [OF that le] .
  have ok: "file_ok ?d (released wid f)" if "file_ok c f" for f
    using that by (auto simp: file_ok_def released_def split: if_splits)
  have red: "Assigned (released wid f) \<Longrightarrow> Assigned f" "Type (released wid f) = Type f" for f
    by (simp_all add: released_def split: if_splits)
  have "list_all (file_ok ?d) (Files ?d)" using assms(1) ok by (auto simp: coord_inv_def list_all_iff)
  moreover have "phase_ok ?d"
    using assms(1) td red by (auto simp: coord_inv_def phase_ok_def)
  moreover have "workers_ok ?d" using assms(1) by (auto simp: coord_inv_def workers_ok_def)
  ultimately have "keeps_job c ?d" using le by (simp add: keeps_job_def coord_inv_def coord_le_def)
  then show ?thesis using deleteWorker_inv_eq [OF assms] by simp
qed

lemma keeps_job_trans: "keeps_job c d \<Longrightarrow> keeps_job d e \<Longrightarrow> keeps_job c e"
  using coord_le_trans by (auto simp: keeps_job_def)

lemma inv_scan: "coord_inv c \<Longrightarrow> \<exists>d. scan_pass now wids c = Inr d \<and> keeps_job c d"
proof (induction wids arbitrary: c)
  case Nil
  then show ?case by (simp add: keeps_job_def coord_le_refl)
next
  case (Cons wid wids)
  show ?case
  proof (cases "\<exists>w. Workers c wid = Some w \<and> now - LastSeen w > 10 * 1000000000")
    case True
    then obtain w where w: "Workers c wid = Some w" "now - LastSeen w > 10 * 1000000000" by (elim exE conjE)
    from inv_deleteWorker [OF Cons.prems, of wid] w(1) obtain d where
      d: "deleteWorker c wid = Inr d" "keeps_job c d" by auto
    then obtain e where "scan_pass now wids d = Inr e" "keeps_job d e"
      using Cons.IH [of d] by (auto simp: keeps_job_def)
    then show ?thesis using w d keeps_job_trans by auto
  next
    case False
    then have "scan_pass now (wid # wids) c = scan_pass now wids c" by (auto split: option.splits)
    then show ?thesis using Cons by simp
  qed
qed

interpretation coordinator: step_invariant coord_step coord_inv coord_le
proof
  have k: "keeps_job s t" if "coord_inv s" "coord_step s t" for s t
    using that(2,1)
  proof cases
    case (scan now wids)
    then show ?thesis using inv_scan [OF that(1), of now wids] by auto
  qed (use that(1) inv_Register inv_Heartbeat inv_Report in auto)
  show "coord_inv s \<Longrightarrow> coord_step s t \<Longrightarrow> coord_inv t" "coord_inv s \<Longrightarrow> coord_step s t \<Longrightarrow> coord_le s t" for s t
    using k by (auto simp: keeps_job_def)
qed (rule coord_le_refl, rule coord_le_trans)

lemma init_inv: "coord_inv (MakeCoordinator files n)"
  by (auto simp: coord_inv_def MakeCoordinator_def Let_def list_all_iff file_ok_def map_file_def reduce_file_def
      workers_ok_def phase_ok_def)


lemma coord_reach_inv: "coord_step\<^sup>*\<^sup>* (MakeCoordinator files n) c \<Longrightarrow> coord_inv c"
  by (rule coordinator.reach_inv [OF _ init_inv])

lemma type_done_all: "coord_inv c \<Longrightarrow> type_done StateMap c \<Longrightarrow> type_done StateReduce c \<Longrightarrow> all_done c"
  by (auto simp: all_done_def type_done_def coord_inv_def list_all_iff file_ok_def)

lemma finish_all_done: "coord_inv c \<Longrightarrow> State c = StateFinish \<Longrightarrow> all_done c"
  by (auto simp: coord_inv_def phase_ok_def intro: type_done_all)

lemma Report_doing:
  assumes "coord_inv c" and "0 \<le> aWorkerID args" "aWorkerID args < Counter c"
    and "Report c args = Inr (c', r)" and "Response r = ''doing''"
  obtains i where "next_task (marked c args) = Some i" and "i < length (Files c')"
    and "Files c' = (Files (marked c args))[i := rFile r]" and "State c' = next_state (marked c args)"
    and "rFile r = (Files (marked c args) ! i)\<lparr>Assigned := True, Owner := aWorkerID args\<rparr>"
proof -
  let ?m = "marked c args"
  obtain f where a: "assign (Workers c (aWorkerID args)) ?m = Inr (c', f)" and r: "r = reply_to args c' f"
    using assms(4) by (auto simp: Report_eq)
  have n: "Name f \<noteq> []" "rFile r = f" using assms(5) r by (auto simp: reply_to_def split: if_splits)
  have "next_task ?m \<noteq> None"
  proof
    assume "next_task ?m = None"
    then have "f = no_File" using a by (simp add: assign_eq)
    then show False using n(1) by (simp add: no_File_def)
  qed
  then obtain i where i: "next_task ?m = Some i" by (elim not_None_eq [THEN iffD1, THEN exE])
  then obtain wi where wi: "Workers c (aWorkerID args) = Some wi" using a by (auto simp: assign_eq split: option.splits)
  then have wid: "WorkerID wi = aWorkerID args" using assms(1) by (auto simp: coord_inv_def workers_ok_def)
  have c': "c' = ?m\<lparr>State := next_state ?m, Files := (Files ?m)[i := f]\<rparr>" and f: "f = owned wi (Files ?m ! i)"
    using a i wi by (auto simp: assign_eq)
  show ?thesis
    by (rule that [of i]) (use i next_task_free [OF i] n(2) f wid in \<open>simp_all add: c' owned_def\<close>)
qed



text \<open>
  Removing dead workers never panics and leaves no task behind: in every run each task
  that is assigned and not done has an owner that is still registered, so the tasks of a removed
  worker are free again, while its finished tasks stay done.\<close>

theorem dead_workers_release_tasks:
  assumes "coord_step\<^sup>*\<^sup>* (MakeCoordinator files n) c"
  shows "\<exists>d. scan_pass now wids c = Inr d \<and>
    (\<forall>f\<in>set (Files d). Assigned f \<and> \<not> Done f \<longrightarrow> Owner f \<in> dom (Workers d)) \<and>
    list_all2 file_le (Files c) (Files d)"
proof -
  from inv_scan [OF coord_reach_inv [OF assms], of now wids] obtain d where
    d: "scan_pass now wids c = Inr d" "keeps_job c d" by auto
  then show ?thesis by (auto simp: keeps_job_def coord_inv_def coord_le_def list_all_iff file_ok_def)
qed

text \<open>
  Property C40. A worker that was removed, or never registered, brings the coordinator down: when a
  task is free, its next \<open>Report\<close> dereferences the missing entry of the worker table.\<close>

theorem removed_worker_report_panics:
  assumes "Workers c (aWorkerID args) = None" and "next_task (marked c args) \<noteq> None"
  shows "Report c args = Inl NilDeref"
  using assms by (auto simp: Report_eq assign_eq)


subsection \<open>One live worker finishes the job\<close>

text \<open>
  The requests of the loop in \<open>Worker\<close>: report the task just finished and go on with the task of
  the reply, at most \<open>n\<close> times.
\<close>

fun work :: "nat \<Rightarrow> Coordinator \<Rightarrow> int \<Rightarrow> int \<Rightarrow> (Coordinator \<times> string) go" where
  "work 0 c wid k = Inr (c, [])"
| "work (Suc n) c wid k =
     bind_go (Report c \<lparr>aWorkerID = wid, aFile = k\<rparr>) (\<lambda>(c', r).
       if Response r = ''doing'' then work n c' wid (Index (rFile r)) else Inr (c', Response r))"

definition undone :: "Coordinator \<Rightarrow> nat" where
  "undone c = length (filter (\<lambda>f. \<not> Done f) (Files c))"

definition busy :: "File \<Rightarrow> bool" where
  "busy f \<longleftrightarrow> Assigned f \<and> \<not> Done f"

definition job_ok :: "Coordinator \<Rightarrow> bool" where
  "job_ok c \<longleftrightarrow> distinct (map Index (Files c)) \<and> (\<forall>f\<in>set (Files c). 0 \<le> Index f \<and> Name f \<noteq> [])"

lemma mark_done_count:
  assumes "f \<in> set fs" "Index f = k" "Owner f = wid" "\<not> Done f"
  shows "Suc (length (filter (\<lambda>f. \<not> Done f) (mark_done k wid fs))) = length (filter (\<lambda>f. \<not> Done f) fs)"
  using assms by (induction fs) auto

lemma mark_done_index [simp]: "map Index (mark_done k wid fs) = map Index fs"
  by (induction fs) auto

lemma mark_done_idle:
  assumes "distinct (map Index fs)" and "\<forall>f\<in>set fs. busy f \<longrightarrow> Index f = k \<and> Owner f = wid"
  shows "\<forall>f\<in>set (mark_done k wid fs). \<not> busy f"
  using assms by (induction fs) (auto simp: busy_def image_iff, metis+)

lemma job_ok_le: "job_ok c \<Longrightarrow> coord_le c d \<Longrightarrow> job_ok d"
proof -
  assume a: "job_ok c" "coord_le c d"
  then have len: "length (Files c) = length (Files d)" by (auto simp: coord_le_def dest: list_all2_lengthD)
  have i: "map Index (Files d) = map Index (Files c)"
    using a(2) len by (intro nth_equalityI) (auto simp: coord_le_def file_le_def list_all2_conv_all_nth)
  then have "0 \<le> Index (Files d ! j) \<and> Name (Files d ! j) \<noteq> []" if "j < length (Files d)" for j
    using a that len by (auto simp: coord_le_def file_le_def list_all2_conv_all_nth job_ok_def all_set_conv_all_nth)
  then show ?thesis using a(1) i by (auto simp: job_ok_def all_set_conv_all_nth)
qed

lemma idle_next:
  assumes inv: "coord_inv m" and job: "job_ok m" and idle: "\<forall>f\<in>set (Files m). \<not> busy f"
    and w: "Workers m wid = Some wi" and a: "assign (Some wi) m = Inr (c', f)"
  shows "if undone m = 0 then State c' = StateFinish \<and> f = no_File
    else Name f \<noteq> [] \<and> undone c' = undone m \<and> f \<in> set (Files c') \<and> \<not> Done f \<and> Owner f = wid \<and>
      (\<forall>g\<in>set (Files c'). busy g \<longrightarrow> g = f)"
proof (cases "next_task m")
  case None
  have nf: "type_done ty m" if "find_index (free ty) (Files m) = None" for ty
    using that idle by (auto simp: type_done_def free_def busy_def)
  have td: "type_done StateMap m \<and> type_done StateReduce m"
  proof (cases "State m = StateMap \<and> \<not> type_done StateMap m")
    case True
    then show ?thesis using None nf [of StateMap] by (simp add: next_task_def)
  next
    case False
    then show ?thesis using None nf [of StateReduce] inv by (auto simp: next_task_def coord_inv_def phase_ok_def)
  qed
  then have "undone m = 0" using type_done_all [OF inv] by (auto simp: undone_def all_done_def filter_empty_conv)
  moreover have "State c' = StateFinish \<and> f = no_File" using a None td by (auto simp: assign_eq next_state_def)
  ultimately show ?thesis by simp
next
  case (Some i)
  note fr = next_task_free [OF Some]
  have c': "Files c' = (Files m)[i := f]" "f = owned wi (Files m ! i)" using a Some by (auto simp: assign_eq)
  have mem: "Files m ! i \<in> set (Files m)" using fr by simp
  have nd: "\<not> Done (Files m ! i)" using fr by (simp add: free_def)
  then have "undone m \<noteq> 0" using mem by (auto simp: undone_def filter_empty_conv)
  moreover have "undone c' = undone m"
    using length_filter_update [of i "Files m" "\<lambda>f. \<not> Done f" f] fr nd by (auto simp: undone_def c' owned_def)
  moreover have "g = f" if "g \<in> set (Files c')" "busy g" for g
    using that idle set_update_subset_insert [of "Files m" i f] by (auto simp: c'(1))
  moreover have "f \<in> set (Files c')" using fr by (simp add: c'(1) set_update_memI)
  moreover have "WorkerID wi = wid" using inv w by (auto simp: coord_inv_def workers_ok_def)
  ultimately show ?thesis using job mem nd by (auto simp: c'(2) owned_def job_ok_def)
qed


lemma marked_idle:
  assumes "job_ok c" and "\<forall>f\<in>set (Files c). busy f \<longrightarrow> Index f = k \<and> Owner f = wid"
  shows "\<forall>f\<in>set (Files (marked c \<lparr>aWorkerID = wid, aFile = k\<rparr>)). \<not> busy f"
proof (cases "k = -1")
  case True
  then show ?thesis using assms by (auto simp: marked_def job_ok_def)
next
  case False
  then show ?thesis using mark_done_idle [of "Files c" k wid] assms by (simp add: marked_def job_ok_def)
qed

lemma work_Suc:
  assumes "Workers c wid = Some wi" and "assign (Some wi) (marked c \<lparr>aWorkerID = wid, aFile = k\<rparr>) = Inr (d, f)"
  shows "work (Suc n) c wid k = (if Name f \<noteq> [] then work n d wid (Index f)
    else Inr (d, if allFinished d then ''done'' else ''wait''))"
  by (simp add: Report_eq reply_to_def assms del: bind_go_eq_Inr)

lemma marked_keeps:
  assumes "coord_inv c" and "job_ok c" and "Workers c wid = Some wi"
  shows "coord_inv (marked c \<lparr>aWorkerID = wid, aFile = k\<rparr>) \<and> job_ok (marked c \<lparr>aWorkerID = wid, aFile = k\<rparr>) \<and>
    Workers (marked c \<lparr>aWorkerID = wid, aFile = k\<rparr>) wid = Some wi"
proof -
  let ?m = "marked c \<lparr>aWorkerID = wid, aFile = k\<rparr>"
  have "0 \<le> wid" "wid < Counter c" using assms(1,3) by (auto simp: coord_inv_def workers_ok_def)
  then have "coord_inv ?m" using assms(1) by (intro inv_marked) simp_all
  moreover have "job_ok ?m" by (rule job_ok_le [OF assms(2)]) (simp add: marked_def coord_le_def mark_done_le)
  ultimately show ?thesis using assms(3) by (simp add: marked_def)
qed

lemma work_finishes:
  assumes "coord_inv c" and "job_ok c" and "Workers c wid = Some wi"
    and "\<forall>f\<in>set (Files c). busy f \<longrightarrow> Index f = k \<and> Owner f = wid"
    and "undone (marked c \<lparr>aWorkerID = wid, aFile = k\<rparr>) \<le> n"
  shows "\<exists>d. work (Suc n) c wid k = Inr (d, ''done'') \<and> coord_inv d \<and> State d = StateFinish"
  using assms
proof (induction n arbitrary: c k)
  case (0 c k)
  let ?m = "marked c \<lparr>aWorkerID = wid, aFile = k\<rparr>"
  note m = marked_keeps [OF "0.prems"(1-3), of k]
  obtain d f where a: "assign (Some wi) ?m = Inr (d, f)" by (fastforce simp: assign_eq split: option.splits)
  have "State d = StateFinish \<and> f = no_File"
    using idle_next [OF _ _ marked_idle [OF "0.prems"(2,4)] _ a, of wid] m "0.prems"(5) by simp
  moreover have "coord_inv d" using inv_assign [of ?m wid d f] m a by simp
  ultimately show ?case using work_Suc [OF "0.prems"(3) a, of 0] by (simp add: no_File_def allFinished_def del: work.simps)
next
  case (Suc n c k)
  let ?m = "marked c \<lparr>aWorkerID = wid, aFile = k\<rparr>"
  note m = marked_keeps [OF Suc.prems(1-3), of k]
  obtain d f where a: "assign (Some wi) ?m = Inr (d, f)" by (fastforce simp: assign_eq split: option.splits)
  note nx = idle_next [OF _ _ marked_idle [OF Suc.prems(2,4)] _ a, of wid]
  note ws = work_Suc [OF Suc.prems(3) a, of "Suc n"]
  have d: "coord_inv d" "coord_le ?m d" "Workers d wid = Some wi" using inv_assign [of ?m wid d f] m a by simp_all
  show ?case
  proof (cases "undone ?m = 0")
    case True
    then have "State d = StateFinish \<and> f = no_File" using nx m by simp
    then show ?thesis using ws d(1) by (simp add: no_File_def allFinished_def del: work.simps)
  next
    case False
    then have f: "Name f \<noteq> []" "undone d = undone ?m" "f \<in> set (Files d)" "\<not> Done f" "Owner f = wid"
      "\<forall>g\<in>set (Files d). busy g \<longrightarrow> g = f" using nx m by simp_all
    have job: "job_ok d" using job_ok_le [of ?m d] m d(2) by simp
    then have i: "Index f \<noteq> -1" using f(3) by (auto simp: job_ok_def)
    have "Suc (undone (marked d \<lparr>aWorkerID = wid, aFile = Index f\<rparr>)) = undone d"
      using mark_done_count [OF f(3) refl f(5) f(4)] i by (simp add: undone_def marked_def)
    then have "undone (marked d \<lparr>aWorkerID = wid, aFile = Index f\<rparr>) \<le> n" using f(2) Suc.prems(5) by simp
    from Suc.IH [OF d(1) job d(3) _ this] f(5,6) show ?thesis using ws f(1) by (auto simp del: work.simps)
  qed
qed

lemma job_ok_Make: "[] \<notin> set files \<Longrightarrow> job_ok (MakeCoordinator files n)"
  by (auto simp: job_ok_def MakeCoordinator_def Let_def map_file_def reduce_file_def distinct_map inj_on_def
      in_set_conv_nth)

text \<open>
  Property C9. The job finishes as long as one worker survives: from every reachable state in which
  no task is in the hands of a worker (the others are done or were removed), a registered worker
  that keeps reporting gets the answer \<open>done\<close> after at most one request per open task and one more,
  no request panics, and then every task is done and \<open>Done()\<close> is true.\<close>

theorem one_worker_finishes:
  assumes "coord_step\<^sup>*\<^sup>* (MakeCoordinator files n) c" and "[] \<notin> set files"
    and "Workers c wid \<noteq> None" and "\<forall>f\<in>set (Files c). \<not> busy f"
  shows "\<exists>d. work (Suc (undone c)) c wid (-1) = Inr (d, ''done'') \<and> all_done d \<and> Coordinator_Done d"
proof -
  obtain wi where wi: "Workers c wid = Some wi" using assms(3) by (elim not_None_eq [THEN iffD1, THEN exE])
  have inv: "coord_inv c" by (rule coord_reach_inv [OF assms(1)])
  have "job_ok c" using job_ok_le job_ok_Make assms(2) coordinator.reach_le [OF assms(1) init_inv] by blast
  from work_finishes [OF inv this wi, of "-1" "undone c"] assms(4) obtain d where
    d: "work (Suc (undone c)) c wid (-1) = Inr (d, ''done'')" "coord_inv d" "State d = StateFinish"
    by (auto simp: marked_def)
  have "all_done d \<and> Coordinator_Done d"
    using d(2,3) finish_all_done by (simp add: Coordinator_Done_def allFinished_def)
  then show ?thesis using d(1) by blast
qed

subsection \<open>Concrete runs\<close>

definition demo :: Coordinator where
  "demo = fst (Register (MakeCoordinator [''a''] 1) 0)"

lemma demo_eq: "demo = \<lparr>State = StateMap, Counter = 1,
    Files = [map_file 0 ''a'', reduce_file 1 0], NReduce = 1, Workers = [0 \<mapsto> no_WorkerItem]\<rparr>"
  by (simp add: demo_def Register_def MakeCoordinator_def no_WorkerItem_def Let_def)

lemma demo_reached: "coord_step\<^sup>*\<^sup>* (MakeCoordinator [''a''] 1) demo"
  unfolding demo_def by (rule r_into_rtranclp) (rule coord_step.register)

definition demo_args :: ReportArgs where
  "demo_args = \<lparr>aWorkerID = 0, aFile = -1\<rparr>"

definition demo_file :: File where
  "demo_file = (map_file 0 ''a'')\<lparr>Assigned := True, Owner := 0\<rparr>"

lemma demo_report: "Report demo demo_args =
    Inr (demo\<lparr>Files := [demo_file, reduce_file 1 0]\<rparr>, \<lparr>Response = ''doing'', rFile = demo_file\<rparr>)"
  by (simp add: demo_eq demo_args_def demo_file_def Report_def assign_def map_file_def Let_def no_ReportReply_def
      no_WorkerItem_def)



theorem dead_workers_release_tasks_witness:
  "\<exists>d. scan_pass 20000000000 [0] demo = Inr d \<and> list_all2 file_le (Files demo) (Files d)"
  using dead_workers_release_tasks [OF demo_reached, of 20000000000 "[0]"] by blast

theorem removed_worker_report_panics_witness:
  "Report (MakeCoordinator [''a''] 1) demo_args = Inl NilDeref"
  by (rule removed_worker_report_panics)
    (simp_all add: MakeCoordinator_def demo_args_def marked_def next_task_def type_done_def map_file_def free_def Let_def)

theorem one_worker_finishes_witness:
  "\<exists>d. work (Suc (undone demo)) demo 0 (-1) = Inr (d, ''done'') \<and> all_done d \<and> Coordinator_Done d"
  by (rule one_worker_finishes [OF demo_reached])
    (simp_all add: demo_eq map_file_def reduce_file_def busy_def)

end
