(* ===== verification/Mr_Worker.thy ===== *)
theory Mr_Worker
  imports Mr_Coordinator
begin

text \<open>
  The MapReduce worker, \<open>mr/worker.go\<close>, the sequential reference program
  \<open>main/mrsequential.go\<close> and the applications of \<open>mrapps\<close>. The shared directory is three maps:
  the input files, the intermediate files (a JSON stream of key/value pairs is the list of the
  pairs) and the output files (the lines written, in order). The sorting routine of the standard
  library, which is not stable, is the argument \<open>srt\<close>; what is used of it is \<open>key_sort\<close>. The
  locale \<open>mapreduce\<close> relates a job of many tasks to the sequential program for every application
  whose \<open>Reduce\<close> does not depend on the order of the values.
\<close>

subsection \<open>Data and names\<close>

record KeyValue =
  Key :: string
  Value :: string

record fsys =
  inputs :: "string \<rightharpoonup> string"
  inter :: "string \<rightharpoonup> KeyValue list"
  outs :: "string \<rightharpoonup> string list"

definition ihash :: "string \<Rightarrow> int" where
  "ihash key = int (unat (fnv32a key AND 0x7fffffff))"

definition inter_name :: "int \<Rightarrow> int \<Rightarrow> string" where
  "inter_name i r = ''mr-'' @ itoa i @ ''-'' @ itoa r"

definition out_name :: "int \<Rightarrow> string" where
  "out_name r = ''mr-out-'' @ itoa r"

definition Read :: "fsys \<Rightarrow> string \<Rightarrow> string go" where
  "Read fs name = (case inputs fs name of None \<Rightarrow> Inl LogFatal | Some data \<Rightarrow> Inr data)"

subsection \<open>The map task\<close>

fun encode_all :: "int \<Rightarrow> KeyValue list \<Rightarrow> KeyValue list list \<Rightarrow> (KeyValue list list) go" where
  "encode_all n [] enc = Inr enc"
| "encode_all n (kv # kva) enc =
     (if n = 0 then Inl DivideByZero
      else let r = nat (ihash (Key kv) mod n) in
        if r < length enc then encode_all n kva (enc[r := enc ! r @ [kv]])
        else Inl IndexOutOfRange)"

definition run_map :: "(string \<Rightarrow> string \<Rightarrow> KeyValue list) \<Rightarrow> WorkerItem \<Rightarrow> fsys \<Rightarrow> fsys go" where
  "run_map mapf w fs =
     bind_go (Read fs (Name (wFile w))) (\<lambda>contents.
       let kva = mapf (Name (wFile w)) contents;
           empty = replicate (nat (wNReduce w)) [] in
       bind_go (encode_all (wNReduce w) kva empty) (\<lambda>enc.
         Inr (fs\<lparr>inter := inter fs ++ map_of (map (\<lambda>r. (inter_name (Index (wFile w)) (int r), enc ! r))
                                               [0..<nat (wNReduce w)])\<rparr>)))"

subsection \<open>The reduce task\<close>

fun collect :: "fsys \<Rightarrow> int \<Rightarrow> nat list \<Rightarrow> (KeyValue list) go" where
  "collect fs r [] = Inr []"
| "collect fs r (i # is) =
     (case inter fs (inter_name (int i) r) of
        None \<Rightarrow> Inl LogFatal
      | Some kvs \<Rightarrow> bind_go (collect fs r is) (\<lambda>rest. Inr (kvs @ rest)))"

text \<open>The inner loop: the end of the run of pairs with the key of position \<open>i\<close>.\<close>

function group_end :: "KeyValue list \<Rightarrow> nat \<Rightarrow> nat \<Rightarrow> nat" where
  "group_end kvs i j =
     (if j < length kvs \<and> Key (kvs ! j) = Key (kvs ! i) then group_end kvs i (j + 1) else j)"
  by auto
termination by (relation "measure (\<lambda>(kvs, i, j). length kvs - j)") auto

declare group_end.simps [simp del]

lemma group_end_ge: "j \<le> group_end kvs i j"
proof (induction kvs i j rule: group_end.induct)
  case (1 kvs i j)
  then show ?case by (subst group_end.simps) auto
qed

definition out_line :: "string \<Rightarrow> string \<Rightarrow> string" where
  "out_line key output = key @ '' '' @ output @ [CHR 0x0A]"

function reduce_from :: "(string \<Rightarrow> string list \<Rightarrow> string) \<Rightarrow> KeyValue list \<Rightarrow> nat \<Rightarrow> string list" where
  "reduce_from reducef kvs i =
     (if i < length kvs then
        let j = group_end kvs i (i + 1);
            values = map (\<lambda>k. Value (kvs ! k)) [i..<j];
            output = reducef (Key (kvs ! i)) values in
        out_line (Key (kvs ! i)) output # reduce_from reducef kvs j
      else [])"
  by auto
termination
proof (relation "measure (\<lambda>(f, kvs, i). length kvs - i)")
  fix reducef :: "string \<Rightarrow> string list \<Rightarrow> string" and kvs :: "KeyValue list" and i x
  assume "i < length kvs" and "x = group_end kvs i (i + 1)"
  then show "((reducef, kvs, x), (reducef, kvs, i)) \<in> measure (\<lambda>(f, kvs, i). length kvs - i)"
    using group_end_ge [of "i + 1" kvs i] by simp
qed simp

declare reduce_from.simps [simp del]

definition run_reduce :: "(string \<Rightarrow> string list \<Rightarrow> string) \<Rightarrow> (KeyValue list \<Rightarrow> KeyValue list) \<Rightarrow>
    WorkerItem \<Rightarrow> fsys \<Rightarrow> fsys go" where
  "run_reduce reducef srt w fs =
     (let r = Index (wFile w) - wNMap w in
      bind_go (collect fs r [0..<nat (wNMap w)]) (\<lambda>kvs.
        let intermediate = srt kvs;
            old = (case outs fs (out_name r) of None \<Rightarrow> [] | Some ls \<Rightarrow> ls) in
        Inr (fs\<lparr>outs := (outs fs)(out_name r \<mapsto> old @ reduce_from reducef intermediate 0)\<rparr>)))"

subsection \<open>The worker loop\<close>

definition register :: "WorkerItem \<Rightarrow> RegisterReply \<Rightarrow> WorkerItem" where
  "register w reply = w\<lparr>WorkerID := rWorkerID reply, wNReduce := rNReduce reply, wNMap := rNMap reply\<rparr>"

definition report :: "WorkerItem \<Rightarrow> ReportArgs" where
  "report w = (if Name (wFile w) = [] then \<lparr>aWorkerID = WorkerID w, aFile = -1\<rparr>
     else \<lparr>aWorkerID = WorkerID w, aFile = Index (wFile w)\<rparr>)"

text \<open>One iteration after the reply \<open>res\<close>: whether the loop is left, the worker and the directory.\<close>

definition Worker_iter :: "(string \<Rightarrow> string \<Rightarrow> KeyValue list) \<Rightarrow> (string \<Rightarrow> string list \<Rightarrow> string) \<Rightarrow>
    (KeyValue list \<Rightarrow> KeyValue list) \<Rightarrow> WorkerItem \<Rightarrow> ReportReply \<Rightarrow> fsys \<Rightarrow> (bool \<times> WorkerItem \<times> fsys) go" where
  "Worker_iter mapf reducef srt w res fs =
     (if Response res = ''done'' then Inr (True, w, fs)
      else if Response res = ''wait'' then Inr (False, w\<lparr>wFile := no_File\<lparr>Index := -1\<rparr>\<rparr>, fs)
      else
        let w = w\<lparr>wFile := rFile res\<rparr> in
        if Type (wFile w) = StateMap then bind_go (run_map mapf w fs) (\<lambda>fs. Inr (False, w, fs))
        else if Type (wFile w) = StateReduce then bind_go (run_reduce reducef srt w fs) (\<lambda>fs. Inr (False, w, fs))
        else Inr (False, w, fs))"

subsection \<open>The sequential program\<close>

fun read_all :: "(string \<Rightarrow> string \<Rightarrow> KeyValue list) \<Rightarrow> fsys \<Rightarrow> string list \<Rightarrow> (KeyValue list) go" where
  "read_all mapf fs [] = Inr []"
| "read_all mapf fs (filename # files) =
     bind_go (Read fs filename) (\<lambda>content.
       bind_go (read_all mapf fs files) (\<lambda>rest. Inr (mapf filename content @ rest)))"

definition mrsequential :: "(string \<Rightarrow> string \<Rightarrow> KeyValue list) \<Rightarrow> (string \<Rightarrow> string list \<Rightarrow> string) \<Rightarrow>
    (KeyValue list \<Rightarrow> KeyValue list) \<Rightarrow> string list \<Rightarrow> fsys \<Rightarrow> fsys go" where
  "mrsequential mapf reducef srt files fs =
     bind_go (read_all mapf fs files) (\<lambda>kvs.
       let intermediate = srt kvs in
       Inr (fs\<lparr>outs := (outs fs)(''mr-out-0'' \<mapsto> reduce_from reducef intermediate 0)\<rparr>))"

subsection \<open>The applications\<close>

text \<open>\<open>strings.FieldsFunc\<close>: the maximal runs of characters that are not separators.\<close>

fun FieldsFunc :: "(char \<Rightarrow> bool) \<Rightarrow> string \<Rightarrow> string \<Rightarrow> string list" where
  "FieldsFunc sep [] cur = (if cur = [] then [] else [cur])"
| "FieldsFunc sep (c # cs) cur =
     (if sep c then (if cur = [] then FieldsFunc sep cs [] else cur # FieldsFunc sep cs [])
      else FieldsFunc sep cs (cur @ [c]))"

text \<open>\<open>unicode.IsLetter\<close> on ASCII text.\<close>

definition IsLetter :: "char \<Rightarrow> bool" where
  "IsLetter c \<longleftrightarrow> (let n = (of_char c :: nat) in 65 \<le> n \<and> n \<le> 90 \<or> 97 \<le> n \<and> n \<le> 122)"

definition wc_Map :: "string \<Rightarrow> string \<Rightarrow> KeyValue list" where
  "wc_Map filename contents =
     (let words = FieldsFunc (\<lambda>r. \<not> IsLetter r) contents [] in
      map (\<lambda>w. \<lparr>Key = w, Value = ''1''\<rparr>) words)"

definition wc_Reduce :: "string \<Rightarrow> string list \<Rightarrow> string" where
  "wc_Reduce key values = itoa (int (length values))"

text \<open>\<open>indexer\<close>: the distinct words in the order \<open>perm\<close> in which Go ranges over the map.\<close>

definition indexer_Map :: "(string list \<Rightarrow> string list) \<Rightarrow> string \<Rightarrow> string \<Rightarrow> KeyValue list" where
  "indexer_Map perm document value =
     (let words = FieldsFunc (\<lambda>x. \<not> IsLetter x) value [];
          m = remdups words in
      map (\<lambda>w. \<lparr>Key = w, Value = document\<rparr>) (perm m))"

fun Join_strings :: "string list \<Rightarrow> string \<Rightarrow> string" where
  "Join_strings [] sep = []"
| "Join_strings [v] sep = v"
| "Join_strings (v # w # vs) sep = v @ sep @ Join_strings (w # vs) sep"

definition indexer_Reduce :: "string \<Rightarrow> string list \<Rightarrow> string" where
  "indexer_Reduce key values =
     (let values = sort values in itoa (int (length values)) @ '' '' @ Join_strings values '','')"

definition nocrash_Map :: "string \<Rightarrow> string \<Rightarrow> KeyValue list" where
  "nocrash_Map filename contents =
     [\<lparr>Key = ''a'', Value = filename\<rparr>,
      \<lparr>Key = ''b'', Value = itoa (int (length filename))\<rparr>,
      \<lparr>Key = ''c'', Value = itoa (int (length contents))\<rparr>,
      \<lparr>Key = ''d'', Value = ''xyzzy''\<rparr>]"

definition nocrash_Reduce :: "string \<Rightarrow> string list \<Rightarrow> string" where
  "nocrash_Reduce key values = (let vv = sort values in Join_strings vv '' '')"

text \<open>\<open>crash\<close>: \<open>maybeCrash\<close> with the random number \<open>rr\<close> ends the process, or goes on after a delay.\<close>

definition maybeCrash :: "int \<Rightarrow> bool" where
  "maybeCrash rr \<longleftrightarrow> rr < 330"

definition crash_Map :: "int \<Rightarrow> string \<Rightarrow> string \<Rightarrow> (KeyValue list) option" where
  "crash_Map rr filename contents = (if maybeCrash rr then None else Some (nocrash_Map filename contents))"

definition crash_Reduce :: "int \<Rightarrow> string \<Rightarrow> string list \<Rightarrow> string option" where
  "crash_Reduce rr key values = (if maybeCrash rr then None else Some (nocrash_Reduce key values))"

definition early_exit_Map :: "string \<Rightarrow> string \<Rightarrow> KeyValue list" where
  "early_exit_Map filename contents = [\<lparr>Key = filename, Value = ''1''\<rparr>]"

definition early_exit_Reduce :: "string \<Rightarrow> string list \<Rightarrow> string" where
  "early_exit_Reduce key values = itoa (int (length values))"

definition rtiming_Map :: "string \<Rightarrow> string \<Rightarrow> KeyValue list" where
  "rtiming_Map filename contents = map (\<lambda>c. \<lparr>Key = [c], Value = ''1''\<rparr>) ''abcdefghij''"


subsection \<open>What the grouping loop computes\<close>

lemma group_end_eq:
  "group_end kvs i j = j + length (takeWhile (\<lambda>x. Key x = Key (kvs ! i)) (drop j kvs))"
proof (induction kvs i j rule: group_end.induct)
  case (1 kvs i j)
  show ?case
  proof (cases "j < length kvs \<and> Key (kvs ! j) = Key (kvs ! i)")
    case True
    then have "drop j kvs = kvs ! j # drop (j + 1) kvs" by (simp add: Cons_nth_drop_Suc)
    then show ?thesis using True "1" [OF True] by (subst group_end.simps) simp
  next
    case False
    have "takeWhile (\<lambda>x. Key x = Key (kvs ! i)) (drop j kvs) = []"
    proof (cases "j < length kvs")
      case True
      then have "drop j kvs = kvs ! j # drop (j + 1) kvs" by (simp add: Cons_nth_drop_Suc)
      then show ?thesis using True False by simp
    qed simp
    then show ?thesis using False by (subst group_end.simps) auto
  qed
qed

function reduce_list :: "(string \<Rightarrow> string list \<Rightarrow> string) \<Rightarrow> KeyValue list \<Rightarrow> string list" where
  "reduce_list f [] = []"
| "reduce_list f (kv # kvs) =
     out_line (Key kv) (f (Key kv) (map Value (kv # takeWhile (\<lambda>x. Key x = Key kv) kvs))) #
     reduce_list f (dropWhile (\<lambda>x. Key x = Key kv) kvs)"
  by pat_completeness auto
termination
  by (relation "measure (\<lambda>(f, kvs). length kvs)") (auto simp: less_Suc_eq_le length_dropWhile_le)

lemma map_nth_run: "i + n \<le> length xs \<Longrightarrow> map (\<lambda>k. f (xs ! k)) [i..<i + n] = map f (take n (drop i xs))"
  by (intro nth_equalityI) (auto simp: add.commute)

lemma reduce_from_eq: "reduce_from f kvs i = reduce_list f (drop i kvs)"
proof (induction f kvs i rule: reduce_from.induct)
  case (1 f kvs i)
  show ?case
  proof (cases "i < length kvs")
    case True
    let ?same = "\<lambda>x. Key x = Key (kvs ! i)" and ?rest = "drop (i + 1) kvs"
    let ?n = "length (takeWhile ?same ?rest)"
    have d: "drop i kvs = kvs ! i # ?rest" using True by (simp add: Cons_nth_drop_Suc)
    have j: "group_end kvs i (i + 1) = i + Suc ?n" by (simp add: group_end_eq)
    have len: "?n \<le> length ?rest" by (rule length_takeWhile_le)
    have tk: "take ?n ?rest = takeWhile ?same ?rest" by (rule takeWhile_eq_take [symmetric])
    have le: "i + Suc ?n \<le> length kvs" using len True by simp
    have vals: "map (\<lambda>k. Value (kvs ! k)) [i..<i + Suc ?n] = map Value (kvs ! i # takeWhile ?same ?rest)"
      unfolding map_nth_run [OF le] d take_Suc_Cons tk ..
    have "drop (i + Suc ?n) kvs = drop ?n ?rest" by (simp add: add.commute)
    also have "\<dots> = dropWhile ?same ?rest" by (rule dropWhile_eq_drop [symmetric])
    finally have rest: "drop (i + Suc ?n) kvs = dropWhile ?same ?rest" .
    have "reduce_from f kvs (i + Suc ?n) = reduce_list f (dropWhile ?same ?rest)"
      using "1" [OF True refl refl refl] unfolding j rest .
    then show ?thesis unfolding d reduce_list.simps using True j vals
      by (subst reduce_from.simps) (simp only: Let_def if_True)
  next
    case False
    then show ?thesis by (subst reduce_from.simps) simp
  qed
qed

lemma sorted_run:
  assumes "sorted (map Key (kv # kvs))"
  shows "takeWhile (\<lambda>x. Key x = Key kv) kvs = filter (\<lambda>x. Key x = Key kv) kvs"
    and "dropWhile (\<lambda>x. Key x = Key kv) kvs = filter (\<lambda>x. Key x \<noteq> Key kv) kvs"
proof -
  have "takeWhile (\<lambda>x. Key x = Key kv) kvs = filter (\<lambda>x. Key x = Key kv) kvs \<and>
    dropWhile (\<lambda>x. Key x = Key kv) kvs = filter (\<lambda>x. Key x \<noteq> Key kv) kvs"
    using assms
  proof (induction kvs)
    case (Cons x kvs)
    show ?case
    proof (cases "Key x = Key kv")
      case True
      then show ?thesis using Cons by simp
    next
      case False
      then have "\<forall>y\<in>set kvs. Key y \<noteq> Key kv" using Cons.prems by fastforce
      then show ?thesis using False by simp
    qed
  qed simp
  then show "takeWhile (\<lambda>x. Key x = Key kv) kvs = filter (\<lambda>x. Key x = Key kv) kvs"
    and "dropWhile (\<lambda>x. Key x = Key kv) kvs = filter (\<lambda>x. Key x \<noteq> Key kv) kvs" by simp_all
qed

definition values_of :: "string \<Rightarrow> KeyValue list \<Rightarrow> string list" where
  "values_of k kvs = map Value (filter (\<lambda>x. Key x = k) kvs)"

lemma reduce_list_sorted:
  assumes "sorted (map Key kvs)"
  shows "mset (reduce_list f kvs) =
    image_mset (\<lambda>k. out_line k (f k (values_of k kvs))) (mset_set (Key ` set kvs))"
  using assms
proof (induction f kvs rule: reduce_list.induct)
  case (1 f)
  then show ?case by simp
next
  case (2 f kv kvs)
  let ?rest = "filter (\<lambda>x. Key x \<noteq> Key kv) kvs"
  note run = sorted_run [OF "2.prems"]
  have srt: "sorted (map Key ?rest)" using "2.prems" by (simp add: sorted_filter)
  have keys: "Key ` set (kv # kvs) = insert (Key kv) (Key ` set ?rest)" by auto
  have notin: "Key kv \<notin> Key ` set ?rest" by auto
  have vals: "values_of k (kv # kvs) = values_of k ?rest" if "k \<in> Key ` set ?rest" for k
  proof -
    have "k \<noteq> Key kv" using that by auto
    then show ?thesis by (auto simp: values_of_def intro!: arg_cong [where f = "map Value"] filter_cong)
  qed
  have "mset (reduce_list f ?rest) =
      image_mset (\<lambda>k. out_line k (f k (values_of k ?rest))) (mset_set (Key ` set ?rest))"
    using "2.IH" srt unfolding run by blast
  also have "\<dots> = image_mset (\<lambda>k. out_line k (f k (values_of k (kv # kvs)))) (mset_set (Key ` set ?rest))"
    using vals by (intro image_mset_cong) simp
  finally show ?case unfolding reduce_list.simps run keys using notin by (simp add: values_of_def)
qed


subsection \<open>What a map task leaves behind\<close>

definition part :: "int \<Rightarrow> int \<Rightarrow> KeyValue list \<Rightarrow> KeyValue list" where
  "part n r kva = filter (\<lambda>kv. ihash (Key kv) mod n = r) kva"

lemma ihash_nonneg [simp]: "0 \<le> ihash key"
  by (simp add: ihash_def)

lemma encode_all_spec:
  assumes "0 < n" and "length enc = nat n"
  shows "\<exists>enc'. encode_all n kva enc = Inr enc' \<and> length enc' = nat n \<and>
    (\<forall>r<nat n. enc' ! r = enc ! r @ part n (int r) kva)"
  using assms(2)
proof (induction kva arbitrary: enc)
  case Nil
  then show ?case by (simp add: part_def)
next
  case (Cons kv kva)
  let ?r = "nat (ihash (Key kv) mod n)"
  have r: "?r < length enc" "int ?r = ihash (Key kv) mod n" using assms(1) Cons.prems by (simp_all add: nat_less_iff)
  from Cons.IH [of "enc[?r := enc ! ?r @ [kv]]"] Cons.prems obtain enc' where
    e: "encode_all n kva (enc[?r := enc ! ?r @ [kv]]) = Inr enc'" "length enc' = nat n"
    "\<forall>r<nat n. enc' ! r = enc[?r := enc ! ?r @ [kv]] ! r @ part n (int r) kva" by auto
  have "enc' ! r = enc ! r @ part n (int r) (kv # kva)" if "r < nat n" for r
    using e(3) that r Cons.prems by (auto simp: part_def nth_list_update)
  then show ?case using e r assms(1) by (simp add: Let_def)
qed

lemma inter_name_inject:
  assumes "0 \<le> i" "0 \<le> j"
  shows "inter_name i r = inter_name j s \<longleftrightarrow> i = j \<and> r = s"
  using append_split [OF itoa_no_dash [OF assms(1)] itoa_no_dash [OF assms(2)], of "itoa r" "itoa s"]
  by (simp add: inter_name_def)

lemma out_name_inject [simp]: "out_name r = out_name s \<longleftrightarrow> r = s"
  by (simp add: out_name_def)

lemma map_of_inter:
  "0 \<le> i \<Longrightarrow> 0 \<le> j \<Longrightarrow> map_of (map (\<lambda>r. (inter_name i (int r), enc r)) [0..<n]) (inter_name j (int s)) =
    (if i = j \<and> s < n then Some (enc s) else None)"
  by (auto simp: map_of_eq_None_iff inter_name_inject image_iff intro!: map_of_is_SomeI
      simp: distinct_map inj_on_def)

text \<open>A map task of file \<open>i\<close> writes each part of its output, whatever was there before.\<close>

lemma run_map_spec:
  assumes "inputs fs (Name (wFile w)) = Some contents" and "0 < wNReduce w" and "0 \<le> Index (wFile w)"
  shows "\<exists>fs'. run_map mapf w fs = Inr fs' \<and> inputs fs' = inputs fs \<and> outs fs' = outs fs \<and>
    (\<forall>j\<ge>0. \<forall>r<nat (wNReduce w). inter fs' (inter_name j (int r)) =
       (if j = Index (wFile w) then Some (part (wNReduce w) (int r) (mapf (Name (wFile w)) contents))
        else inter fs (inter_name j (int r))))"
proof -
  let ?n = "wNReduce w" and ?i = "Index (wFile w)" and ?kva = "mapf (Name (wFile w)) contents"
  obtain enc where enc: "encode_all ?n ?kva (replicate (nat ?n) []) = Inr enc" "length enc = nat ?n"
    "\<forall>r<nat ?n. enc ! r = replicate (nat ?n) [] ! r @ part ?n (int r) ?kva"
    using encode_all_spec [OF assms(2), of "replicate (nat ?n) []" ?kva] by auto
  let ?fs = "fs\<lparr>inter := inter fs ++ map_of (map (\<lambda>r. (inter_name ?i (int r), enc ! r)) [0..<nat ?n])\<rparr>"
  have run: "run_map mapf w fs = Inr ?fs"
    by (simp add: run_map_def Read_def assms(1) enc(1) Let_def)
  have "inter ?fs (inter_name j (int r)) = (if j = ?i then Some (part ?n (int r) ?kva) else inter fs (inter_name j (int r)))"
    if "0 \<le> j" "r < nat ?n" for j r
    using map_of_inter [OF assms(3) that(1), of "\<lambda>r. enc ! r" "nat ?n" r] that enc(3)
    by (simp add: map_add_def)
  then show ?thesis using run by (intro exI [of _ ?fs]) simp
qed


subsection \<open>A job of many tasks\<close>

text \<open>
  The tasks of a job in the order in which they are carried out, by any workers: each is what the
  loop of \<open>Worker\<close> does with the reply that hands out the task.
\<close>

fun run_tasks :: "(string \<Rightarrow> string \<Rightarrow> KeyValue list) \<Rightarrow> (string \<Rightarrow> string list \<Rightarrow> string) \<Rightarrow>
    (KeyValue list \<Rightarrow> KeyValue list) \<Rightarrow> WorkerItem \<Rightarrow> File list \<Rightarrow> fsys \<Rightarrow> fsys go" where
  "run_tasks mapf reducef srt w [] fs = Inr fs"
| "run_tasks mapf reducef srt w (t # ts) fs =
     bind_go (Worker_iter mapf reducef srt w \<lparr>Response = ''doing'', rFile = t\<rparr> fs)
       (\<lambda>(_, w', fs'). run_tasks mapf reducef srt w' ts fs')"

lemma run_tasks_append:
  "run_tasks mapf reducef srt w (ts @ us) fs =
    bind_go (run_tasks mapf reducef srt w ts fs)
      (run_tasks mapf reducef srt (if ts = [] then w else w\<lparr>wFile := last ts\<rparr>) us)"
proof (induction ts arbitrary: w fs)
  case Nil
  then show ?case by (simp add: bind_go_def)
next
  case (Cons t ts)
  show ?case
  proof (cases "Worker_iter mapf reducef srt w \<lparr>Response = ''doing'', rFile = t\<rparr> fs")
    case (Inl e)
    then show ?thesis by simp
  next
    case (Inr x)
    then obtain fs' where "x = (False, w\<lparr>wFile := t\<rparr>, fs')"
      by (auto simp: Worker_iter_def Let_def split: if_splits)
    then show ?thesis using Inr Cons.IH by simp
  qed
qed

definition content :: "fsys \<Rightarrow> string \<Rightarrow> string" where
  "content fs name = (case inputs fs name of None \<Rightarrow> [] | Some c \<Rightarrow> c)"

definition kva_of :: "(string \<Rightarrow> string \<Rightarrow> KeyValue list) \<Rightarrow> fsys \<Rightarrow> string \<Rightarrow> KeyValue list" where
  "kva_of mapf fs name = mapf name (content fs name)"

definition is_map_task :: "string list \<Rightarrow> File \<Rightarrow> bool" where
  "is_map_task files t \<longleftrightarrow> Type t = StateMap \<and> 0 \<le> Index t \<and> nat (Index t) < length files \<and> Name t = files ! nat (Index t)"

text \<open>The intermediate file of map task \<open>i\<close> and reduce task \<open>r\<close> is what map task \<open>i\<close> writes there.\<close>

definition inter_ok :: "(string \<Rightarrow> string \<Rightarrow> KeyValue list) \<Rightarrow> string list \<Rightarrow> int \<Rightarrow> fsys \<Rightarrow> nat \<Rightarrow> bool" where
  "inter_ok mapf files n fs i \<longleftrightarrow> (\<forall>r<nat n.
     inter fs (inter_name (int i) (int r)) = Some (part n (int r) (kva_of mapf fs (files ! i))))"

lemma run_maps:
  assumes "\<forall>t\<in>set ts. is_map_task files t" and "set files \<subseteq> dom (inputs fs)" and "0 < wNReduce w"
    and "\<forall>i\<in>done. inter_ok mapf files (wNReduce w) fs i"
  shows "\<exists>fs'. run_tasks mapf reducef srt w ts fs = Inr fs' \<and> inputs fs' = inputs fs \<and> outs fs' = outs fs \<and>
    (\<forall>i\<in>done \<union> (nat \<circ> Index) ` set ts. inter_ok mapf files (wNReduce w) fs' i)"
  using assms
proof (induction ts arbitrary: w fs "done")
  case Nil
  then show ?case by simp
next
  case (Cons t ts)
  let ?w = "w\<lparr>wFile := t\<rparr>" and ?n = "wNReduce w"
  have t: "Type t = StateMap" "0 \<le> Index t" "nat (Index t) < length files" "Name t = files ! nat (Index t)"
    using Cons.prems(1) by (simp_all add: is_map_task_def)
  then obtain contents where c: "inputs fs (Name t) = Some contents" using Cons.prems(2) nth_mem by fastforce
  from run_map_spec [of fs ?w contents mapf] c Cons.prems(3) t(2) obtain fs1 where
    fs1: "run_map mapf ?w fs = Inr fs1" "inputs fs1 = inputs fs" "outs fs1 = outs fs"
    "\<forall>j\<ge>0. \<forall>r<nat ?n. inter fs1 (inter_name j (int r)) =
       (if j = Index t then Some (part ?n (int r) (mapf (Name t) contents)) else inter fs (inter_name j (int r)))"
    by auto
  have kva: "kva_of mapf fs1 f = kva_of mapf fs f" for f by (simp add: kva_of_def content_def fs1(2))
  have "mapf (Name t) contents = kva_of mapf fs1 (files ! nat (Index t))"
    using c t(4) by (simp add: content_def kva_of_def fs1(2))
  then have at: "inter_ok mapf files ?n fs1 i" if "int i = Index t" for i
    using fs1(4) t(2) that [symmetric] by (simp add: inter_ok_def)
  have off: "inter_ok mapf files ?n fs1 i" if "int i \<noteq> Index t" "i \<in> done" for i
    using fs1(4) Cons.prems(4) that by (simp add: inter_ok_def kva)
  have "\<forall>i\<in>insert (nat (Index t)) done. inter_ok mapf files ?n fs1 i"
  proof
    fix i assume "i \<in> insert (nat (Index t)) done"
    then show "inter_ok mapf files ?n fs1 i" using at off t(2) by (cases "int i = Index t") auto
  qed
  from Cons.IH [of fs1 ?w "insert (nat (Index t)) done"] this Cons.prems(1-3) fs1(2) obtain fs' where
    "run_tasks mapf reducef srt ?w ts fs1 = Inr fs'" "inputs fs' = inputs fs1" "outs fs' = outs fs1"
    "\<forall>i\<in>insert (nat (Index t)) done \<union> (nat \<circ> Index) ` set ts. inter_ok mapf files ?n fs' i" by auto
  then show ?case using fs1 t(1) by (auto simp: Worker_iter_def Let_def)
qed

lemma part_concat: "part n r (concat xss) = concat (map (part n r) xss)"
  by (induction xss) (auto simp: part_def)

lemma collect_ok:
  assumes "\<forall>i\<in>set is. inter_ok mapf files n fs i" and "r < nat n"
  shows "collect fs (int r) is = Inr (part n (int r) (concat (map (\<lambda>i. kva_of mapf fs (files ! i)) is)))"
  using assms by (induction "is") (auto simp: inter_ok_def part_def)


lemma run_reduces:
  assumes "\<forall>t\<in>set ts. Type t = StateReduce \<and> (\<exists>r<nat (wNReduce w). Index t = wNMap w + int r)"
    and "distinct (map Index ts)" and "0 \<le> wNMap w" and "nat (wNMap w) = length files"
    and "\<forall>i<length files. inter_ok mapf files (wNReduce w) fs i"
    and "\<forall>t\<in>set ts. outs fs (out_name (Index t - wNMap w)) = None"
  shows "\<exists>fs'. run_tasks mapf reducef srt w ts fs = Inr fs' \<and> (\<forall>t\<in>set ts.
    outs fs' (out_name (Index t - wNMap w)) =
      Some (reduce_list reducef (srt (part (wNReduce w) (Index t - wNMap w) (concat (map (kva_of mapf fs) files)))))) \<and>
    (\<forall>r. r \<notin> (\<lambda>t. Index t - wNMap w) ` set ts \<longrightarrow> outs fs' (out_name r) = outs fs (out_name r))"
  using assms
proof (induction ts arbitrary: w fs)
  case Nil
  then show ?case by simp
next
  case (Cons t ts)
  let ?w = "w\<lparr>wFile := t\<rparr>" and ?n = "wNReduce w" and ?all = "concat (map (kva_of mapf fs) files)"
  obtain r where r: "r < nat ?n" "Index t - wNMap w = int r" using Cons.prems(1) by fastforce
  have "map (\<lambda>i. kva_of mapf fs (files ! i)) [0..<length files] = map (kva_of mapf fs) files"
    by (intro nth_equalityI) simp_all
  then have col: "collect fs (int r) [0..<nat (wNMap w)] = Inr (part ?n (int r) ?all)"
    using collect_ok [of "[0..<length files]" mapf files ?n fs r] Cons.prems(4,5) r(1) by simp
  let ?ls = "reduce_list reducef (srt (part ?n (int r) ?all))"
  let ?fs = "fs\<lparr>outs := (outs fs)(out_name (int r) \<mapsto> ?ls)\<rparr>"
  have run: "run_reduce reducef srt ?w fs = Inr ?fs"
    using Cons.prems(6) by (simp add: run_reduce_def r(2) col reduce_from_eq Let_def)
  have same: "kva_of mapf ?fs = kva_of mapf fs" by (simp add: kva_of_def content_def fun_eq_iff)
  have "\<exists>fs'. run_tasks mapf reducef srt ?w ts ?fs = Inr fs' \<and> (\<forall>t\<in>set ts.
    outs fs' (out_name (Index t - wNMap ?w)) =
      Some (reduce_list reducef (srt (part (wNReduce ?w) (Index t - wNMap ?w) (concat (map (kva_of mapf ?fs) files)))))) \<and>
    (\<forall>r. r \<notin> (\<lambda>t. Index t - wNMap ?w) ` set ts \<longrightarrow> outs fs' (out_name r) = outs ?fs (out_name r))"
  proof (rule Cons.IH)
    show "\<forall>i<length files. inter_ok mapf files (wNReduce ?w) ?fs i"
      using Cons.prems(5) by (simp add: inter_ok_def same)
    show "\<forall>u\<in>set ts. outs ?fs (out_name (Index u - wNMap ?w)) = None"
      using Cons.prems(2,6) r(2) by (auto simp: image_iff)
  qed (use Cons.prems in auto)
  then obtain fs' where fs': "run_tasks mapf reducef srt ?w ts ?fs = Inr fs'"
    "\<forall>t\<in>set ts. outs fs' (out_name (Index t - wNMap w)) =
      Some (reduce_list reducef (srt (part ?n (Index t - wNMap w) ?all)))"
    "\<forall>r. r \<notin> (\<lambda>t. Index t - wNMap w) ` set ts \<longrightarrow> outs fs' (out_name r) = outs ?fs (out_name r)"
    unfolding same by auto
  have "int r \<notin> (\<lambda>t. Index t - wNMap w) ` set ts" using Cons.prems(2) r(2) by (auto simp: image_iff)
  then have "outs fs' (out_name (int r)) = Some ?ls" using fs'(3) by simp
  moreover have "run_tasks mapf reducef srt w (t # ts) fs = Inr fs'"
    using Cons.prems(1) run fs'(1) by (simp add: Worker_iter_def Let_def)
  moreover have "outs fs' (out_name s) = outs fs (out_name s)" if "s \<notin> (\<lambda>t. Index t - wNMap w) ` set (t # ts)" for s
    using fs'(3) that r(2) by simp
  moreover have "\<forall>u\<in>set (t # ts). outs fs' (out_name (Index u - wNMap w)) =
      Some (reduce_list reducef (srt (part ?n (Index u - wNMap w) ?all)))"
    using fs'(2) r(2) \<open>outs fs' (out_name (int r)) = Some ?ls\<close> by simp
  ultimately show ?case by (intro exI [of _ fs'] conjI) simp_all
qed

text \<open>What is used of the sorting routines, and of an application's \<open>Reduce\<close>.\<close>

definition key_sort :: "(KeyValue list \<Rightarrow> KeyValue list) \<Rightarrow> bool" where
  "key_sort srt \<longleftrightarrow> (\<forall>kvs. mset (srt kvs) = mset kvs \<and> sorted (map Key (srt kvs)))"

definition order_free :: "(string \<Rightarrow> string list \<Rightarrow> string) \<Rightarrow> bool" where
  "order_free reducef \<longleftrightarrow> (\<forall>k vs ws. mset vs = mset ws \<longrightarrow> reducef k vs = reducef k ws)"

locale mapreduce =
  fixes srt :: "KeyValue list \<Rightarrow> KeyValue list"
    and reducef :: "string \<Rightarrow> string list \<Rightarrow> string"
  assumes sorts: "key_sort srt"
    and unordered: "order_free reducef"
begin

lemma lines_of:
  "mset (reduce_list reducef (srt kvs)) =
    image_mset (\<lambda>k. out_line k (reducef k (values_of k kvs))) (mset_set (Key ` set kvs))"
proof -
  have m: "mset (srt kvs) = mset kvs" and s: "sorted (map Key (srt kvs))" using sorts by (simp_all add: key_sort_def)
  have "mset (values_of k (srt kvs)) = mset (values_of k kvs)" for k using m by (simp add: values_of_def)
  then have "reducef k (values_of k (srt kvs)) = reducef k (values_of k kvs)" for k
    by (rule unordered [unfolded order_free_def, rule_format])
  moreover have "set (srt kvs) = set kvs" using m by (metis set_mset_mset)
  ultimately show ?thesis using reduce_list_sorted [OF s, of reducef] by simp
qed

lemma lines_of_part:
  "mset (reduce_list reducef (srt (part n r kvs))) =
    image_mset (\<lambda>k. out_line k (reducef k (values_of k kvs))) (mset_set {k \<in> Key ` set kvs. ihash k mod n = r})"
proof -
  have keys: "Key ` set (part n r kvs) = {k \<in> Key ` set kvs. ihash k mod n = r}" by (auto simp: part_def)
  have "values_of k (part n r kvs) = values_of k kvs" if "ihash k mod n = r" for k
    using that by (auto simp: values_of_def part_def intro!: arg_cong [where f = "map Value"] filter_cong)
  then show ?thesis unfolding lines_of keys by (intro image_mset_cong) auto
qed

lemma parts_make_whole:
  assumes "0 < n"
  shows "mset (concat (map (\<lambda>r. reduce_list reducef (srt (part n (int r) kvs))) [0..<nat n])) =
    mset (reduce_list reducef (srt kvs))"
proof -
  let ?f = "\<lambda>k. out_line k (reducef k (values_of k kvs))" and ?K = "Key ` set kvs"
  have "mset (concat (map (\<lambda>r. reduce_list reducef (srt (part n (int r) kvs))) [0..<m])) =
      image_mset ?f (mset_set {k \<in> ?K. ihash k mod n < int m})" for m
  proof (induction m)
    case (Suc m)
    have "{k \<in> ?K. ihash k mod n < int (Suc m)} = {k \<in> ?K. ihash k mod n < int m} \<union> {k \<in> ?K. ihash k mod n = int m}"
      by auto
    then have "mset_set {k \<in> ?K. ihash k mod n < int (Suc m)} =
        mset_set {k \<in> ?K. ihash k mod n < int m} + mset_set {k \<in> ?K. ihash k mod n = int m}"
      by (simp only:) (rule mset_set_Union, auto)
    then show ?case using Suc.IH by (simp add: lines_of_part)
  next
    case 0
    have "{k \<in> ?K. ihash k mod n < int 0} = {}" using assms by (auto simp: not_less)
    then show ?case by (simp only:) simp
  qed
  from this [of "nat n"] show ?thesis using assms by (simp add: lines_of)
qed

end


subsection \<open>The applications do not depend on the order of values\<close>

lemma key_sort_stable: "key_sort (sort_key Key)"
  by (simp add: key_sort_def)

lemma sort_mset_cong: "mset vs = mset ws \<Longrightarrow> sort vs = sort ws"
  by (metis mset_sort properties_for_sort sorted_sort)

lemma wc_order_free: "order_free wc_Reduce" "order_free early_exit_Reduce"
  by (auto simp: order_free_def wc_Reduce_def early_exit_Reduce_def dest: mset_eq_length)

lemma sorted_order_free: "order_free indexer_Reduce" "order_free nocrash_Reduce"
  unfolding order_free_def indexer_Reduce_def nocrash_Reduce_def Let_def
  by (intro allI impI, drule sort_mset_cong, simp only:)+

interpretation wc: mapreduce "sort_key Key" wc_Reduce
  by unfold_locales (rule key_sort_stable, rule wc_order_free)

interpretation indexer: mapreduce "sort_key Key" indexer_Reduce
  by unfold_locales (rule key_sort_stable, rule sorted_order_free)

interpretation nocrash: mapreduce "sort_key Key" nocrash_Reduce
  by unfold_locales (rule key_sort_stable, rule sorted_order_free)

interpretation early_exit: mapreduce "sort_key Key" early_exit_Reduce
  by unfold_locales (rule key_sort_stable, rule wc_order_free)

subsection \<open>Jobs and the sequential program\<close>

lemma read_all_ok:
  "set files \<subseteq> dom (inputs fs) \<Longrightarrow> read_all mapf fs files = Inr (concat (map (kva_of mapf fs) files))"
  by (induction files) (auto simp: Read_def kva_of_def content_def)

lemma mrsequential_ok:
  assumes "set files \<subseteq> dom (inputs fs)"
  shows "mrsequential mapf reducef srt files fs =
    Inr (fs\<lparr>outs := (outs fs)(''mr-out-0'' \<mapsto> reduce_list reducef (srt (concat (map (kva_of mapf fs) files))))\<rparr>)"
  by (simp add: mrsequential_def read_all_ok [OF assms] reduce_from_eq)

definition complete_job :: "string list \<Rightarrow> nat \<Rightarrow> File list \<Rightarrow> File list \<Rightarrow> bool" where
  "complete_job files n ms rs \<longleftrightarrow> (\<forall>t\<in>set ms. is_map_task files t) \<and> (nat \<circ> Index) ` set ms = {0..<length files} \<and>
     (\<forall>t\<in>set rs. Type t = StateReduce) \<and> distinct (map Index rs) \<and>
     Index ` set rs = (\<lambda>r. int (length files) + int r) ` {0..<n}"

text \<open>
  Property C7. A distributed job computes what \<open>mrsequential\<close> computes. Whatever sorting routines
  the two programs use, if \<open>Reduce\<close> does not depend on the order of its values, every map task is
  carried out at least once (in any order, repetitions included) before the reduce tasks, and every
  reduce task exactly once, then the lines of \<open>mr-out-0\<close> to \<open>mr-out-(n-1)\<close> together are a
  permutation of the lines of the sequential program's output; no task fails.\<close>

theorem mapreduce_matches_sequential:
  assumes "key_sort srt" and "key_sort srt'" and "order_free reducef" and "set files \<subseteq> dom (inputs fs)"
    and "complete_job files n ms rs" and "0 < n" and "wNReduce w = int n" and "wNMap w = int (length files)"
    and "\<forall>r<n. outs fs (out_name (int r)) = None"
  shows "\<exists>fs' fs''. run_tasks mapf reducef srt w (ms @ rs) fs = Inr fs' \<and>
    mrsequential mapf reducef srt' files fs = Inr fs'' \<and>
    mset (concat (map (\<lambda>r. the (outs fs' (out_name (int r)))) [0..<n])) = mset (the (outs fs'' ''mr-out-0''))"
proof -
  let ?all = "concat (map (kva_of mapf fs) files)"
  let ?w = "if ms = [] then w else w\<lparr>wFile := last ms\<rparr>"
  have w: "wNReduce ?w = int n" "wNMap ?w = int (length files)" using assms(7,8) by simp_all
  have ms: "\<forall>t\<in>set ms. is_map_task files t" "(nat \<circ> Index) ` set ms = {0..<length files}"
    and rs: "\<forall>t\<in>set rs. Type t = StateReduce" "distinct (map Index rs)"
      "Index ` set rs = (\<lambda>r. int (length files) + int r) ` {0..<n}"
    using assms(5) by (simp_all add: complete_job_def)
  obtain fs1 where fs1: "run_tasks mapf reducef srt w ms fs = Inr fs1" "inputs fs1 = inputs fs" "outs fs1 = outs fs"
    "\<forall>i\<in>{0..<length files}. inter_ok mapf files (int n) fs1 i"
    using run_maps [OF ms(1) assms(4), of w "{}" mapf reducef srt] assms(6,7) unfolding ms(2) by auto
  have kva: "kva_of mapf fs1 = kva_of mapf fs" by (simp add: kva_of_def content_def fs1(2) fun_eq_iff)
  have idx: "\<exists>r<n. Index t = int (length files) + int r" if "t \<in> set rs" for t
  proof -
    have "Index t \<in> (\<lambda>r. int (length files) + int r) ` {0..<n}" unfolding rs(3) [symmetric] using that by simp
    then show ?thesis by auto
  qed
  have "\<exists>fs'. run_tasks mapf reducef srt ?w rs fs1 = Inr fs' \<and> (\<forall>t\<in>set rs.
    outs fs' (out_name (Index t - wNMap ?w)) =
      Some (reduce_list reducef (srt (part (wNReduce ?w) (Index t - wNMap ?w) (concat (map (kva_of mapf fs1) files)))))) \<and>
    (\<forall>r. r \<notin> (\<lambda>t. Index t - wNMap ?w) ` set rs \<longrightarrow> outs fs' (out_name r) = outs fs1 (out_name r))"
  proof (rule run_reduces [OF _ rs(2)])
    show "\<forall>t\<in>set rs. Type t = StateReduce \<and> (\<exists>r<nat (wNReduce ?w). Index t = wNMap ?w + int r)"
      using rs(1) idx unfolding w by simp
    show "\<forall>t\<in>set rs. outs fs1 (out_name (Index t - wNMap ?w)) = None"
      using idx assms(9) unfolding w fs1(3) by fastforce
    show "\<forall>i<length files. inter_ok mapf files (wNReduce ?w) fs1 i" using fs1(4) unfolding w by simp
  qed (simp_all add: assms(8))
  then obtain fs' where fs': "run_tasks mapf reducef srt ?w rs fs1 = Inr fs'"
    "\<forall>t\<in>set rs. outs fs' (out_name (Index t - int (length files))) =
      Some (reduce_list reducef (srt (part (int n) (Index t - int (length files)) ?all)))"
    unfolding w kva by auto
  have out: "outs fs' (out_name (int r)) = Some (reduce_list reducef (srt (part (int n) (int r) ?all)))" if "r < n" for r
  proof -
    have "int (length files) + int r \<in> Index ` set rs" unfolding rs(3) using that by simp
    then obtain t where "t \<in> set rs" "Index t = int (length files) + int r" by (elim imageE) simp
    then show ?thesis using fs'(2) by force
  qed
  have mr: "mapreduce srt reducef" "mapreduce srt' reducef" using assms(1-3) by (simp_all add: mapreduce_def)
  have "mset (concat (map (\<lambda>r. the (outs fs' (out_name (int r)))) [0..<n])) =
      mset (concat (map (\<lambda>r. reduce_list reducef (srt (part (int n) (int r) ?all))) [0..<n]))"
    using out by (auto intro!: arg_cong [where f = "\<lambda>l. mset (concat l)"] map_cong)
  also have "\<dots> = mset (reduce_list reducef (srt' ?all))"
    using mapreduce.parts_make_whole [OF mr(1), of "int n" ?all] mapreduce.lines_of [OF mr(1), of ?all]
      mapreduce.lines_of [OF mr(2), of ?all] assms(6) by simp
  finally show ?thesis
    using fs1(1) fs'(1) mrsequential_ok [OF assms(4), of mapf reducef srt'] by (simp add: run_tasks_append)
qed


text \<open>
  Property C30. Word count counts words: the sequential program with \<open>wc\<close> writes exactly one line for
  every word of the inputs, with the decimal number of its occurrences over all inputs.\<close>

theorem wc_counts_words:
  assumes "set files \<subseteq> dom (inputs fs)"
  shows "\<exists>fs' ls. mrsequential wc_Map wc_Reduce (sort_key Key) files fs = Inr fs' \<and> outs fs' ''mr-out-0'' = Some ls \<and>
    (let words = concat (map (\<lambda>f. FieldsFunc (\<lambda>c. \<not> IsLetter c) (content fs f) []) files) in
     mset ls = image_mset (\<lambda>k. out_line k (itoa (int (count_list words k)))) (mset_set (set words)))"
proof -
  let ?words = "concat (map (\<lambda>f. FieldsFunc (\<lambda>c. \<not> IsLetter c) (content fs f) []) files)"
  let ?kv = "\<lambda>w. \<lparr>Key = w, Value = ''1''\<rparr>"
  have all: "concat (map (kva_of wc_Map fs) files) = map ?kv ?words"
    by (induction files) (simp_all add: kva_of_def wc_Map_def)
  have cnt: "length (values_of k (map ?kv ws)) = count_list ws k" for k and ws :: "string list"
    by (induction ws) (auto simp: values_of_def)
  have keys: "Key ` set (map ?kv ?words) = set ?words" by (simp add: image_image)
  show ?thesis
    using mrsequential_ok [OF assms, of wc_Map wc_Reduce "sort_key Key"] wc.lines_of [of "map ?kv ?words"]
    unfolding all keys by (simp add: wc_Reduce_def cnt Let_def)
qed

text \<open>
  A reduce task that is carried out a second time (its first worker was removed after
  writing) appends its lines again: the output file is opened for appending and not truncated.\<close>

theorem rerun_reduce_duplicates:
  assumes "run_reduce reducef srt w fs = Inr fs'"
    and "outs fs (out_name (Index (wFile w) - wNMap w)) = None"
  shows "\<exists>ls fs''. outs fs' (out_name (Index (wFile w) - wNMap w)) = Some ls \<and> run_reduce reducef srt w fs' = Inr fs'' \<and>
    outs fs'' (out_name (Index (wFile w) - wNMap w)) = Some (ls @ ls)"
proof -
  let ?r = "Index (wFile w) - wNMap w"
  obtain kvs where kvs: "collect fs ?r [0..<nat (wNMap w)] = Inr kvs" using assms(1) by (auto simp: run_reduce_def Let_def)
  let ?ls = "reduce_from reducef (srt kvs) 0"
  have fs': "fs' = fs\<lparr>outs := (outs fs)(out_name ?r \<mapsto> ?ls)\<rparr>"
    using assms kvs by (simp add: run_reduce_def Let_def)
  have "collect (fs\<lparr>outs := o'\<rparr>) ?r is = collect fs ?r is" for "is" o'
    by (induction "is") (simp_all split: option.splits)
  then show ?thesis using kvs by (simp add: run_reduce_def Let_def fs')
qed


subsection \<open>Concrete jobs\<close>

definition demo_fs :: fsys where
  "demo_fs = \<lparr>inputs = [''f'' \<mapsto> ''b a b''], inter = Map.empty, outs = Map.empty\<rparr>"

definition demo_worker :: WorkerItem where
  "demo_worker = no_WorkerItem\<lparr>wNReduce := 1, wNMap := 1, wFile := reduce_file 1 0\<rparr>"

lemma itoa_small: "itoa 1 = ''1''" "itoa 2 = ''2''"
  by code_simp+

theorem mapreduce_matches_sequential_witness:
  "\<exists>fs' fs''. run_tasks wc_Map wc_Reduce (sort_key Key) demo_worker ([map_file 0 ''f''] @ [reduce_file 1 0]) demo_fs = Inr fs' \<and>
    mrsequential wc_Map wc_Reduce (sort_key Key) [''f''] demo_fs = Inr fs'' \<and>
    mset (concat (map (\<lambda>r. the (outs fs' (out_name (int r)))) [0..<1])) = mset (the (outs fs'' ''mr-out-0''))"
  by (rule mapreduce_matches_sequential [OF key_sort_stable key_sort_stable wc_order_free(1)])
    (simp_all add: demo_fs_def demo_worker_def no_WorkerItem_def complete_job_def is_map_task_def map_file_def reduce_file_def)

theorem wc_counts_words_witness:
  "\<exists>fs' ls. mrsequential wc_Map wc_Reduce (sort_key Key) [''f''] demo_fs = Inr fs' \<and> outs fs' ''mr-out-0'' = Some ls \<and>
    mset ls = {#''a 1'' @ [CHR 0x0A], ''b 2'' @ [CHR 0x0A]#}"
proof -
  have words: "FieldsFunc (\<lambda>c. \<not> IsLetter c) (content demo_fs ''f'') [] = [''b'', ''a'', ''b'']"
    by (simp add: content_def demo_fs_def IsLetter_def)
  have "set [''f''] \<subseteq> dom (inputs demo_fs)" by (simp add: demo_fs_def)
  from wc_counts_words [OF this] show ?thesis
    by (simp add: words Let_def out_line_def itoa_small insert_commute add_mset_commute)
qed

theorem rerun_reduce_duplicates_witness:
  "\<exists>ls fs''. outs (demo_fs\<lparr>inter := [inter_name 0 0 \<mapsto> [\<lparr>Key = ''a'', Value = ''1''\<rparr>]], outs := [out_name 0 \<mapsto> [''a 1'' @ [CHR 0x0A]]]\<rparr>)
      (out_name 0) = Some ls \<and>
    run_reduce wc_Reduce (sort_key Key) demo_worker
      (demo_fs\<lparr>inter := [inter_name 0 0 \<mapsto> [\<lparr>Key = ''a'', Value = ''1''\<rparr>]], outs := [out_name 0 \<mapsto> [''a 1'' @ [CHR 0x0A]]]\<rparr>) = Inr fs'' \<and>
    outs fs'' (out_name 0) = Some (ls @ ls)"
proof -
  let ?fs = "demo_fs\<lparr>inter := [inter_name 0 0 \<mapsto> [\<lparr>Key = ''a'', Value = ''1''\<rparr>]]\<rparr>"
  have "run_reduce wc_Reduce (sort_key Key) demo_worker ?fs = Inr (?fs\<lparr>outs := [out_name 0 \<mapsto> [''a 1'' @ [CHR 0x0A]]]\<rparr>)"
    by (simp add: run_reduce_def demo_worker_def reduce_file_def demo_fs_def reduce_from_eq wc_Reduce_def out_line_def
        itoa_small no_WorkerItem_def Let_def)
  from rerun_reduce_duplicates [OF this] show ?thesis by (simp add: demo_worker_def reduce_file_def demo_fs_def)
qed

end
