(* ===== verification/Raft_Peer.thy ===== *)
theory Raft_Peer
  imports Go_Prelude
begin

text \<open>
  One Raft peer, \<open>raft1/raft.go\<close> (leader election; log replication is a stub in the code), and the
  object that keeps its persistent state, \<open>tester1/persister.go\<close>. The goroutine that sends
  heartbeats runs under a context: a context is a number, \<open>running\<close> holds the contexts that were
  created and not cancelled, and \<open>heartbeatCancel\<close> is the context the stored cancel function
  belongs to. Times are milliseconds. \<open>RequestVote\<close> is one step here; in the code only its last
  part holds the mutex, and \<open>RequestVote_check\<close> and \<open>RequestVote_grant\<close> are the two parts.
\<close>

subsection \<open>The persister\<close>

record Persister =
  raftstate :: "nat list"
  snapshot :: "nat list"

definition MakePersister :: Persister where
  "MakePersister = \<lparr>raftstate = [], snapshot = []\<rparr>"

definition clone :: "nat list \<Rightarrow> nat list" where
  "clone orig = (let x = replicate (length orig) (0::nat) in take (length x) orig)"

definition Persister_Copy :: "Persister \<Rightarrow> Persister" where
  "Persister_Copy ps = MakePersister\<lparr>raftstate := raftstate ps, snapshot := snapshot ps\<rparr>"

definition ReadRaftState :: "Persister \<Rightarrow> nat list" where
  "ReadRaftState ps = clone (raftstate ps)"

definition RaftStateSize :: "Persister \<Rightarrow> nat" where
  "RaftStateSize ps = length (raftstate ps)"

definition Save :: "Persister \<Rightarrow> nat list \<Rightarrow> nat list \<Rightarrow> Persister" where
  "Save ps rs snap = ps\<lparr>raftstate := clone rs, snapshot := clone snap\<rparr>"

definition ReadSnapshot :: "Persister \<Rightarrow> nat list" where
  "ReadSnapshot ps = clone (snapshot ps)"

definition SnapshotSize :: "Persister \<Rightarrow> nat" where
  "SnapshotSize ps = length (snapshot ps)"

lemma clone_id [simp]: "clone xs = xs"
  by (simp add: clone_def)

subsection \<open>The peer\<close>

datatype role = Leader | Candidate | Follower

definition HeartbeatTimeout :: int where
  "HeartbeatTimeout = 500"

record Log =
  log_term :: int
  log_index :: int

record Raft =
  peers :: nat
  persister :: Persister
  me :: nat
  dead :: int
  heartbeatCancel :: "nat option"
  contexts :: nat
  running :: "nat list"
  Role :: role
  raft_term :: int
  voteFor :: "int \<rightharpoonup> nat"
  currentLeader :: nat
  Logs :: "Log list"
  lastHeartbeat :: int

record RequestVoteArgs =
  rv_Term :: int
  rv_Candidate :: nat
  LastLogIndex :: int
  LastLogTerm :: int

record RequestVoteReply =
  rvr_Term :: int
  VoteGranted :: bool

record AppendEntriesArgs =
  ae_Term :: int
  LeaderID :: nat
  PrevLogIndex :: int
  PrevLogTerm :: int
  Entries :: "Log list"
  LeaderCommit :: int

record AppendEntriesReply =
  aer_Term :: int
  Success :: bool

definition GetState :: "Raft \<Rightarrow> int \<times> bool" where
  "GetState rf = (raft_term rf, Role rf = Leader)"

definition persist :: "Raft \<Rightarrow> Raft" where
  "persist rf = rf"

definition readPersist :: "Raft \<Rightarrow> nat list \<Rightarrow> Raft" where
  "readPersist rf data = rf"

definition PersistBytes :: "Raft \<Rightarrow> nat" where
  "PersistBytes rf = RaftStateSize (persister rf)"

definition Snapshot :: "Raft \<Rightarrow> int \<Rightarrow> nat list \<Rightarrow> Raft" where
  "Snapshot rf index snap = rf"

definition Start :: "Raft \<Rightarrow> 'cmd \<Rightarrow> int \<times> int \<times> bool" where
  "Start rf command = (-1, -1, True)"

definition Kill :: "Raft \<Rightarrow> Raft" where
  "Kill rf = rf\<lparr>dead := 1\<rparr>"

definition killed :: "Raft \<Rightarrow> bool" where
  "killed rf \<longleftrightarrow> dead rf = 1"

subsection \<open>Roles and heartbeats\<close>

definition cancel :: "Raft \<Rightarrow> Raft" where
  "cancel rf = (case heartbeatCancel rf of None \<Rightarrow> rf
     | Some ctx \<Rightarrow> rf\<lparr>running := filter (\<lambda>c. c \<noteq> ctx) (running rf)\<rparr>)"

definition transitTo :: "Raft \<Rightarrow> role \<Rightarrow> Raft" where
  "transitTo rf role =
     (let rf = rf\<lparr>Role := role\<rparr> in
      if Role rf = Leader then
        let rf = cancel rf; ctx = contexts rf in
        rf\<lparr>contexts := ctx + 1, heartbeatCancel := Some ctx, running := running rf @ [ctx]\<rparr>
      else cancel rf)"

definition AppendEntries :: "Raft \<Rightarrow> AppendEntriesArgs \<Rightarrow> int \<Rightarrow> Raft \<times> AppendEntriesReply" where
  "AppendEntries rf args now =
     (let reply = \<lparr>aer_Term = 0, Success = False\<rparr> in
      if length (Entries args) = 0 then
        let (rf, reply) =
          (if Role rf = Candidate then
             if ae_Term args \<ge> raft_term rf then
               ((transitTo rf Follower)\<lparr>currentLeader := LeaderID args, raft_term := ae_Term args,
                   lastHeartbeat := now\<rparr>, reply\<lparr>Success := True\<rparr>)
             else (rf, reply\<lparr>Success := False\<rparr>)
           else if Role rf = Follower then
             if LeaderID args = currentLeader rf then (rf\<lparr>lastHeartbeat := now\<rparr>, reply\<lparr>Success := True\<rparr>)
             else if ae_Term args \<ge> raft_term rf then (rf, reply\<lparr>Success := True\<rparr>)
             else (rf, reply\<lparr>Success := False\<rparr>)
           else
             if ae_Term args > raft_term rf then (transitTo (rf\<lparr>raft_term := ae_Term args\<rparr>) Follower, reply)
             else (rf, reply))
        in (rf, reply\<lparr>aer_Term := raft_term rf\<rparr>)
      else (rf, reply))"

text \<open>
  \<open>broadcastHeartbeat\<close>: the message to each other peer, and what the goroutine does with a reply;
  the zero reply stands for a lost message.
\<close>

definition broadcastHeartbeat :: "Raft \<Rightarrow> (nat \<times> AppendEntriesArgs) list" where
  "broadcastHeartbeat rf =
     (if Role rf \<noteq> Leader then []
      else map (\<lambda>server. (server, \<lparr>ae_Term = raft_term rf, LeaderID = me rf, PrevLogIndex = 0, PrevLogTerm = 0,
                                    Entries = [], LeaderCommit = 0\<rparr>))
             (filter (\<lambda>server. server \<noteq> me rf) [0..<peers rf]))"

definition heartbeat_reply :: "Raft \<Rightarrow> AppendEntriesReply \<Rightarrow> Raft" where
  "heartbeat_reply rf reply =
     (if Success reply = False \<and> aer_Term reply > raft_term rf
      then transitTo (rf\<lparr>raft_term := aer_Term reply\<rparr>) Follower else rf)"

subsection \<open>Votes\<close>

definition logUpToDate :: "Raft \<Rightarrow> RequestVoteArgs \<Rightarrow> bool" where
  "logUpToDate rf args \<longleftrightarrow>
     length (Logs rf) = 0 \<or> LastLogTerm args > log_term (last (Logs rf)) \<or>
     LastLogTerm args = log_term (last (Logs rf)) \<and> LastLogIndex args \<ge> int (length (Logs rf))"

definition RequestVote_check :: "Raft \<Rightarrow> RequestVoteArgs \<Rightarrow> bool" where
  "RequestVote_check rf args \<longleftrightarrow>
     \<not> rv_Term args < raft_term rf \<and> voteFor rf (rv_Term args) = None \<and> logUpToDate rf args"

definition RequestVote_grant :: "Raft \<Rightarrow> RequestVoteArgs \<Rightarrow> Raft" where
  "RequestVote_grant rf args = rf\<lparr>voteFor := (voteFor rf)(rv_Term args \<mapsto> rv_Candidate args)\<rparr>"

definition RequestVote :: "Raft \<Rightarrow> RequestVoteArgs \<Rightarrow> Raft \<times> RequestVoteReply" where
  "RequestVote rf args =
     (let reply = \<lparr>rvr_Term = raft_term rf, VoteGranted = False\<rparr> in
      if rv_Term args < raft_term rf then (rf, reply\<lparr>VoteGranted := False\<rparr>)
      else case voteFor rf (rv_Term args) of
        None \<Rightarrow>
          if logUpToDate rf args
          then (rf\<lparr>voteFor := (voteFor rf)(rv_Term args \<mapsto> rv_Candidate args)\<rparr>, reply\<lparr>VoteGranted := True\<rparr>)
          else (rf, reply\<lparr>VoteGranted := False\<rparr>)
      | Some _ \<Rightarrow> (rf, reply\<lparr>VoteGranted := False\<rparr>))"

subsection \<open>Elections\<close>

text \<open>
  The local state of a call of \<open>Elect\<close>. The variable \<open>votes\<close> is shared by the goroutines and by the
  loop at the end, which resets it to one before it starts; both add to it.
\<close>

record election =
  currentTerm :: int
  votes :: int
  voteCh :: "bool list"
  termCh :: "int list"

definition Elect_begin :: "Raft \<Rightarrow> Raft \<times> election" where
  "Elect_begin rf =
     (let rf = transitTo rf Candidate;
          rf = rf\<lparr>raft_term := raft_term rf + 1\<rparr>;
          rf = rf\<lparr>voteFor := (voteFor rf)(raft_term rf \<mapsto> me rf)\<rparr> in
      (rf, \<lparr>currentTerm = raft_term rf, votes = 1, voteCh = [], termCh = []\<rparr>))"

definition Elect_request :: "Raft \<Rightarrow> RequestVoteArgs" where
  "Elect_request rf =
     \<lparr>rv_Term = raft_term rf, rv_Candidate = me rf, LastLogIndex = int (length (Logs rf)),
      LastLogTerm = (if length (Logs rf) = 0 then 0 else log_term (last (Logs rf)))\<rparr>"

definition step_down :: "Raft \<Rightarrow> int \<Rightarrow> int \<Rightarrow> Raft" where
  "step_down rf newTerm now =
     (let rf = transitTo (rf\<lparr>raft_term := newTerm, lastHeartbeat := now\<rparr>) Follower in
      rf\<lparr>voteFor := (voteFor rf)(raft_term rf := None)\<rparr>)"

text \<open>What a goroutine does with the reply to its request (\<open>ok\<close>: the call returned true).\<close>

definition reply_channels :: "Raft \<Rightarrow> election \<Rightarrow> RequestVoteReply \<Rightarrow> election" where
  "reply_channels rf el reply =
     (if rvr_Term reply > raft_term rf then el\<lparr>termCh := termCh el @ [rvr_Term reply]\<rparr>
      else el\<lparr>voteCh := voteCh el @ [VoteGranted reply]\<rparr>)"

definition reply_count :: "Raft \<Rightarrow> election \<Rightarrow> RequestVoteReply \<Rightarrow> Raft \<times> election" where
  "reply_count rf el reply =
     (if VoteGranted reply then
        let el = el\<lparr>votes := votes el + 1\<rparr> in
        (if votes el > int (peers rf) div 2 then transitTo rf Leader else rf, el)
      else (rf, el))"

definition reply_term :: "Raft \<Rightarrow> RequestVoteReply \<Rightarrow> int \<Rightarrow> Raft" where
  "reply_term rf reply now =
     (if rvr_Term reply > raft_term rf then step_down rf (rvr_Term reply) now else rf)"

definition Elect_reply :: "Raft \<Rightarrow> election \<Rightarrow> bool \<Rightarrow> RequestVoteReply \<Rightarrow> int \<Rightarrow> Raft \<times> election" where
  "Elect_reply rf el ok reply now =
     (let el = (if ok then reply_channels rf el reply else el);
          (rf, el) = reply_count rf el reply in
      (reply_term rf reply now, el))"

text \<open>
  One iteration of the loop that reads the channels. The third component is \<open>True\<close> when \<open>Elect\<close>
  returns. An iteration with nothing to receive waits; \<open>timeout\<close> ends it after the timeout.
\<close>

definition collect_term :: "Raft \<Rightarrow> election \<Rightarrow> int \<Rightarrow> (Raft \<times> election \<times> bool) option" where
  "collect_term rf el now =
     (case termCh el of [] \<Rightarrow> None
      | higherTerm # rest \<Rightarrow> Some (step_down rf higherTerm now, el\<lparr>termCh := rest\<rparr>, True))"

definition collect_vote :: "Raft \<Rightarrow> election \<Rightarrow> (Raft \<times> election \<times> bool) option" where
  "collect_vote rf el =
     (case voteCh el of [] \<Rightarrow> None
      | granted # rest \<Rightarrow>
          let el = el\<lparr>voteCh := rest\<rparr> in
          Some (if granted then
                  let el = el\<lparr>votes := votes el + 1\<rparr> in
                  if votes el > int (peers rf) div 2 \<and> raft_term rf = currentTerm el \<and> Role rf = Candidate
                  then (transitTo rf Leader, el, True) else (rf, el, False)
                else (rf, el, False)))"

definition HeartbeatExpire :: "Raft \<Rightarrow> int \<Rightarrow> bool" where
  "HeartbeatExpire rf now \<longleftrightarrow> now - lastHeartbeat rf > HeartbeatTimeout"

text \<open>One iteration of \<open>ticker\<close>: \<open>None\<close> when the loop ends, otherwise whether \<open>Elect\<close> is called.\<close>

definition ticker_iter :: "Raft \<Rightarrow> int \<Rightarrow> bool option" where
  "ticker_iter rf now =
     (if killed rf then None
      else Some (if Role rf = Leader then False
                 else if Role rf = Candidate then True
                 else HeartbeatExpire rf now))"

definition Make :: "nat \<Rightarrow> nat \<Rightarrow> Persister \<Rightarrow> Raft" where
  "Make n i ps =
     (let rf = \<lparr>peers = n, persister = ps, me = i, dead = 0, heartbeatCancel = None, contexts = 0, running = [],
                Role = Candidate, raft_term = 0, voteFor = Map.empty, currentLeader = 0, Logs = [], lastHeartbeat = 0\<rparr> in
      readPersist rf (ReadRaftState ps))"


subsection \<open>Heartbeat goroutines\<close>

text \<open>A leader has exactly one heartbeat goroutine that was not cancelled, every other peer none.\<close>

definition heartbeat_ok :: "Raft \<Rightarrow> bool" where
  "heartbeat_ok rf \<longleftrightarrow>
     (if Role rf = Leader then \<exists>ctx. heartbeatCancel rf = Some ctx \<and> running rf = [ctx] else running rf = [])"

definition same_peer :: "Raft \<Rightarrow> Raft \<Rightarrow> bool" where
  "same_peer rf rf' \<longleftrightarrow> me rf' = me rf \<and> peers rf' = peers rf \<and> contexts rf \<le> contexts rf' \<and>
     (killed rf \<longrightarrow> killed rf')"

text \<open>The steps of a peer; what it receives is arbitrary.\<close>

inductive peer_step :: "Raft \<Rightarrow> Raft \<Rightarrow> bool" where
  ps_append: "peer_step rf (fst (AppendEntries rf args now))"
| ps_beat: "peer_step rf (heartbeat_reply rf reply)"
| ps_vote: "peer_step rf (fst (RequestVote rf vargs))"
| ps_elect: "peer_step rf (fst (Elect_begin rf))"
| ps_reply: "peer_step rf (fst (Elect_reply rf el ok vreply now))"
| ps_term: "collect_term rf el now = Some (rf', el', d) \<Longrightarrow> peer_step rf rf'"
| ps_count: "collect_vote rf el = Some (rf', el', d) \<Longrightarrow> peer_step rf rf'"
| ps_kill: "peer_step rf (Kill rf)"

lemma transitTo_fields [simp]:
  "Role (transitTo rf r) = r" "raft_term (transitTo rf r) = raft_term rf" "voteFor (transitTo rf r) = voteFor rf"
  "me (transitTo rf r) = me rf" "peers (transitTo rf r) = peers rf" "currentLeader (transitTo rf r) = currentLeader rf"
  "lastHeartbeat (transitTo rf r) = lastHeartbeat rf" "Logs (transitTo rf r) = Logs rf" "dead (transitTo rf r) = dead rf"
  by (simp_all add: transitTo_def cancel_def Let_def split: option.splits)

lemma transitTo_ok: "heartbeat_ok rf \<Longrightarrow> heartbeat_ok (transitTo rf r)"
  by (auto simp: heartbeat_ok_def transitTo_def cancel_def Let_def split: option.splits if_splits)

lemma transitTo_contexts: "contexts rf \<le> contexts (transitTo rf r)"
  by (simp add: transitTo_def cancel_def Let_def split: option.splits)

lemma heartbeat_ok_upd [simp]:
  "heartbeat_ok (rf\<lparr>raft_term := t\<rparr>) = heartbeat_ok rf" "heartbeat_ok (rf\<lparr>voteFor := m\<rparr>) = heartbeat_ok rf"
  "heartbeat_ok (rf\<lparr>lastHeartbeat := n\<rparr>) = heartbeat_ok rf" "heartbeat_ok (rf\<lparr>currentLeader := l\<rparr>) = heartbeat_ok rf"
  "heartbeat_ok (rf\<lparr>dead := d\<rparr>) = heartbeat_ok rf"
  by (simp_all add: heartbeat_ok_def)

lemmas peer_op_defs = AppendEntries_def heartbeat_reply_def RequestVote_def Elect_begin_def Elect_reply_def
  reply_channels_def reply_count_def reply_term_def step_down_def collect_term_def collect_vote_def Kill_def Let_def

lemma peer_step_ok:
  assumes "peer_step rf rf'" and "heartbeat_ok rf"
  shows "heartbeat_ok rf'"
  using assms
proof (induction rule: peer_step.induct)
  case (ps_append rf args now)
  then show ?case by (auto simp: peer_op_defs intro!: transitTo_ok)
next
  case (ps_reply rf el ok vreply now)
  then show ?case by (auto simp: peer_op_defs intro!: transitTo_ok)
next
  case (ps_term rf el now rf' el' d)
  then show ?case by (auto simp: peer_op_defs intro!: transitTo_ok split: list.splits)
next
  case (ps_count rf el rf' el' d)
  then show ?case by (auto simp: peer_op_defs intro!: transitTo_ok split: list.splits if_splits)
next
  case (ps_vote rf vargs)
  then show ?case by (auto simp: peer_op_defs split: option.splits)
qed (auto simp: peer_op_defs intro!: transitTo_ok)

lemma same_peer_transitTo: "same_peer rf rf' \<Longrightarrow> same_peer rf (transitTo rf' r)"
  using transitTo_contexts [of rf' r] by (auto simp: same_peer_def killed_def)

lemma same_peer_upd [simp]:
  "same_peer rf (rf'\<lparr>raft_term := t\<rparr>) = same_peer rf rf'" "same_peer rf (rf'\<lparr>voteFor := m\<rparr>) = same_peer rf rf'"
  "same_peer rf (rf'\<lparr>lastHeartbeat := n\<rparr>) = same_peer rf rf'" "same_peer rf (rf'\<lparr>currentLeader := l\<rparr>) = same_peer rf rf'"
  "same_peer rf rf"
  by (simp_all add: same_peer_def killed_def)

lemma peer_step_same:
  assumes "peer_step rf rf'"
  shows "same_peer rf rf'"
  using assms
proof (induction rule: peer_step.induct)
  case (ps_append rf args now)
  then show ?case by (auto simp: peer_op_defs intro!: same_peer_transitTo)
next
  case (ps_reply rf el ok vreply now)
  then show ?case by (auto simp: peer_op_defs intro!: same_peer_transitTo)
next
  case (ps_term rf el now rf' el' d)
  then show ?case by (auto simp: peer_op_defs intro!: same_peer_transitTo split: list.splits)
next
  case (ps_count rf el rf' el' d)
  then show ?case by (auto simp: peer_op_defs intro!: same_peer_transitTo split: list.splits if_splits)
next
  case (ps_vote rf vargs)
  then show ?case by (auto simp: peer_op_defs split: option.splits)
next
  case (ps_kill rf)
  then show ?case by (simp add: Kill_def same_peer_def killed_def)
qed (auto simp: peer_op_defs intro!: same_peer_transitTo)

interpretation raft_peer: step_invariant peer_step heartbeat_ok same_peer
proof
  show "heartbeat_ok s \<Longrightarrow> peer_step s t \<Longrightarrow> heartbeat_ok t" for s t by (rule peer_step_ok)
  show "peer_step s t \<Longrightarrow> same_peer s t" for s t by (rule peer_step_same)
qed (auto simp: same_peer_def)

text \<open>
  Property C18. From its creation on, whatever a peer receives and does, exactly one heartbeat
  goroutine is running while it is the leader and none otherwise: every change of role cancels the
  old one, and a killed peer stays killed.\<close>

theorem one_heartbeat_goroutine:
  assumes "peer_step\<^sup>*\<^sup>* (Make n i ps) rf"
  shows "length (running rf) = (if Role rf = Leader then 1 else 0) \<and> me rf = i \<and> peers rf = n"
proof -
  have "heartbeat_ok (Make n i ps)" by (simp add: Make_def readPersist_def heartbeat_ok_def)
  then have "heartbeat_ok rf" "same_peer (Make n i ps) rf"
    using raft_peer.reach_inv [OF assms] raft_peer.reach_le [OF assms] by blast+
  then show ?thesis by (auto simp: heartbeat_ok_def same_peer_def Make_def readPersist_def split: if_splits)
qed

theorem one_heartbeat_goroutine_witness:
  "length (running (fst (Elect_begin (Make 3 0 MakePersister)))) =
    (if Role (fst (Elect_begin (Make 3 0 MakePersister))) = Leader then 1 else 0)"
  using one_heartbeat_goroutine [OF r_into_rtranclp [of peer_step, OF ps_elect], of 3 0 MakePersister] by blast


subsection \<open>The handlers\<close>

lemma RequestVote_eq:
  "RequestVote rf args =
    (if RequestVote_check rf args then RequestVote_grant rf args else rf,
     \<lparr>rvr_Term = raft_term rf, VoteGranted = RequestVote_check rf args\<rparr>)"
  by (auto simp: RequestVote_def RequestVote_check_def RequestVote_grant_def Let_def split: option.splits)

text \<open>A sequence of vote requests to one peer, and how many of them it grants.\<close>

fun ask_all :: "Raft \<Rightarrow> RequestVoteArgs list \<Rightarrow> Raft \<times> nat list" where
  "ask_all rf [] = (rf, [])"
| "ask_all rf (a # as) =
     (let (rf, reply) = RequestVote rf a; (rf, granted) = ask_all rf as in
      (rf, if VoteGranted reply then rv_Candidate a # granted else granted))"

lemma ask_all_voted:
  assumes "\<forall>a\<in>set as. rv_Term a = t" and "voteFor rf t = Some c"
  shows "ask_all rf as = (rf, [])"
  using assms by (induction "as") (auto simp: RequestVote_eq RequestVote_check_def Let_def)

text \<open>
  The vote handler grants at most one vote per term: of any sequence of requests for
  the same term at most one is granted, the one granted is recorded, and a request for a term
  before the peer's or from a candidate whose log is behind is refused without any change.\<close>

theorem request_vote_once:
  assumes "\<forall>a\<in>set as. rv_Term a = t" and "ask_all rf as = (rf', granted)"
  shows "length granted \<le> 1 \<and> (\<forall>c\<in>set granted. voteFor rf' t = Some c) \<and>
    (granted = [] \<longrightarrow> rf' = rf) \<and> (t < raft_term rf \<or> (\<forall>a\<in>set as. \<not> logUpToDate rf a) \<longrightarrow> granted = []) \<and>
    raft_term rf' = raft_term rf \<and> Role rf' = Role rf"
  using assms
proof (induction "as" arbitrary: rf rf' granted)
  case Nil
  then show ?case by simp
next
  case (Cons a as)
  show ?case
  proof (cases "RequestVote_check rf a")
    case True
    then have g: "voteFor (RequestVote_grant rf a) t = Some (rv_Candidate a)" "\<not> t < raft_term rf" "logUpToDate rf a"
      using Cons.prems(1) by (simp_all add: RequestVote_grant_def RequestVote_check_def)
    have "ask_all (RequestVote_grant rf a) as = (RequestVote_grant rf a, [])"
      by (rule ask_all_voted [OF _ g(1)]) (use Cons.prems(1) in simp)
    then have "granted = [rv_Candidate a]" "rf' = RequestVote_grant rf a"
      using Cons.prems(2) True by (simp_all add: RequestVote_eq Let_def)
    then show ?thesis using g by (simp add: RequestVote_grant_def)
  next
    case False
    then have "ask_all rf as = (rf', granted)" using Cons.prems(2) by (simp add: RequestVote_eq Let_def split: prod.splits)
    then show ?thesis using Cons.IH [of rf rf' granted] Cons.prems(1) by auto
  qed
qed

definition demo_ask :: "nat \<Rightarrow> RequestVoteArgs" where
  "demo_ask c = \<lparr>rv_Term = 1, rv_Candidate = c, LastLogIndex = 0, LastLogTerm = 0\<rparr>"

theorem request_vote_once_witness:
  "snd (ask_all (Make 3 0 MakePersister) [demo_ask 1, demo_ask 2]) = [1] \<and> length [1::nat] \<le> 1"
proof -
  have a: "ask_all (Make 3 0 MakePersister) [demo_ask 1, demo_ask 2] =
      (RequestVote_grant (Make 3 0 MakePersister) (demo_ask 1), [1])"
    by (simp add: demo_ask_def Make_def readPersist_def RequestVote_eq RequestVote_check_def RequestVote_grant_def
        logUpToDate_def Let_def)
  then show ?thesis using request_vote_once [OF _ a, of 1] by (simp add: demo_ask_def)
qed

text \<open>
  The loop at the end of \<open>Elect\<close> can move a peer's term back: two goroutines see
  replies of the terms \<open>a < b\<close> and the peer reaches term \<open>b\<close>; the loop then reads \<open>a\<close> from the
  channel and stores it.\<close>

theorem collector_lowers_term:
  assumes "raft_term rf < a" and "a < b" and "termCh el = []"
  shows "let (rf1, el1) = Elect_reply rf el True \<lparr>rvr_Term = a, VoteGranted = False\<rparr> now;
             (rf2, el2) = Elect_reply rf1 el1 True \<lparr>rvr_Term = b, VoteGranted = False\<rparr> now in
         raft_term rf2 = b \<and> (\<exists>rf3 el3. collect_term rf2 el2 now = Some (rf3, el3, True) \<and> raft_term rf3 = a)"
  using assms by (simp add: peer_op_defs)

theorem collector_lowers_term_witness:
  "let (rf1, el1) = Elect_reply (Make 3 0 MakePersister) \<lparr>currentTerm = 1, votes = 1, voteCh = [], termCh = []\<rparr> True
             \<lparr>rvr_Term = 5, VoteGranted = False\<rparr> 0;
       (rf2, el2) = Elect_reply rf1 el1 True \<lparr>rvr_Term = 7, VoteGranted = False\<rparr> 0 in
   raft_term rf2 = 7 \<and> (\<exists>rf3 el3. collect_term rf2 el2 0 = Some (rf3, el3, True) \<and> raft_term rf3 = 5)"
  by (rule collector_lowers_term) (simp_all add: Make_def readPersist_def)

text \<open>
  A follower does not follow a new leader: heartbeats of a leader other than the one it
  knows change nothing, so its timer runs out and it starts an election although it answered that
  leader, even one of a later term, with success.\<close>

theorem follower_ignores_new_leader:
  assumes "Role rf = Follower" and "LeaderID args \<noteq> currentLeader rf" and "Entries args = []"
    and "\<not> killed rf" and "HeartbeatExpire rf now"
  shows "fst (AppendEntries rf args now) = rf \<and> Success (snd (AppendEntries rf args now)) = (raft_term rf \<le> ae_Term args) \<and>
    ticker_iter (fst (AppendEntries rf args now)) now = Some True"
  using assms by (auto simp: AppendEntries_def ticker_iter_def Let_def)

theorem follower_ignores_new_leader_witness:
  "ticker_iter (fst (AppendEntries ((Make 3 0 MakePersister)\<lparr>Role := Follower\<rparr>)
     \<lparr>ae_Term = 4, LeaderID = 2, PrevLogIndex = 0, PrevLogTerm = 0, Entries = [], LeaderCommit = 0\<rparr> 1000)) 1000 = Some True"
  by (rule follower_ignores_new_leader [THEN conjunct2, THEN conjunct2])
    (simp_all add: Make_def readPersist_def killed_def HeartbeatExpire_def HeartbeatTimeout_def)

text \<open>
  What is saved is read back: after \<open>Save\<close> both parts and their sizes are the saved ones,
  and a copy taken before is not affected by a later \<open>Save\<close>.\<close>

theorem persister_roundtrip:
  "let ps' = Save ps rs snap in
   ReadRaftState ps' = rs \<and> ReadSnapshot ps' = snap \<and> RaftStateSize ps' = length rs \<and> SnapshotSize ps' = length snap \<and>
   ReadRaftState (Persister_Copy ps) = ReadRaftState ps \<and> ReadSnapshot (Persister_Copy ps) = ReadSnapshot ps"
  by (simp add: Save_def ReadRaftState_def ReadSnapshot_def RaftStateSize_def SnapshotSize_def Persister_Copy_def
      MakePersister_def Let_def)

end
