(* ===== verification/Raft_Cluster.thy ===== *)
theory Raft_Cluster
  imports Raft_Peer
begin

text \<open>
  A cluster of Raft peers of \<open>raft1/raft.go\<close> and the messages between them. A call of \<open>Elect\<close> is an
  entry of \<open>elections\<close>: its peer, its local state and the iterations its final loop has left (none
  when it has returned; the ticker calls \<open>Elect\<close> again only then). A request, its reply and a
  heartbeat are entries of \<open>messages\<close>, delivered in any order, late or never. The events are the
  steps of the goroutines; each part of the code between two RPCs is one step.
\<close>

datatype msg =
    VoteReq nat nat RequestVoteArgs
  | VoteRep nat nat RequestVoteReply
  | Beat nat nat AppendEntriesArgs
  | BeatRep nat AppendEntriesReply
  | Gone

record cluster =
  rafts :: "Raft list"
  elections :: "(nat \<times> election \<times> nat) list"
  asked :: "(nat \<times> nat) list"
  messages :: "msg list"

datatype event =
    EvElect nat int
  | EvAsk nat nat
  | EvVote nat
  | EvReply nat int
  | EvTerm nat int
  | EvCount nat
  | EvTimeout nat
  | EvBeat nat
  | EvBeatDeliver nat int
  | EvBeatReply nat

definition init_cluster :: "nat \<Rightarrow> cluster" where
  "init_cluster n = \<lparr>rafts = map (\<lambda>i. Make n i MakePersister) [0..<n], elections = [], asked = [], messages = []\<rparr>"

definition set_raft :: "cluster \<Rightarrow> nat \<Rightarrow> Raft \<Rightarrow> cluster" where
  "set_raft C i rf = C\<lparr>rafts := (rafts C)[i := rf]\<rparr>"

definition set_el :: "cluster \<Rightarrow> nat \<Rightarrow> nat \<times> election \<times> nat \<Rightarrow> cluster" where
  "set_el C e x = C\<lparr>elections := (elections C)[e := x]\<rparr>"

definition set_msg :: "cluster \<Rightarrow> nat \<Rightarrow> msg \<Rightarrow> cluster" where
  "set_msg C k m = C\<lparr>messages := (messages C)[k := m]\<rparr>"

text \<open>\<open>None\<close>: the event cannot happen in this state.\<close>

fun exec :: "cluster \<Rightarrow> event \<Rightarrow> cluster option" where
  "exec C (EvElect i now) =
     (if i < length (rafts C) \<and> ticker_iter (rafts C ! i) now = Some True \<and>
         (\<forall>(j, el, left)\<in>set (elections C). j = i \<longrightarrow> left = 0)
      then let (rf, el) = Elect_begin (rafts C ! i) in
           Some ((set_raft C i rf)\<lparr>elections := elections C @ [(i, el, peers rf - 1)]\<rparr>)
      else None)"
| "exec C (EvAsk e s) =
     (if e < length (elections C) \<and> s < length (rafts C) \<and> s \<noteq> fst (elections C ! e) \<and> (e, s) \<notin> set (asked C)
      then Some (C\<lparr>asked := (e, s) # asked C,
                   messages := messages C @ [VoteReq e s (Elect_request (rafts C ! fst (elections C ! e)))]\<rparr>)
      else None)"
| "exec C (EvVote k) =
     (if k < length (messages C) then
        case messages C ! k of
          VoteReq e s args \<Rightarrow>
            let (rf, reply) = RequestVote (rafts C ! s) args in
            Some (set_msg (set_raft C s rf) k (VoteRep e s reply))
        | _ \<Rightarrow> None
      else None)"
| "exec C (EvReply k now) =
     (if k < length (messages C) then
        case messages C ! k of
          VoteRep e s reply \<Rightarrow>
            let (i, el, left) = elections C ! e; (rf, el) = Elect_reply (rafts C ! i) el True reply now in
            Some (set_msg (set_el (set_raft C i rf) e (i, el, left)) k Gone)
        | _ \<Rightarrow> None
      else None)"
| "exec C (EvTerm e now) =
     (if e < length (elections C) then
        let (i, el, left) = elections C ! e in
        if left = 0 then None
        else case collect_term (rafts C ! i) el now of None \<Rightarrow> None
          | Some (rf, el, d) \<Rightarrow> Some (set_el (set_raft C i rf) e (i, el, if d then 0 else left - 1))
      else None)"
| "exec C (EvCount e) =
     (if e < length (elections C) then
        let (i, el, left) = elections C ! e in
        if left = 0 then None
        else case collect_vote (rafts C ! i) el of None \<Rightarrow> None
          | Some (rf, el, d) \<Rightarrow> Some (set_el (set_raft C i rf) e (i, el, if d then 0 else left - 1))
      else None)"
| "exec C (EvTimeout e) =
     (if e < length (elections C) then
        let (i, el, left) = elections C ! e in Some (set_el C e (i, el, 0))
      else None)"
| "exec C (EvBeat i) =
     (if i < length (rafts C) \<and> running (rafts C ! i) \<noteq> []
      then Some (C\<lparr>messages := messages C @ map (\<lambda>(s, args). Beat i s args) (broadcastHeartbeat (rafts C ! i))\<rparr>)
      else None)"
| "exec C (EvBeatDeliver k now) =
     (if k < length (messages C) then
        case messages C ! k of
          Beat i s args \<Rightarrow>
            let (rf, reply) = AppendEntries (rafts C ! s) args now in
            Some (set_msg (set_raft C s rf) k (BeatRep i reply))
        | _ \<Rightarrow> None
      else None)"
| "exec C (EvBeatReply k) =
     (if k < length (messages C) then
        case messages C ! k of
          BeatRep i reply \<Rightarrow> Some (set_msg (set_raft C i (heartbeat_reply (rafts C ! i) reply)) k Gone)
        | _ \<Rightarrow> None
      else None)"

fun exec_all :: "cluster \<Rightarrow> event list \<Rightarrow> cluster option" where
  "exec_all C [] = Some C"
| "exec_all C (e # es) = (case exec C e of None \<Rightarrow> None | Some C' \<Rightarrow> exec_all C' es)"

definition leads :: "cluster \<Rightarrow> nat \<Rightarrow> int \<Rightarrow> bool" where
  "leads C i t \<longleftrightarrow> i < length (rafts C) \<and> GetState (rafts C ! i) = (t, True)"


subsection \<open>Election safety\<close>

text \<open>
  What the code leaves open, as conditions on an event: a peer that starts an election has not
  voted in that term yet; a goroutine builds its request, and counts a granted vote, while the peer
  is still in the term of the election; and no record of a vote is deleted.
\<close>

fun clean :: "cluster \<Rightarrow> event \<Rightarrow> bool" where
  "clean C (EvElect i now) = (voteFor (rafts C ! i) (raft_term (rafts C ! i) + 1) = None)"
| "clean C (EvAsk e s) =
     (let (i, el, left) = elections C ! e in raft_term (rafts C ! i) = currentTerm el)"
| "clean C (EvReply k now) =
     (case messages C ! k of
        VoteRep e s reply \<Rightarrow>
          let (i, el, left) = elections C ! e; rf = rafts C ! i in
          (VoteGranted reply \<longrightarrow> raft_term rf = currentTerm el) \<and>
          (rvr_Term reply > raft_term rf \<longrightarrow> voteFor rf (rvr_Term reply) = None)
      | _ \<Rightarrow> True)"
| "clean C (EvTerm e now) =
     (let (i, el, left) = elections C ! e in
      case termCh el of [] \<Rightarrow> True | t # _ \<Rightarrow> voteFor (rafts C ! i) t = None)"
| "clean C _ = True"

fun clean_run :: "cluster \<Rightarrow> event list \<Rightarrow> bool" where
  "clean_run C [] = True"
| "clean_run C (e # es) = (clean C e \<and> (case exec C e of None \<Rightarrow> False | Some C' \<Rightarrow> clean_run C' es))"

abbreviation voted :: "Raft list \<Rightarrow> nat \<Rightarrow> int \<Rightarrow> nat \<Rightarrow> bool" where
  "voted rs v t c \<equiv> voteFor (rs ! v) t = Some c"

definition supported :: "Raft list \<Rightarrow> nat \<Rightarrow> int \<Rightarrow> bool" where
  "supported rs i t \<longleftrightarrow> voted rs i t i \<and> (\<exists>v<length rs. v \<noteq> i \<and> voted rs v t i)"

definition el_ok :: "Raft list \<Rightarrow> nat \<times> election \<times> nat \<Rightarrow> bool" where
  "el_ok rs x = (case x of (i, el, left) \<Rightarrow>
     i < length rs \<and> voted rs i (currentTerm el) i \<and> (True \<in> set (voteCh el) \<longrightarrow> supported rs i (currentTerm el)))"

definition msg_ok :: "Raft list \<Rightarrow> (nat \<times> election \<times> nat) list \<Rightarrow> msg \<Rightarrow> bool" where
  "msg_ok rs els m = (case m of
     VoteReq e s args \<Rightarrow> e < length els \<and> s < length rs \<and> s \<noteq> fst (els ! e) \<and>
       rv_Candidate args = fst (els ! e) \<and> rv_Term args = currentTerm (fst (snd (els ! e)))
   | VoteRep e s reply \<Rightarrow> e < length els \<and> s < length rs \<and> s \<noteq> fst (els ! e) \<and>
       (VoteGranted reply \<longrightarrow> voted rs s (currentTerm (fst (snd (els ! e)))) (fst (els ! e)))
   | Beat i s args \<Rightarrow> i < length rs \<and> s < length rs
   | BeatRep i reply \<Rightarrow> i < length rs
   | Gone \<Rightarrow> True)"

definition peer_ok :: "Raft list \<Rightarrow> nat \<Rightarrow> bool" where
  "peer_ok rs i \<longleftrightarrow> me (rs ! i) = i \<and> peers (rs ! i) = length rs \<and>
     (Role (rs ! i) = Leader \<longrightarrow> supported rs i (raft_term (rs ! i)))"

definition cluster_inv :: "cluster \<Rightarrow> bool" where
  "cluster_inv C \<longleftrightarrow> (\<forall>i<length (rafts C). peer_ok (rafts C) i) \<and> list_all (el_ok (rafts C)) (elections C) \<and>
     list_all (msg_ok (rafts C) (elections C)) (messages C)"

text \<open>A change of one peer that deletes and overwrites no vote keeps everything said about votes.\<close>

definition keeps_votes :: "Raft \<Rightarrow> Raft \<Rightarrow> bool" where
  "keeps_votes rf rf' \<longleftrightarrow> me rf' = me rf \<and> peers rf' = peers rf \<and> (\<forall>t c. voteFor rf t = Some c \<longrightarrow> voteFor rf' t = Some c)"

lemma voted_update: "keeps_votes (rs ! i) rf \<Longrightarrow> voted rs v t c \<Longrightarrow> i < length rs \<Longrightarrow> voted (rs[i := rf]) v t c"
  by (cases "v = i") (auto simp: keeps_votes_def)

lemma supported_update: "keeps_votes (rs ! i) rf \<Longrightarrow> i < length rs \<Longrightarrow> supported rs j t \<Longrightarrow> supported (rs[i := rf]) j t"
  unfolding supported_def using voted_update by fastforce

lemma el_ok_update: "keeps_votes (rs ! i) rf \<Longrightarrow> i < length rs \<Longrightarrow> el_ok rs x \<Longrightarrow> el_ok (rs[i := rf]) x"
  unfolding el_ok_def using supported_update voted_update by (fastforce split: prod.splits)

lemma msg_ok_update: "keeps_votes (rs ! i) rf \<Longrightarrow> i < length rs \<Longrightarrow> msg_ok rs els m \<Longrightarrow> msg_ok (rs[i := rf]) els m"
  unfolding msg_ok_def using voted_update by (fastforce split: msg.splits)

lemma peer_ok_update:
  assumes "keeps_votes (rs ! i) rf" and "i < length rs" and "\<forall>j<length rs. peer_ok rs j"
    and "Role rf = Leader \<Longrightarrow> supported (rs[i := rf]) i (raft_term rf)"
  shows "\<forall>j<length (rs[i := rf]). peer_ok (rs[i := rf]) j"
proof (intro allI impI)
  fix j assume j: "j < length (rs[i := rf])"
  then have "peer_ok rs j" using assms(3) by simp
  then show "peer_ok (rs[i := rf]) j"
    using assms(1,2,4) supported_update [OF assms(1,2)] by (cases "j = i") (auto simp: peer_ok_def keeps_votes_def)
qed

lemma inv_update:
  assumes "cluster_inv C" and "i < length (rafts C)" and "keeps_votes (rafts C ! i) rf"
    and "Role rf = Leader \<Longrightarrow> supported ((rafts C)[i := rf]) i (raft_term rf)"
  shows "cluster_inv (set_raft C i rf)"
  using assms peer_ok_update [OF assms(3,2) _ assms(4)] el_ok_update [OF assms(3,2)] msg_ok_update [OF assms(3,2)]
  by (auto simp: cluster_inv_def set_raft_def list_all_iff)


lemma list_all_update: "list_all P xs \<Longrightarrow> P x \<Longrightarrow> list_all P (xs[i := x])"
  using set_update_subset_insert [of xs i x] by (auto simp: list_all_iff)

lemma inv_set_msg: "cluster_inv C \<Longrightarrow> msg_ok (rafts C) (elections C) m \<Longrightarrow> cluster_inv (set_msg C k m)"
  by (simp add: cluster_inv_def set_msg_def list_all_update)

lemma msg_ok_els:
  assumes "length els \<le> length els'" and "\<And>e. e < length els \<Longrightarrow> fst (els' ! e) = fst (els ! e) \<and>
    currentTerm (fst (snd (els' ! e))) = currentTerm (fst (snd (els ! e)))"
  shows "msg_ok rs els m \<Longrightarrow> msg_ok rs els' m"
  using assms by (auto simp: msg_ok_def split: msg.splits)

lemma inv_set_els:
  assumes "cluster_inv C" and "list_all (el_ok (rafts C)) els'" and "length (elections C) \<le> length els'"
    and "\<And>e. e < length (elections C) \<Longrightarrow> fst (els' ! e) = fst (elections C ! e) \<and>
      currentTerm (fst (snd (els' ! e))) = currentTerm (fst (snd (elections C ! e)))"
  shows "cluster_inv (C\<lparr>elections := els'\<rparr>)"
proof -
  have "list_all (msg_ok (rafts C) els') (messages C)"
    using assms(1) msg_ok_els [OF assms(3,4)] by (auto simp: cluster_inv_def list_all_iff)
  then show ?thesis using assms(1,2) by (simp add: cluster_inv_def)
qed

lemma inv_set_el:
  assumes "cluster_inv C" and "elections C ! e = (i, el, left)" and "el_ok (rafts C) (i, el', left')"
    and "currentTerm el' = currentTerm el"
  shows "cluster_inv (set_el C e (i, el', left'))"
  unfolding set_el_def
proof (rule inv_set_els [OF assms(1)])
  show "list_all (el_ok (rafts C)) ((elections C)[e := (i, el', left')])"
    using assms(1,3) by (simp add: cluster_inv_def list_all_update)
  show "fst ((elections C)[e := (i, el', left')] ! j) = fst (elections C ! j) \<and>
      currentTerm (fst (snd ((elections C)[e := (i, el', left')] ! j))) = currentTerm (fst (snd (elections C ! j)))"
    if "j < length (elections C)" for j
    using assms(2,4) that by (cases "j = e") simp_all
qed simp

lemma el_ok_nth: "cluster_inv C \<Longrightarrow> e < length (elections C) \<Longrightarrow> el_ok (rafts C) (elections C ! e)"
  by (simp add: cluster_inv_def list_all_length)

lemma msg_ok_nth: "cluster_inv C \<Longrightarrow> k < length (messages C) \<Longrightarrow> msg_ok (rafts C) (elections C) (messages C ! k)"
  by (simp add: cluster_inv_def list_all_length)

lemma peer_ok_nth: "cluster_inv C \<Longrightarrow> i < length (rafts C) \<Longrightarrow> peer_ok (rafts C) i"
  by (simp add: cluster_inv_def)

text \<open>A peer step under which a leader stays what it was.\<close>

lemma inv_update_quiet:
  assumes "cluster_inv C" and "i < length (rafts C)" and "keeps_votes (rafts C ! i) rf"
    and "Role rf = Leader \<Longrightarrow> Role (rafts C ! i) = Leader \<and> raft_term rf = raft_term (rafts C ! i)"
  shows "cluster_inv (set_raft C i rf)"
proof (rule inv_update [OF assms(1-3)])
  assume "Role rf = Leader"
  then have "Role (rafts C ! i) = Leader" "raft_term rf = raft_term (rafts C ! i)" using assms(4) by simp_all
  then have "supported (rafts C) i (raft_term rf)" using peer_ok_nth [OF assms(1,2)] by (simp add: peer_ok_def)
  then show "supported ((rafts C)[i := rf]) i (raft_term rf)" by (rule supported_update [OF assms(3,2)])
qed

lemma AppendEntries_quiet:
  "keeps_votes rf (fst (AppendEntries rf args now)) \<and> (Role (fst (AppendEntries rf args now)) = Leader \<longrightarrow>
    Role rf = Leader \<and> raft_term (fst (AppendEntries rf args now)) = raft_term rf)"
  by (auto simp: AppendEntries_def keeps_votes_def Let_def)

lemma heartbeat_reply_quiet:
  "keeps_votes rf (heartbeat_reply rf reply) \<and> (Role (heartbeat_reply rf reply) = Leader \<longrightarrow>
    Role rf = Leader \<and> raft_term (heartbeat_reply rf reply) = raft_term rf)"
  by (auto simp: heartbeat_reply_def keeps_votes_def)

lemma RequestVote_quiet:
  "keeps_votes rf (fst (RequestVote rf args)) \<and> Role (fst (RequestVote rf args)) = Role rf \<and>
   raft_term (fst (RequestVote rf args)) = raft_term rf \<and>
   (VoteGranted (snd (RequestVote rf args)) \<longrightarrow> voteFor (fst (RequestVote rf args)) (rv_Term args) = Some (rv_Candidate args))"
  by (auto simp: RequestVote_eq RequestVote_check_def RequestVote_grant_def keeps_votes_def)

lemma step_down_quiet:
  "voteFor rf t = None \<Longrightarrow> keeps_votes rf (step_down rf t now) \<and> Role (step_down rf t now) = Follower"
  by (auto simp: step_down_def keeps_votes_def Let_def)

lemma Elect_reply_cases:
  assumes "Elect_reply rf el True reply now = (rf', el')"
    and "rvr_Term reply > raft_term rf \<longrightarrow> voteFor rf (rvr_Term reply) = None"
  shows "keeps_votes rf rf' \<and> (Role rf' = Leader \<longrightarrow> raft_term rf' = raft_term rf \<and> (VoteGranted reply \<or> Role rf = Leader)) \<and>
    currentTerm el' = currentTerm el \<and> (True \<in> set (voteCh el') \<longrightarrow> True \<in> set (voteCh el) \<or> VoteGranted reply)"
  using assms
  by (auto simp: Elect_reply_def reply_channels_def reply_count_def reply_term_def step_down_def keeps_votes_def Let_def
      split: if_splits)


lemma set_simps [simp]:
  "rafts (set_raft C i rf) = (rafts C)[i := rf]" "elections (set_raft C i rf) = elections C"
  "messages (set_raft C i rf) = messages C" "rafts (set_el C e x) = rafts C" "messages (set_el C e x) = messages C"
  "elections (set_el C e x) = (elections C)[e := x]" "rafts (set_msg C k m) = rafts C"
  "elections (set_msg C k m) = elections C"
  by (simp_all add: set_raft_def set_el_def set_msg_def)

lemma inv_EvElect:
  assumes "cluster_inv C" and "exec C (EvElect i now) = Some D" and "clean C (EvElect i now)"
  shows "cluster_inv D"
proof -
  let ?rf = "rafts C ! i"
  obtain rf el where b: "Elect_begin ?rf = (rf, el)" by fastforce
  have i: "i < length (rafts C)" and D: "D = (set_raft C i rf)\<lparr>elections := elections C @ [(i, el, peers rf - 1)]\<rparr>"
    using assms(2) b by (simp_all split: if_splits)
  have rf: "keeps_votes ?rf rf" "Role rf = Candidate" "voteFor rf (currentTerm el) = Some i" "voteCh el = []"
    using b assms(3) peer_ok_nth [OF assms(1) i] by (auto simp: Elect_begin_def keeps_votes_def peer_ok_def Let_def)
  have inv: "cluster_inv (set_raft C i rf)" by (rule inv_update_quiet [OF assms(1) i rf(1)]) (simp add: rf(2))
  have "el_ok (rafts (set_raft C i rf)) (i, el, peers rf - 1)" using rf i by (simp add: el_ok_def)
  then show ?thesis unfolding D using inv
    by (intro inv_set_els [of "set_raft C i rf", simplified]) (auto simp: cluster_inv_def nth_append)
qed

lemma inv_EvAsk:
  assumes "cluster_inv C" and "exec C (EvAsk e s) = Some D" and "clean C (EvAsk e s)"
  shows "cluster_inv D"
proof -
  obtain i el left where el: "elections C ! e = (i, el, left)" by (cases "elections C ! e")
  have g: "e < length (elections C)" "s < length (rafts C)" "s \<noteq> i"
    and D: "D = C\<lparr>asked := (e, s) # asked C, messages := messages C @ [VoteReq e s (Elect_request (rafts C ! i))]\<rparr>"
    using assms(2) el by (simp_all split: if_splits)
  have "i < length (rafts C)" using el_ok_nth [OF assms(1) g(1)] el by (simp add: el_ok_def)
  then have "me (rafts C ! i) = i" using peer_ok_nth [OF assms(1)] by (simp add: peer_ok_def)
  then have "msg_ok (rafts C) (elections C) (VoteReq e s (Elect_request (rafts C ! i)))"
    using g el assms(3) by (simp add: msg_ok_def Elect_request_def)
  then show ?thesis using assms(1) unfolding D by (simp add: cluster_inv_def)
qed

lemma inv_EvVote:
  assumes "cluster_inv C" and "exec C (EvVote k) = Some D"
  shows "cluster_inv D"
proof -
  obtain e s args where m: "messages C ! k = VoteReq e s args" and k: "k < length (messages C)"
    using assms(2) by (auto split: if_splits msg.splits)
  obtain rf reply where v: "RequestVote (rafts C ! s) args = (rf, reply)" by fastforce
  have D: "D = set_msg (set_raft C s rf) k (VoteRep e s reply)" using assms(2) m k v by simp
  have mo: "e < length (elections C)" "s < length (rafts C)" "s \<noteq> fst (elections C ! e)"
    "rv_Candidate args = fst (elections C ! e)" "rv_Term args = currentTerm (fst (snd (elections C ! e)))"
    using msg_ok_nth [OF assms(1) k] m by (simp_all add: msg_ok_def)
  note q = RequestVote_quiet [of "rafts C ! s" args, unfolded v fst_conv snd_conv]
  have "cluster_inv (set_raft C s rf)" by (rule inv_update_quiet [OF assms(1) mo(2)]) (use q in auto)
  moreover have "msg_ok ((rafts C)[s := rf]) (elections C) (VoteRep e s reply)" using mo q by (simp add: msg_ok_def)
  ultimately show ?thesis unfolding D by (intro inv_set_msg) simp_all
qed

lemma inv_EvReply:
  assumes "cluster_inv C" and "exec C (EvReply k now) = Some D" and "clean C (EvReply k now)"
  shows "cluster_inv D"
proof -
  obtain e s reply where m: "messages C ! k = VoteRep e s reply" and k: "k < length (messages C)"
    using assms(2) by (auto split: if_splits msg.splits)
  obtain i el left where el: "elections C ! e = (i, el, left)" by (cases "elections C ! e")
  let ?rf = "rafts C ! i" and ?T = "currentTerm el"
  obtain rf el' where r: "Elect_reply ?rf el True reply now = (rf, el')" by fastforce
  have D: "D = set_msg (set_el (set_raft C i rf) e (i, el', left)) k Gone" using assms(2) m k el r by simp
  have mo: "e < length (elections C)" "s < length (rafts C)" "s \<noteq> i" "VoteGranted reply \<longrightarrow> voted (rafts C) s ?T i"
    using msg_ok_nth [OF assms(1) k] m el by (simp_all add: msg_ok_def)
  have eo: "i < length (rafts C)" "voted (rafts C) i ?T i" "True \<in> set (voteCh el) \<longrightarrow> supported (rafts C) i ?T"
    using el_ok_nth [OF assms(1) mo(1)] el by (simp_all add: el_ok_def)
  have cl: "VoteGranted reply \<longrightarrow> raft_term ?rf = ?T" "rvr_Term reply > raft_term ?rf \<longrightarrow> voteFor ?rf (rvr_Term reply) = None"
    using assms(3) m el by (simp_all add: Let_def)
  note c = Elect_reply_cases [OF r cl(2)]
  have kv: "keeps_votes ?rf rf" using c by simp
  have sup: "supported (rafts C) i ?T" if "VoteGranted reply" using that mo eo by (auto simp: supported_def)
  note up = supported_update [OF kv eo(1)]
  have "supported (rafts C) i (raft_term rf)" if "Role rf = Leader"
    using c that cl(1) sup peer_ok_nth [OF assms(1) eo(1)] by (auto simp: peer_ok_def)
  then have inv: "cluster_inv (set_raft C i rf)" by (intro inv_update [OF assms(1) eo(1) kv] up) simp
  have "el_ok (rafts (set_raft C i rf)) (i, el', left)"
    using eo c sup up voted_update [OF kv eo(2) eo(1)] by (auto simp: el_ok_def)
  then have "cluster_inv (set_el (set_raft C i rf) e (i, el', left))"
    by (intro inv_set_el [OF inv]) (use el c in simp_all)
  then show ?thesis unfolding D by (rule inv_set_msg) (simp add: msg_ok_def)
qed


lemma inv_EvTerm:
  assumes "cluster_inv C" and "exec C (EvTerm e now) = Some D" and "clean C (EvTerm e now)"
  shows "cluster_inv D"
proof -
  obtain i el left where el: "elections C ! e = (i, el, left)" by (cases "elections C ! e")
  obtain t rest where t: "termCh el = t # rest" and e: "e < length (elections C)"
    using assms(2) el by (auto simp: collect_term_def split: if_splits list.splits)
  let ?rf = "step_down (rafts C ! i) t now" and ?el = "el\<lparr>termCh := rest\<rparr>"
  have D: "D = set_el (set_raft C i ?rf) e (i, ?el, 0)"
    using assms(2) el t e by (simp add: collect_term_def split: if_splits)
  have eo: "el_ok (rafts C) (i, el, left)" using el_ok_nth [OF assms(1) e] el by simp
  then have i: "i < length (rafts C)" by (simp add: el_ok_def)
  have q: "keeps_votes (rafts C ! i) ?rf" "Role ?rf = Follower"
    using step_down_quiet [of "rafts C ! i" t now] assms(3) el t by simp_all
  have inv: "cluster_inv (set_raft C i ?rf)" by (rule inv_update_quiet [OF assms(1) i q(1)]) (simp add: q(2))
  have "el_ok (rafts (set_raft C i ?rf)) (i, ?el, 0)"
    using el_ok_update [OF q(1) i eo] i by (simp add: el_ok_def)
  then show ?thesis unfolding D by (intro inv_set_el [OF inv]) (use el in simp_all)
qed

lemma collect_vote_cases:
  assumes "collect_vote rf el = Some (rf', el', d)"
  shows "currentTerm el' = currentTerm el \<and> set (voteCh el') \<subseteq> set (voteCh el) \<and>
    (rf' = rf \<or> rf' = transitTo rf Leader \<and> True \<in> set (voteCh el) \<and> raft_term rf = currentTerm el)"
  using assms by (auto simp: collect_vote_def Let_def split: list.splits if_splits)

lemma inv_EvCount:
  assumes "cluster_inv C" and "exec C (EvCount e) = Some D"
  shows "cluster_inv D"
proof -
  obtain i el left where el: "elections C ! e = (i, el, left)" by (cases "elections C ! e")
  obtain rf el' d where r: "collect_vote (rafts C ! i) el = Some (rf, el', d)" and e: "e < length (elections C)"
    using assms(2) el by (auto split: if_splits option.splits)
  have D: "D = set_el (set_raft C i rf) e (i, el', if d then 0 else left - 1)"
    using assms(2) el r e by (simp split: if_splits)
  have eo: "el_ok (rafts C) (i, el, left)" using el_ok_nth [OF assms(1) e] el by simp
  then have i: "i < length (rafts C)" and sup: "True \<in> set (voteCh el) \<Longrightarrow> supported (rafts C) i (currentTerm el)"
    by (simp_all add: el_ok_def)
  note c = collect_vote_cases [OF r]
  have kv: "keeps_votes (rafts C ! i) rf" using c by (auto simp: keeps_votes_def)
  have "supported (rafts C) i (raft_term rf)" if "Role rf = Leader"
    using c that sup peer_ok_nth [OF assms(1) i] by (auto simp: peer_ok_def)
  then have inv: "cluster_inv (set_raft C i rf)"
    by (intro inv_update [OF assms(1) i kv] supported_update [OF kv i]) simp
  have "el_ok (rafts (set_raft C i rf)) (i, el', if d then 0 else left - 1)"
    using el_ok_update [OF kv i eo] c by (auto simp: el_ok_def)
  then show ?thesis unfolding D by (intro inv_set_el [OF inv]) (use el c in simp_all)
qed

lemma inv_EvTimeout:
  assumes "cluster_inv C" and "exec C (EvTimeout e) = Some D"
  shows "cluster_inv D"
proof -
  obtain i el left where el: "elections C ! e = (i, el, left)" by (cases "elections C ! e")
  have e: "e < length (elections C)" and D: "D = set_el C e (i, el, 0)"
    using assms(2) el by (simp_all split: if_splits)
  have "el_ok (rafts C) (i, el, 0)" using el_ok_nth [OF assms(1) e] el by (simp add: el_ok_def)
  then show ?thesis unfolding D by (intro inv_set_el [OF assms(1)]) (use el in simp_all)
qed

lemma inv_beats:
  assumes "cluster_inv C" and "exec C ev = Some D"
    and "ev = EvBeat i \<or> ev = EvBeatDeliver k now \<or> ev = EvBeatReply k"
  shows "cluster_inv D"
proof -
  consider "ev = EvBeat i" | "ev = EvBeatDeliver k now" | "ev = EvBeatReply k" using assms(3) by (elim disjE)
  then show ?thesis
  proof cases
    case 1
    then have i: "i < length (rafts C)"
      and D: "D = C\<lparr>messages := messages C @ map (\<lambda>(s, args). Beat i s args) (broadcastHeartbeat (rafts C ! i))\<rparr>"
      using assms(2) by (simp_all split: if_splits)
    have "msg_ok (rafts C) (elections C) (Beat i s args)" if "(s, args) \<in> set (broadcastHeartbeat (rafts C ! i))" for s args
      using that i peer_ok_nth [OF assms(1) i] by (auto simp: msg_ok_def broadcastHeartbeat_def peer_ok_def split: if_splits)
    then show ?thesis using assms(1) unfolding D by (auto simp: cluster_inv_def list_all_iff)
  next
    case 2
    then obtain j s args where m: "messages C ! k = Beat j s args" and k: "k < length (messages C)"
      using assms(2) by (auto split: if_splits msg.splits)
    then have D: "D = set_msg (set_raft C s (fst (AppendEntries (rafts C ! s) args now))) k
        (BeatRep j (snd (AppendEntries (rafts C ! s) args now)))"
      using assms(2) 2 by (simp add: Let_def split: prod.splits)
    have mo: "j < length (rafts C)" "s < length (rafts C)" using msg_ok_nth [OF assms(1) k] m by (simp_all add: msg_ok_def)
    show ?thesis unfolding D using AppendEntries_quiet mo
      by (intro inv_set_msg inv_update_quiet assms(1)) (auto simp: msg_ok_def)
  next
    case 3
    then obtain j reply where m: "messages C ! k = BeatRep j reply" and k: "k < length (messages C)"
      using assms(2) by (auto split: if_splits msg.splits)
    then have D: "D = set_msg (set_raft C j (heartbeat_reply (rafts C ! j) reply)) k Gone" using assms(2) 3 by simp
    have "j < length (rafts C)" using msg_ok_nth [OF assms(1) k] m by (simp add: msg_ok_def)
    then show ?thesis unfolding D using heartbeat_reply_quiet
      by (intro inv_set_msg inv_update_quiet assms(1)) (auto simp: msg_ok_def)
  qed
qed

lemma inv_exec:
  assumes "cluster_inv C" and "exec C ev = Some D" and "clean C ev"
  shows "cluster_inv D"
proof (cases ev)
  case (EvElect i now)
  then show ?thesis using inv_EvElect assms by blast
next
  case (EvAsk e s)
  then show ?thesis using inv_EvAsk assms by blast
next
  case (EvReply k now)
  then show ?thesis using inv_EvReply assms by blast
next
  case (EvTerm e now)
  then show ?thesis using inv_EvTerm assms by blast
qed (use inv_EvVote inv_EvCount inv_EvTimeout inv_beats assms in blast)+

lemma exec_length: "exec C ev = Some D \<Longrightarrow> length (rafts D) = length (rafts C)"
  by (cases ev) (auto simp: Let_def split: if_splits msg.splits prod.splits option.splits)

lemma clean_run_inv:
  "clean_run C evs \<Longrightarrow> exec_all C evs = Some D \<Longrightarrow> cluster_inv C \<Longrightarrow> cluster_inv D \<and> length (rafts D) = length (rafts C)"
proof (induction evs arbitrary: C)
  case (Cons ev evs)
  then obtain C' where C': "exec C ev = Some C'" by (auto split: option.splits)
  with Cons show ?case using inv_exec [of C ev C'] exec_length [OF C'] by (auto split: option.splits)
qed simp

lemma init_cluster_inv: "cluster_inv (init_cluster n)"
  by (auto simp: cluster_inv_def init_cluster_def peer_ok_def Make_def readPersist_def)

text \<open>Of three peers two have voted for a supported candidate, so that there is only one.\<close>

lemma supported_unique:
  assumes "length rs \<le> 3" and "i < length rs" and "j < length rs" and "supported rs i t" and "supported rs j t"
  shows "i = j"
proof -
  obtain v u where v: "v < length rs" "v \<noteq> i" "voted rs v t i" and u: "u < length rs" "u \<noteq> j" "voted rs u t j"
    and self: "voted rs i t i" "voted rs j t j"
    using assms(4,5) by (auto simp: supported_def)
  have "v \<noteq> j \<or> i = j" "u \<noteq> i \<or> i = j" "v \<noteq> u \<or> i = j" using v(3) u(3) self by auto
  then show ?thesis using assms(1-3) v(1,2) u(1,2) by linarith
qed



subsection \<open>Runs with two leaders\<close>

definition win3 :: "event list" where
  "win3 = [EvElect 0 0, EvAsk 0 1, EvVote 0, EvReply 0 0]"

text \<open>
  Three peers: peer 0 grants peer 1 a vote for term 1 without entering that term, then starts its
  own election and overwrites the record of that vote; peer 2 votes for peer 0.
\<close>

definition overwritten_vote :: "event list" where
  "overwritten_vote =
     [EvElect 1 0, EvAsk 0 0, EvVote 0, EvElect 0 0, EvAsk 1 2, EvVote 1, EvReply 0 0, EvReply 1 0]"

text \<open>
  Five peers, a clean run: the one vote peer 0 receives is counted by the goroutine and again by
  the loop of \<open>Elect\<close>, and the same happens at peer 2.
\<close>

definition counted_twice :: "event list" where
  "counted_twice =
     [EvElect 0 0, EvElect 2 0, EvAsk 0 1, EvAsk 1 3, EvVote 0, EvVote 1, EvReply 0 0, EvReply 1 0, EvCount 0, EvCount 1]"



lemma win3_runs: "clean_run (init_cluster 3) win3 \<and> (case exec_all (init_cluster 3) win3 of None \<Rightarrow> False | Some C \<Rightarrow> leads C 0 1)"
  by code_simp


end
