(* ===== verification/Labrpc.thy ===== *)
theory Labrpc
  imports Go_Prelude
begin

text \<open>
  The simulated network \<open>labrpc/labrpc.go\<close>. Servers are objects behind pointers (a server that is
  deleted and started again under the same name is another object), so the network holds an
  explicit store \<open>heap\<close> from addresses to servers; names map to addresses. The encoded values are
  of an arbitrary type \<open>'b\<close>, the state behind a server's handlers is \<open>'s\<close>. The random numbers of
  \<open>processReq\<close> are the record \<open>rands\<close>; what other goroutines do to the network while a request is
  on its way to the handler and while its reply is on its way back are two functions.
\<close>

subsection \<open>Services and servers\<close>

record ('s, 'b) meth =
  meth_name :: string
  PkgPath :: string
  NumIn :: nat
  In2_is_Ptr :: bool
  NumOut :: nat
  Func :: "'s \<Rightarrow> 'b \<Rightarrow> 's \<times> 'b"

record ('s, 'b) Service =
  svc_name :: string
  methods :: "string \<rightharpoonup> ('s, 'b) meth"

definition suitable :: "('s, 'b) meth \<Rightarrow> bool" where
  "suitable m \<longleftrightarrow> \<not> (PkgPath m \<noteq> [] \<or> NumIn m \<noteq> 3 \<or> \<not> In2_is_Ptr m \<or> NumOut m \<noteq> 0)"

fun add_methods :: "('s, 'b) meth list \<Rightarrow> (string \<rightharpoonup> ('s, 'b) meth) \<Rightarrow> (string \<rightharpoonup> ('s, 'b) meth)" where
  "add_methods [] ms = ms"
| "add_methods (m # rest) ms = add_methods rest (if suitable m then ms(meth_name m \<mapsto> m) else ms)"

definition MakeService :: "string \<Rightarrow> ('s, 'b) meth list \<Rightarrow> ('s, 'b) Service" where
  "MakeService name mts = \<lparr>svc_name = name, methods = add_methods mts Map.empty\<rparr>"

record 'b reqMsg =
  endname :: string
  svcMeth :: string
  args :: 'b

record 'b replyMsg =
  ok :: bool
  reply :: "'b option"

definition no_reply :: "'b replyMsg" where
  "no_reply = \<lparr>ok = False, reply = None\<rparr>"

definition Service_dispatch :: "('s, 'b) Service \<Rightarrow> string \<Rightarrow> 'b reqMsg \<Rightarrow> 's \<Rightarrow> ('s \<times> 'b replyMsg) go" where
  "Service_dispatch svc methname req s =
     (case methods svc methname of
        Some m \<Rightarrow> (let (s', r) = Func m s (args req) in Inr (s', \<lparr>ok = True, reply = Some r\<rparr>))
      | None \<Rightarrow> Inl LogFatal)"

record ('s, 'b) Server =
  services :: "string \<rightharpoonup> ('s, 'b) Service"
  count :: nat
  rcvr :: 's

definition MakeServer :: "'s \<Rightarrow> ('s, 'b) Server" where
  "MakeServer s = \<lparr>services = Map.empty, count = 0, rcvr = s\<rparr>"

definition AddService :: "('s, 'b) Server \<Rightarrow> ('s, 'b) Service \<Rightarrow> ('s, 'b) Server" where
  "AddService rs svc = rs\<lparr>services := (services rs)(svc_name svc \<mapsto> svc)\<rparr>"

text \<open>\<open>strings.LastIndex(s, ".")\<close>; a slice expression with the index \<open>-1\<close> panics.\<close>

fun LastIndex :: "char \<Rightarrow> string \<Rightarrow> nat option" where
  "LastIndex c [] = None"
| "LastIndex c (x # xs) =
     (case LastIndex c xs of Some i \<Rightarrow> Some (Suc i) | None \<Rightarrow> if x = c then Some 0 else None)"

definition Server_dispatch :: "('s, 'b) Server \<Rightarrow> 'b reqMsg \<Rightarrow> (('s, 'b) Server \<times> 'b replyMsg) go" where
  "Server_dispatch rs req =
     (let rs = rs\<lparr>count := count rs + 1\<rparr> in
      case LastIndex (CHR ''.'') (svcMeth req) of
        None \<Rightarrow> Inl SliceOutOfRange
      | Some dot \<Rightarrow>
          let serviceName = take dot (svcMeth req); methodName = drop (dot + 1) (svcMeth req) in
          case services rs serviceName of
            None \<Rightarrow> Inl LogFatal
          | Some service \<Rightarrow>
              bind_go (Service_dispatch service methodName req (rcvr rs)) (\<lambda>(s, r). Inr (rs\<lparr>rcvr := s\<rparr>, r)))"

definition Server_GetCount :: "('s, 'b) Server \<Rightarrow> nat" where
  "Server_GetCount rs = count rs"

subsection \<open>The network\<close>

record ('s, 'b) Network =
  reliable :: bool
  longDelays :: bool
  longReordering :: bool
  ends :: "string set"
  enabled :: "string \<rightharpoonup> bool"
  servers :: "string \<rightharpoonup> nat"
  connections :: "string \<rightharpoonup> string"
  heap :: "nat \<rightharpoonup> ('s, 'b) Server"
  cleaned :: bool
  total_count :: "32 word"
  total_bytes :: "64 word"

definition MakeNetwork :: "('s, 'b) Network" where
  "MakeNetwork = \<lparr>reliable = True, longDelays = False, longReordering = False, ends = {}, enabled = Map.empty,
     servers = Map.empty, connections = Map.empty, heap = Map.empty, cleaned = False, total_count = 0, total_bytes = 0\<rparr>"

definition Cleanup :: "('s, 'b) Network \<Rightarrow> ('s, 'b) Network" where
  "Cleanup rn = rn\<lparr>cleaned := True\<rparr>"

definition Reliable :: "('s, 'b) Network \<Rightarrow> bool \<Rightarrow> ('s, 'b) Network" where
  "Reliable rn yes = rn\<lparr>reliable := yes\<rparr>"

definition IsReliable :: "('s, 'b) Network \<Rightarrow> bool" where
  "IsReliable rn = reliable rn"

definition LongReordering :: "('s, 'b) Network \<Rightarrow> bool \<Rightarrow> ('s, 'b) Network" where
  "LongReordering rn yes = rn\<lparr>longReordering := yes\<rparr>"

definition LongDelays :: "('s, 'b) Network \<Rightarrow> bool \<Rightarrow> ('s, 'b) Network" where
  "LongDelays rn yes = rn\<lparr>longDelays := yes\<rparr>"

definition IsLongDelays :: "('s, 'b) Network \<Rightarrow> bool" where
  "IsLongDelays rn = longDelays rn"

definition is_enabled :: "('s, 'b) Network \<Rightarrow> string \<Rightarrow> bool" where
  "is_enabled rn e = (enabled rn e = Some True)"

definition readEndnameInfo :: "('s, 'b) Network \<Rightarrow> string \<Rightarrow> bool \<times> string option \<times> nat option \<times> bool \<times> bool" where
  "readEndnameInfo rn e =
     (let servername = connections rn e;
          server = (case servername of None \<Rightarrow> None | Some name \<Rightarrow> servers rn name) in
      (is_enabled rn e, servername, server, reliable rn, longReordering rn))"

definition isServerDead :: "('s, 'b) Network \<Rightarrow> string \<Rightarrow> string \<Rightarrow> nat \<Rightarrow> bool" where
  "isServerDead rn e servername server \<longleftrightarrow> is_enabled rn e = False \<or> servers rn servername \<noteq> Some server"

definition MakeEnd :: "('s, 'b) Network \<Rightarrow> string \<Rightarrow> ('s, 'b) Network go" where
  "MakeEnd rn e =
     (if e \<in> ends rn then Inl LogFatal
      else Inr (rn\<lparr>ends := insert e (ends rn), enabled := (enabled rn)(e \<mapsto> False), connections := (connections rn)(e := None)\<rparr>))"

definition DeleteEnd :: "('s, 'b) Network \<Rightarrow> string \<Rightarrow> ('s, 'b) Network go" where
  "DeleteEnd rn e =
     (if e \<notin> ends rn then Inl LogFatal
      else Inr (rn\<lparr>ends := ends rn - {e}, enabled := (enabled rn)(e := None), connections := (connections rn)(e := None)\<rparr>))"

definition AddServer :: "('s, 'b) Network \<Rightarrow> string \<Rightarrow> nat \<Rightarrow> ('s, 'b) Network" where
  "AddServer rn servername rs = rn\<lparr>servers := (servers rn)(servername \<mapsto> rs)\<rparr>"

definition DeleteServer :: "('s, 'b) Network \<Rightarrow> string \<Rightarrow> ('s, 'b) Network" where
  "DeleteServer rn servername = rn\<lparr>servers := (servers rn)(servername := None)\<rparr>"

definition Connect :: "('s, 'b) Network \<Rightarrow> string \<Rightarrow> string \<Rightarrow> ('s, 'b) Network" where
  "Connect rn e servername = rn\<lparr>connections := (connections rn)(e \<mapsto> servername)\<rparr>"

definition Enable :: "('s, 'b) Network \<Rightarrow> string \<Rightarrow> bool \<Rightarrow> ('s, 'b) Network" where
  "Enable rn e on = rn\<lparr>enabled := (enabled rn)(e \<mapsto> on)\<rparr>"

definition GetCount :: "('s, 'b) Network \<Rightarrow> string \<Rightarrow> nat go" where
  "GetCount rn servername =
     (case servers rn servername of
        None \<Rightarrow> Inl NilDeref
      | Some a \<Rightarrow> (case heap rn a of None \<Rightarrow> Inl NilDeref | Some svr \<Rightarrow> Inr (Server_GetCount svr)))"

definition GetTotalCount :: "('s, 'b) Network \<Rightarrow> int" where
  "GetTotalCount rn = sint (total_count rn)"

definition GetTotalBytes :: "('s, 'b) Network \<Rightarrow> int" where
  "GetTotalBytes rn = sint (total_bytes rn)"

subsection \<open>Calls\<close>

record rands =
  r_drop :: nat
  r_slow :: bool
  r_reply :: nat

text \<open>
  \<open>r_slow\<close>: the handler had not returned yet when the periodic check found the server dead, so the
  reply is not waited for. The byte length of an encoded value is \<open>size_of\<close>.
\<close>

definition processReq :: "('b \<Rightarrow> nat) \<Rightarrow> rands \<Rightarrow> (('s, 'b) Network \<Rightarrow> ('s, 'b) Network) \<Rightarrow> (('s, 'b) Network \<Rightarrow> ('s, 'b) Network) \<Rightarrow>
    ('s, 'b) Network \<Rightarrow> 'b reqMsg \<Rightarrow> (('s, 'b) Network \<times> 'b replyMsg) go" where
  "processReq size_of ch before after rn req =
     (case readEndnameInfo rn (endname req) of
        (en, Some servername, Some server, rel, longre) \<Rightarrow>
          if \<not> en then Inr (rn, no_reply)
          else if rel = False \<and> r_drop ch mod 1000 < 100 then Inr (rn, no_reply)
          else
            let rn1 = before rn in
            (case heap rn1 server of
               None \<Rightarrow> Inl NilDeref
             | Some rs \<Rightarrow>
                 bind_go (Server_dispatch rs req) (\<lambda>(rs', r).
                   let replyOK = \<not> (r_slow ch \<and> isServerDead rn1 (endname req) servername server);
                       rn2 = after (rn1\<lparr>heap := (heap rn1)(server \<mapsto> rs')\<rparr>);
                       serverDead = isServerDead rn2 (endname req) servername server in
                   if replyOK = False \<or> serverDead = True then Inr (rn2, no_reply)
                   else if rel = False \<and> r_reply ch mod 1000 < 100 then Inr (rn2, no_reply)
                   else Inr (rn2\<lparr>total_bytes := total_bytes rn2 + of_nat (case reply r of None \<Rightarrow> 0 | Some b \<Rightarrow> size_of b)\<rparr>, r)))
      | _ \<Rightarrow> Inr (rn, no_reply))"

text \<open>\<open>Call\<close>: the value returned, and the reply that is decoded when it is true.\<close>

definition Call :: "('b \<Rightarrow> nat) \<Rightarrow> rands \<Rightarrow> (('s, 'b) Network \<Rightarrow> ('s, 'b) Network) \<Rightarrow> (('s, 'b) Network \<Rightarrow> ('s, 'b) Network) \<Rightarrow>
    ('s, 'b) Network \<Rightarrow> string \<Rightarrow> string \<Rightarrow> 'b \<Rightarrow> (('s, 'b) Network \<times> bool \<times> 'b option) go" where
  "Call size_of ch before after rn e meth a =
     (let req = \<lparr>endname = e, svcMeth = meth, args = a\<rparr> in
      if cleaned rn then Inr (rn, False, None)
      else
        let rn = rn\<lparr>total_count := total_count rn + 1, total_bytes := total_bytes rn + of_nat (size_of a)\<rparr> in
        bind_go (processReq size_of ch before after rn req) (\<lambda>(rn, rep).
          if ok rep then Inr (rn, True, reply rep) else Inr (rn, False, None)))"


subsection \<open>Dispatch\<close>

lemma LastIndex_None: "LastIndex c xs = None \<longleftrightarrow> c \<notin> set xs"
  by (induction xs) (auto split: option.splits)

lemma LastIndex_split: "c \<notin> set ys \<Longrightarrow> LastIndex c (xs @ c # ys) = Some (length xs)"
proof (induction xs)
  case Nil
  then show ?case using LastIndex_None [of c ys] by simp
qed simp

lemma add_methods_other: "m \<notin> meth_name ` set mts \<Longrightarrow> add_methods mts ms m = ms m"
  by (induction mts arbitrary: ms) auto

lemma MakeService_method:
  "distinct (map meth_name mts) \<Longrightarrow> f \<in> set mts \<Longrightarrow> add_methods mts ms (meth_name f) = (if suitable f then Some f else ms (meth_name f))"
proof (induction mts arbitrary: ms)
  case (Cons g mts)
  show ?case
  proof (cases "f = g")
    case True
    then show ?thesis using Cons.prems(1) by (simp add: add_methods_other)
  next
    case False
    then have "f \<in> set mts" "meth_name f \<noteq> meth_name g" using Cons.prems by (auto simp: image_iff)
    then show ?thesis using Cons.IH Cons.prems(1) by simp
  qed
qed simp

text \<open>
  A request for \<open>Svc.Meth\<close> reaches the method \<open>Meth\<close> of the service \<open>Svc\<close> of the
  server, whose handler is applied exactly once to its state, also when the service name itself
  contains dots; a name without a dot panics, an unknown service or method is fatal.\<close>

theorem dispatch_routes:
  assumes "CHR ''.'' \<notin> set m" and "services rs s = Some (MakeService s mts)" and "distinct (map meth_name mts)"
    and "f \<in> set mts" and "meth_name f = m" and "suitable f" and "svcMeth req = s @ ''.'' @ m"
  shows "Server_dispatch rs req =
      Inr (rs\<lparr>count := count rs + 1, rcvr := fst (Func f (rcvr rs) (args req))\<rparr>,
           \<lparr>ok = True, reply = Some (snd (Func f (rcvr rs) (args req)))\<rparr>) \<and>
    (CHR ''.'' \<notin> set (svcMeth req') \<longrightarrow> Server_dispatch rs req' = Inl SliceOutOfRange)"
proof -
  have "methods (MakeService s mts) m = Some f"
    using MakeService_method [OF assms(3,4)] assms(5,6) by (simp add: MakeService_def)
  moreover have "LastIndex (CHR ''.'') (svcMeth req) = Some (length s)"
    using LastIndex_split [OF assms(1), of s] assms(7) by simp
  ultimately have "Server_dispatch rs req =
      Inr (rs\<lparr>count := count rs + 1, rcvr := fst (Func f (rcvr rs) (args req))\<rparr>,
           \<lparr>ok = True, reply = Some (snd (Func f (rcvr rs) (args req)))\<rparr>)"
    using assms(2,7) by (simp add: Server_dispatch_def Service_dispatch_def Let_def split_def del: bind_go_eq_Inr)
  moreover have "Server_dispatch rs req' = Inl SliceOutOfRange" if "CHR ''.'' \<notin> set (svcMeth req')"
    using LastIndex_None [of "CHR ''.''" "svcMeth req'"] that by (simp add: Server_dispatch_def Let_def)
  ultimately show ?thesis by simp
qed

definition echo :: "(nat, nat) meth" where
  "echo = \<lparr>meth_name = ''M'', PkgPath = [], NumIn = 3, In2_is_Ptr = True, NumOut = 0, Func = \<lambda>s x. (s + x, s)\<rparr>"

definition echo_server :: "(nat, nat) Server" where
  "echo_server = AddService (MakeServer 5) (MakeService ''S'' [echo])"

theorem dispatch_routes_witness:
  "Server_dispatch echo_server \<lparr>endname = ''e'', svcMeth = ''S.M'', args = 2\<rparr> =
    Inr (echo_server\<lparr>count := 1, rcvr := 7\<rparr>, \<lparr>ok = True, reply = Some 5\<rparr>)"
  using dispatch_routes [of "''M''" echo_server "''S''" "[echo]" echo "\<lparr>endname = ''e'', svcMeth = ''S.M'', args = 2\<rparr>"]
  by (simp add: echo_server_def AddService_def MakeServer_def MakeService_def echo_def suitable_def)

subsection \<open>Calls\<close>

definition path :: "('s, 'b) Network \<Rightarrow> string \<Rightarrow> string \<Rightarrow> nat \<Rightarrow> bool" where
  "path rn e name a \<longleftrightarrow> is_enabled rn e \<and> connections rn e = Some name \<and> servers rn name = Some a"

definition counted :: "('b \<Rightarrow> nat) \<Rightarrow> 'b \<Rightarrow> ('s, 'b) Network \<Rightarrow> ('s, 'b) Network" where
  "counted size_of x rn = rn\<lparr>total_count := total_count rn + 1, total_bytes := total_bytes rn + of_nat (size_of x)\<rparr>"

lemma counted_simps [simp]:
  "path (counted size_of x rn) e name a = path rn e name a" "heap (counted size_of x rn) = heap rn"
  "reliable (counted size_of x rn) = reliable rn" "connections (counted size_of x rn) = connections rn"
  "servers (counted size_of x rn) = servers rn" "is_enabled (counted size_of x rn) e = is_enabled rn e"
  by (simp_all add: counted_def path_def is_enabled_def)

lemma processReq_path:
  assumes "path rn (endname req) name a"
  shows "processReq size_of ch before after rn req =
    (if reliable rn = False \<and> r_drop ch mod 1000 < 100 then Inr (rn, no_reply)
     else case heap (before rn) a of None \<Rightarrow> Inl NilDeref
      | Some rs \<Rightarrow> bind_go (Server_dispatch rs req) (\<lambda>(rs', r).
          let rn2 = after ((before rn)\<lparr>heap := (heap (before rn))(a \<mapsto> rs')\<rparr>) in
          if r_slow ch \<and> isServerDead (before rn) (endname req) name a \<or> isServerDead rn2 (endname req) name a \<or>
             reliable rn = False \<and> r_reply ch mod 1000 < 100 then Inr (rn2, no_reply)
          else Inr (rn2\<lparr>total_bytes := total_bytes rn2 + of_nat (case reply r of None \<Rightarrow> 0 | Some b \<Rightarrow> size_of b)\<rparr>, r)))"
  using assms
  by (auto simp: processReq_def readEndnameInfo_def path_def Let_def bind_go_def split: option.splits sum.splits)

lemma processReq_no_path:
  assumes "\<nexists>name a. path rn (endname req) name a"
  shows "processReq size_of ch before after rn req = Inr (rn, no_reply)"
  using assms by (auto simp: processReq_def readEndnameInfo_def path_def Let_def split: option.splits)

text \<open>
  A call over an end that is disabled, not connected, or connected to a server that is
  not there returns false, and no handler is executed: only the counters of the network change.\<close>

theorem unreachable_call:
  assumes "\<nexists>name a. path rn e name a" and "\<not> cleaned rn"
  shows "Call size_of ch before after rn e meth x = Inr (counted size_of x rn, False, None)"
proof -
  have "\<nexists>name a. path (counted size_of x rn) (endname \<lparr>endname = e, svcMeth = meth, args = x\<rparr>) name a" using assms(1) by simp
  note p = processReq_no_path [OF this]
  show ?thesis using assms(2) p by (simp add: Call_def Let_def no_reply_def flip: counted_def)
qed

theorem unreachable_call_witness:
  "Call id \<lparr>r_drop = 500, r_slow = False, r_reply = 500\<rparr> id id (MakeNetwork :: (nat, nat) Network) ''e'' ''S.M'' 1 =
    Inr (counted id 1 MakeNetwork, False, None)"
  by (rule unreachable_call) (simp_all add: MakeNetwork_def path_def is_enabled_def)


text \<open>
  Property C33. On a reliable network a call to a live server returns true with the handler's reply,
  whatever the random numbers are, as long as other goroutines leave the connection, the server
  entry and the enabled flag alone.\<close>

theorem reliable_call_returns:
  assumes "path rn e name a" and "reliable rn" and "\<not> cleaned rn"
    and "heap (before (counted size_of x rn)) a = Some rs"
    and "Server_dispatch rs \<lparr>endname = e, svcMeth = meth, args = x\<rparr> = Inr (rs', \<lparr>ok = True, reply = Some b\<rparr>)"
    and "\<And>n. path n e name a \<Longrightarrow> path (before n) e name a" and "\<And>n. path n e name a \<Longrightarrow> path (after n) e name a"
  shows "\<exists>rn'. Call size_of ch before after rn e meth x = Inr (rn', True, Some b) \<and> path rn' e name a"
proof -
  let ?req = "\<lparr>endname = e, svcMeth = meth, args = x\<rparr>" and ?rn = "counted size_of x rn"
  let ?rn1 = "before ?rn" and ?rn2 = "after ((before ?rn)\<lparr>heap := (heap (before ?rn))(a \<mapsto> rs')\<rparr>)"
  have pa: "path ?rn (endname ?req) name a" using assms(1) by simp
  have p1: "path ?rn1 e name a" using assms(1,6) by simp
  then have "path (?rn1\<lparr>heap := (heap ?rn1)(a \<mapsto> rs')\<rparr>) e name a" by (simp add: path_def is_enabled_def)
  then have p2: "path ?rn2 e name a" by (rule assms(7))
  have "processReq size_of ch before after ?rn ?req =
      Inr (?rn2\<lparr>total_bytes := total_bytes ?rn2 + of_nat (size_of b)\<rparr>, \<lparr>ok = True, reply = Some b\<rparr>)"
    unfolding processReq_path [OF pa] using assms(2,4,5) p1 p2 by (simp add: isServerDead_def path_def Let_def)
  then show ?thesis using assms(3) p2
    by (simp add: Call_def Let_def path_def is_enabled_def flip: counted_def)
qed


definition echo_net :: "(nat, nat) Network" where
  "echo_net = Enable (Connect (AddServer (MakeNetwork\<lparr>heap := [7 \<mapsto> echo_server]\<rparr>) ''srv'' 7) ''e'' ''srv'') ''e'' True"

lemma echo_net_path: "path echo_net ''e'' ''srv'' 7"
  by (simp add: echo_net_def path_def Enable_def Connect_def AddServer_def MakeNetwork_def is_enabled_def)

theorem reliable_call_returns_witness:
  "\<exists>rn'. Call id \<lparr>r_drop = 0, r_slow = True, r_reply = 0\<rparr> id id echo_net ''e'' ''S.M'' 2 = Inr (rn', True, Some 5) \<and>
    path rn' ''e'' ''srv'' 7"
proof (rule reliable_call_returns [OF echo_net_path])
  show "heap (id (counted id 2 echo_net)) 7 = Some echo_server"
    by (simp add: echo_net_def Enable_def Connect_def AddServer_def MakeNetwork_def)
  show "Server_dispatch echo_server \<lparr>endname = ''e'', svcMeth = ''S.M'', args = 2\<rparr> =
      Inr (echo_server\<lparr>count := 1, rcvr := 7\<rparr>, \<lparr>ok = True, reply = Some 5\<rparr>)"
    by (simp add: Server_dispatch_def Service_dispatch_def echo_server_def AddService_def MakeServer_def MakeService_def
        echo_def suitable_def Let_def)
qed (simp_all add: echo_net_def Enable_def Connect_def AddServer_def MakeNetwork_def)


end
