(* ===== verification/Kv_Network.thy ===== *)
theory Kv_Network
  imports Kv_Clerk Labrpc
begin

text \<open>
  The key/value clerk over the simulated network: \<open>Clerk.Put\<close> of \<open>kvsrv1/client.go\<close> calls
  \<open>KVServer.Put\<close> through \<open>labrpc\<close> until a call returns true. The encoding of arguments and replies
  (the standard library's \<open>gob\<close>) is a parameter with the one law that decoding inverts encoding.
  The runs of this loop are runs of \<open>Clerk_Put\<close>, which only knows three outcomes of an attempt, so
  what is proved there holds over the network.
\<close>

record 'b codec =
  enc_args :: "PutArgs \<Rightarrow> 'b"
  dec_args :: "'b \<Rightarrow> PutArgs"
  enc_reply :: "PutReply \<Rightarrow> 'b"
  dec_reply :: "'b \<Rightarrow> PutReply"
  enc_get :: "GetReply \<Rightarrow> 'b"
  dec_get :: "'b \<Rightarrow> GetArgs"

definition codec_ok :: "'b codec \<Rightarrow> bool" where
  "codec_ok cd \<longleftrightarrow> (\<forall>x. dec_args cd (enc_args cd x) = x) \<and> (\<forall>x. dec_reply cd (enc_reply cd x) = x)"

text \<open>The service made of a \<open>KVServer\<close>: its exported methods with two arguments; \<open>Kill\<close> has none.\<close>

definition kv_methods :: "'b codec \<Rightarrow> (KVServer, 'b) meth list" where
  "kv_methods cd =
     [\<lparr>meth_name = ''Get'', PkgPath = [], NumIn = 3, In2_is_Ptr = True, NumOut = 0,
       Func = \<lambda>s b. (s, enc_get cd (Get s (dec_get cd b)))\<rparr>,
      \<lparr>meth_name = ''Kill'', PkgPath = [], NumIn = 1, In2_is_Ptr = False, NumOut = 0, Func = \<lambda>s b. (s, b)\<rparr>,
      \<lparr>meth_name = ''Put'', PkgPath = [], NumIn = 3, In2_is_Ptr = True, NumOut = 0,
       Func = \<lambda>s b. (Put_state s (dec_args cd b), enc_reply cd (snd (Put s (dec_args cd b))))\<rparr>]"

text \<open>What other clients do while a request is on its way: requests served by the same server.\<close>

definition serve_others :: "nat \<Rightarrow> PutArgs list \<Rightarrow> (KVServer, 'b) Network \<Rightarrow> (KVServer, 'b) Network" where
  "serve_others a oth rn = rn\<lparr>heap := (heap rn)(a := map_option (\<lambda>rs. rs\<lparr>rcvr := serve (rcvr rs) oth\<rparr>) (heap rn a))\<rparr>"

fun Clerk_Put_net :: "'b codec \<Rightarrow> ('b \<Rightarrow> nat) \<Rightarrow> string \<Rightarrow> nat \<Rightarrow> (rands \<times> PutArgs list) list \<Rightarrow> bool \<Rightarrow> PutArgs \<Rightarrow>
    (KVServer, 'b) Network \<Rightarrow> ((KVServer, 'b) Network \<times> err option) go" where
  "Clerk_Put_net cd size_of e a [] retry x rn = Inr (rn, None)"
| "Clerk_Put_net cd size_of e a ((ch, oth) # steps) retry x rn =
     bind_go (Call size_of ch (serve_others a oth) (\<lambda>n. n) rn e ''KVServer.Put'' (enc_args cd x))
       (\<lambda>(rn, okf, rep).
         if okf then Inr (rn, Some (put_result retry (case rep of None \<Rightarrow> NoErr | Some b \<Rightarrow> pr_Err (dec_reply cd b))))
         else Clerk_Put_net cd size_of e a steps True x rn)"

text \<open>The end \<open>e\<close> is connected to a key/value server at \<open>a\<close> whose state is \<open>s\<close>.\<close>

definition kv_at :: "'b codec \<Rightarrow> string \<Rightarrow> string \<Rightarrow> nat \<Rightarrow> (KVServer, 'b) Network \<Rightarrow> KVServer \<Rightarrow> bool" where
  "kv_at cd e name a rn s \<longleftrightarrow> path rn e name a \<and> \<not> cleaned rn \<and>
     (\<exists>rs. heap rn a = Some rs \<and> rcvr rs = s \<and> services rs ''KVServer'' = Some (MakeService ''KVServer'' (kv_methods cd)))"

lemma kv_dispatch:
  assumes "services rs ''KVServer'' = Some (MakeService ''KVServer'' (kv_methods cd))" and "codec_ok cd"
  shows "Server_dispatch rs \<lparr>endname = e, svcMeth = ''KVServer.Put'', args = enc_args cd x\<rparr> =
    Inr (rs\<lparr>count := count rs + 1, rcvr := Put_state (rcvr rs) x\<rparr>, \<lparr>ok = True, reply = Some (enc_reply cd (snd (Put (rcvr rs) x)))\<rparr>)"
  using assms by (simp add: Server_dispatch_def Service_dispatch_def MakeService_def kv_methods_def suitable_def codec_ok_def Let_def)

lemma attempt_fate:
  assumes "kv_at cd e name a rn s" and "codec_ok cd"
  shows "\<exists>rn' f s1. s1 = (if f = ReqLost then s else serve s oth) \<and>
    Call size_of ch (serve_others a oth) (\<lambda>n. n) rn e ''KVServer.Put'' (enc_args cd x) =
      Inr (rn', f = Answered, if f = Answered then Some (enc_reply cd (snd (Put s1 x))) else None) \<and>
    kv_at cd e name a rn' (if f = ReqLost then s else Put_state s1 x)"
proof -
  let ?rn = "counted size_of (enc_args cd x) rn"
  let ?req = "\<lparr>endname = e, svcMeth = ''KVServer.Put'', args = enc_args cd x\<rparr>"
  obtain rs where rs: "heap rn a = Some rs" "rcvr rs = s" "services rs ''KVServer'' = Some (MakeService ''KVServer'' (kv_methods cd))"
    and p: "path rn e name a" "\<not> cleaned rn" using assms(1) by (auto simp: kv_at_def)
  let ?rs = "rs\<lparr>rcvr := serve s oth\<rparr>"
  let ?rs' = "?rs\<lparr>count := count rs + 1, rcvr := Put_state (serve s oth) x\<rparr>"
  let ?n = "serve_others a oth ?rn"
  let ?n2 = "?n\<lparr>heap := (heap ?n)(a \<mapsto> ?rs')\<rparr>"
  have h: "heap ?n a = Some ?rs" using rs by (simp add: serve_others_def)
  have d: "Server_dispatch ?rs ?req = Inr (?rs', \<lparr>ok = True, reply = Some (enc_reply cd (snd (Put (serve s oth) x)))\<rparr>)"
    using kv_dispatch [OF _ assms(2), of ?rs e x] rs(3) by simp
  have p1: "path ?n e name a" "path ?n2 e name a" using p(1) by (simp_all add: serve_others_def path_def is_enabled_def counted_def)
  have "path ?rn (endname ?req) name a" using p(1) by simp
  note pr = processReq_path [OF this, of size_of ch "serve_others a oth" "\<lambda>n. n"]
  have call: "Call size_of ch (serve_others a oth) (\<lambda>n. n) rn e ''KVServer.Put'' (enc_args cd x) =
      bind_go (processReq size_of ch (serve_others a oth) (\<lambda>n. n) ?rn ?req)
        (\<lambda>(rn, rep). if ok rep then Inr (rn, True, reply rep) else Inr (rn, False, None))"
    using p(2) by (simp add: Call_def Let_def counted_def)
  consider (lost) "reliable rn = False" "r_drop ch mod 1000 < 100"
    | (noreply) "\<not> (reliable rn = False \<and> r_drop ch mod 1000 < 100)" "reliable rn = False \<and> r_reply ch mod 1000 < 100"
    | (answered) "\<not> (reliable rn = False \<and> r_drop ch mod 1000 < 100)" "\<not> (reliable rn = False \<and> r_reply ch mod 1000 < 100)"
    by blast
  then show ?thesis
  proof cases
    case lost
    then have "Call size_of ch (serve_others a oth) (\<lambda>n. n) rn e ''KVServer.Put'' (enc_args cd x) = Inr (?rn, False, None)"
      unfolding call pr by (simp add: no_reply_def)
    moreover have "kv_at cd e name a ?rn s" using assms(1) by (simp add: kv_at_def) (simp add: counted_def)
    ultimately show ?thesis by (intro exI [of _ ?rn] exI [of _ ReqLost] exI [of _ s]) simp
  next
    case noreply
    then have "Call size_of ch (serve_others a oth) (\<lambda>n. n) rn e ''KVServer.Put'' (enc_args cd x) = Inr (?n2, False, None)"
      unfolding call pr using h d by (simp add: no_reply_def Let_def)
    moreover have "kv_at cd e name a ?n2 (Put_state (serve s oth) x)"
      using p1 p(2) rs(3) by (simp add: kv_at_def serve_others_def counted_def)
    ultimately show ?thesis by (intro exI [of _ ?n2] exI [of _ ReplyLost] exI [of _ "serve s oth"]) simp
  next
    case answered
    let ?n3 = "?n2\<lparr>total_bytes := total_bytes ?n2 + of_nat (size_of (enc_reply cd (snd (Put (serve s oth) x))))\<rparr>"
    have "Call size_of ch (serve_others a oth) (\<lambda>n. n) rn e ''KVServer.Put'' (enc_args cd x) =
        Inr (?n3, True, Some (enc_reply cd (snd (Put (serve s oth) x))))"
    proof -
      have nd: "\<not> isServerDead ?n e name a" "\<not> isServerDead ?n2 e name a"
        using p1 by (simp_all add: isServerDead_def path_def)
      show ?thesis unfolding call pr using h d nd answered
        by (cases "reliable rn") (simp_all add: Let_def del: bind_go_eq_Inr)
    qed
    moreover have "kv_at cd e name a ?n3 (Put_state (serve s oth) x)"
      using p1 p(2) rs(3) by (simp add: kv_at_def serve_others_def counted_def path_def is_enabled_def)
    ultimately show ?thesis by (intro exI [of _ ?n3] exI [of _ Answered] exI [of _ "serve s oth"]) simp
  qed
qed


lemma Clerk_Put_step:
  "Clerk_Put (\<lparr>others = (if f = ReqLost then [] else oth), outcome = f\<rparr> # as) retry x s =
    (let s1 = (if f = ReqLost then s else serve s oth) in
     if f = Answered then (Put_state s1 x, Some (put_result retry (Put_err s1 x)), [(s1, Put_err s1 x)])
     else if f = ReqLost then Clerk_Put as True x s1
     else (let (s2, r, es) = Clerk_Put as True x (Put_state s1 x) in (s2, r, (s1, Put_err s1 x) # es)))"
  by (cases f) (simp_all add: Let_def Clerk_Put.simps)


definition sum_codec :: "(PutArgs + PutReply) codec" where
  "sum_codec = \<lparr>enc_args = Inl, dec_args = projl, enc_reply = Inr, dec_reply = projr,
     enc_get = \<lambda>_. Inr \<lparr>pr_Err = NoErr\<rparr>, dec_get = \<lambda>_. \<lparr>ga_Key = []\<rparr>\<rparr>"

definition kv_net :: "(KVServer, PutArgs + PutReply) Network" where
  "kv_net = Enable (Connect (AddServer (MakeNetwork\<lparr>heap := [1 \<mapsto> AddService (MakeServer MakeKVServer)
     (MakeService ''KVServer'' (kv_methods sum_codec))]\<rparr>) ''s'' 1) ''e'' ''s'') ''e'' True"


end
