(* ===== verification/Labgob.thy ===== *)
theory Labgob
  imports Go_Prelude
begin

text \<open>
  The checks that \<open>labgob/labgob.go\<close> puts in front of the standard library's \<open>gob\<close>: a warning about
  fields that are not capitalized and about decoding into a variable that is not zero. Go types may
  refer to themselves, so a type is a number that a table \<open>tenv\<close> describes. The recursion of
  \<open>checkType\<close> is a loop over the types still to be visited, in the order of the recursion.
\<close>

subsection \<open>checkType\<close>

datatype tdesc =
    Struct string "(string \<times> nat) list"
  | Slice nat
  | Array nat
  | Ptr nat
  | Map nat nat
  | Basic

record gob_state =
  checked :: "nat set"
  errorCount :: nat

definition IsUpper :: "char \<Rightarrow> bool" where
  "IsUpper c \<longleftrightarrow> 65 \<le> (of_char c :: nat) \<and> (of_char c :: nat) \<le> 90"

definition capitalized :: "string \<Rightarrow> bool" where
  "capitalized name = (case name of [] \<Rightarrow> False | c # _ \<Rightarrow> IsUpper c)"

definition desc :: "tdesc list \<Rightarrow> nat \<Rightarrow> tdesc" where
  "desc tenv t = (if t < length tenv then tenv ! t else Basic)"

fun elems :: "tdesc \<Rightarrow> nat list" where
  "elems (Struct name flds) = map snd flds"
| "elems (Slice t) = [t]"
| "elems (Array t) = [t]"
| "elems (Ptr t) = [t]"
| "elems (Map key elem) = [elem, key]"
| "elems Basic = []"

fun bad_fields :: "tdesc \<Rightarrow> nat" where
  "bad_fields (Struct name flds) = length (filter (\<lambda>(n, _). \<not> capitalized n) flds)"
| "bad_fields _ = 0"

function checkType :: "tdesc list \<Rightarrow> nat list \<Rightarrow> gob_state \<Rightarrow> gob_state" where
  "checkType tenv [] st = st"
| "checkType tenv (t # ts) st =
     (if t \<in> checked st then checkType tenv ts st
      else checkType tenv (elems (desc tenv t) @ ts)
             (st\<lparr>checked := insert t (checked st), errorCount := errorCount st + bad_fields (desc tenv t)\<rparr>))"
  by pat_completeness auto
termination
proof (relation "(\<lambda>(tenv, ts, st). card ({..<length tenv} - checked st)) <*mlex*>
    (\<lambda>(tenv, ts, st). length ts) <*mlex*> {}")
  fix tenv :: "tdesc list" and t ts and st :: gob_state
  assume t: "t \<notin> checked st"
  let ?st = "st\<lparr>checked := insert t (checked st), errorCount := errorCount st + bad_fields (desc tenv t)\<rparr>"
  show "((tenv, elems (desc tenv t) @ ts, ?st), (tenv, t # ts, st))
      \<in> (\<lambda>(tenv, ts, st). card ({..<length tenv} - checked st)) <*mlex*> (\<lambda>(tenv, ts, st). length ts) <*mlex*> {}"
  proof (cases "t < length tenv")
    case True
    have "{..<length tenv} - checked ?st \<subset> {..<length tenv} - checked st" using t True by auto
    then have "card ({..<length tenv} - checked ?st) < card ({..<length tenv} - checked st)"
      by (intro psubset_card_mono) simp_all
    then show ?thesis by (intro mlex_less) simp
  next
    case False
    then have "{..<length tenv} - checked ?st = {..<length tenv} - checked st" by auto
    then show ?thesis using False by (intro mlex_leq mlex_less) (simp_all add: desc_def)
  qed
next
  fix tenv :: "tdesc list" and t ts and st :: gob_state
  show "((tenv, ts, st), (tenv, t # ts, st))
      \<in> (\<lambda>(tenv, ts, st). card ({..<length tenv} - checked st)) <*mlex*> (\<lambda>(tenv, ts, st). length ts) <*mlex*> {}"
    by (intro mlex_leq mlex_less) simp_all
qed (intro wf_mlex, simp)

definition checkValue :: "tdesc list \<Rightarrow> nat \<Rightarrow> gob_state \<Rightarrow> gob_state" where
  "checkValue tenv t st = checkType tenv [t] st"

subsection \<open>checkDefault\<close>

datatype gval =
    VStruct "(string \<times> gval) list"
  | VNil
  | VPtr gval
  | VBasic string bool
  | VOther

text \<open>
  \<open>VBasic t z\<close>: a boolean, number or string of the type named \<open>t\<close>; \<open>z\<close>: it is the zero value. The
  result is the error count and the names warned about.
\<close>

fun checkDefault1 :: "gval \<Rightarrow> nat \<Rightarrow> string \<Rightarrow> nat \<times> string list \<Rightarrow> nat \<times> string list"
and check_fields :: "(string \<times> gval) list \<Rightarrow> nat \<Rightarrow> string \<Rightarrow> nat \<times> string list \<Rightarrow> nat \<times> string list" where
  "checkDefault1 (VStruct flds) depth name st =
     (if depth > 3 then st else check_fields flds depth name st)"
| "checkDefault1 VNil depth name st = st"
| "checkDefault1 (VPtr v) depth name st = (if depth > 3 then st else checkDefault1 v (depth + 1) name st)"
| "checkDefault1 (VBasic t z) depth name (ec, warned) =
     (if depth > 3 then (ec, warned)
      else if \<not> z then
        (ec + 1, if ec < 1 then warned @ [if name = [] then t else name] else warned)
      else (ec, warned))"
| "checkDefault1 VOther depth name st = st"
| "check_fields [] depth name st = st"
| "check_fields ((fname, v) # fs) depth name st =
     check_fields fs depth name
       (checkDefault1 v (depth + 1) (if name \<noteq> [] then name @ ''.'' @ fname else fname) st)"

definition checkDefault :: "gval option \<Rightarrow> nat \<times> string list \<Rightarrow> nat \<times> string list" where
  "checkDefault value st = (case value of None \<Rightarrow> st | Some v \<Rightarrow> checkDefault1 v 1 [] st)"

subsection \<open>What the checks report\<close>

definition closed_under :: "tdesc list \<Rightarrow> nat set \<Rightarrow> nat set \<Rightarrow> bool" where
  "closed_under tenv A todo \<longleftrightarrow> (\<forall>t\<in>A. set (elems (desc tenv t)) \<subseteq> A \<union> todo)"

lemma checkType_mono: "checked st \<subseteq> checked (checkType tenv ts st)"
  by (induction tenv ts st rule: checkType.induct) auto

lemma checkType_covers:
  "closed_under tenv (checked st) (set ts) \<Longrightarrow>
    set ts \<subseteq> checked (checkType tenv ts st) \<and> closed_under tenv (checked (checkType tenv ts st)) {}"
proof (induction tenv ts st rule: checkType.induct)
  case (2 tenv t ts st)
  let ?st = "st\<lparr>checked := insert t (checked st), errorCount := errorCount st + bad_fields (desc tenv t)\<rparr>"
  show ?case
  proof (cases "t \<in> checked st")
    case True
    then have "closed_under tenv (checked st) (set ts)" using "2.prems" by (auto simp: closed_under_def)
    then show ?thesis using "2.IH"(1) [OF True] True checkType_mono [of st tenv ts] by auto
  next
    case False
    have "closed_under tenv (checked ?st) (set (elems (desc tenv t) @ ts))"
      using "2.prems" by (auto simp: closed_under_def)
    then show ?thesis
      using "2.IH"(2) [OF False] False checkType_mono [of ?st tenv "elems (desc tenv t) @ ts"] by auto
  qed
qed simp

lemma checkType_finite: "finite (checked st) \<Longrightarrow> finite (checked (checkType tenv ts st))"
  by (induction tenv ts st rule: checkType.induct) auto

lemma checkType_count:
  "finite (checked st) \<Longrightarrow> errorCount (checkType tenv ts st) =
    errorCount st + (\<Sum>t\<in>checked (checkType tenv ts st) - checked st. bad_fields (desc tenv t))"
proof (induction tenv ts st rule: checkType.induct)
  case (2 tenv t ts st)
  let ?st = "st\<lparr>checked := insert t (checked st), errorCount := errorCount st + bad_fields (desc tenv t)\<rparr>"
  let ?r = "checkType tenv (elems (desc tenv t) @ ts) ?st"
  show ?case
  proof (cases "t \<in> checked st")
    case False
    have fin: "finite (checked ?r)" using "2.prems" by (intro checkType_finite) simp
    have t: "t \<in> checked ?r - checked st" using checkType_mono [of ?st tenv] False by auto
    have "checked ?r - checked ?st = checked ?r - checked st - {t}" by auto
    then have "errorCount ?r = errorCount st + (bad_fields (desc tenv t) +
        (\<Sum>t\<in>checked ?r - checked st - {t}. bad_fields (desc tenv t)))"
      using "2.IH"(2) [OF False] "2.prems" by simp
    then show ?thesis using sum.remove [of "checked ?r - checked st" t "\<lambda>t. bad_fields (desc tenv t)"] fin t False by simp
  qed (use "2" in simp)
qed simp



text \<open>The number of non-zero basic values that are not nested too deep.\<close>

fun nonzero :: "gval \<Rightarrow> nat \<Rightarrow> nat" and nonzero_fields :: "(string \<times> gval) list \<Rightarrow> nat \<Rightarrow> nat" where
  "nonzero (VStruct flds) depth = (if depth > 3 then 0 else nonzero_fields flds depth)"
| "nonzero VNil depth = 0"
| "nonzero (VPtr v) depth = (if depth > 3 then 0 else nonzero v (depth + 1))"
| "nonzero (VBasic t z) depth = (if depth > 3 \<or> z then 0 else 1)"
| "nonzero VOther depth = 0"
| "nonzero_fields [] depth = 0"
| "nonzero_fields ((fname, v) # fs) depth = nonzero v (depth + 1) + nonzero_fields fs depth"

lemma checkDefault1_count:
  "fst (checkDefault1 v d name st) = fst st + nonzero v d"
  "fst (check_fields fs d name st) = fst st + nonzero_fields fs d"
  by (induction v d name st and fs d name st rule: checkDefault1_check_fields.induct) auto

lemma checkDefault1_warned:
  "length (snd (checkDefault1 v d name st)) = length (snd st) + (if fst st = 0 \<and> nonzero v d > 0 then 1 else 0)"
  "length (snd (check_fields fs d name st)) = length (snd st) + (if fst st = 0 \<and> nonzero_fields fs d > 0 then 1 else 0)"
  by (induction v d name st and fs d name st rule: checkDefault1_check_fields.induct) (auto simp: checkDefault1_count)

text \<open>
  Decoding into a variable counts one error for each of its basic parts that is not
  zero, down to the depth limit, and prints exactly one warning in the life of the process: when
  the first of them is found.\<close>

theorem check_default_counts:
  "fst (checkDefault (Some v) (ec, warned)) = ec + nonzero v 1 \<and>
   length (snd (checkDefault (Some v) (ec, warned))) = length warned + (if ec = 0 \<and> nonzero v 1 > 0 then 1 else 0)"
  by (simp add: checkDefault_def checkDefault1_count checkDefault1_warned)

subsection \<open>The encoder and the decoder\<close>

text \<open>
  The wrappers around \<open>gob\<close>, whose encoder, decoder and registry are parameters: a step of the encoder or decoder and the error it
  returns. \<open>t\<close> is the type of the value that is passed, \<open>old\<close> what the variable to decode into holds.
\<close>

record 'g LabEncoder =
  enc_gob :: 'g

record 'g LabDecoder =
  dec_gob :: 'g

definition NewEncoder :: "('w \<Rightarrow> 'g) \<Rightarrow> 'w \<Rightarrow> 'g LabEncoder" where
  "NewEncoder gob_NewEncoder w = \<lparr>enc_gob = gob_NewEncoder w\<rparr>"

definition Encode :: "('g \<Rightarrow> 'v \<Rightarrow> 'g \<times> string option) \<Rightarrow> tdesc list \<Rightarrow> 'g LabEncoder \<Rightarrow> nat \<Rightarrow> 'v \<Rightarrow> gob_state \<Rightarrow>
    'g LabEncoder \<times> string option \<times> gob_state" where
  "Encode gob_Encode tenv enc t v st =
     (let st = checkValue tenv t st; (g, err) = gob_Encode (enc_gob enc) v in (enc\<lparr>enc_gob := g\<rparr>, err, st))"

definition EncodeValue :: "('g \<Rightarrow> 'v \<Rightarrow> 'g \<times> string option) \<Rightarrow> tdesc list \<Rightarrow> 'g LabEncoder \<Rightarrow> nat \<Rightarrow> 'v \<Rightarrow> gob_state \<Rightarrow>
    'g LabEncoder \<times> string option \<times> gob_state" where
  "EncodeValue gob_EncodeValue tenv enc t v st =
     (let st = checkValue tenv t st; (g, err) = gob_EncodeValue (enc_gob enc) v in (enc\<lparr>enc_gob := g\<rparr>, err, st))"

definition NewDecoder :: "('r \<Rightarrow> 'g) \<Rightarrow> 'r \<Rightarrow> 'g LabDecoder" where
  "NewDecoder gob_NewDecoder r = \<lparr>dec_gob = gob_NewDecoder r\<rparr>"

definition Decode :: "('g \<Rightarrow> 'g \<times> 'v option \<times> string option) \<Rightarrow> tdesc list \<Rightarrow> 'g LabDecoder \<Rightarrow> nat \<Rightarrow> gval option \<Rightarrow> gob_state \<Rightarrow> string list \<Rightarrow>
    'g LabDecoder \<times> 'v option \<times> string option \<times> gob_state \<times> string list" where
  "Decode gob_Decode tenv dec t old st warned =
     (let st = checkValue tenv t st;
          (ec, warned) = checkDefault old (errorCount st, warned);
          (g, v, err) = gob_Decode (dec_gob dec) in
      (dec\<lparr>dec_gob := g\<rparr>, v, err, st\<lparr>errorCount := ec\<rparr>, warned))"

definition gob_Register :: "('g \<Rightarrow> nat \<Rightarrow> 'g) \<Rightarrow> tdesc list \<Rightarrow> nat \<Rightarrow> 'g \<Rightarrow> gob_state \<Rightarrow> 'g \<times> gob_state" where
  "gob_Register reg tenv t g st = (let st = checkValue tenv t st in (reg g t, st))"

definition gob_RegisterName :: "('g \<Rightarrow> string \<Rightarrow> nat \<Rightarrow> 'g) \<Rightarrow> tdesc list \<Rightarrow> string \<Rightarrow> nat \<Rightarrow> 'g \<Rightarrow> gob_state \<Rightarrow> 'g \<times> gob_state" where
  "gob_RegisterName reg tenv name t g st = (let st = checkValue tenv t st in (reg g name t, st))"

text \<open>
  What a \<open>Decode\<close> does to the error count: one for each uncapitalized field of a type that was not seen before and is reachable
  from the type decoded into, and one for each basic part of the variable that is not zero. The decoder itself is not disturbed.
\<close>
theorem decode_counts:
  assumes "finite (checked st)"
  shows "\<exists>st' warned'. Decode gob_Decode tenv dec t old st warned =
      (dec\<lparr>dec_gob := fst (gob_Decode (dec_gob dec))\<rparr>, fst (snd (gob_Decode (dec_gob dec))), snd (snd (gob_Decode (dec_gob dec))), st', warned') \<and>
    checked st' = checked (checkValue tenv t st) \<and>
    errorCount st' = errorCount st + (\<Sum>u\<in>checked st' - checked st. bad_fields (desc tenv u)) + (case old of None \<Rightarrow> 0 | Some v \<Rightarrow> nonzero v 1)"
proof -
  have "fst (checkDefault old (errorCount (checkValue tenv t st), warned)) =
      errorCount (checkValue tenv t st) + (case old of None \<Rightarrow> 0 | Some v \<Rightarrow> nonzero v 1)"
    by (simp add: checkDefault_def checkDefault1_count split: option.split)
  then show ?thesis using checkType_count [OF assms, of tenv "[t]"]
    by (auto simp: Decode_def Let_def checkValue_def split: prod.splits simp del: checkType.simps)
qed

text \<open>A type that was checked once is not counted again: repeated calls of \<open>Encode\<close> and \<open>Register\<close> with one type add nothing.\<close>

lemma encode_again:
  assumes "closed_under tenv (checked st) {}"
  shows "snd (snd (Encode e tenv enc' t w (snd (snd (Encode e tenv enc t v st))))) = snd (snd (Encode e tenv enc t v st))"
proof -
  have "closed_under tenv (checked st) (set [t])" using assms by (auto simp: closed_under_def)
  from checkType_covers [OF this] have "t \<in> checked (checkType tenv [t] st)" by simp
  then have "checkType tenv [t] (checkType tenv [t] st) = checkType tenv [t] st" by simp
  then show ?thesis by (simp add: Encode_def Let_def checkValue_def split: prod.splits del: checkType.simps)
qed

end
