(* ===== verification/Tester_Group.thy ===== *)
theory Tester_Group
  imports Labrpc Raft_Peer
begin

text \<open>
  The server groups of the test framework: \<open>tester1/group.go\<close>, \<open>tester1/srv.go\<close> and the clerks'
  connections \<open>tester1/clnts.go\<close>, over the network of \<open>Labrpc\<close>. An index out of range is the
  value \<open>Inl IndexOutOfRange\<close>. The random names of end points are arguments, as is the address of
  the server object that \<open>labrpc.MakeServer\<close> allocates; a service is a number, and the services
  that were told to stop are collected in \<open>stopped\<close>.
\<close>

subsection \<open>Names and servers\<close>

definition ServerName :: "int \<Rightarrow> nat \<Rightarrow> string" where
  "ServerName gid i = ''server-'' @ itoa gid @ ''-'' @ itoa (int i)"

record TServer =
  saved :: "Persister option"
  svcs :: "nat list"
  endNames :: "string list"

record ServerGrp =
  srvs :: "TServer list"
  servernames :: "string list"
  sg_gid :: int
  connected :: "bool list"
  stopped :: "nat list"

type_synonym ('s, 'b) state = "('s, 'b) Network \<times> ServerGrp"

fun make_ends :: "('s, 'b) Network \<Rightarrow> int \<Rightarrow> nat \<Rightarrow> string list \<Rightarrow> ('s, 'b) Network go" where
  "make_ends net gid j [] = Inr net"
| "make_ends net gid j (name # names) =
     bind_go (MakeEnd net name) (\<lambda>net. make_ends (Connect net name (ServerName gid j)) gid (j + 1) names)"

definition makeServer :: "('s, 'b) Network \<Rightarrow> int \<Rightarrow> string list \<Rightarrow> (('s, 'b) Network \<times> TServer) go" where
  "makeServer net gid names =
     bind_go (make_ends net gid 0 names) (\<lambda>net. Inr (net, \<lparr>saved = None, svcs = [], endNames = names\<rparr>))"

definition startServer :: "('s, 'b) Network \<Rightarrow> TServer \<Rightarrow> int \<Rightarrow> string list \<Rightarrow> (('s, 'b) Network \<times> TServer) go" where
  "startServer net s gid names =
     bind_go (makeServer net gid names) (\<lambda>(net, srv).
       Inr (net, srv\<lparr>saved := Some (case saved s of Some ps \<Rightarrow> Persister_Copy ps | None \<Rightarrow> MakePersister)\<rparr>))"

definition shutdown_server :: "TServer \<Rightarrow> TServer \<times> nat list" where
  "shutdown_server s =
     (s\<lparr>saved := (case saved s of Some ps \<Rightarrow> Some (Persister_Copy ps) | None \<Rightarrow> None), svcs := []\<rparr>, svcs s)"

fun make_servers :: "('s, 'b) Network \<Rightarrow> int \<Rightarrow> string list list \<Rightarrow> (('s, 'b) Network \<times> TServer list) go" where
  "make_servers net gid [] = Inr (net, [])"
| "make_servers net gid (names # rest) =
     bind_go (makeServer net gid names) (\<lambda>(net, srv).
       bind_go (make_servers net gid rest) (\<lambda>(net, ss). Inr (net, srv # ss)))"

definition makeSrvGrp :: "('s, 'b) Network \<Rightarrow> int \<Rightarrow> nat \<Rightarrow> string list list \<Rightarrow> ('s, 'b) state go" where
  "makeSrvGrp net gid n names =
     bind_go (make_servers net gid names) (\<lambda>(net, ss).
       Inr (net, \<lparr>srvs = ss, servernames = map (ServerName gid) [0..<n], sg_gid = gid,
                  connected = replicate n False, stopped = []\<rparr>))"

definition N :: "ServerGrp \<Rightarrow> nat" where
  "N sg = length (srvs sg)"

definition SrvNames :: "ServerGrp \<Rightarrow> string list" where
  "SrvNames sg = servernames sg"

definition Services :: "ServerGrp \<Rightarrow> nat list list" where
  "Services sg = map svcs (srvs sg)"

definition GetConnected :: "ServerGrp \<Rightarrow> bool list" where
  "GetConnected sg = connected sg"

definition SrvName :: "ServerGrp \<Rightarrow> nat \<Rightarrow> string go" where
  "SrvName sg i = nth_go (servernames sg) i"

fun SrvNamesTo :: "ServerGrp \<Rightarrow> nat list \<Rightarrow> string list go" where
  "SrvNamesTo sg [] = Inr []"
| "SrvNamesTo sg (i # to) = bind_go (nth_go (servernames sg) i) (\<lambda>x. bind_go (SrvNamesTo sg to) (\<lambda>ns. Inr (x # ns)))"

definition all :: "ServerGrp \<Rightarrow> nat list" where
  "all sg = [0..<length (srvs sg)]"

definition IsConnected :: "ServerGrp \<Rightarrow> nat \<Rightarrow> bool go" where
  "IsConnected sg i = nth_go (connected sg) i"

subsection \<open>Connecting and disconnecting\<close>

fun connect_out :: "('s, 'b) Network \<Rightarrow> ServerGrp \<Rightarrow> string list \<Rightarrow> nat list \<Rightarrow> ('s, 'b) Network go" where
  "connect_out net sg names [] = Inr net"
| "connect_out net sg names (t # to) =
     bind_go (IsConnected sg t) (\<lambda>c.
       if c then bind_go (nth_go names t) (\<lambda>e. connect_out (Enable net e True) sg names to)
       else connect_out net sg names to)"

fun connect_in :: "('s, 'b) Network \<Rightarrow> ServerGrp \<Rightarrow> nat \<Rightarrow> nat list \<Rightarrow> ('s, 'b) Network go" where
  "connect_in net sg i [] = Inr net"
| "connect_in net sg i (t # to) =
     bind_go (IsConnected sg t) (\<lambda>c.
       if c then bind_go (nth_go (srvs sg) t) (\<lambda>s. bind_go (nth_go (endNames s) i) (\<lambda>e.
         connect_in (Enable net e True) sg i to))
       else connect_in net sg i to)"

definition connect :: "nat \<Rightarrow> nat list \<Rightarrow> ('s, 'b) state \<Rightarrow> ('s, 'b) state go" where
  "connect i to st =
     (case st of (net, sg) \<Rightarrow>
      bind_go (nth_go (connected sg) i) (\<lambda>_.
        let sg = sg\<lparr>connected := (connected sg)[i := True]\<rparr> in
        bind_go (nth_go (srvs sg) i) (\<lambda>s.
          bind_go (connect_out net sg (endNames s) to) (\<lambda>net.
            bind_go (connect_in net sg i to) (\<lambda>net. Inr (net, sg))))))"

fun disconnect_out :: "('s, 'b) Network \<Rightarrow> string list \<Rightarrow> nat list \<Rightarrow> ('s, 'b) Network go" where
  "disconnect_out net names [] = Inr net"
| "disconnect_out net names (f # from) =
     bind_go (nth_go names f) (\<lambda>e. disconnect_out (Enable net e False) names from)"

fun disconnect_in :: "('s, 'b) Network \<Rightarrow> ServerGrp \<Rightarrow> nat \<Rightarrow> nat list \<Rightarrow> ('s, 'b) Network go" where
  "disconnect_in net sg i [] = Inr net"
| "disconnect_in net sg i (f # from) =
     bind_go (nth_go (srvs sg) f) (\<lambda>s. bind_go (nth_go (endNames s) i) (\<lambda>e.
       disconnect_in (Enable net e False) sg i from))"

definition disconnect :: "nat \<Rightarrow> nat list \<Rightarrow> ('s, 'b) state \<Rightarrow> ('s, 'b) state go" where
  "disconnect i from st =
     (case st of (net, sg) \<Rightarrow>
      bind_go (nth_go (connected sg) i) (\<lambda>_.
        let sg = sg\<lparr>connected := (connected sg)[i := False]\<rparr> in
        bind_go (nth_go (srvs sg) i) (\<lambda>s.
          bind_go (disconnect_out net (endNames s) from) (\<lambda>net.
            bind_go (disconnect_in net sg i from) (\<lambda>net. Inr (net, sg))))))"

definition ConnectOne :: "nat \<Rightarrow> ('s, 'b) state \<Rightarrow> ('s, 'b) state go" where
  "ConnectOne i st = connect i (all (snd st)) st"

fun connect_each :: "nat list \<Rightarrow> ('s, 'b) state \<Rightarrow> ('s, 'b) state go" where
  "connect_each [] st = Inr st"
| "connect_each (i # is) st = bind_go (ConnectOne i st) (connect_each is)"

definition ConnectAll :: "('s, 'b) state \<Rightarrow> ('s, 'b) state go" where
  "ConnectAll st = connect_each (all (snd st)) st"

definition DisconnectAll :: "nat \<Rightarrow> ('s, 'b) state \<Rightarrow> ('s, 'b) state go" where
  "DisconnectAll i st = disconnect i (all (snd st)) st"

subsection \<open>Partitions\<close>

fun partition_loop :: "nat list \<Rightarrow> nat \<Rightarrow> nat \<Rightarrow> nat list \<Rightarrow> nat list \<Rightarrow> (nat list \<times> nat list) go" where
  "partition_loop [] l j p1 p2 = Inr (p1, p2)"
| "partition_loop (i # is) l j p1 p2 =
     (if i \<noteq> l then
        if j < length p1 then partition_loop is l (j + 1) (p1[j := i]) p2
        else if j - length p1 < length p2 then partition_loop is l (j + 1) p1 (p2[j - length p1 := i])
        else Inl IndexOutOfRange
      else partition_loop is l j p1 p2)"

definition MakePartition :: "nat \<Rightarrow> nat \<Rightarrow> (nat list \<times> nat list) go" where
  "MakePartition n l =
     (let p1 = replicate (n div 2 + 1) 0; p2 = replicate (n div 2) 0 in
      bind_go (partition_loop [0..<n] l 0 p1 p2) (\<lambda>(p1, p2).
        if length p2 = 0 then Inl IndexOutOfRange else Inr (p1, p2[length p2 - 1 := l])))"

fun isolate :: "nat list \<Rightarrow> nat list \<Rightarrow> nat list \<Rightarrow> ('s, 'b) state \<Rightarrow> ('s, 'b) state go" where
  "isolate [] own others st = Inr st"
| "isolate (i # is) own others st =
     bind_go (disconnect i others st) (\<lambda>st. bind_go (connect i own st) (isolate is own others))"

definition Partition :: "nat list \<Rightarrow> nat list \<Rightarrow> ('s, 'b) state \<Rightarrow> ('s, 'b) state go" where
  "Partition p1 p2 st = bind_go (isolate p1 p1 p2 st) (isolate p2 p2 p1)"

subsection \<open>Starting and stopping servers\<close>

text \<open>
  \<open>mks\<close> returns the services and the state of the program behind them; \<open>rt\<close> is what reflection says of
  a service: its name and its methods. \<open>labrpc.MakeServer\<close> allocates the server object at \<open>addr\<close>.
\<close>

type_synonym ('s, 'b) reflected = "nat \<Rightarrow> string \<times> ('s, 'b) meth list"
type_synonym 's mks = "string list \<Rightarrow> int \<Rightarrow> nat \<Rightarrow> Persister \<Rightarrow> nat list \<times> 's"

definition lab_server :: "('s, 'b) reflected \<Rightarrow> nat list \<times> 's \<Rightarrow> ('s, 'b) Server" where
  "lab_server rt p = foldl (\<lambda>labsrv svc. AddService labsrv (MakeService (fst (rt svc)) (snd (rt svc)))) (MakeServer (snd p)) (fst p)"

definition StartServer :: "'s mks \<Rightarrow> ('s, 'b) reflected \<Rightarrow> nat \<Rightarrow> string list \<Rightarrow> nat \<Rightarrow> ('s, 'b) state \<Rightarrow> ('s, 'b) state go" where
  "StartServer mks rt i names addr st =
     (case st of (net, sg) \<Rightarrow>
      bind_go (nth_go (srvs sg) i) (\<lambda>s.
        bind_go (startServer net s (sg_gid sg) names) (\<lambda>(net, srv).
          let ps = (case saved srv of Some ps \<Rightarrow> ps | None \<Rightarrow> MakePersister);
              p = mks (endNames srv) (sg_gid sg) i ps;
              srv = srv\<lparr>svcs := fst p\<rparr>;
              net = net\<lparr>heap := (heap net)(addr \<mapsto> lab_server rt p)\<rparr> in
          Inr (AddServer net (ServerName (sg_gid sg) i) addr, sg\<lparr>srvs := (srvs sg)[i := srv]\<rparr>))))"

text \<open>\<open>start\<close> and \<open>StartServers\<close>; the end names and the address of each new server are arguments.\<close>

fun start :: "'s mks \<Rightarrow> ('s, 'b) reflected \<Rightarrow> nat \<Rightarrow> (string list \<times> nat) list \<Rightarrow> ('s, 'b) state \<Rightarrow> ('s, 'b) state go" where
  "start mks rt i [] st = Inr st"
| "start mks rt i ((names, addr) # rest) st = bind_go (StartServer mks rt i names addr st) (start mks rt (i + 1) rest)"

definition StartServers :: "'s mks \<Rightarrow> ('s, 'b) reflected \<Rightarrow> (string list \<times> nat) list \<Rightarrow> ('s, 'b) state \<Rightarrow> ('s, 'b) state go" where
  "StartServers mks rt fresh st = bind_go (start mks rt 0 fresh st) ConnectAll"

definition ShutdownServer :: "nat \<Rightarrow> ('s, 'b) state \<Rightarrow> ('s, 'b) state go" where
  "ShutdownServer i st =
     bind_go (disconnect i (all (snd st)) st) (\<lambda>(net, sg).
       let net = DeleteServer net (ServerName (sg_gid sg) i) in
       bind_go (nth_go (srvs sg) i) (\<lambda>s.
         let (s, killed) = shutdown_server s in
         Inr (net, sg\<lparr>srvs := (srvs sg)[i := s], stopped := stopped sg @ killed\<rparr>)))"

fun shutdown_each :: "nat list \<Rightarrow> ('s, 'b) state \<Rightarrow> ('s, 'b) state go" where
  "shutdown_each [] st = Inr st"
| "shutdown_each (i # is) st = bind_go (ShutdownServer i st) (shutdown_each is)"

definition Shutdown :: "('s, 'b) state \<Rightarrow> ('s, 'b) state go" where
  "Shutdown st = shutdown_each (all (snd st)) st"

definition cleanup_group :: "ServerGrp \<Rightarrow> ServerGrp" where
  "cleanup_group sg = sg\<lparr>stopped := stopped sg @ concat (map svcs (srvs sg))\<rparr>"

definition LogSize :: "ServerGrp \<Rightarrow> nat go" where
  "LogSize sg = foldl (\<lambda>r s. bind_go r (\<lambda>m. case saved s of None \<Rightarrow> Inl NilDeref
     | Some ps \<Rightarrow> let n = RaftStateSize ps in Inr (if n > m then n else m))) (Inr 0) (srvs sg)"

definition group_SnapshotSize :: "ServerGrp \<Rightarrow> nat go" where
  "group_SnapshotSize sg = foldl (\<lambda>r s. bind_go r (\<lambda>m. case saved s of None \<Rightarrow> Inl NilDeref
     | Some ps \<Rightarrow> let n = SnapshotSize ps in Inr (if n > m then n else m))) (Inr 0) (srvs sg)"

definition RpcCount :: "nat \<Rightarrow> ('s, 'b) state \<Rightarrow> nat go" where
  "RpcCount i st = GetCount (fst st) (ServerName (sg_gid (snd st)) i)"


subsection \<open>Names\<close>

lemma ServerName_inject: "ServerName g i = ServerName h j \<longleftrightarrow> g = h \<and> i = j"
  using append_split_last [OF itoa_no_dash itoa_no_dash, of "int i" "int j" "itoa g" "itoa h"]
  by (simp add: ServerName_def)

subsection \<open>What connect and disconnect do to the ends\<close>

text \<open>Every server has one end per server, and all ends have different names.\<close>

definition wf_group :: "ServerGrp \<Rightarrow> bool" where
  "wf_group sg \<longleftrightarrow> length (connected sg) = length (srvs sg) \<and>
     (\<forall>s\<in>set (srvs sg). length (endNames s) = length (srvs sg)) \<and>
     distinct (concat (map endNames (srvs sg)))"

abbreviation end_name :: "ServerGrp \<Rightarrow> nat \<Rightarrow> nat \<Rightarrow> string" where
  "end_name sg a b \<equiv> endNames (srvs sg ! a) ! b"

lemma distinct_concat_nth:
  "distinct (concat xss) \<Longrightarrow> i < length xss \<Longrightarrow> j < length xss \<Longrightarrow> a < length (xss ! i) \<Longrightarrow> b < length (xss ! j) \<Longrightarrow>
    xss ! i ! a = xss ! j ! b \<Longrightarrow> i = j \<and> a = b"
proof (induction xss arbitrary: i j)
  case (Cons xs xss)
  have disj: "set xs \<inter> set (concat xss) = {}" "distinct xs" using Cons.prems(1) by auto
  have in_concat: "x \<in> set (concat xss)" if "k < length xss" "x \<in> set (xss ! k)" for k x
    using that nth_mem by fastforce
  show ?case
  proof (cases i; cases j)
    fix i' j' assume ij: "i = Suc i'" "j = Suc j'"
    then show ?thesis using Cons.IH [of i' j'] Cons.prems by auto
  next
    assume ij: "i = 0" "j = 0"
    then show ?thesis using Cons.prems disj by (auto simp: nth_eq_iff_index_eq)
  next
    fix j' assume ij: "i = 0" "j = Suc j'"
    have "xs ! a \<in> set xs" using Cons.prems(4) ij by simp
    moreover have "xs ! a \<in> set (concat xss)" using Cons.prems in_concat [of j' "xss ! j' ! b"] ij by simp
    ultimately show ?thesis using disj by blast
  next
    fix i' assume ij: "i = Suc i'" "j = 0"
    have "xs ! b \<in> set xs" using Cons.prems(5) ij by simp
    moreover have "xss ! i' ! a \<in> set (concat xss)" using Cons.prems(2,4) ij by (intro in_concat [of i']) simp_all
    then have "xs ! b \<in> set (concat xss)" using Cons.prems(6) ij by simp
    ultimately show ?thesis using disj by blast
  qed
qed simp

lemma end_name_inject:
  assumes "wf_group sg" "a < N sg" "b < N sg" "c < N sg" "d < N sg"
  shows "end_name sg a b = end_name sg c d \<longleftrightarrow> a = c \<and> b = d"
proof -
  have "a = c \<and> b = d" if "end_name sg a b = end_name sg c d"
    using distinct_concat_nth [of "map endNames (srvs sg)" a c b d] assms that by (auto simp: wf_group_def N_def)
  then show ?thesis by auto
qed

definition enable_all :: "string set \<Rightarrow> bool \<Rightarrow> ('s, 'b) Network \<Rightarrow> ('s, 'b) Network" where
  "enable_all E on net = net\<lparr>enabled := (\<lambda>x. if x \<in> E then Some on else enabled net x)\<rparr>"

lemma enable_all_simps [simp]:
  "enable_all {} on net = net" "enable_all E on (Enable net e on) = enable_all (insert e E) on net"
  "enable_all E on (enable_all F on net) = enable_all (E \<union> F) on net"
  by (auto simp: enable_all_def Enable_def fun_eq_iff)

lemma connect_out_eq:
  "\<forall>t\<in>set to. t < length (connected sg) \<and> t < length names \<Longrightarrow>
    connect_out net sg names to = Inr (enable_all {names ! t | t. t \<in> set to \<and> connected sg ! t} True net)"
proof (induction to arbitrary: net)
  case (Cons t to)
  have "{names ! u | u. u \<in> set (t # to) \<and> connected sg ! u} =
      (if connected sg ! t then insert (names ! t) else id) {names ! u | u. u \<in> set to \<and> connected sg ! u}" by auto
  then show ?case using Cons by (simp add: IsConnected_def nth_go_def)
qed simp

lemma connect_in_eq:
  "\<forall>t\<in>set to. t < length (connected sg) \<and> t < length (srvs sg) \<and> i < length (endNames (srvs sg ! t)) \<Longrightarrow>
    connect_in net sg i to = Inr (enable_all {end_name sg t i | t. t \<in> set to \<and> connected sg ! t} True net)"
proof (induction to arbitrary: net)
  case (Cons t to)
  have "{end_name sg u i | u. u \<in> set (t # to) \<and> connected sg ! u} =
      (if connected sg ! t then insert (end_name sg t i) else id) {end_name sg u i | u. u \<in> set to \<and> connected sg ! u}" by auto
  then show ?case using Cons by (simp add: IsConnected_def nth_go_def)
qed simp

lemma disconnect_out_eq:
  "\<forall>t\<in>set from. t < length names \<Longrightarrow> disconnect_out net names from = Inr (enable_all {names ! t | t. t \<in> set from} False net)"
proof (induction "from" arbitrary: net)
  case (Cons t ts)
  have "{names ! u | u. u \<in> set (t # ts)} = insert (names ! t) {names ! u | u. u \<in> set ts}" by auto
  then show ?case using Cons by (simp add: nth_go_def)
qed simp

lemma disconnect_in_eq:
  "\<forall>t\<in>set from. t < length (srvs sg) \<and> i < length (endNames (srvs sg ! t)) \<Longrightarrow>
    disconnect_in net sg i from = Inr (enable_all {end_name sg t i | t. t \<in> set from} False net)"
proof (induction "from" arbitrary: net)
  case (Cons t ts)
  have "{end_name sg u i | u. u \<in> set (t # ts)} = insert (end_name sg t i) {end_name sg u i | u. u \<in> set ts}" by auto
  then show ?case using Cons by (simp add: nth_go_def)
qed simp

definition links :: "ServerGrp \<Rightarrow> nat \<Rightarrow> nat set \<Rightarrow> string set" where
  "links sg i A = {end_name sg i t | t. t \<in> A} \<union> {end_name sg t i | t. t \<in> A}"

lemma wf_lengths:
  "wf_group sg \<Longrightarrow> i < N sg \<Longrightarrow> length (endNames (srvs sg ! i)) = N sg" "wf_group sg \<Longrightarrow> length (connected sg) = N sg"
  by (simp_all add: wf_group_def N_def)

lemma wf_connected [simp]: "wf_group (sg\<lparr>connected := (connected sg)[i := c]\<rparr>) = wf_group sg"
  by (simp add: wf_group_def)

lemma connect_eq:
  assumes "wf_group sg" and "i < N sg" and "\<forall>t\<in>set to. t < N sg"
  shows "connect i to (net, sg) =
    Inr (enable_all (links sg i {t \<in> set to. (connected sg)[i := True] ! t}) True net, sg\<lparr>connected := (connected sg)[i := True]\<rparr>)"
proof -
  let ?sg = "sg\<lparr>connected := (connected sg)[i := True]\<rparr>"
  have o: "connect_out net ?sg (endNames (srvs sg ! i)) to =
      Inr (enable_all {end_name sg i t | t. t \<in> set to \<and> (connected sg)[i := True] ! t} True net)"
    using connect_out_eq [of to ?sg "endNames (srvs sg ! i)" net] assms wf_lengths [OF assms(1)] by simp
  let ?m = "enable_all {end_name sg i t | t. t \<in> set to \<and> (connected sg)[i := True] ! t} True net"
  have n: "connect_in ?m ?sg i to = Inr (enable_all {end_name sg t i | t. t \<in> set to \<and> (connected sg)[i := True] ! t} True ?m)"
    using connect_in_eq [of to ?sg i ?m] assms wf_lengths [OF assms(1)] by (simp add: N_def)
  have "{end_name sg t i | t. t \<in> set to \<and> (connected sg)[i := True] ! t} \<union>
      {end_name sg i t | t. t \<in> set to \<and> (connected sg)[i := True] ! t} =
      links sg i {t \<in> set to. (connected sg)[i := True] ! t}" by (auto simp: links_def)
  then show ?thesis using o n assms(2) wf_lengths(2) [OF assms(1)]
    by (simp add: connect_def nth_go_def N_def Let_def del: bind_go_eq_Inr)
qed

lemma disconnect_eq:
  assumes "wf_group sg" and "i < N sg" and "\<forall>t\<in>set from. t < N sg"
  shows "disconnect i from (net, sg) =
    Inr (enable_all (links sg i (set from)) False net, sg\<lparr>connected := (connected sg)[i := False]\<rparr>)"
proof -
  let ?sg = "sg\<lparr>connected := (connected sg)[i := False]\<rparr>"
  have o: "disconnect_out net (endNames (srvs sg ! i)) from = Inr (enable_all {end_name sg i t | t. t \<in> set from} False net)"
    using disconnect_out_eq [of "from" "endNames (srvs sg ! i)" net] assms wf_lengths [OF assms(1)] by simp
  let ?m = "enable_all {end_name sg i t | t. t \<in> set from} False net"
  have n: "disconnect_in ?m ?sg i from = Inr (enable_all {end_name sg t i | t. t \<in> set from} False ?m)"
    using disconnect_in_eq [of "from" ?sg i ?m] assms wf_lengths [OF assms(1)] by (simp add: N_def)
  have "{end_name sg t i | t. t \<in> set from} \<union> {end_name sg i t | t. t \<in> set from} = links sg i (set from)"
    by (auto simp: links_def)
  then show ?thesis using o n assms(2) wf_lengths(2) [OF assms(1)]
    by (simp add: disconnect_def nth_go_def N_def Let_def del: bind_go_eq_Inr)
qed


lemma in_links:
  assumes "wf_group sg" "a < N sg" "b < N sg" "i < N sg" "A \<subseteq> {..<N sg}"
  shows "end_name sg a b \<in> links sg i A \<longleftrightarrow> a = i \<and> b \<in> A \<or> b = i \<and> a \<in> A"
proof -
  have "end_name sg a b = end_name sg i t \<longleftrightarrow> a = i \<and> b = t" "end_name sg a b = end_name sg t i \<longleftrightarrow> a = t \<and> b = i"
    if "t \<in> A" for t using end_name_inject [OF assms(1-3)] assms(4,5) that by auto
  then show ?thesis by (auto simp: links_def)
qed

definition link :: "('s, 'b) state \<Rightarrow> nat \<Rightarrow> nat \<Rightarrow> bool option" where
  "link st a b = enabled (fst st) (end_name (snd st) a b)"

text \<open>One server of a side: cut off from the other side and connected to its own.\<close>

lemma isolate_step:
  assumes wf: "wf_group sg" and i: "i \<in> set own" and own: "set own \<subseteq> {..<N sg}" and oth: "set others \<subseteq> {..<N sg}"
  shows "\<exists>net'. bind_go (disconnect i others (net, sg)) (connect i own) = Inr (net', sg\<lparr>connected := (connected sg)[i := True]\<rparr>) \<and>
    (\<forall>a<N sg. \<forall>b<N sg. link (net', sg) a b =
      (if (a = i \<and> b \<in> set own \<or> b = i \<and> a \<in> set own) \<and> (connected sg)[i := True] ! a \<and> (connected sg)[i := True] ! b then Some True
       else if a = i \<and> b \<in> set others \<or> b = i \<and> a \<in> set others then Some False
       else link (net, sg) a b))"
proof -
  let ?c = "(connected sg)[i := True]" and ?sg = "sg\<lparr>connected := (connected sg)[i := False]\<rparr>"
  let ?A = "{t \<in> set own. ?c ! t}"
  have lt: "i < N sg" using i own by auto
  let ?n1 = "enable_all (links sg i (set others)) False net"
  let ?n2 = "enable_all (links sg i ?A) True ?n1"
  have d: "disconnect i others (net, sg) = Inr (?n1, ?sg)" using disconnect_eq [OF wf lt, of others net] oth by (simp add: subset_iff)
  have "links ?sg i ?A = links sg i ?A" by (simp add: links_def)
  then have c: "connect i own (?n1, ?sg) = Inr (?n2, sg\<lparr>connected := ?c\<rparr>)"
    using connect_eq [of ?sg i own ?n1] wf lt own by (simp add: N_def subset_iff)
  have "link (?n2, sg) a b = (if (a = i \<and> b \<in> set own \<or> b = i \<and> a \<in> set own) \<and> ?c ! a \<and> ?c ! b then Some True
       else if a = i \<and> b \<in> set others \<or> b = i \<and> a \<in> set others then Some False else link (net, sg) a b)"
    if "a < N sg" "b < N sg" for a b
  proof -
    have A: "?A \<subseteq> {..<N sg}" using own by auto
    have ci: "?c ! i" using lt wf_lengths(2) [OF wf] by simp
    then have "(a = i \<and> b \<in> ?A \<or> b = i \<and> a \<in> ?A) \<longleftrightarrow> (a = i \<and> b \<in> set own \<or> b = i \<and> a \<in> set own) \<and> ?c ! a \<and> ?c ! b" by auto
    then have 1: "end_name sg a b \<in> links sg i ?A \<longleftrightarrow>
        (a = i \<and> b \<in> set own \<or> b = i \<and> a \<in> set own) \<and> ?c ! a \<and> ?c ! b"
      using in_links [OF wf that lt A] by (simp only:)
    have 2: "end_name sg a b \<in> links sg i (set others) \<longleftrightarrow> a = i \<and> b \<in> set others \<or> b = i \<and> a \<in> set others"
      by (rule in_links [OF wf that lt oth])
    have "link (?n2, sg) a b = (if end_name sg a b \<in> links sg i ?A then Some True
        else if end_name sg a b \<in> links sg i (set others) then Some False else link (net, sg) a b)"
      by (simp add: link_def enable_all_def)
    then show ?thesis unfolding 1 2 .
  qed
  then show ?thesis using d c by (intro exI [of _ ?n2]) simp
qed

lemma isolate_spec:
  assumes "wf_group sg" and "set is \<subseteq> set own" and "set own \<subseteq> {..<N sg}" and "set others \<subseteq> {..<N sg}"
    and "set own \<inter> set others = {}" and "D \<subseteq> set own"
    and "\<forall>a\<in>D. connected sg ! a" and "\<forall>a\<in>D. \<forall>b\<in>D. link (net, sg) a b = Some True"
  shows "\<exists>net' c'. isolate is own others (net, sg) = Inr (net', sg\<lparr>connected := c'\<rparr>) \<and> length c' = length (connected sg) \<and>
    (\<forall>a\<in>D \<union> set is. \<forall>b\<in>D \<union> set is. link (net', sg) a b = Some True) \<and>
    (\<forall>a\<in>set is. \<forall>b\<in>set others. link (net', sg) a b = Some False \<and> link (net', sg) b a = Some False) \<and>
    (\<forall>a<N sg. \<forall>b<N sg. a \<notin> set own \<and> b \<notin> set is \<or> b \<notin> set own \<and> a \<notin> set is \<longrightarrow> link (net', sg) a b = link (net, sg) a b)"
  using assms
proof (induction "is" arbitrary: net sg D)
  case Nil
  then show ?case by (intro exI [of _ net] exI [of _ "connected sg"]) simp
next
  case (Cons i "is")
  let ?c = "(connected sg)[i := True]" and ?sg = "sg\<lparr>connected := (connected sg)[i := True]\<rparr>"
  have i: "i \<in> set own" "i < N sg" using Cons.prems(2,3) by auto
  obtain net1 where n1: "bind_go (disconnect i others (net, sg)) (connect i own) = Inr (net1, ?sg)"
    and l1: "\<forall>a<N sg. \<forall>b<N sg. link (net1, sg) a b =
      (if (a = i \<and> b \<in> set own \<or> b = i \<and> a \<in> set own) \<and> ?c ! a \<and> ?c ! b then Some True
       else if a = i \<and> b \<in> set others \<or> b = i \<and> a \<in> set others then Some False else link (net, sg) a b)"
    using isolate_step [OF Cons.prems(1) i(1) Cons.prems(3,4)] by blast
  have same: "link (n, ?sg) a b = link (n, sg) a b" for n a b by (simp add: link_def)
  have cD: "?c ! a" if "a \<in> insert i D" for a
    using that Cons.prems(6,7) i wf_lengths(2) [OF Cons.prems(1)] by (cases "a = i") auto
  have lt: "a < N sg" "a \<in> set own" "a \<notin> set others" if "a \<in> insert i D" for a
    using that i Cons.prems(3,5,6) by auto
  have linked: "link (net1, ?sg) a b = Some True" if "a \<in> insert i D" "b \<in> insert i D" for a b
    using l1 lt [OF that(1)] lt [OF that(2)] cD [OF that(1)] cD [OF that(2)] that Cons.prems(8) unfolding same by auto
  have "\<exists>net' c'. isolate is own others (net1, ?sg) = Inr (net', ?sg\<lparr>connected := c'\<rparr>) \<and> length c' = length (connected ?sg) \<and>
    (\<forall>a\<in>insert i D \<union> set is. \<forall>b\<in>insert i D \<union> set is. link (net', ?sg) a b = Some True) \<and>
    (\<forall>a\<in>set is. \<forall>b\<in>set others. link (net', ?sg) a b = Some False \<and> link (net', ?sg) b a = Some False) \<and>
    (\<forall>a<N ?sg. \<forall>b<N ?sg. a \<notin> set own \<and> b \<notin> set is \<or> b \<notin> set own \<and> a \<notin> set is \<longrightarrow>
       link (net', ?sg) a b = link (net1, ?sg) a b)"
    using Cons.prems i cD linked by (intro Cons.IH) (auto simp: N_def)
  then obtain net' c' where r: "isolate is own others (net1, ?sg) = Inr (net', sg\<lparr>connected := c'\<rparr>)" "length c' = length (connected sg)"
    "\<forall>a\<in>insert i D \<union> set is. \<forall>b\<in>insert i D \<union> set is. link (net', sg) a b = Some True"
    "\<forall>a\<in>set is. \<forall>b\<in>set others. link (net', sg) a b = Some False \<and> link (net', sg) b a = Some False"
    "\<forall>a<N sg. \<forall>b<N sg. a \<notin> set own \<and> b \<notin> set is \<or> b \<notin> set own \<and> a \<notin> set is \<longrightarrow> link (net', sg) a b = link (net1, sg) a b"
    unfolding same by (auto simp: N_def)
  have cut: "link (net', sg) i b = Some False \<and> link (net', sg) b i = Some False" if b: "b \<in> set others" for b
  proof (cases "i \<in> set is")
    case True
    then show ?thesis using r(4) b by simp
  next
    case False
    have b': "b < N sg" "b \<notin> set own" using b Cons.prems(4,5) by auto
    then have "b \<notin> set is" using Cons.prems(2) by auto
    then have "link (net', sg) i b = link (net1, sg) i b" "link (net', sg) b i = link (net1, sg) b i"
      using r(5) b' i False by simp_all
    then show ?thesis using l1 b b' i Cons.prems(5) by auto
  qed
  have rest: "link (net', sg) a b = link (net, sg) a b"
    if "a < N sg" "b < N sg" "a \<notin> set own \<and> b \<notin> set (i # is) \<or> b \<notin> set own \<and> a \<notin> set (i # is)" for a b
    using r(5) l1 that i(1) by auto
  have "isolate (i # is) own others (net, sg) = Inr (net', sg\<lparr>connected := c'\<rparr>)"
    using n1 r(1) by (auto simp: bind_go_def split: sum.splits)
  moreover have "\<forall>a\<in>set (i # is). \<forall>b\<in>set others. link (net', sg) a b = Some False \<and> link (net', sg) b a = Some False"
    using cut r(4) by simp
  ultimately show ?case using r(2,3) rest by (intro exI [of _ net'] exI [of _ c']) simp
qed


text \<open>
  Property C24. \<open>Partition\<close> separates the servers: for two disjoint sets of servers, whatever was
  connected before, afterwards every end between servers of the same side is enabled in both
  directions, every end between the two sides is disabled, and no call is out of range.\<close>

theorem partition_separates:
  assumes "wf_group sg" and "set p1 \<subseteq> {..<N sg}" and "set p2 \<subseteq> {..<N sg}" and "set p1 \<inter> set p2 = {}"
  shows "\<exists>net' c'. Partition p1 p2 (net, sg) = Inr (net', sg\<lparr>connected := c'\<rparr>) \<and>
    (\<forall>a\<in>set p1. \<forall>b\<in>set p1. link (net', sg) a b = Some True) \<and>
    (\<forall>a\<in>set p2. \<forall>b\<in>set p2. link (net', sg) a b = Some True) \<and>
    (\<forall>a\<in>set p1. \<forall>b\<in>set p2. link (net', sg) a b = Some False \<and> link (net', sg) b a = Some False)"
proof -
  obtain net1 c1 where s1: "isolate p1 p1 p2 (net, sg) = Inr (net1, sg\<lparr>connected := c1\<rparr>)" "length c1 = length (connected sg)"
    "\<forall>a\<in>set p1. \<forall>b\<in>set p1. link (net1, sg) a b = Some True"
    using isolate_spec [OF assms(1) order_refl assms(2,3,4), of "{}" net] by auto
  let ?sg = "sg\<lparr>connected := c1\<rparr>"
  have wf: "wf_group ?sg" "N ?sg = N sg" using assms(1) s1(2) by (simp_all add: wf_group_def N_def)
  have same: "link (n, ?sg) a b = link (n, sg) a b" for n a b by (simp add: link_def)
  have "\<exists>net' c'. isolate p2 p2 p1 (net1, ?sg) = Inr (net', ?sg\<lparr>connected := c'\<rparr>) \<and> length c' = length (connected ?sg) \<and>
    (\<forall>a\<in>{} \<union> set p2. \<forall>b\<in>{} \<union> set p2. link (net', ?sg) a b = Some True) \<and>
    (\<forall>a\<in>set p2. \<forall>b\<in>set p1. link (net', ?sg) a b = Some False \<and> link (net', ?sg) b a = Some False) \<and>
    (\<forall>a<N ?sg. \<forall>b<N ?sg. a \<notin> set p2 \<and> b \<notin> set p2 \<or> b \<notin> set p2 \<and> a \<notin> set p2 \<longrightarrow> link (net', ?sg) a b = link (net1, ?sg) a b)"
    using assms(2-4) by (intro isolate_spec [OF wf(1)]) (auto simp: wf(2))
  then obtain net' c' where s2: "isolate p2 p2 p1 (net1, ?sg) = Inr (net', sg\<lparr>connected := c'\<rparr>)"
    "\<forall>a\<in>set p2. \<forall>b\<in>set p2. link (net', sg) a b = Some True"
    "\<forall>a\<in>set p2. \<forall>b\<in>set p1. link (net', sg) a b = Some False \<and> link (net', sg) b a = Some False"
    "\<forall>a<N sg. \<forall>b<N sg. a \<notin> set p2 \<and> b \<notin> set p2 \<longrightarrow> link (net', sg) a b = link (net1, sg) a b"
    unfolding same wf(2) by auto
  have "link (net', sg) a b = Some True" if "a \<in> set p1" "b \<in> set p1" for a b
  proof -
    have "a \<notin> set p2" "b \<notin> set p2" "a < N sg" "b < N sg" using that assms(2,4) by blast+
    then have "link (net', sg) a b = link (net1, sg) a b" using s2(4) by blast
    then show ?thesis using s1(3) that by simp
  qed
  then show ?thesis using s1(1) s2(1-3) by (intro exI [of _ net'] exI [of _ c']) (auto simp: Partition_def)
qed

subsection \<open>MakePartition\<close>

lemma partition_loop_eq:
  assumes "length (filter (\<lambda>i. i \<noteq> l) xs) + j \<le> length p1 + length p2"
  shows "partition_loop xs l j p1 p2 =
    (let ys = filter (\<lambda>i. i \<noteq> l) xs; k = length p1 - j in
     Inr (take j p1 @ take k ys @ drop (j + length (take k ys)) p1,
          take (j - length p1) p2 @ drop k ys @ drop (j - length p1 + length (drop k ys)) p2))"
  using assms
proof (induction xs arbitrary: j p1 p2)
  case Nil
  then show ?case by simp
next
  case (Cons x xs)
  show ?case
  proof (cases "x = l")
    case True
    then show ?thesis using Cons by simp
  next
    case False
    show ?thesis
    proof (cases "j < length p1")
      case True
      then have "take (Suc j) (p1[j := x]) = take j p1 @ [x]" "drop (Suc j) (p1[j := x]) = drop (Suc j) p1"
        by (simp_all add: take_Suc_conv_app_nth)
      moreover have "length p1 - j = Suc (length p1 - Suc j)"
        "Suc (length (filter (\<lambda>i. i \<noteq> l) xs) + j) - length p1 = length (filter (\<lambda>i. i \<noteq> l) xs) - (length p1 - Suc j)"
        using True by simp_all
      ultimately show ?thesis using Cons.IH [of "j + 1" "p1[j := x]" p2] Cons.prems False True by (simp add: Let_def)
    next
      case jge: False
      let ?m = "j - length p1"
      have m: "?m < length p2" using Cons.prems False jge by simp
      then have "take (Suc ?m) (p2[?m := x]) = take ?m p2 @ [x]" "drop (Suc ?m + n) (p2[?m := x]) = drop (Suc ?m + n) p2" for n
        by (simp_all add: take_Suc_conv_app_nth)
      then show ?thesis using Cons.IH [of "j + 1" p1 "p2[?m := x]"] Cons.prems False jge m
        by (simp add: Let_def Suc_diff_le)
    qed
  qed
qed


lemma length_filter_neq: "l < n \<Longrightarrow> length (filter (\<lambda>i. i \<noteq> l) [0..<n]) = n - 1"
proof -
  assume "l < n"
  have "length (filter (\<lambda>i. i \<noteq> l) [0..<n]) = card ({0..<n} - {l})"
    by (subst distinct_card [symmetric]) (auto intro: arg_cong [where f = card])
  then show ?thesis using \<open>l < n\<close> by simp
qed

text \<open>
  For an odd number of servers \<open>MakePartition\<close> splits them into a majority and a minority
  that contains the given leader, every server on exactly one side. For an even number it does not:
  with four servers and leader 1, server 0 is on both sides.\<close>

theorem make_partition_splits:
  assumes "odd n" and "3 \<le> n" and "l < n"
  shows "\<exists>p1 p2. MakePartition n l = Inr (p1, p2) \<and> set p1 \<union> set p2 = {..<n} \<and> set p1 \<inter> set p2 = {} \<and>
    l \<in> set p2 \<and> length p1 = n div 2 + 1 \<and> length p2 = n div 2 \<and>
    MakePartition 4 1 = Inr ([0, 2, 3], [0, 1])"
proof -
  let ?ys = "filter (\<lambda>i. i \<noteq> l) [0..<n]" and ?k = "n div 2 + 1"
  obtain m where m: "n = 2 * m + 1" "1 \<le> m" using assms(1,2) by (elim oddE) auto
  have len: "length ?ys = n - 1" by (rule length_filter_neq [OF assms(3)])
  have "partition_loop [0..<n] l 0 (replicate ?k 0) (replicate (n div 2) 0) =
      Inr (take ?k ?ys @ drop (length (take ?k ?ys)) (replicate ?k 0),
           drop ?k ?ys @ drop (length (drop ?k ?ys)) (replicate (n div 2) 0))"
    using partition_loop_eq [of l "[0..<n]" 0 "replicate ?k 0" "replicate (n div 2) 0"] len assms(1,2) by (simp add: Let_def)
  moreover have dv: "n div 2 = m" "length (take ?k ?ys) = ?k" "length (drop ?k ?ys) = m - 1" using len m by simp_all
  have "drop (length (take ?k ?ys)) (replicate ?k 0) = ([] :: nat list)" unfolding dv(2) by simp
  moreover have "drop (length (drop ?k ?ys)) (replicate (n div 2) 0) = [0 :: nat]"
    unfolding dv(1) dv(3) [unfolded dv(1)] using m(2) by (cases m) (simp_all only: drop_replicate, simp_all)
  ultimately have pl: "partition_loop [0..<n] l 0 (replicate ?k 0) (replicate (n div 2) 0) = Inr (take ?k ?ys, drop ?k ?ys @ [0])"
    by (simp only: append_Nil2)
  have "(drop ?k ?ys @ [0])[length (drop ?k ?ys @ [0]) - 1 := l] = drop ?k ?ys @ [l]" by (simp add: list_update_append)
  then have mp: "MakePartition n l = Inr (take ?k ?ys, drop ?k ?ys @ [l])"
    using pl by (simp add: MakePartition_def Let_def)
  have "set (take ?k ?ys) \<union> set (drop ?k ?ys) = set ?ys" by (metis append_take_drop_id set_append)
  then have un: "set (take ?k ?ys) \<union> set (drop ?k ?ys @ [l]) = {..<n}" using assms(3) by auto
  have "distinct ?ys" by simp
  then have "set (take ?k ?ys) \<inter> set (drop ?k ?ys) = {}" by (rule set_take_disj_set_drop_if_distinct) simp
  moreover have "l \<notin> set (take ?k ?ys)" using set_take_subset [of ?k ?ys] by auto
  ultimately have dj: "set (take ?k ?ys) \<inter> set (drop ?k ?ys @ [l]) = {}" by auto
  have "MakePartition 4 1 = Inr ([0, 2, 3], [0, 1])" by code_simp
  moreover have "length (take ?k ?ys) = n div 2 + 1" "length (drop ?k ?ys @ [l]) = n div 2" using dv m(2) by simp_all
  moreover have "l \<in> set (drop ?k ?ys @ [l])" by simp
  ultimately show ?thesis using mp un dj by blast
qed

theorem make_partition_splits_witness:
  "\<exists>p1 p2. MakePartition 5 2 = Inr (p1, p2) \<and> set p1 \<union> set p2 = {..<5} \<and> set p1 \<inter> set p2 = {} \<and> 2 \<in> set p2"
  using make_partition_splits [of 5 2] by force

subsection \<open>Restarts\<close>

lemma make_ends_ok:
  "distinct names \<Longrightarrow> set names \<inter> ends net = {} \<Longrightarrow> \<exists>net'. make_ends net gid j names = Inr net' \<and>
    ends net' = ends net \<union> set names \<and> servers net' = servers net \<and> heap net' = heap net"
proof (induction names arbitrary: net j)
  case (Cons x names)
  let ?net = "Connect (net\<lparr>ends := insert x (ends net), enabled := (enabled net)(x \<mapsto> False),
      connections := (connections net)(x := None)\<rparr>) x (ServerName gid j)"
  have "set names \<inter> ends ?net = {}" using Cons.prems by (auto simp: Connect_def)
  from Cons.IH [OF _ this, of "j + 1"] Cons.prems show ?case by (auto simp: MakeEnd_def Connect_def)
qed simp

text \<open>
  Property C25. A server that is shut down and started again gets the state it had persisted: the new
  server object is registered under the same name at the new address with the services made from a
  persister that holds the old contents, the services of the old instance were told to stop, and no old call can be answered by
  the new instance, because between the two steps the name has no server and all its ends are disabled.\<close>

theorem restart_keeps_state:
  assumes "wf_group sg" and "i < N sg" and "saved (srvs sg ! i) = Some ps"
    and "distinct names" and "set names \<inter> ends net = {}"
  shows "\<exists>net1 sg1 net2 sg2 ps'. ShutdownServer i (net, sg) = Inr (net1, sg1) \<and>
    StartServer mks rt i names addr (net1, sg1) = Inr (net2, sg2) \<and>
    servers net1 (ServerName (sg_gid sg) i) = None \<and> (\<forall>b<N sg. link (net1, sg) i b = Some False \<and> link (net1, sg) b i = Some False) \<and>
    set (svcs (srvs sg ! i)) \<subseteq> set (stopped sg1) \<and>
    servers net2 (ServerName (sg_gid sg) i) = Some addr \<and> saved (srvs sg2 ! i) = Some ps' \<and>
    heap net2 addr = Some (lab_server rt (mks names (sg_gid sg) i ps')) \<and>
    ReadRaftState ps' = ReadRaftState ps \<and> ReadSnapshot ps' = ReadSnapshot ps"
proof -
  let ?s = "srvs sg ! i" and ?name = "ServerName (sg_gid sg) i"
  let ?E = "links sg i {..<N sg}"
  have al: "set (all sg) = {..<N sg}" "\<forall>t\<in>set (all sg). t < N sg" by (auto simp: all_def N_def)
  let ?sg = "sg\<lparr>connected := (connected sg)[i := False]\<rparr>"
  have d: "disconnect i (all sg) (net, sg) = Inr (enable_all ?E False net, ?sg)"
    using disconnect_eq [OF assms(1,2) al(2), of net] al(1) by simp
  let ?net1 = "DeleteServer (enable_all ?E False net) ?name"
  let ?sg1 = "?sg\<lparr>srvs := (srvs sg)[i := ?s\<lparr>saved := Some (Persister_Copy ps), svcs := []\<rparr>], stopped := stopped sg @ svcs ?s\<rparr>"
  have sh: "ShutdownServer i (net, sg) = Inr (?net1, ?sg1)"
    using d assms(2,3) by (simp add: ShutdownServer_def shutdown_server_def nth_go_def N_def Let_def)
  have "ends ?net1 = ends net" by (simp add: DeleteServer_def enable_all_def)
  then obtain net2 where n2: "make_ends ?net1 (sg_gid sg) 0 names = Inr net2"
    using make_ends_ok [OF assms(4), of ?net1 "sg_gid sg" 0] assms(5) by auto
  let ?ps = "Persister_Copy (Persister_Copy ps)"
  let ?srv = "\<lparr>saved = Some ?ps, svcs = fst (mks names (sg_gid sg) i ?ps), endNames = names\<rparr>"
  let ?net2 = "net2\<lparr>heap := (heap net2)(addr \<mapsto> lab_server rt (mks names (sg_gid sg) i ?ps))\<rparr>"
  have st: "StartServer mks rt i names addr (?net1, ?sg1) = Inr (AddServer ?net2 ?name addr, ?sg1\<lparr>srvs := (srvs sg)[i := ?srv]\<rparr>)"
    using assms(2) n2 by (simp add: StartServer_def startServer_def makeServer_def nth_go_def N_def Let_def)
  have lk: "\<forall>b<N sg. link (?net1, sg) i b = Some False \<and> link (?net1, sg) b i = Some False"
    using in_links [OF assms(1,2) _ assms(2), of _ "{..<N sg}"] in_links [OF assms(1) _ assms(2) assms(2), of _ "{..<N sg}"]
    by (simp add: link_def DeleteServer_def enable_all_def)
  show ?thesis
    by (intro exI [of _ ?net1] exI [of _ ?sg1] exI [of _ "AddServer ?net2 ?name addr"]
        exI [of _ "?sg1\<lparr>srvs := (srvs sg)[i := ?srv]\<rparr>"] exI [of _ ?ps])
      (use sh st lk assms(2) in \<open>simp add: DeleteServer_def AddServer_def N_def ReadRaftState_def ReadSnapshot_def
        Persister_Copy_def MakePersister_def\<close>)
qed

text \<open>A group of three servers whose ends are named by pairs of digits.\<close>

definition demo_group :: ServerGrp where
  "demo_group = \<lparr>srvs = map (\<lambda>e. \<lparr>saved = Some MakePersister, svcs = [1], endNames = e\<rparr>)
       [[''00'', ''01'', ''02''], [''10'', ''11'', ''12''], [''20'', ''21'', ''22'']],
     servernames = map (ServerName 0) [0..<3], sg_gid = 0, connected = [True, True, True], stopped = []\<rparr>"

lemma demo_group_facts:
  "wf_group demo_group" "N demo_group = 3" "saved (srvs demo_group ! 0) = Some MakePersister"
  by (simp_all add: wf_group_def N_def demo_group_def)

theorem partition_separates_witness:
  "\<exists>net' c'. Partition [0, 1] [2] (MakeNetwork, demo_group) = Inr (net', demo_group\<lparr>connected := c'\<rparr>) \<and>
    link (net', demo_group) 0 1 = Some True \<and> link (net', demo_group) 0 2 = Some False \<and> link (net', demo_group) 2 0 = Some False"
  using partition_separates [of demo_group "[0, 1]" "[2]" MakeNetwork] demo_group_facts by force

theorem restart_keeps_state_witness:
  "\<exists>net1 sg1 net2 sg2. ShutdownServer 0 (MakeNetwork, demo_group) = Inr (net1, sg1) \<and>
    StartServer (\<lambda>_ _ _ _. ([2], ())) (\<lambda>_. ([], [])) 0 [''a'', ''b'', ''c''] 7 (net1, sg1) = Inr (net2, sg2) \<and>
    servers net1 (ServerName 0 0) = None \<and> servers net2 (ServerName 0 0) = Some 7"
proof -
  have "distinct [''a'', ''b'', ''c'']" "set [''a'', ''b'', ''c''] \<inter> ends MakeNetwork = {}" by (simp_all add: MakeNetwork_def)
  moreover have "sg_gid demo_group = 0" by (simp add: demo_group_def)
  ultimately show ?thesis
    using restart_keeps_state [of demo_group 0 MakePersister "[''a'', ''b'', ''c'']" MakeNetwork "\<lambda>_ _ _ _. ([2], ())" "\<lambda>_. ([], [])" 7] demo_group_facts
    by (metis zero_less_numeral)
qed

subsection \<open>Connecting a whole group\<close>

lemma connect_each_mesh:
  "\<lbrakk>wf_group sg; k \<le> N sg; \<forall>t<k. connected sg ! t; \<forall>a<k. \<forall>b<k. link (net, sg) a b = Some True\<rbrakk> \<Longrightarrow>
    \<exists>net'. connect_each [k..<N sg] (net, sg) = Inr (net', sg\<lparr>connected := replicate (N sg) True\<rparr>) \<and>
      (\<forall>a<N sg. \<forall>b<N sg. link (net', sg) a b = Some True)"
proof (induction "N sg - k" arbitrary: k net sg)
  case 0
  have "k = N sg" using 0 by simp
  moreover from this have "connected sg = replicate (N sg) True"
    using 0 wf_lengths(2) [OF 0(2)] by (intro nth_equalityI) simp_all
  ultimately show ?case using 0 by (intro exI [of _ net]) simp
next
  case (Suc d)
  have k: "k < N sg" using Suc.hyps(2) by simp
  let ?sg = "sg\<lparr>connected := (connected sg)[k := True]\<rparr>"
  let ?E = "links sg k {t \<in> {..<N sg}. (connected sg)[k := True] ! t}"
  let ?net = "enable_all ?E True net"
  have al: "set (all sg) = {..<N sg}" by (auto simp: all_def N_def)
  have c: "ConnectOne k (net, sg) = Inr (?net, ?sg)"
    using connect_eq [OF Suc.prems(1) k, of "all sg" net] al by (simp add: ConnectOne_def)
  have n: "N ?sg = N sg" by (simp add: N_def)
  have flags: "\<forall>t<Suc k. connected ?sg ! t"
    using Suc.prems(3) k wf_lengths(2) [OF Suc.prems(1)] by (simp add: less_Suc_eq nth_list_update)
  have "end_name sg a b \<in> ?E" if "a = k \<or> b = k" "a < Suc k" "b < Suc k" for a b
    using that flags k by (auto simp: links_def)
  then have "\<forall>a<Suc k. \<forall>b<Suc k. link (?net, ?sg) a b = Some True"
    using Suc.prems(4) by (auto simp: link_def enable_all_def less_Suc_eq)
  moreover have "d = N ?sg - Suc k" "Suc k \<le> N ?sg" "wf_group ?sg" using Suc.hyps(2) k n Suc.prems(1) by simp_all
  ultimately obtain net' where "connect_each [Suc k..<N ?sg] (?net, ?sg) = Inr (net', ?sg\<lparr>connected := replicate (N ?sg) True\<rparr>)"
      "\<forall>a<N ?sg. \<forall>b<N ?sg. link (net', ?sg) a b = Some True"
    using Suc.hyps(1) [of ?sg "Suc k" ?net] flags by blast
  then show ?case using c k n by (intro exI [of _ net']) (simp add: upt_conv_Cons link_def)
qed

text \<open>
  \<open>ConnectAll\<close> connects a group completely: whatever was connected before and in spite of
  the check that skips servers that are not connected yet, afterwards every end between any two
  servers is enabled and every server is marked connected.\<close>

theorem connect_all_mesh:
  assumes "wf_group sg"
  shows "\<exists>net'. ConnectAll (net, sg) = Inr (net', sg\<lparr>connected := replicate (N sg) True\<rparr>) \<and>
    (\<forall>a<N sg. \<forall>b<N sg. link (net', sg) a b = Some True)"
  using connect_each_mesh [OF assms, of 0 net] by (simp add: ConnectAll_def all_def N_def)

theorem connect_all_mesh_witness:
  "\<exists>net'. ConnectAll (MakeNetwork, demo_group) = Inr (net', demo_group\<lparr>connected := replicate 3 True\<rparr>) \<and>
    link (net', demo_group) 2 0 = Some True"
  using connect_all_mesh [OF demo_group_facts(1), of MakeNetwork] demo_group_facts(2) by auto

lemma connect_out_servers: "connect_out net sg names to = Inr net' \<Longrightarrow> servers net' = servers net"
  by (induction to arbitrary: net) (auto simp: bind_go_def Enable_def split: sum.splits if_splits)

lemma connect_in_servers: "connect_in net sg i to = Inr net' \<Longrightarrow> servers net' = servers net"
  by (induction to arbitrary: net) (auto simp: bind_go_def Enable_def split: sum.splits if_splits)

lemma connect_each_servers: "connect_each is st = Inr st' \<Longrightarrow> servers (fst st') = servers (fst st)"
proof (induction "is" arbitrary: st)
  case (Cons i ks)
  obtain st1 where c: "ConnectOne i st = Inr st1" "connect_each ks st1 = Inr st'"
    using Cons.prems by (auto simp: bind_go_def split: sum.splits)
  have "servers (fst st1) = servers (fst st)"
    using c(1) by (auto simp: ConnectOne_def connect_def bind_go_def Let_def dest!: connect_out_servers connect_in_servers
        split: sum.splits prod.splits)
  then show ?case using Cons.IH [OF c(2)] by simp
qed simp

end
