(* ===== verification/Tester_Clnts.thy ===== *)
theory Tester_Clnts
  imports Tester_Group "HOL-Library.Multiset"
begin

text \<open>
  The clerks of the test framework and its configuration: \<open>tester1/clnts.go\<close>, the table of groups of
  \<open>tester1/group.go\<close> and \<open>tester1/config.go\<close>, over the network of \<open>Labrpc\<close> and the groups of
  \<open>Tester_Group\<close>. The map \<open>ends\<close> of a clerk, the set of clerks and the table of groups are association
  lists, listed in the order in which the loops of the code visit them; pointers to clerks are numbers.
  Test output, the two-minute limit and stack traces are not modelled.
\<close>

subsection \<open>Clerks\<close>

record Clnt =
  clnt_ends :: "(string \<times> string) list"
  clnt_srvs :: "string list option"

definition makeClntTo :: "string list option \<Rightarrow> Clnt" where
  "makeClntTo to = \<lparr>clnt_ends = [], clnt_srvs = to\<rparr>"

definition allowedL :: "Clnt \<Rightarrow> string \<Rightarrow> bool" where
  "allowedL c server = (case clnt_srvs c of None \<Rightarrow> True | Some ns \<Rightarrow> server \<in> set ns)"

definition clnt_makeEnd :: "('s, 'b) Network \<Rightarrow> Clnt \<Rightarrow> string \<Rightarrow> string \<Rightarrow> (('s, 'b) Network \<times> Clnt \<times> string) go" where
  "clnt_makeEnd net c fresh server =
     (case map_of (clnt_ends c) server of
        Some e \<Rightarrow> Inr (net, c, e)
      | None \<Rightarrow>
          bind_go (MakeEnd net fresh) (\<lambda>net.
            let net = Connect net fresh server;
                net = (if allowedL c server then Enable net fresh True else Enable net fresh False) in
            Inr (net, c\<lparr>clnt_ends := clnt_ends c @ [(server, fresh)]\<rparr>, fresh)))"

definition clnt_Call :: "('b \<Rightarrow> nat) \<Rightarrow> rands \<Rightarrow> (('s, 'b) Network \<Rightarrow> ('s, 'b) Network) \<Rightarrow> (('s, 'b) Network \<Rightarrow> ('s, 'b) Network) \<Rightarrow>
    ('s, 'b) Network \<Rightarrow> Clnt \<Rightarrow> string \<Rightarrow> string \<Rightarrow> string \<Rightarrow> 'b \<Rightarrow> (('s, 'b) Network \<times> Clnt \<times> bool \<times> 'b option) go" where
  "clnt_Call size_of ch before after net c fresh server meth a =
     bind_go (clnt_makeEnd net c fresh server) (\<lambda>(net, c, e).
       bind_go (Labrpc.Call size_of ch before after net e meth a) (\<lambda>(net, ok, rep). Inr (net, c, ok, rep)))"

fun enable_ends :: "(string \<Rightarrow> bool) \<Rightarrow> bool \<Rightarrow> (string \<times> string) list \<Rightarrow> ('s, 'b) Network \<Rightarrow> ('s, 'b) Network" where
  "enable_ends P on [] net = net"
| "enable_ends P on ((srv, e) # es) net = enable_ends P on es (if P srv then Enable net e on else net)"

definition clnt_ConnectAll :: "('s, 'b) Network \<Rightarrow> Clnt \<Rightarrow> ('s, 'b) Network \<times> Clnt" where
  "clnt_ConnectAll net c = (enable_ends (\<lambda>_. True) True (clnt_ends c) net, c\<lparr>clnt_srvs := None\<rparr>)"

definition ConnectTo :: "('s, 'b) Network \<Rightarrow> Clnt \<Rightarrow> string list option \<Rightarrow> ('s, 'b) Network \<times> Clnt" where
  "ConnectTo net c to = (let c = c\<lparr>clnt_srvs := to\<rparr> in (enable_ends (allowedL c) True (clnt_ends c) net, c))"

definition clnt_Disconnect :: "('s, 'b) Network \<Rightarrow> Clnt \<Rightarrow> string \<Rightarrow> ('s, 'b) Network \<times> Clnt" where
  "clnt_Disconnect net c srv = (enable_ends (\<lambda>s. s = srv) False (clnt_ends c) net, c)"

definition clnt_DisconnectAll :: "('s, 'b) Network \<Rightarrow> Clnt \<Rightarrow> ('s, 'b) Network \<times> Clnt" where
  "clnt_DisconnectAll net c = (enable_ends (\<lambda>_. True) False (clnt_ends c) net, c\<lparr>clnt_srvs := Some []\<rparr>)"

fun delete_ends :: "(string \<times> string) list \<Rightarrow> ('s, 'b) Network \<Rightarrow> ('s, 'b) Network go" where
  "delete_ends [] net = Inr net"
| "delete_ends ((srv, e) # es) net = bind_go (DeleteEnd net e) (delete_ends es)"

definition clnt_remove :: "('s, 'b) Network \<Rightarrow> Clnt \<Rightarrow> ('s, 'b) Network go" where
  "clnt_remove net c = delete_ends (clnt_ends c) net"

subsection \<open>The set of clerks\<close>

type_synonym Clnts = "(nat \<times> Clnt) list"

definition clnts_makeEnd :: "('s, 'b) Network \<Rightarrow> string \<Rightarrow> string \<Rightarrow> ('s, 'b) Network go" where
  "clnts_makeEnd net fresh servername =
     bind_go (MakeEnd net fresh) (\<lambda>net. Inr (Enable (Connect net fresh servername) fresh True))"

definition MakeClientTo :: "Clnts \<Rightarrow> nat \<Rightarrow> string list option \<Rightarrow> Clnts" where
  "MakeClientTo cs p to = cs @ [(p, makeClntTo to)]"

definition MakeClient :: "Clnts \<Rightarrow> nat \<Rightarrow> Clnts" where
  "MakeClient cs p = MakeClientTo cs p None"

fun remove_all :: "Clnts \<Rightarrow> ('s, 'b) Network \<Rightarrow> ('s, 'b) Network go" where
  "remove_all [] net = Inr net"
| "remove_all ((p, c) # cs) net = bind_go (clnt_remove net c) (remove_all cs)"

definition clnts_cleanup :: "('s, 'b) Network \<Rightarrow> Clnts \<Rightarrow> (('s, 'b) Network \<times> Clnts) go" where
  "clnts_cleanup net cs = bind_go (remove_all cs net) (\<lambda>net. Inr (net, []))"

definition DeleteClient :: "('s, 'b) Network \<Rightarrow> Clnts \<Rightarrow> nat \<Rightarrow> (('s, 'b) Network \<times> Clnts) go" where
  "DeleteClient net cs p =
     (case map_of cs p of
        None \<Rightarrow> Inr (net, cs)
      | Some c \<Rightarrow> bind_go (clnt_remove net c) (\<lambda>net. Inr (net, filter (\<lambda>(q, _). q \<noteq> p) cs)))"

subsection \<open>What a clerk can reach\<close>

text \<open>The ends of a clerk exist, are connected to their servers and are its own.\<close>

definition wf_clnt :: "('s, 'b) Network \<Rightarrow> Clnt \<Rightarrow> bool" where
  "wf_clnt net c \<longleftrightarrow> distinct (map fst (clnt_ends c)) \<and> distinct (map snd (clnt_ends c)) \<and>
     (\<forall>(s, e)\<in>set (clnt_ends c). e \<in> ends net \<and> connections net e = Some s)"

definition reaches :: "('s, 'b) Network \<Rightarrow> Clnt \<Rightarrow> string \<Rightarrow> bool" where
  "reaches net c s \<longleftrightarrow> (case map_of (clnt_ends c) s of Some e \<Rightarrow> is_enabled net e | None \<Rightarrow> allowedL c s)"

lemma enable_ends_eq:
  "enable_ends P on es net = enable_all {e. \<exists>s. (s, e) \<in> set es \<and> P s} on net"
proof (induction es arbitrary: net)
  case (Cons a es)
  obtain s e where a: "a = (s, e)" by (cases a)
  have "{f. \<exists>t. (t, f) \<in> set (a # es) \<and> P t} = (if P s then insert e else id) {f. \<exists>t. (t, f) \<in> set es \<and> P t}"
    by (auto simp: a)
  then show ?case using Cons by (simp add: a)
qed simp

lemma enable_all_wf [simp]: "wf_clnt (enable_all E on net) c = wf_clnt net c"
  by (simp add: wf_clnt_def enable_all_def)

lemma wf_clnt_srvs [simp]: "wf_clnt net (c\<lparr>clnt_srvs := to\<rparr>) = wf_clnt net c"
  by (simp add: wf_clnt_def)

lemma clnt_end_unique:
  assumes "wf_clnt net c" and "(s, e) \<in> set (clnt_ends c)" and "(t, e) \<in> set (clnt_ends c)"
  shows "s = t"
proof -
  have "connections net e = Some s" "connections net e = Some t" using assms by (auto simp: wf_clnt_def)
  then show ?thesis by simp
qed

lemma enable_ends_reach:
  assumes "wf_clnt net c" and "map_of (clnt_ends c) s = Some e"
  shows "is_enabled (enable_ends P on (clnt_ends c) net) e = (if P s then on else is_enabled net e)"
proof -
  have "(\<exists>t. (t, e) \<in> set (clnt_ends c) \<and> P t) \<longleftrightarrow> P s"
    using clnt_end_unique [OF assms(1) map_of_SomeD [OF assms(2)]] map_of_SomeD [OF assms(2)] by blast
  then show ?thesis by (simp add: enable_ends_eq enable_all_def is_enabled_def)
qed

lemma enable_ends_wf [simp]: "wf_clnt (enable_ends P on es net) c = wf_clnt net c"
  by (simp add: enable_ends_eq)

text \<open>What the connection operations do to the servers a clerk reaches.\<close>

lemma reaches_after:
  assumes "wf_clnt net c"
  shows "clnt_ConnectAll net c = (net', c') \<Longrightarrow> wf_clnt net' c' \<and> reaches net' c' s"
    and "clnt_DisconnectAll net c = (net', c') \<Longrightarrow> wf_clnt net' c' \<and> \<not> reaches net' c' s"
    and "ConnectTo net c to = (net', c') \<Longrightarrow> wf_clnt net' c' \<and>
      (reaches net' c' s \<longleftrightarrow> allowedL c' s \<or> (\<exists>e. map_of (clnt_ends c) s = Some e \<and> is_enabled net e))"
    and "clnt_Disconnect net c srv = (net', c') \<Longrightarrow> wf_clnt net' c' \<and>
      (reaches net' c' s \<longleftrightarrow> reaches net c s \<and> \<not> (s = srv \<and> map_of (clnt_ends c) s \<noteq> None))"
  using assms enable_ends_reach [OF assms, of s]
  by (auto simp: clnt_ConnectAll_def clnt_DisconnectAll_def ConnectTo_def clnt_Disconnect_def reaches_def allowedL_def
      Let_def split: option.splits if_splits)

text \<open>\<open>clnt_makeEnd\<close> with a fresh name: the clerk gets an end that is enabled exactly when it reaches the server.\<close>

lemma clnt_makeEnd_spec:
  assumes "wf_clnt net c" and "fresh \<notin> ends net"
  shows "\<exists>net' c' e. clnt_makeEnd net c fresh s = Inr (net', c', e) \<and> wf_clnt net' c' \<and>
    map_of (clnt_ends c') s = Some e \<and> connections net' e = Some s \<and>
    is_enabled net' e = reaches net c s \<and> servers net' = servers net \<and> heap net' = heap net \<and> cleaned net' = cleaned net"
proof (cases "map_of (clnt_ends c) s")
  case None
  have "e \<noteq> fresh" if "(t, e) \<in> set (clnt_ends c)" for t e using assms that by (auto simp: wf_clnt_def)
  moreover have "s \<notin> fst ` set (clnt_ends c)" using None by (simp add: map_of_eq_None_iff)
  ultimately show ?thesis using None assms
    by (auto simp: clnt_makeEnd_def MakeEnd_def Let_def Connect_def Enable_def wf_clnt_def reaches_def is_enabled_def map_add_def)
next
  case (Some e)
  then show ?thesis using assms map_of_SomeD [OF Some] by (auto simp: clnt_makeEnd_def wf_clnt_def reaches_def)
qed

lemma clnt_Call_unreached:
  assumes "wf_clnt net c" and "fresh \<notin> ends net" and "\<not> reaches net c s"
  shows "\<exists>net' c'. clnt_Call size_of ch before after net c fresh s meth a = Inr (net', c', False, None) \<and>
    heap net' = heap net \<and> servers net' = servers net"
proof -
  obtain net1 c1 e where k: "clnt_makeEnd net c fresh s = Inr (net1, c1, e)" "\<not> is_enabled net1 e"
      "servers net1 = servers net" "heap net1 = heap net"
    using clnt_makeEnd_spec [OF assms(1,2), of s] assms(3) by auto
  let ?req = "\<lparr>endname = e, svcMeth = meth, args = a\<rparr>"
  have "\<nexists>name b. path (counted size_of a net1) (endname ?req) name b" using k(2) by (simp add: path_def)
  note np = processReq_no_path [OF this, of size_of ch before after]
  have "\<exists>net'. Labrpc.Call size_of ch before after net1 e meth a = Inr (net', False, None) \<and> heap net' = heap net1 \<and> servers net' = servers net1"
    using np by (simp add: Labrpc.Call_def Let_def counted_def no_reply_def)
  then show ?thesis using k by (auto simp: clnt_Call_def)
qed


definition demo_clerk :: "(nat, nat) Network \<times> Clnt" where
  "demo_clerk = (Enable (Connect (MakeNetwork\<lparr>ends := {''e''}\<rparr>) ''e'' ''s'') ''e'' True, \<lparr>clnt_ends = [(''s'', ''e'')], clnt_srvs = None\<rparr>)"

lemma demo_clerk_wf: "wf_clnt (fst demo_clerk) (snd demo_clerk)" "ends (fst demo_clerk) = {''e''}"
  by (simp_all add: demo_clerk_def wf_clnt_def Enable_def Connect_def MakeNetwork_def)


text \<open>
  \<open>ConnectTo\<close> does not confine a clerk to the servers it lists: the clerk reaches exactly the
  servers in the list and those it had an enabled end for before, listed or not.\<close>

theorem connect_to_keeps_old_ends:
  assumes "wf_clnt net c" and "ConnectTo net c (Some to) = (net', c')"
  shows "reaches net' c' s \<longleftrightarrow> s \<in> set to \<or> (\<exists>e. map_of (clnt_ends c) s = Some e \<and> is_enabled net e)"
proof -
  have "clnt_srvs c' = Some to" using assms(2) by (auto simp: ConnectTo_def Let_def)
  then show ?thesis using reaches_after(3) [OF assms] by (simp add: allowedL_def)
qed

theorem connect_to_keeps_old_ends_witness:
  "\<exists>(net' :: (nat, nat) Network) c'. ConnectTo (fst demo_clerk) (snd demo_clerk) (Some []) = (net', c') \<and> reaches net' c' ''s''"
proof -
  obtain net' :: "(nat, nat) Network" and c' where d: "ConnectTo (fst demo_clerk) (snd demo_clerk) (Some []) = (net', c')" by force
  then have "reaches net' c' ''s''" using connect_to_keeps_old_ends [OF demo_clerk_wf(1) d, of "''s''"]
    by (simp add: demo_clerk_def is_enabled_def Enable_def)
  then show ?thesis using d by blast
qed

subsection \<open>The table of groups and the configuration of a test\<close>

type_synonym Groups = "(int \<times> ServerGrp) list"

definition put_group :: "Groups \<Rightarrow> int \<Rightarrow> ServerGrp \<Rightarrow> Groups" where
  "put_group gs gid sg = filter (\<lambda>(g, _). g \<noteq> gid) gs @ [(gid, sg)]"

definition newGroups :: Groups where
  "newGroups = []"

definition MakeGroup :: "('s, 'b) Network \<Rightarrow> Groups \<Rightarrow> int \<Rightarrow> nat \<Rightarrow> string list list \<Rightarrow> (('s, 'b) Network \<times> Groups) go" where
  "MakeGroup net gs gid nsrv names = bind_go (makeSrvGrp net gid nsrv names) (\<lambda>(net, sg). Inr (net, put_group gs gid sg))"

definition lookupGroup :: "Groups \<Rightarrow> int \<Rightarrow> ServerGrp option" where
  "lookupGroup gs gid = map_of gs gid"

definition groups_delete :: "Groups \<Rightarrow> int \<Rightarrow> Groups" where
  "groups_delete gs gid = filter (\<lambda>(g, _). g \<noteq> gid) gs"

definition groups_cleanup :: "Groups \<Rightarrow> Groups" where
  "groups_cleanup gs = map (\<lambda>(g, sg). (g, cleanup_group sg)) gs"

definition GRP0 :: int where
  "GRP0 = 0"

record ('s, 'b) Config =
  cfg_clnts :: Clnts
  cfg_groups :: Groups
  cfg_net :: "('s, 'b) Network"
  rpcs0 :: int
  ops :: "32 word"

definition Group :: "('s, 'b) Config \<Rightarrow> int \<Rightarrow> ServerGrp option" where
  "Group cfg gid = lookupGroup (cfg_groups cfg) gid"

text \<open>A method called on the group with a number, which must be in the table.\<close>

definition on_group :: "('s, 'b) Config \<Rightarrow> int \<Rightarrow> (('s, 'b) state \<Rightarrow> ('s, 'b) state go) \<Rightarrow> ('s, 'b) Config go" where
  "on_group cfg gid f =
     (case Group cfg gid of
        None \<Rightarrow> Inl NilDeref
      | Some sg \<Rightarrow> bind_go (f (cfg_net cfg, sg)) (\<lambda>(net, sg).
          Inr (cfg\<lparr>cfg_net := net, cfg_groups := put_group (cfg_groups cfg) gid sg\<rparr>)))"

definition MakeGroupStart :: "'s mks \<Rightarrow> ('s, 'b) reflected \<Rightarrow> ('s, 'b) Config \<Rightarrow> int \<Rightarrow> nat \<Rightarrow> string list list \<Rightarrow>
    (string list \<times> nat) list \<Rightarrow> ('s, 'b) Config go" where
  "MakeGroupStart mks rt cfg gid nsrv names fresh =
     bind_go (MakeGroup (cfg_net cfg) (cfg_groups cfg) gid nsrv names) (\<lambda>(net, gs).
       on_group (cfg\<lparr>cfg_net := net, cfg_groups := gs\<rparr>) gid (StartServers mks rt fresh))"

definition SetReliable :: "('s, 'b) Config \<Rightarrow> bool \<Rightarrow> ('s, 'b) Config" where
  "SetReliable cfg r = cfg\<lparr>cfg_net := Reliable (cfg_net cfg) r\<rparr>"

definition MakeConfig :: "'s mks \<Rightarrow> ('s, 'b) reflected \<Rightarrow> nat \<Rightarrow> bool \<Rightarrow> string list list \<Rightarrow> (string list \<times> nat) list \<Rightarrow> ('s, 'b) Config go" where
  "MakeConfig mks rt n r names fresh =
     bind_go (MakeGroupStart mks rt \<lparr>cfg_clnts = [], cfg_groups = newGroups, cfg_net = MakeNetwork, rpcs0 = 0, ops = 0\<rparr> GRP0 n names fresh)
       (\<lambda>cfg. Inr (cfg\<lparr>cfg_clnts := [], cfg_net := Reliable (cfg_net cfg) r\<rparr>))"

definition cfg_IsReliable :: "('s, 'b) Config \<Rightarrow> bool" where
  "cfg_IsReliable cfg = IsReliable (cfg_net cfg)"

definition SetLongReordering :: "('s, 'b) Config \<Rightarrow> bool \<Rightarrow> ('s, 'b) Config" where
  "SetLongReordering cfg r = cfg\<lparr>cfg_net := LongReordering (cfg_net cfg) r\<rparr>"

definition SetLongDelays :: "('s, 'b) Config \<Rightarrow> bool \<Rightarrow> ('s, 'b) Config" where
  "SetLongDelays cfg r = cfg\<lparr>cfg_net := LongDelays (cfg_net cfg) r\<rparr>"

definition cfg_Cleanup :: "('s, 'b) Config \<Rightarrow> ('s, 'b) Config go" where
  "cfg_Cleanup cfg =
     bind_go (clnts_cleanup (cfg_net cfg) (cfg_clnts cfg)) (\<lambda>(net, cs).
       Inr (cfg\<lparr>cfg_clnts := cs, cfg_groups := groups_cleanup (cfg_groups cfg), cfg_net := Cleanup net\<rparr>))"

definition ExitGroup :: "('s, 'b) Config \<Rightarrow> int \<Rightarrow> ('s, 'b) Config go" where
  "ExitGroup cfg gid =
     bind_go (on_group cfg gid Shutdown) (\<lambda>cfg. Inr (cfg\<lparr>cfg_groups := groups_delete (cfg_groups cfg) gid\<rparr>))"

definition RpcTotal :: "('s, 'b) Config \<Rightarrow> int" where
  "RpcTotal cfg = GetTotalCount (cfg_net cfg)"

definition BytesTotal :: "('s, 'b) Config \<Rightarrow> int" where
  "BytesTotal cfg = GetTotalBytes (cfg_net cfg)"

definition Begin :: "('s, 'b) Config \<Rightarrow> ('s, 'b) Config" where
  "Begin cfg = cfg\<lparr>rpcs0 := RpcTotal cfg, ops := 0\<rparr>"

definition Op :: "('s, 'b) Config \<Rightarrow> ('s, 'b) Config" where
  "Op cfg = cfg\<lparr>ops := ops cfg + 1\<rparr>"

text \<open>\<open>random_handles\<close>, with the values of \<open>rand.Intn(i + 1)\<close> as a list: a shuffle of a copy.\<close>

fun shuffle_from :: "nat \<Rightarrow> nat list \<Rightarrow> 'a list \<Rightarrow> 'a list" where
  "shuffle_from i [] sa = sa"
| "shuffle_from i (r # rs) sa = (let j = r mod (i + 1) in shuffle_from (i + 1) rs (sa[i := sa ! j, j := sa ! i]))"

definition random_handles :: "nat list \<Rightarrow> 'a list \<Rightarrow> 'a list" where
  "random_handles rs kvh = shuffle_from 0 (take (length kvh) rs) kvh"

subsection \<open>A new configuration is ready\<close>

lemma make_servers_ok:
  "distinct (concat nss) \<Longrightarrow> set (concat nss) \<inter> ends net = {} \<Longrightarrow>
    \<exists>net' ss. make_servers net gid nss = Inr (net', ss) \<and> map endNames ss = nss \<and> ends net' = ends net \<union> set (concat nss)"
proof (induction nss arbitrary: net)
  case (Cons ns nss)
  have d: "distinct ns" "set ns \<inter> ends net = {}" "distinct (concat nss)" "set ns \<inter> set (concat nss) = {}"
    using Cons.prems by (auto simp del: set_concat)
  obtain net1 where n1: "make_ends net gid 0 ns = Inr net1" "ends net1 = ends net \<union> set ns"
    using make_ends_ok [OF d(1,2), of gid 0] by auto
  have "set (concat nss) \<inter> ends net1 = {}" using Cons.prems(2) d(4) n1(2) by (auto simp del: set_concat)
  from Cons.IH [OF d(3) this] obtain net2 ss where
    "make_servers net1 gid nss = Inr (net2, ss)" "map endNames ss = nss" "ends net2 = ends net1 \<union> set (concat nss)"
    by blast
  then show ?case using n1 by (auto simp: makeServer_def)
qed simp

lemma start_ok:
  "\<lbrakk>distinct (concat (map fst fresh)); set (concat (map fst fresh)) \<inter> ends net = {}; i + length fresh = N sg\<rbrakk> \<Longrightarrow>
    \<exists>net' ss. start mks rt i fresh (net, sg) = Inr (net', sg\<lparr>srvs := ss\<rparr>) \<and> take i ss = take i (srvs sg) \<and>
      map endNames (drop i ss) = map fst fresh \<and> length ss = N sg \<and>
      (\<forall>k<i. servers net' (ServerName (sg_gid sg) k) = servers net (ServerName (sg_gid sg) k)) \<and>
      (\<forall>k<length fresh. servers net' (ServerName (sg_gid sg) (i + k)) = Some (snd (fresh ! k)))"
proof (induction fresh arbitrary: i net sg)
  case Nil
  then show ?case by (intro exI [of _ net] exI [of _ "srvs sg"]) (simp add: N_def)
next
  case (Cons na fresh)
  obtain ns addr where na: "na = (ns, addr)" by (cases na)
  have i: "i < N sg" using Cons.prems(3) by simp
  have d: "distinct ns" "set ns \<inter> ends net = {}" "distinct (concat (map fst fresh))" "set ns \<inter> set (concat (map fst fresh)) = {}"
    using Cons.prems(1,2) by (auto simp: na simp del: set_concat)
  obtain net1 where n1: "make_ends net (sg_gid sg) 0 ns = Inr net1" "ends net1 = ends net \<union> set ns" "servers net1 = servers net"
    using make_ends_ok [OF d(1,2), of "sg_gid sg" 0] by auto
  obtain net2 srv where s: "StartServer mks rt i ns addr (net, sg) = Inr (net2, sg\<lparr>srvs := (srvs sg)[i := srv]\<rparr>)"
      "endNames srv = ns" "ends net2 = ends net1" "servers net2 = (servers net)(ServerName (sg_gid sg) i \<mapsto> addr)"
    using n1 i by (auto simp: StartServer_def startServer_def makeServer_def nth_go_def N_def Let_def AddServer_def)
  let ?sg = "sg\<lparr>srvs := (srvs sg)[i := srv]\<rparr>"
  have "set (concat (map fst fresh)) \<inter> ends net2 = {}"
    using Cons.prems(2) d(4) n1(2) s(3) by (auto simp: na simp del: set_concat)
  moreover have "(i + 1) + length fresh = N ?sg" using Cons.prems(3) by (simp add: N_def)
  ultimately obtain net' ss where r: "start mks rt (i + 1) fresh (net2, ?sg) = Inr (net', ?sg\<lparr>srvs := ss\<rparr>)"
      "take (i + 1) ss = take (i + 1) (srvs ?sg)" "map endNames (drop (i + 1) ss) = map fst fresh" "length ss = N ?sg"
      "\<forall>k<i + 1. servers net' (ServerName (sg_gid ?sg) k) = servers net2 (ServerName (sg_gid ?sg) k)"
      "\<forall>k<length fresh. servers net' (ServerName (sg_gid ?sg) (i + 1 + k)) = Some (snd (fresh ! k))"
    using Cons.IH [OF d(3), of net2 "i + 1" ?sg] by blast
  have len: "length ss = N sg" using r(4) by (simp add: N_def)
  have nth: "ss ! k = (srvs sg)[i := srv] ! k" if "k < i + 1" for k
    using nth_take [OF that, of ss] nth_take [OF that, of "srvs ?sg"] r(2) by simp
  have "take i ss = take i (srvs sg)" using nth len i by (intro nth_equalityI) (simp_all add: N_def)
  moreover have "drop i ss = ss ! i # drop (i + 1) ss" using Cons_nth_drop_Suc [of i ss] len i by simp
  then have "map endNames (drop i ss) = map fst (na # fresh)" using r(3) nth [of i] s(2) i by (simp add: na N_def)
  moreover have "\<forall>k<i. servers net' (ServerName (sg_gid sg) k) = servers net (ServerName (sg_gid sg) k)"
    using r(5) s(4) by (auto simp: ServerName_inject)
  moreover have "servers net' (ServerName (sg_gid sg) (i + k)) = Some (snd ((na # fresh) ! k))" if "k < length (na # fresh)" for k
    using that r(5,6) s(4) by (cases k) (auto simp: na ServerName_inject)
  ultimately show ?case using r(1) s(1) len by (intro exI [of _ net'] exI [of _ ss]) (simp add: na)
qed

lemma map_of_put_group: "map_of (put_group gs gid sg) gid = Some sg"
proof -
  have "map_of (filter (\<lambda>(g, _). g \<noteq> gid) gs) gid = None" by (auto simp: map_of_eq_None_iff)
  then show ?thesis by (simp add: put_group_def map_add_def)
qed

lemma start_servers_ready:
  assumes "makeSrvGrp net gid n names = Inr (net1, sg1)" and "length names = n" and "length fresh = n"
    and "\<forall>f\<in>set fresh. length (fst f) = n"
    and "distinct (concat (map fst fresh))" and "set (concat (map fst fresh)) \<inter> ends net1 = {}"
  shows "\<exists>net2 sg2. StartServers mks rt fresh (net1, sg1) = Inr (net2, sg2) \<and> N sg2 = n \<and>
    (\<forall>i<n. servers net2 (ServerName gid i) = Some (snd (fresh ! i))) \<and>
    (\<forall>a<n. \<forall>b<n. link (net2, sg2) a b = Some True) \<and> connected sg2 = replicate n True"
proof -
  have sg1: "N sg1 = n" "sg_gid sg1 = gid" "length (connected sg1) = n"
  proof -
    have "length ss = length nss" if "make_servers m gid nss = Inr (m', ss)" for m m' :: "('a, 'b) Network" and nss ss
      using that by (induction nss arbitrary: m ss) (auto simp: bind_go_def split: sum.splits)
    then show "N sg1 = n" "sg_gid sg1 = gid" "length (connected sg1) = n"
      using assms(1,2) by (auto simp: makeSrvGrp_def N_def bind_go_def split: sum.splits)
  qed
  obtain net2 ss where s: "start mks rt 0 fresh (net1, sg1) = Inr (net2, sg1\<lparr>srvs := ss\<rparr>)" "map endNames ss = map fst fresh"
      "length ss = n" "\<forall>k<n. servers net2 (ServerName gid k) = Some (snd (fresh ! k))"
    using start_ok [OF assms(5,6), of 0 sg1 mks rt] assms(3) sg1 by auto
  let ?sg = "sg1\<lparr>srvs := ss\<rparr>"
  have n: "N ?sg = n" using s(3) by (simp add: N_def)
  have "length (endNames x) = n" if "x \<in> set ss" for x
  proof -
    have "endNames x \<in> set (map fst fresh)" using that s(2) by (metis imageI list.set_map)
    then show ?thesis using assms(4) by auto
  qed
  then have wf: "wf_group ?sg" using s(2,3) sg1 assms(5) by (simp add: wf_group_def)
  obtain net3 where c: "ConnectAll (net2, ?sg) = Inr (net3, ?sg\<lparr>connected := replicate n True\<rparr>)"
      "\<forall>a<n. \<forall>b<n. link (net3, ?sg) a b = Some True" "servers net3 = servers net2"
    using connect_each_servers [of "all ?sg" "(net2, ?sg)"] connect_each_mesh [OF wf, of 0 net2] n
    by (auto simp: ConnectAll_def all_def N_def)
  show ?thesis using s c n
    by (intro exI [of _ net3] exI [of _ "?sg\<lparr>connected := replicate n True\<rparr>"])
      (simp add: StartServers_def N_def link_def)
qed

text \<open>
  \<open>MakeConfig\<close> returns a configuration that is ready to use, provided the random names of
  the end points are all different: group 0 has \<open>n\<close> servers, each is registered under its name,
  every end between two of them is enabled, there are no clerks, and the network is as reliable as asked for.\<close>

theorem make_config_ready:
  fixes rt :: "('s, 'b) reflected"
  assumes "length names = n" and "length fresh = n" and "\<forall>f\<in>set fresh. length (fst f) = n"
    and "distinct (concat names @ concat (map fst fresh))"
  shows "\<exists>cfg sg. MakeConfig mks rt n r names fresh = Inr cfg \<and> Group cfg GRP0 = Some sg \<and> N sg = n \<and>
    (\<forall>i<n. servers (cfg_net cfg) (ServerName 0 i) = Some (snd (fresh ! i))) \<and>
    (\<forall>a<n. \<forall>b<n. link (cfg_net cfg, sg) a b = Some True) \<and> cfg_clnts cfg = [] \<and> cfg_IsReliable cfg = r"
proof -
  have d: "distinct (concat names)" "distinct (concat (map fst fresh))" "set (concat names) \<inter> set (concat (map fst fresh)) = {}"
    using assms(4) by (auto simp del: set_concat)
  obtain net1 :: "('s, 'b) Network" and ss where m: "make_servers MakeNetwork 0 names = Inr (net1, ss)" "ends net1 = set (concat names)"
    using make_servers_ok [OF d(1), of MakeNetwork 0] by (auto simp: MakeNetwork_def)
  then obtain sg1 where g: "makeSrvGrp MakeNetwork 0 n names = Inr (net1, sg1)" by (simp add: makeSrvGrp_def)
  have "set (concat (map fst fresh)) \<inter> ends net1 = {}" using d(3) m(2) by blast
  then obtain net2 sg2 where s: "StartServers mks rt fresh (net1, sg1) = Inr (net2, sg2)" "N sg2 = n"
      "\<forall>i<n. servers net2 (ServerName 0 i) = Some (snd (fresh ! i))" "\<forall>a<n. \<forall>b<n. link (net2, sg2) a b = Some True"
    using start_servers_ready [OF g assms(1,2,3) d(2), of mks rt] by blast
  show ?thesis using g s
    by (simp add: MakeConfig_def MakeGroupStart_def MakeGroup_def on_group_def Group_def lookupGroup_def GRP0_def
        map_of_put_group newGroups_def cfg_IsReliable_def IsReliable_def Reliable_def link_def)
qed

theorem make_config_ready_witness:
  "\<exists>(cfg :: (unit, nat) Config) sg. MakeConfig (\<lambda>_ _ _ _. ([], ())) (\<lambda>_. ([], [])) 1 False [[''a'']] [([''b''], 5)] = Inr cfg \<and>
    Group cfg GRP0 = Some sg \<and> servers (cfg_net cfg) (ServerName 0 0) = Some 5"
proof -
  have "length [[''a'']] = 1" "length [([''b''], 5 :: nat)] = 1" "\<forall>f\<in>set [([''b''], 5 :: nat)]. length (fst f) = 1"
    "distinct (concat [[''a'']] @ concat (map fst [([''b''], 5 :: nat)]))" by simp_all
  from make_config_ready [OF this, of "\<lambda>_ _ _ _. ([], ())" "\<lambda>_. ([], [])" False] show ?thesis by fastforce
qed

text \<open>\<open>random_handles\<close> returns the handles it was given, each as often as before, whatever the random numbers are.\<close>

lemma shuffle_from_mset: "i + length rs \<le> length sa \<Longrightarrow> mset (shuffle_from i rs sa) = mset sa"
proof (induction rs arbitrary: i sa)
  case (Cons r rs)
  have "r mod (i + 1) < i + 1" by (rule mod_less_divisor) simp
  also have "i + 1 \<le> length sa" using Cons.prems by simp
  finally have "mset (sa[i := sa ! (r mod (i + 1)), r mod (i + 1) := sa ! i]) = mset sa"
    using Cons.prems by (intro mset_swap) simp_all
  then show ?case using Cons.IH [of "i + 1"] Cons.prems by (simp add: Let_def)
qed simp

lemma random_handles_perm: "mset (random_handles rs kvh) = mset kvh"
  by (simp add: random_handles_def shuffle_from_mset)

end
