(* ===== verification/Tester_Annotation.thy ===== *)
theory Tester_Annotation
  imports Go_Prelude "HOL-Library.AList"
begin

text \<open>
  The annotations of the test framework, \<open>tester1/annotation.go\<close>. The two global variables
  \<open>annotation\<close> and \<open>finfo\<close> are the record \<open>globals\<close>; every operation takes the value that
  \<open>timestamp()\<close> returns as an argument. The map \<open>continuous\<close> is an association list, in the order
  in which \<open>finalize\<close> visits it. Writing the visualization is the list that \<open>cleanup\<close> returns; whether
  the file can be opened and the value of \<open>VIS_ENABLE\<close> are arguments.
\<close>

subsection \<open>Data\<close>

record porcupine_Annotation =
  a_Tag :: string
  a_Start :: int
  a_End :: int
  a_Description :: string
  a_Details :: string
  a_BackgroundColor :: string

record Continuous =
  c_start :: int
  c_desp :: string
  c_details :: string
  c_bgcolor :: string

record Annotation =
  annotations :: "porcupine_Annotation list"
  continuous :: "(string \<times> Continuous) list"
  finalized :: bool

record CheckerBegin =
  cb_ts :: int
  cb_details :: string

record FrameworkInfo =
  nservers :: nat
  fi_connected :: "bool list"
  crashed :: "bool list"
  ckbegin :: CheckerBegin

record globals =
  annotation :: Annotation
  finfo :: "FrameworkInfo option"

definition COLOR_INFO :: string where "COLOR_INFO = ''#FAFAFA''"
definition COLOR_NEUTRAL :: string where "COLOR_NEUTRAL = ''#FFECB3''"
definition COLOR_SUCCESS :: string where "COLOR_SUCCESS = ''#C8E6C9''"
definition COLOR_FAILURE :: string where "COLOR_FAILURE = ''#FFCDD2''"
definition COLOR_FAULT :: string where "COLOR_FAULT = ''#B3E5FC''"
definition COLOR_USER :: string where "COLOR_USER = ''#FFF176''"
definition TAG_CHECKER :: string where "TAG_CHECKER = ''$ Checker''"
definition TAG_PARTITION :: string where "TAG_PARTITION = ''$ Failure''"
definition TAG_INFO :: string where "TAG_INFO = ''$ Test Info''"

text \<open>\<open>fmt.Sprintf("%v", s)\<close> of a slice of integers.\<close>

fun join_space :: "string list \<Rightarrow> string" where
  "join_space [] = []"
| "join_space [x] = x"
| "join_space (x # xs) = x @ '' '' @ join_space xs"

definition fmt_ints :: "nat list \<Rightarrow> string" where
  "fmt_ints xs = ''['' @ join_space (map (\<lambda>i. itoa (int i)) xs) @ '']''"

subsection \<open>The log of annotations\<close>

definition mkAnnotation :: Annotation where
  "mkAnnotation = \<lparr>annotations = [], continuous = [], finalized = False\<rparr>"

definition interval_of :: "string \<Rightarrow> Continuous \<Rightarrow> int \<Rightarrow> porcupine_Annotation" where
  "interval_of tag cont t =
     \<lparr>a_Tag = tag, a_Start = c_start cont, a_End = t, a_Description = c_desp cont, a_Details = c_details cont,
      a_BackgroundColor = c_bgcolor cont\<rparr>"

definition finalize :: "int \<Rightarrow> Annotation \<Rightarrow> Annotation \<times> porcupine_Annotation list" where
  "finalize t an =
     (let x = annotations an @ map (\<lambda>(tag, cont). interval_of tag cont t) (continuous an) in
      (an\<lparr>finalized := True\<rparr>, x))"

definition clear :: "Annotation \<Rightarrow> Annotation" where
  "clear an = an\<lparr>annotations := [], continuous := [], finalized := False\<rparr>"

definition annotatePointColor :: "int \<Rightarrow> string \<Rightarrow> string \<Rightarrow> string \<Rightarrow> string \<Rightarrow> Annotation \<Rightarrow> Annotation" where
  "annotatePointColor t tag desp details bgcolor an =
     (let a = \<lparr>a_Tag = tag, a_Start = t, a_End = 0, a_Description = desp, a_Details = details, a_BackgroundColor = bgcolor\<rparr> in
      an\<lparr>annotations := annotations an @ [a]\<rparr>)"

definition annotateIntervalColor :: "int \<Rightarrow> string \<Rightarrow> int \<Rightarrow> string \<Rightarrow> string \<Rightarrow> string \<Rightarrow> Annotation \<Rightarrow> Annotation" where
  "annotateIntervalColor t tag start desp details bgcolor an =
     (let a = \<lparr>a_Tag = tag, a_Start = start, a_End = t, a_Description = desp, a_Details = details, a_BackgroundColor = bgcolor\<rparr> in
      an\<lparr>annotations := annotations an @ [a]\<rparr>)"

text \<open>\<open>t\<close> is the only clock reading on either branch.\<close>

definition annotateContinuousColor :: "int \<Rightarrow> string \<Rightarrow> string \<Rightarrow> string \<Rightarrow> string \<Rightarrow> Annotation \<Rightarrow> Annotation" where
  "annotateContinuousColor t tag desp details bgcolor an =
     (let new = \<lparr>c_start = t, c_desp = desp, c_details = details, c_bgcolor = bgcolor\<rparr> in
      case map_of (continuous an) tag of
        None \<Rightarrow> an\<lparr>continuous := AList.update tag new (continuous an)\<rparr>
      | Some cont \<Rightarrow>
          an\<lparr>annotations := annotations an @ [interval_of tag cont t],
             continuous := AList.update tag new (continuous an)\<rparr>)"

text \<open>A missing key reads as the zero value; the empty branch of the code does not return.\<close>

definition annotateContinuousEnd :: "int \<Rightarrow> string \<Rightarrow> Annotation \<Rightarrow> Annotation" where
  "annotateContinuousEnd t tag an =
     (let cont = (case map_of (continuous an) tag of
                    None \<Rightarrow> \<lparr>c_start = 0, c_desp = '''', c_details = '''', c_bgcolor = ''''\<rparr>
                  | Some cont \<Rightarrow> cont) in
      an\<lparr>annotations := annotations an @ [interval_of tag cont t],
         continuous := AList.delete tag (continuous an)\<rparr>)"

definition end_annotation :: "int \<Rightarrow> string \<Rightarrow> porcupine_Annotation" where
  "end_annotation t end =
     \<lparr>a_Tag = TAG_INFO, a_Start = t, a_End = 0, a_Description = end, a_Details = end, a_BackgroundColor = COLOR_INFO\<rparr>"

definition annotation_cleanup :: "string \<Rightarrow> bool \<Rightarrow> int \<Rightarrow> bool \<Rightarrow> string \<Rightarrow> Annotation \<Rightarrow> Annotation \<times> porcupine_Annotation list option" where
  "annotation_cleanup vis_enable open_ok t failed end an =
     (if vis_enable = ''never'' \<or> (\<not> failed \<and> vis_enable \<noteq> ''always'') \<or> finalized an then (clear an, None)
      else
        let (an, as) = finalize t an in
        if as = [] then (an, None)
        else if \<not> open_ok then (an, None)
        else (an, Some (as @ [end_annotation t end])))"

subsection \<open>Operations on the global log\<close>

definition on_log :: "(Annotation \<Rightarrow> Annotation) \<Rightarrow> globals \<Rightarrow> globals" where
  "on_log f g = g\<lparr>annotation := f (annotation g)\<rparr>"

definition FinalizeAnnotations :: "int \<Rightarrow> int \<Rightarrow> string \<Rightarrow> globals \<Rightarrow> globals \<times> porcupine_Annotation list" where
  "FinalizeAnnotations t t' end g =
     (let (an, as) = finalize t (annotation g) in (g\<lparr>annotation := an\<rparr>, as @ [end_annotation t' end]))"

definition AnnotatePointColor :: "int \<Rightarrow> string \<Rightarrow> string \<Rightarrow> string \<Rightarrow> string \<Rightarrow> globals \<Rightarrow> globals" where
  "AnnotatePointColor t tag desp details bgcolor = on_log (annotatePointColor t tag desp details bgcolor)"

definition AnnotateIntervalColor :: "int \<Rightarrow> string \<Rightarrow> int \<Rightarrow> string \<Rightarrow> string \<Rightarrow> string \<Rightarrow> globals \<Rightarrow> globals" where
  "AnnotateIntervalColor t tag start desp details bgcolor = on_log (annotateIntervalColor t tag start desp details bgcolor)"

definition AnnotateContinuousColor :: "int \<Rightarrow> string \<Rightarrow> string \<Rightarrow> string \<Rightarrow> string \<Rightarrow> globals \<Rightarrow> globals" where
  "AnnotateContinuousColor t tag desp details bgcolor = on_log (annotateContinuousColor t tag desp details bgcolor)"

definition AnnotateContinuousEnd :: "int \<Rightarrow> string \<Rightarrow> globals \<Rightarrow> globals" where
  "AnnotateContinuousEnd t tag = on_log (annotateContinuousEnd t tag)"

definition Annotate :: "int \<Rightarrow> string \<Rightarrow> string \<Rightarrow> string \<Rightarrow> globals \<Rightarrow> globals" where
  "Annotate t tag desp details = on_log (annotatePointColor t tag desp details COLOR_USER)"

definition AnnotateInterval :: "int \<Rightarrow> string \<Rightarrow> int \<Rightarrow> string \<Rightarrow> string \<Rightarrow> globals \<Rightarrow> globals" where
  "AnnotateInterval t tag start desp details = on_log (annotateIntervalColor t tag start desp details COLOR_USER)"

definition AnnotateContinuous :: "int \<Rightarrow> string \<Rightarrow> string \<Rightarrow> string \<Rightarrow> globals \<Rightarrow> globals" where
  "AnnotateContinuous t tag desp details = on_log (annotateContinuousColor t tag desp details COLOR_USER)"

definition AnnotateInfo :: "int \<Rightarrow> string \<Rightarrow> string \<Rightarrow> globals \<Rightarrow> globals" where
  "AnnotateInfo t desp details = AnnotatePointColor t TAG_INFO desp details COLOR_INFO"

definition AnnotateInfoInterval :: "int \<Rightarrow> int \<Rightarrow> string \<Rightarrow> string \<Rightarrow> globals \<Rightarrow> globals" where
  "AnnotateInfoInterval t start desp details = AnnotateIntervalColor t TAG_INFO start desp details COLOR_INFO"

definition SetAnnotationFinalized :: "globals \<Rightarrow> globals" where
  "SetAnnotationFinalized = on_log (\<lambda>an. an\<lparr>finalized := True\<rparr>)"

definition GetAnnotationFinalized :: "globals \<Rightarrow> bool" where
  "GetAnnotationFinalized g = finalized (annotation g)"

subsection \<open>The framework's view of failures\<close>

text \<open>The global \<open>finfo\<close> is nil until \<open>AnnotateTest\<close>; locking its mutex then panics.\<close>

definition with_finfo :: "globals \<Rightarrow> (FrameworkInfo \<Rightarrow> globals go) \<Rightarrow> globals go" where
  "with_finfo g f = (case finfo g of None \<Rightarrow> Inl NilDeref | Some fi \<Rightarrow> f fi)"

definition mkFrameworkInfo :: "nat \<Rightarrow> FrameworkInfo" where
  "mkFrameworkInfo n =
     \<lparr>nservers = n, fi_connected = replicate n True, crashed = replicate n False, ckbegin = \<lparr>cb_ts = 0, cb_details = ''''\<rparr>\<rparr>"

definition AnnotateTest :: "int \<Rightarrow> string \<Rightarrow> nat \<Rightarrow> globals \<Rightarrow> globals" where
  "AnnotateTest t desp n g =
     (let details = desp @ '' ('' @ itoa (int n) @ '' servers)'' in
      AnnotateInfo t details details (on_log clear (g\<lparr>finfo := Some (mkFrameworkInfo n)\<rparr>)))"

definition AnnotateCheckerBegin :: "int \<Rightarrow> string \<Rightarrow> globals \<Rightarrow> globals go" where
  "AnnotateCheckerBegin t details g =
     with_finfo g (\<lambda>fi. Inr (g\<lparr>finfo := Some (fi\<lparr>ckbegin := \<lparr>cb_ts = t, cb_details = details\<rparr>\<rparr>)\<rparr>))"

text \<open>The final assignment \<open>ckbegin.ts = 0\<close> of the code is to a local copy.\<close>

definition AnnotateCheckerEnd :: "int \<Rightarrow> string \<Rightarrow> string \<Rightarrow> string \<Rightarrow> globals \<Rightarrow> globals go" where
  "AnnotateCheckerEnd t desp details color g =
     with_finfo g (\<lambda>fi.
       if cb_ts (ckbegin fi) = 0 then Inr (AnnotatePointColor t TAG_CHECKER desp details color g)
       else
         let d = cb_details (ckbegin fi) @ '': '' @ details in
         Inr (AnnotateIntervalColor t TAG_CHECKER (cb_ts (ckbegin fi)) desp d color g))"

definition AnnotateCheckerSuccess :: "int \<Rightarrow> string \<Rightarrow> string \<Rightarrow> globals \<Rightarrow> globals go" where
  "AnnotateCheckerSuccess t desp details = AnnotateCheckerEnd t desp details COLOR_SUCCESS"

definition AnnotateCheckerFailure :: "int \<Rightarrow> string \<Rightarrow> string \<Rightarrow> globals \<Rightarrow> globals go" where
  "AnnotateCheckerFailure t desp details = AnnotateCheckerEnd t desp details COLOR_FAILURE"

definition AnnotateCheckerNeutral :: "int \<Rightarrow> string \<Rightarrow> string \<Rightarrow> globals \<Rightarrow> globals go" where
  "AnnotateCheckerNeutral t desp details = AnnotateCheckerEnd t desp details COLOR_NEUTRAL"

definition AnnotateCheckerFailureBeforeExit :: "string \<Rightarrow> bool \<Rightarrow> int \<Rightarrow> string \<Rightarrow> string \<Rightarrow> globals \<Rightarrow>
    (globals \<times> porcupine_Annotation list option) go" where
  "AnnotateCheckerFailureBeforeExit vis_enable open_ok t desp details g =
     bind_go (AnnotateCheckerFailure t desp details g) (\<lambda>g.
       let (an, out) = annotation_cleanup vis_enable open_ok t True ''test failed'' (annotation g) in
       Inr (g\<lparr>annotation := an\<rparr>, out))"

text \<open>One pass of \<open>annotateFault\<close> over \<open>connected\<close>: the connected servers, the crashed ones and the text so far.\<close>

fun fault_scan :: "nat \<Rightarrow> bool list \<Rightarrow> bool list \<Rightarrow> nat list \<Rightarrow> nat list \<Rightarrow> string \<Rightarrow> (nat list \<times> nat list \<times> string) go" where
  "fault_scan i [] crs conn crashes text = Inr (conn, crashes, text)"
| "fault_scan i (c # cs) crs conn crashes text =
     bind_go (nth_go crs i) (\<lambda>crash.
       if crash then fault_scan (i + 1) cs crs conn (crashes @ [i]) text
       else if c then fault_scan (i + 1) cs crs (conn @ [i]) crashes text
       else fault_scan (i + 1) cs crs conn crashes (text @ ''['' @ itoa (int i) @ ''] ''))"

definition fault_text :: "FrameworkInfo \<Rightarrow> string go" where
  "fault_text fi =
     bind_go (fault_scan 0 (fi_connected fi) (crashed fi) [] [] ''partition = '') (\<lambda>(conn, crashes, text).
       let text = (if length conn > 0 then text @ fmt_ints conn else text);
           text = (if length crashes > 0 then text @ '' / crash = '' @ fmt_ints crashes else text) in
       Inr text)"

definition no_fault :: "FrameworkInfo \<Rightarrow> bool" where
  "no_fault fi \<longleftrightarrow> replicate (nservers fi) True = fi_connected fi \<and> replicate (nservers fi) False = crashed fi"

definition annotateFault :: "int \<Rightarrow> FrameworkInfo \<Rightarrow> globals \<Rightarrow> globals go" where
  "annotateFault t fi g =
     (if no_fault fi then Inr (AnnotateContinuousEnd t TAG_PARTITION g)
      else bind_go (fault_text fi) (\<lambda>text. Inr (AnnotateContinuousColor t TAG_PARTITION text text COLOR_FAULT g)))"

text \<open>\<open>copy\<close> of one slice over another: as many entries as the shorter one has.\<close>

definition copy_slice :: "'a list \<Rightarrow> 'a list \<Rightarrow> 'a list" where
  "copy_slice dst src = take (length dst) src @ drop (length src) dst"

definition AnnotateConnection :: "int \<Rightarrow> bool list \<Rightarrow> globals \<Rightarrow> globals go" where
  "AnnotateConnection t connection g =
     with_finfo g (\<lambda>fi.
       if fi_connected fi = connection then Inr g
       else
         let fi = fi\<lparr>fi_connected := copy_slice (fi_connected fi) connection\<rparr> in
         annotateFault t fi (g\<lparr>finfo := Some fi\<rparr>))"

definition AnnotateTwoPartitions :: "int \<Rightarrow> nat list \<Rightarrow> nat list \<Rightarrow> globals \<Rightarrow> globals" where
  "AnnotateTwoPartitions t p1 p2 g =
     (let text = ''partition = '' @ fmt_ints p1 @ '' '' @ fmt_ints p2 in
      AnnotateContinuousColor t TAG_PARTITION text text COLOR_FAULT g)"

definition AnnotateClearFailure :: "int \<Rightarrow> globals \<Rightarrow> globals go" where
  "AnnotateClearFailure t g =
     with_finfo g (\<lambda>fi.
       let fi = fi\<lparr>crashed := map (\<lambda>_. False) (crashed fi), fi_connected := map (\<lambda>_. True) (fi_connected fi)\<rparr> in
       Inr (AnnotateContinuousEnd t TAG_PARTITION (g\<lparr>finfo := Some fi\<rparr>)))"

text \<open>The loops of \<open>AnnotateShutdown\<close> and \<open>AnnotateRestart\<close>: set the entries to \<open>b\<close>, and whether one changed.\<close>

fun set_crashed :: "bool \<Rightarrow> nat list \<Rightarrow> bool list \<Rightarrow> bool \<Rightarrow> (bool list \<times> bool) go" where
  "set_crashed b [] crs changed = Inr (crs, changed)"
| "set_crashed b (i # is) crs changed =
     bind_go (nth_go crs i) (\<lambda>c. set_crashed b is (crs[i := b]) (changed \<or> c \<noteq> b))"

definition crash_change :: "bool \<Rightarrow> int \<Rightarrow> nat list \<Rightarrow> globals \<Rightarrow> globals go" where
  "crash_change b t srvs g =
     with_finfo g (\<lambda>fi.
       bind_go (set_crashed b srvs (crashed fi) False) (\<lambda>(crs, changed).
         let fi = fi\<lparr>crashed := crs\<rparr>; g = g\<lparr>finfo := Some fi\<rparr> in
         if \<not> changed then Inr g else annotateFault t fi g))"

definition AnnotateShutdown :: "int \<Rightarrow> nat list \<Rightarrow> globals \<Rightarrow> globals go" where
  "AnnotateShutdown t srvs g = crash_change True t srvs g"

definition AnnotateRestart :: "int \<Rightarrow> nat list \<Rightarrow> globals \<Rightarrow> globals go" where
  "AnnotateRestart t srvs g = crash_change False t srvs g"

definition AnnotateShutdownAll :: "int \<Rightarrow> globals \<Rightarrow> globals go" where
  "AnnotateShutdownAll t g = with_finfo g (\<lambda>fi. AnnotateShutdown t [0..<nservers fi] g)"

definition AnnotateRestartAll :: "int \<Rightarrow> globals \<Rightarrow> globals go" where
  "AnnotateRestartAll t g = with_finfo g (\<lambda>fi. AnnotateRestart t [0..<nservers fi] g)"

subsection \<open>The fault annotation follows the state of the servers\<close>

definition fi_ok :: "FrameworkInfo \<Rightarrow> bool" where
  "fi_ok fi \<longleftrightarrow> length (fi_connected fi) = nservers fi \<and> length (crashed fi) = nservers fi"

text \<open>The annotation that is going on under a tag: its text and colour.\<close>

definition ongoing :: "globals \<Rightarrow> string \<Rightarrow> (string \<times> string) option" where
  "ongoing g tag = map_option (\<lambda>c. (c_desp c, c_bgcolor c)) (map_of (continuous (annotation g)) tag)"

definition fault_shown :: "FrameworkInfo \<Rightarrow> (string \<times> string) option" where
  "fault_shown fi = (if no_fault fi then None else case fault_text fi of Inl _ \<Rightarrow> None | Inr text \<Rightarrow> Some (text, COLOR_FAULT))"

definition fault_inv :: "globals \<Rightarrow> bool" where
  "fault_inv g \<longleftrightarrow> (case finfo g of None \<Rightarrow> False | Some fi \<Rightarrow> fi_ok fi \<and> ongoing g TAG_PARTITION = fault_shown fi)"

definition log_grows :: "globals \<Rightarrow> globals \<Rightarrow> bool" where
  "log_grows g g' \<longleftrightarrow> (\<exists>as. annotations (annotation g') = annotations (annotation g) @ as) \<and>
     map_option nservers (finfo g') = map_option nservers (finfo g)"

inductive fault_step :: "globals \<Rightarrow> globals \<Rightarrow> bool" where
  connection: "AnnotateConnection t cs g = Inr g' \<Longrightarrow> fault_step g g'"
| shutdown: "AnnotateShutdown t srvs g = Inr g' \<Longrightarrow> fault_step g g'"
| restart: "AnnotateRestart t srvs g = Inr g' \<Longrightarrow> fault_step g g'"
| shutdown_all: "AnnotateShutdownAll t g = Inr g' \<Longrightarrow> fault_step g g'"
| restart_all: "AnnotateRestartAll t g = Inr g' \<Longrightarrow> fault_step g g'"
| clear_failure: "AnnotateClearFailure t g = Inr g' \<Longrightarrow> fault_step g g'"
| checker_begin: "AnnotateCheckerBegin t d g = Inr g' \<Longrightarrow> fault_step g g'"
| checker_end: "AnnotateCheckerEnd t desp d color g = Inr g' \<Longrightarrow> fault_step g g'"
| point: "fault_step g (AnnotatePointColor t tag desp d color g)"
| interval: "fault_step g (AnnotateIntervalColor t tag start desp d color g)"
| other_tag: "tag \<noteq> TAG_PARTITION \<Longrightarrow> fault_step g (AnnotateContinuousColor t tag desp d color g)"
| other_end: "tag \<noteq> TAG_PARTITION \<Longrightarrow> fault_step g (AnnotateContinuousEnd t tag g)"

lemma fault_scan_total: "i + length cs \<le> length crs \<Longrightarrow> \<exists>r. fault_scan i cs crs conn crashes text = Inr r"
  by (induction cs arbitrary: i conn crashes "text") (auto simp: nth_go_def)

lemma fault_text_total: "fi_ok fi \<Longrightarrow> \<exists>text. fault_text fi = Inr text"
  using fault_scan_total [of 0 "fi_connected fi" "crashed fi" "[]" "[]" "''partition = ''"]
  by (auto simp: fault_text_def fi_ok_def Let_def)

lemma ongoing_simps [simp]:
  "ongoing (AnnotatePointColor t tag desp d color g) tg = ongoing g tg"
  "ongoing (AnnotateIntervalColor t tag start desp d color g) tg = ongoing g tg"
  "ongoing (AnnotateContinuousColor t tag desp d color g) tg = (if tg = tag then Some (desp, color) else ongoing g tg)"
  "ongoing (AnnotateContinuousEnd t tag g) tg = (if tg = tag then None else ongoing g tg)"
  "ongoing (g\<lparr>finfo := x\<rparr>) tg = ongoing g tg"
  by (auto simp: ongoing_def AnnotatePointColor_def AnnotateIntervalColor_def AnnotateContinuousColor_def AnnotateContinuousEnd_def
      on_log_def annotatePointColor_def annotateIntervalColor_def annotateContinuousColor_def annotateContinuousEnd_def Let_def
      update_conv delete_conv split: option.splits)

lemma finfo_simps [simp]:
  "finfo (AnnotatePointColor t tag desp d color g) = finfo g"
  "finfo (AnnotateIntervalColor t tag start desp d color g) = finfo g"
  "finfo (AnnotateContinuousColor t tag desp d color g) = finfo g"
  "finfo (AnnotateContinuousEnd t tag g) = finfo g"
  by (simp_all add: AnnotatePointColor_def AnnotateIntervalColor_def AnnotateContinuousColor_def AnnotateContinuousEnd_def on_log_def)

lemma annotateFault_shows:
  assumes "fi_ok fi" and "finfo g = Some fi"
  shows "\<exists>g'. annotateFault t fi g = Inr g' \<and> finfo g' = Some fi \<and> ongoing g' TAG_PARTITION = fault_shown fi"
proof -
  obtain tx where "fault_text fi = Inr tx" using fault_text_total [OF assms(1)] by blast
  then show ?thesis using assms(2) by (simp add: annotateFault_def fault_shown_def)
qed

lemma set_crashed_spec:
  "set_crashed b is crs ch = Inr (crs', ch') \<Longrightarrow> length crs' = length crs \<and> (\<not> ch' \<longrightarrow> crs' = crs \<and> \<not> ch)"
proof (induction "is" arbitrary: crs ch)
  case (Cons i ks)
  then have i: "i < length crs" "set_crashed b ks (crs[i := b]) (ch \<or> crs ! i \<noteq> b) = Inr (crs', ch')"
    by (auto simp: nth_go_def split: if_splits)
  have "crs[i := b] = crs" if "crs ! i = b" using that by (simp add: list_update_same_conv i(1))
  then show ?case using Cons.IH [OF i(2)] by auto
qed simp

lemma set_crashed_total: "\<forall>i\<in>set is. i < length crs \<Longrightarrow> \<exists>r. set_crashed b is crs ch = Inr r"
  by (induction "is" arbitrary: crs ch) (auto simp: nth_go_def)

lemma crash_changeE:
  assumes "crash_change b t srvs g = Inr g'"
  obtains fi crs ch where "finfo g = Some fi" "set_crashed b srvs (crashed fi) False = Inr (crs, ch)"
    "(if \<not> ch then Inr (g\<lparr>finfo := Some (fi\<lparr>crashed := crs\<rparr>)\<rparr>)
      else annotateFault t (fi\<lparr>crashed := crs\<rparr>) (g\<lparr>finfo := Some (fi\<lparr>crashed := crs\<rparr>)\<rparr>)) = Inr g'"
  using assms by (auto simp: crash_change_def with_finfo_def Let_def split: option.splits if_splits)

lemma crash_change_inv:
  assumes "fault_inv g" and "crash_change b t srvs g = Inr g'"
  shows "fault_inv g'"
proof -
  obtain fi where fi: "finfo g = Some fi" "fi_ok fi" "ongoing g TAG_PARTITION = fault_shown fi"
    using assms(1) by (auto simp: fault_inv_def split: option.splits)
  obtain crs ch where s: "set_crashed b srvs (crashed fi) False = Inr (crs, ch)"
    and r: "(if \<not> ch then Inr (g\<lparr>finfo := Some (fi\<lparr>crashed := crs\<rparr>)\<rparr>)
      else annotateFault t (fi\<lparr>crashed := crs\<rparr>) (g\<lparr>finfo := Some (fi\<lparr>crashed := crs\<rparr>)\<rparr>)) = Inr g'"
    using assms(2) fi(1) by (elim crash_changeE) auto
  note sp = set_crashed_spec [OF s]
  have ok: "fi_ok (fi\<lparr>crashed := crs\<rparr>)" using sp fi(2) by (simp add: fi_ok_def)
  show ?thesis
  proof (cases ch)
    case True
    then show ?thesis using r annotateFault_shows [OF ok, of "g\<lparr>finfo := Some (fi\<lparr>crashed := crs\<rparr>)\<rparr>" t] ok
      by (auto simp: fault_inv_def)
  next
    case False
    then have "crs = crashed fi" using sp by simp
    then have "fi\<lparr>crashed := crs\<rparr> = fi" by simp
    then show ?thesis using r False fi by (auto simp: fault_inv_def)
  qed
qed

lemma connection_inv:
  assumes "fault_inv g" and "AnnotateConnection t cs g = Inr g'"
  shows "fault_inv g'"
proof -
  obtain fi where fi: "finfo g = Some fi" "fi_ok fi" using assms(1) by (auto simp: fault_inv_def split: option.splits)
  show ?thesis
  proof (cases "fi_connected fi = cs")
    case True
    then show ?thesis using assms fi(1) by (simp add: AnnotateConnection_def with_finfo_def)
  next
    case False
    let ?fi = "fi\<lparr>fi_connected := copy_slice (fi_connected fi) cs\<rparr>"
    have ok: "fi_ok ?fi" using fi(2) by (simp add: fi_ok_def copy_slice_def)
    have "annotateFault t ?fi (g\<lparr>finfo := Some ?fi\<rparr>) = Inr g'"
      using assms(2) fi(1) False by (simp add: AnnotateConnection_def with_finfo_def Let_def)
    then show ?thesis using annotateFault_shows [OF ok, of "g\<lparr>finfo := Some ?fi\<rparr>" t] ok by (auto simp: fault_inv_def)
  qed
qed

lemma clear_failure_inv:
  assumes "fault_inv g" and "AnnotateClearFailure t g = Inr g'"
  shows "fault_inv g'"
  using assms by (auto simp: AnnotateClearFailure_def with_finfo_def fault_inv_def fi_ok_def fault_shown_def no_fault_def
      map_replicate_const Let_def split: option.splits)

lemma fault_inv_basic:
  assumes "fault_inv g"
  shows "fault_inv (AnnotatePointColor t tag desp d color g)" "fault_inv (AnnotateIntervalColor t tag start desp d color g)"
    "tag \<noteq> TAG_PARTITION \<Longrightarrow> fault_inv (AnnotateContinuousColor t tag desp d color g)"
    "tag \<noteq> TAG_PARTITION \<Longrightarrow> fault_inv (AnnotateContinuousEnd t tag g)"
  using assms by (auto simp: fault_inv_def split: option.splits)

lemma fault_step_inv: "fault_step g g' \<Longrightarrow> fault_inv g \<Longrightarrow> fault_inv g'"
proof (induction rule: fault_step.induct)
  case (shutdown_all t g g')
  then show ?case using crash_change_inv
    by (auto simp: AnnotateShutdownAll_def AnnotateShutdown_def with_finfo_def split: option.splits)
next
  case (restart_all t g g')
  then show ?case using crash_change_inv
    by (auto simp: AnnotateRestartAll_def AnnotateRestart_def with_finfo_def split: option.splits)
next
  case (checker_begin t d g g')
  then show ?case by (auto simp: AnnotateCheckerBegin_def with_finfo_def fault_inv_def fi_ok_def fault_shown_def no_fault_def
        fault_text_def split: option.splits)
next
  case (checker_end t desp d color g g')
  then show ?case by (auto simp: AnnotateCheckerEnd_def with_finfo_def fault_inv_def Let_def split: option.splits if_splits)
qed (auto intro: connection_inv crash_change_inv clear_failure_inv fault_inv_basic simp: AnnotateShutdown_def AnnotateRestart_def)

lemma log_grows_refl: "log_grows g g"
  by (simp add: log_grows_def)

lemma log_grows_trans: "log_grows g h \<Longrightarrow> log_grows h k \<Longrightarrow> log_grows g k"
  by (auto simp: log_grows_def)

lemma log_grows_basic:
  "log_grows g (AnnotatePointColor t tag desp d color g)" "log_grows g (AnnotateIntervalColor t tag start desp d color g)"
  "log_grows g (AnnotateContinuousColor t tag desp d color g)" "log_grows g (AnnotateContinuousEnd t tag g)"
  by (auto simp: log_grows_def AnnotatePointColor_def AnnotateIntervalColor_def AnnotateContinuousColor_def AnnotateContinuousEnd_def
      on_log_def annotatePointColor_def annotateIntervalColor_def annotateContinuousColor_def annotateContinuousEnd_def Let_def
      split: option.splits)

lemma log_grows_finfo:
  assumes "finfo g = Some fi" and "nservers fi' = nservers fi" and "log_grows (g\<lparr>finfo := Some fi'\<rparr>) g'"
  shows "log_grows g g'"
  using assms by (auto simp: log_grows_def)

lemma annotateFault_grows: "annotateFault t fi g = Inr g' \<Longrightarrow> log_grows g g'"
  using log_grows_basic by (auto simp: annotateFault_def split: if_splits)

lemma crash_change_grows:
  assumes "crash_change b t srvs g = Inr g'"
  shows "log_grows g g'"
proof -
  obtain fi crs ch where fi: "finfo g = Some fi" and r: "(if \<not> ch then Inr (g\<lparr>finfo := Some (fi\<lparr>crashed := crs\<rparr>)\<rparr>)
      else annotateFault t (fi\<lparr>crashed := crs\<rparr>) (g\<lparr>finfo := Some (fi\<lparr>crashed := crs\<rparr>)\<rparr>)) = Inr g'"
    using assms by (elim crash_changeE) simp
  have "log_grows (g\<lparr>finfo := Some (fi\<lparr>crashed := crs\<rparr>)\<rparr>) g'"
    using r annotateFault_grows log_grows_refl by (auto split: if_splits)
  then show ?thesis using log_grows_finfo [OF fi, of "fi\<lparr>crashed := crs\<rparr>" g'] by simp
qed

lemma fault_step_grows: "fault_step g g' \<Longrightarrow> log_grows g g'"
proof (induction rule: fault_step.induct)
  case (connection t cs g g')
  then obtain fi where fi: "finfo g = Some fi" by (auto simp: AnnotateConnection_def with_finfo_def split: option.splits)
  let ?fi = "fi\<lparr>fi_connected := copy_slice (fi_connected fi) cs\<rparr>"
  have "log_grows g g'" if "annotateFault t ?fi (g\<lparr>finfo := Some ?fi\<rparr>) = Inr g'"
    using log_grows_finfo [OF fi _ annotateFault_grows [OF that]] by simp
  then show ?case using connection fi log_grows_refl by (auto simp: AnnotateConnection_def with_finfo_def Let_def split: if_splits)
next
  case (clear_failure t g g')
  then obtain fi where fi: "finfo g = Some fi" by (auto simp: AnnotateClearFailure_def with_finfo_def split: option.splits)
  let ?fi = "fi\<lparr>crashed := map (\<lambda>_. False) (crashed fi), fi_connected := map (\<lambda>_. True) (fi_connected fi)\<rparr>"
  show ?case using clear_failure fi log_grows_finfo [OF fi _ log_grows_basic(4), of ?fi t TAG_PARTITION]
    by (simp add: AnnotateClearFailure_def with_finfo_def Let_def)
next
  case (checker_begin t d g g')
  then show ?case by (auto simp: AnnotateCheckerBegin_def with_finfo_def log_grows_def split: option.splits)
next
  case (checker_end t desp d color g g')
  then show ?case using log_grows_basic by (auto simp: AnnotateCheckerEnd_def with_finfo_def Let_def split: option.splits if_splits)
qed (auto intro: crash_change_grows log_grows_basic simp: AnnotateShutdown_def AnnotateRestart_def AnnotateShutdownAll_def
    AnnotateRestartAll_def with_finfo_def split: option.splits)

interpretation fault_log: step_invariant fault_step fault_inv log_grows
  by unfold_locales (auto intro: fault_step_inv fault_step_grows log_grows_refl log_grows_trans)

lemma AnnotateTest_inv: "fault_inv (AnnotateTest t desp n g)"
proof -
  let ?g = "on_log clear (g\<lparr>finfo := Some (mkFrameworkInfo n)\<rparr>)"
  have "fault_inv ?g"
    by (simp add: fault_inv_def on_log_def ongoing_def clear_def mkFrameworkInfo_def fi_ok_def fault_shown_def no_fault_def)
  then show ?thesis by (simp add: AnnotateTest_def AnnotateInfo_def fault_inv_basic Let_def)
qed

lemma AnnotateTest_nservers: "map_option nservers (finfo (AnnotateTest t desp n g)) = Some n"
  by (simp add: AnnotateTest_def AnnotateInfo_def on_log_def mkFrameworkInfo_def Let_def)

lemma crash_change_total:
  assumes "finfo g = Some fi" and "fi_ok fi" and "\<forall>i\<in>set srvs. i < nservers fi"
  shows "\<exists>g'. crash_change b t srvs g = Inr g'"
proof -
  obtain crs ch where s: "set_crashed b srvs (crashed fi) False = Inr (crs, ch)"
    using set_crashed_total [of srvs "crashed fi" b False] assms(2,3) by (auto simp: fi_ok_def)
  have "fi_ok (fi\<lparr>crashed := crs\<rparr>)" using set_crashed_spec [OF s] assms(2) by (simp add: fi_ok_def)
  then have "\<exists>g'. annotateFault t (fi\<lparr>crashed := crs\<rparr>) (g\<lparr>finfo := Some (fi\<lparr>crashed := crs\<rparr>)\<rparr>) = Inr g'"
    using annotateFault_shows [of "fi\<lparr>crashed := crs\<rparr>" "g\<lparr>finfo := Some (fi\<lparr>crashed := crs\<rparr>)\<rparr>" t] by auto
  then show ?thesis using s assms(1) by (simp add: crash_change_def with_finfo_def Let_def)
qed


definition no_log :: globals where
  "no_log = \<lparr>annotation = mkAnnotation, finfo = None\<rparr>"


text \<open>
  Ending a failure annotation when none is going on records one all the same: from the
  first clock reading 0, without text or colour. So clearing failures in a test without failures
  puts an empty annotation over the whole history.\<close>

theorem clear_without_fault_annotates:
  "AnnotateClearFailure t' (AnnotateTest t desp n g0) =
    Inr ((AnnotateTest t desp n g0)\<lparr>annotation := (annotation (AnnotateTest t desp n g0))
      \<lparr>annotations := annotations (annotation (AnnotateTest t desp n g0)) @
        [\<lparr>a_Tag = TAG_PARTITION, a_Start = 0, a_End = t', a_Description = '''', a_Details = '''', a_BackgroundColor = ''''\<rparr>]\<rparr>\<rparr>)"
  by (simp add: AnnotateClearFailure_def with_finfo_def AnnotateTest_def AnnotateInfo_def AnnotatePointColor_def annotatePointColor_def
      on_log_def mkFrameworkInfo_def map_replicate_const AnnotateContinuousEnd_def annotateContinuousEnd_def interval_of_def clear_def Let_def)

text \<open>
  The time at which a check began is not reset: after \<open>AnnotateCheckerBegin\<close> every
  \<open>AnnotateCheckerEnd\<close>, not only the first, records an interval that starts at that time.\<close>

theorem checker_begin_not_reset:
  assumes "finfo g = Some fi" and "t0 \<noteq> 0"
  shows "\<exists>g1 g2 g3. AnnotateCheckerBegin t0 d0 g = Inr g1 \<and> AnnotateCheckerEnd t1 desp1 d1 color1 g1 = Inr g2 \<and>
    AnnotateCheckerEnd t2 desp2 d2 color2 g2 = Inr g3 \<and>
    annotations (annotation g3) = annotations (annotation g) @
      [\<lparr>a_Tag = TAG_CHECKER, a_Start = t0, a_End = t1, a_Description = desp1, a_Details = d0 @ '': '' @ d1, a_BackgroundColor = color1\<rparr>,
       \<lparr>a_Tag = TAG_CHECKER, a_Start = t0, a_End = t2, a_Description = desp2, a_Details = d0 @ '': '' @ d2, a_BackgroundColor = color2\<rparr>]"
  using assms by (simp add: AnnotateCheckerBegin_def AnnotateCheckerEnd_def with_finfo_def AnnotateIntervalColor_def
      annotateIntervalColor_def on_log_def Let_def)

theorem checker_begin_not_reset_witness:
  "\<exists>g1 g2 g3. AnnotateCheckerBegin 5 ''a'' (AnnotateTest 1 ''Test'' 1 no_log) = Inr g1 \<and>
    AnnotateCheckerEnd 6 ''b'' ''c'' COLOR_SUCCESS g1 = Inr g2 \<and> AnnotateCheckerEnd 9 ''d'' ''e'' COLOR_SUCCESS g2 = Inr g3 \<and>
    a_Start (last (annotations (annotation g3))) = 5"
proof -
  obtain fi where "finfo (AnnotateTest 1 ''Test'' 1 no_log) = Some fi"
    using AnnotateTest_nservers [of 1 "''Test''" 1 no_log] by auto
  from checker_begin_not_reset [OF this, of 5 "''a''" 6 "''b''" "''c''" COLOR_SUCCESS 9 "''d''" "''e''" COLOR_SUCCESS]
  show ?thesis by auto
qed

end
