(* ===== verification/Kvtest.thy ===== *)
theory Kvtest
  imports Kv_Model Tester_Clnts Tester_Annotation
begin

text \<open>
  The clients and checkers that the key/value tests share: \<open>kvtest1/kvtest.go\<close> and the logging
  wrappers of \<open>kvtest1/porcupine.go\<close>. The interface \<open>IKVClerk\<close> is a record of two functions on a
  state \<open>'w\<close> of the system behind the clerk. JSON encoding is a parameter; \<open>Fatalf\<close>, which ends the
  goroutine of the test, is the value \<open>Inl LogFatal\<close>; clock readings and random numbers are arguments.
  A loop that may run forever is a \<open>partial_function\<close> whose value is \<open>None\<close> then; a client loop that
  runs until it is told to stop takes the number of its turns.
\<close>

subsection \<open>Clerks and the log of operations\<close>

record 'w IKVClerk =
  ck_Get :: "string \<Rightarrow> 'w \<Rightarrow> GetReply \<times> 'w"
  ck_Put :: "string \<Rightarrow> string \<Rightarrow> Tversion \<Rightarrow> 'w \<Rightarrow> err \<times> 'w"

type_synonym OpLog = "Operation list"

definition OpLog_Len :: "OpLog \<Rightarrow> nat" where
  "OpLog_Len log = length log"

definition OpLog_Append :: "OpLog \<Rightarrow> Operation \<Rightarrow> OpLog" where
  "OpLog_Append log v = log @ [v]"

definition OpLog_Read :: "OpLog \<Rightarrow> Operation list" where
  "OpLog_Read log = log"

record 'w Test =
  world :: 'w
  ts_ops :: "32 word"
  oplog :: "OpLog option"
  glob :: globals

definition MakeTest :: "'w \<Rightarrow> globals \<Rightarrow> 'w Test" where
  "MakeTest w g = \<lparr>world = w, ts_ops = 0, oplog = Some [], glob = g\<rparr>"

text \<open>The methods \<open>Get\<close> and \<open>Put\<close> of a test; the functions of the same names do the same with a log they are given.\<close>

definition ts_Get :: "'w IKVClerk \<Rightarrow> string \<Rightarrow> 'w Test \<Rightarrow> GetReply \<times> 'w Test" where
  "ts_Get ck key ts =
     (let (r, w) = ck_Get ck key (world ts) in
      (r, ts\<lparr>world := w, ts_ops := ts_ops ts + 1, oplog := map_option (\<lambda>log. OpLog_Append log (log_Get key r)) (oplog ts)\<rparr>))"

definition ts_Put :: "'w IKVClerk \<Rightarrow> string \<Rightarrow> string \<Rightarrow> Tversion \<Rightarrow> 'w Test \<Rightarrow> err \<times> 'w Test" where
  "ts_Put ck key val ver ts =
     (let (e, w) = ck_Put ck key val ver (world ts) in
      (e, ts\<lparr>world := w, ts_ops := ts_ops ts + 1,
             oplog := map_option (\<lambda>log. OpLog_Append log (log_Put \<lparr>pa_Key = key, pa_Value = val, pa_Version = ver\<rparr> e)) (oplog ts)\<rparr>))"

definition on_glob :: "(globals \<Rightarrow> globals go) \<Rightarrow> 'w Test \<Rightarrow> 'w Test go" where
  "on_glob f ts = bind_go (f (glob ts)) (\<lambda>g. Inr (ts\<lparr>glob := g\<rparr>))"

subsection \<open>Puts that are repeated\<close>

text \<open>The loop of \<open>PutAtLeastOnce\<close>.\<close>

partial_function (option) put_loop :: "'w IKVClerk \<Rightarrow> string \<Rightarrow> string \<Rightarrow> Tversion \<Rightarrow> 'w Test \<Rightarrow> (Tversion \<times> 'w Test) go option" where
  "put_loop ck key val ver ts =
     (let (e, ts) = ts_Put ck key val ver ts in
      if e = OK then Some (Inr (ver + 1, ts))
      else if e = ErrMaybe \<or> e = ErrVersion then put_loop ck key val (ver + 1) ts
      else if ver \<noteq> 0 then Some (Inl LogFatal)
      else put_loop ck key val ver ts)"

definition PutAtLeastOnce :: "int \<Rightarrow> 'w IKVClerk \<Rightarrow> string \<Rightarrow> string \<Rightarrow> Tversion \<Rightarrow> 'w Test \<Rightarrow> (Tversion \<times> 'w Test) go option" where
  "PutAtLeastOnce t ck key val ver ts =
     map_option (\<lambda>r. bind_go r (\<lambda>(ver', ts).
       let desp = ''Put('' @ key @ '', '' @ val @ '') completes'';
           details = ''version: '' @ dec_string (unat ver) @ '' -> '' @ dec_string (unat ver') in
       bind_go (on_glob (\<lambda>g. Inr (AnnotateInfo t desp details g)) ts) (\<lambda>ts. Inr (ver', ts))))
       (put_loop ck key val ver ts)"

definition fmt_pair :: "string \<Rightarrow> Tversion \<Rightarrow> string" where
  "fmt_pair v n = ''('' @ v @ '', '' @ dec_string (unat n) @ '')''"

definition CheckGet :: "int \<Rightarrow> int \<Rightarrow> 'w IKVClerk \<Rightarrow> string \<Rightarrow> string \<Rightarrow> Tversion \<Rightarrow> 'w Test \<Rightarrow> 'w Test go" where
  "CheckGet t t' ck key val ver ts =
     bind_go (on_glob (AnnotateCheckerBegin t (''checking Get('' @ key @ '') = '' @ fmt_pair val ver)) ts) (\<lambda>ts.
       let (r, ts) = ts_Get ck key ts in
       if gr_Err r \<noteq> OK then
         let txt = ''Get('' @ key @ '') returns error = '' @ err_string (gr_Err r) in
         bind_go (on_glob (AnnotateCheckerFailure t' txt txt) ts) (\<lambda>ts. Inl LogFatal)
       else if gr_Value r \<noteq> val \<or> gr_Version r \<noteq> ver then
         let txt = ''Get('' @ key @ '') returns '' @ fmt_pair (gr_Value r) (gr_Version r) @ '' != '' @ fmt_pair val ver in
         bind_go (on_glob (AnnotateCheckerFailure t' txt txt) ts) (\<lambda>ts. Inl LogFatal)
       else
         let txt = ''Get('' @ key @ '') returns '' @ fmt_pair (gr_Value r) (gr_Version r) @ '' as expected'' in
         on_glob (AnnotateCheckerSuccess t' txt ''OK'') ts)"

record ClntRes =
  Nok :: int
  Nmaybe :: int

definition add_res :: "bool \<Rightarrow> ClntRes \<Rightarrow> ClntRes" where
  "add_res okf res = (if okf then res\<lparr>Nok := Nok res + 1\<rparr> else res\<lparr>Nmaybe := Nmaybe res + 1\<rparr>)"

subsection \<open>JSON values\<close>

record 'v json =
  Marshal :: "'v \<Rightarrow> string"
  Unmarshal :: "string \<Rightarrow> 'v option"

definition json_ok :: "'v json \<Rightarrow> bool" where
  "json_ok js \<longleftrightarrow> (\<forall>v. Unmarshal js (Marshal js v) = Some v)"

definition decode_reply :: "'v json \<Rightarrow> GetReply \<Rightarrow> (Tversion \<times> 'v) go" where
  "decode_reply js r =
     (if gr_Err r = OK then
        case Unmarshal js (gr_Value r) of None \<Rightarrow> Inl LogFatal | Some v \<Rightarrow> Inr (gr_Version r, v)
      else Inl LogFatal)"

definition GetJson :: "'v json \<Rightarrow> 'w IKVClerk \<Rightarrow> string \<Rightarrow> 'w Test \<Rightarrow> (Tversion \<times> 'v \<times> 'w Test) go" where
  "GetJson js ck key ts =
     (let (r, ts) = ts_Get ck key ts in bind_go (decode_reply js r) (\<lambda>(ver, v). Inr (ver, v, ts)))"

definition PutJson :: "'v json \<Rightarrow> 'w IKVClerk \<Rightarrow> string \<Rightarrow> 'v \<Rightarrow> Tversion \<Rightarrow> 'w Test \<Rightarrow> err \<times> 'w Test" where
  "PutJson js ck key v ver ts = ts_Put ck key (Marshal js v) ver ts"

partial_function (option) PutAtLeastOnceJson :: "'v json \<Rightarrow> 'w IKVClerk \<Rightarrow> string \<Rightarrow> 'v \<Rightarrow> Tversion \<Rightarrow> 'w Test \<Rightarrow> (Tversion \<times> 'w Test) option" where
  "PutAtLeastOnceJson js ck key v ver ts =
     (let (e, ts) = PutJson js ck key v 0 ts in
      if e \<noteq> ErrMaybe then Some (ver, ts) else PutAtLeastOnceJson js ck key v (ver + 1) ts)"

record EntryV =
  ev_Id :: int
  ev_V :: Tversion

definition CheckPutConcurrent :: "EntryV json \<Rightarrow> 'w IKVClerk \<Rightarrow> string \<Rightarrow> ClntRes list \<Rightarrow> ClntRes \<Rightarrow> bool \<Rightarrow> 'w Test \<Rightarrow> (ClntRes \<times> 'w Test) go" where
  "CheckPutConcurrent js ck key rs res rel ts =
     bind_go (GetJson js ck key ts) (\<lambda>(ver0, e, ts).
       let res = foldl (\<lambda>res r. res\<lparr>Nok := Nok res + Nok r, Nmaybe := Nmaybe res + Nmaybe r\<rparr>) res rs in
       if rel then if ver0 \<noteq> word_of_int (Nok res) then Inl LogFatal else Inr (res, ts)
       else if ver0 > word_of_int (Nok res + Nmaybe res) then Inl LogFatal
       else Inr (res, ts))"

partial_function (option) OnePut :: "EntryV json \<Rightarrow> int \<Rightarrow> 'w IKVClerk \<Rightarrow> string \<Rightarrow> Tversion \<Rightarrow> 'w Test \<Rightarrow> (Tversion \<times> bool \<times> 'w Test) go option" where
  "OnePut js mid ck key ver ts =
     (let (e, ts) = PutJson js ck key \<lparr>ev_Id = mid, ev_V = ver\<rparr> ver ts in
      if \<not> (e = OK \<or> e = ErrVersion \<or> e = ErrMaybe) then Some (Inl LogFatal)
      else
        case GetJson js ck key ts of
          Inl p \<Rightarrow> Some (Inl p)
        | Inr (ver0, v, ts) \<Rightarrow>
            if e = OK \<and> ver0 = ver + 1 \<and> ev_Id v \<noteq> mid \<and> ev_V v \<noteq> ver then Some (Inl LogFatal)
            else if e = OK \<or> e = ErrMaybe then Some (Inr (ver0, e = OK, ts))
            else OnePut js mid ck key ver0 ts)"

text \<open>\<open>OneClientPut\<close>, with the key of each turn before the signal to stop.\<close>

fun OneClientPut :: "EntryV json \<Rightarrow> int \<Rightarrow> 'w IKVClerk \<Rightarrow> string list \<Rightarrow> (string \<Rightarrow> Tversion) \<Rightarrow> ClntRes \<Rightarrow> 'w Test \<Rightarrow> (ClntRes \<times> 'w Test) go option" where
  "OneClientPut js cli ck [] verm res ts = Some (Inr (res, ts))"
| "OneClientPut js cli ck (k # ks) verm res ts =
     (case OnePut js cli ck k (verm k) ts of
        None \<Rightarrow> None
      | Some (Inl p) \<Rightarrow> Some (Inl p)
      | Some (Inr (v, okf, ts)) \<Rightarrow>
          OneClientPut js cli ck ks (verm(k := v))
            (add_res okf res) ts)"

subsection \<open>Keys and spread puts\<close>

definition letterBytes :: string where
  "letterBytes = ''abcdefghijklmnopqrstuvwxyzABCDEFGHIJKLMNOPQRSTUVWXYZ''"

definition RandValue :: "nat list \<Rightarrow> string" where
  "RandValue rs = map (\<lambda>r. letterBytes ! (r mod length letterBytes)) rs"

definition MakeKeys :: "nat \<Rightarrow> string list" where
  "MakeKeys n = map (\<lambda>i. ''k'' @ itoa (int i)) [0..<n]"

fun put_each :: "'w IKVClerk \<Rightarrow> (string \<times> string) list \<Rightarrow> 'w Test \<Rightarrow> 'w Test" where
  "put_each ck [] ts = ts"
| "put_each ck ((k, v) # kvs) ts = put_each ck kvs (ts\<lparr>world := snd (ck_Put ck k v 0 (world ts))\<rparr>)"

fun check_each :: "int \<Rightarrow> int \<Rightarrow> 'w IKVClerk \<Rightarrow> (string \<times> string) list \<Rightarrow> 'w Test \<Rightarrow> 'w Test go" where
  "check_each t t' ck [] ts = Inr ts"
| "check_each t t' ck ((k, v) # kvs) ts = bind_go (CheckGet t t' ck k v 1 ts) (check_each t t' ck kvs)"

text \<open>The random values are an argument; \<open>t\<close> and \<open>t'\<close> stand for the clock readings.\<close>

definition SpreadPutsSize :: "int \<Rightarrow> int \<Rightarrow> 'w IKVClerk \<Rightarrow> string list \<Rightarrow> 'w Test \<Rightarrow> ((string list \<times> string list) \<times> 'w Test) go" where
  "SpreadPutsSize t t' ck va ts =
     (let ka = MakeKeys (length va); ts = put_each ck (zip ka va) ts in
      bind_go (check_each t t' ck (zip ka va) ts) (\<lambda>ts. Inr ((ka, va), ts)))"

subsection \<open>Clients that append\<close>

record entry =
  e_Id :: int
  e_N :: int

text \<open>
  What the answer to the put of an append means: it was done (\<open>Some True\<close>), it may have been done
  (\<open>Some False\<close>), or the client tries again.
\<close>

definition append_result :: "err \<Rightarrow> bool option" where
  "append_result e = (if e = OK then Some True else if e = ErrMaybe then Some False else None)"

text \<open>The inner loop of \<open>OneClientAppend\<close>: whether the put that ended it was certain.\<close>

partial_function (option) append_once :: "entry list json \<Rightarrow> 'w IKVClerk \<Rightarrow> int \<Rightarrow> int \<Rightarrow> 'w Test \<Rightarrow> (bool \<times> 'w Test) go option" where
  "append_once js ck mid i ts =
     (case GetJson js ck ''k'' ts of
        Inl p \<Rightarrow> Some (Inl p)
      | Inr (ver, es, ts) \<Rightarrow>
          let (e, ts) = PutJson js ck ''k'' (es @ [\<lparr>e_Id = mid, e_N = i\<rparr>]) ver ts in
          case append_result e of Some okf \<Rightarrow> Some (Inr (okf, ts)) | None \<Rightarrow> append_once js ck mid i ts)"

fun append_turns :: "nat \<Rightarrow> entry list json \<Rightarrow> 'w IKVClerk \<Rightarrow> int \<Rightarrow> int \<Rightarrow> ClntRes \<Rightarrow> 'w Test \<Rightarrow> (ClntRes \<times> 'w Test) go option" where
  "append_turns 0 js ck mid i res ts = Some (Inr (res, ts))"
| "append_turns (Suc n) js ck mid i res ts =
     (case append_once js ck mid i ts of
        None \<Rightarrow> None
      | Some (Inl p) \<Rightarrow> Some (Inl p)
      | Some (Inr (okf, ts)) \<Rightarrow>
          append_turns n js ck mid (i + 1) (add_res okf res) ts)"

definition OneClientAppend :: "nat \<Rightarrow> entry list json \<Rightarrow> int \<Rightarrow> 'w IKVClerk \<Rightarrow> 'w Test \<Rightarrow> (ClntRes \<times> 'w Test) go option" where
  "OneClientAppend turns js mid ck ts = append_turns turns js ck mid 0 \<lparr>Nok = 0, Nmaybe = 0\<rparr> ts"

text \<open>A Go map from integers to integers; a missing key reads as 0.\<close>

type_synonym imap = "(int \<times> int) list"

definition iget :: "imap \<Rightarrow> int \<Rightarrow> int" where
  "iget m k = (case map_of m k of None \<Rightarrow> 0 | Some v \<Rightarrow> v)"

fun scan_entries :: "entry list \<Rightarrow> imap \<Rightarrow> imap \<Rightarrow> (imap \<times> imap) go" where
  "scan_entries [] expect skipped = Inr (expect, skipped)"
| "scan_entries (e # es) expect skipped =
     (if iget expect (e_Id e) > e_N e then Inl LogFatal
      else if iget expect (e_Id e) = e_N e then
        scan_entries es (AList.update (e_Id e) (iget expect (e_Id e) + 1) expect) skipped
      else
        let s = e_N e - iget expect (e_Id e) in
        scan_entries es (AList.update (e_Id e) (e_N e + 1) expect) (AList.update (e_Id e) (iget skipped (e_Id e) + s) skipped))"

fun check_clients :: "imap \<Rightarrow> imap \<Rightarrow> ClntRes list \<Rightarrow> unit go" where
  "check_clients [] skipped rs = Inr ()"
| "check_clients ((c, n) # expect) skipped rs =
     (if c < 0 \<or> int (length rs) \<le> c then Inl IndexOutOfRange
      else if iget skipped c > Nmaybe (rs ! nat c) then Inl LogFatal
      else if n > Nok (rs ! nat c) + Nmaybe (rs ! nat c) then Inl LogFatal
      else check_clients expect skipped rs)"

definition CheckAppends :: "entry list \<Rightarrow> nat \<Rightarrow> ClntRes list \<Rightarrow> Tversion \<Rightarrow> unit go" where
  "CheckAppends es nclnt rs ver =
     (let zero = map (\<lambda>i. (int i, 0)) [0..<nclnt] in
      bind_go (scan_entries es zero zero) (\<lambda>(expect, skipped).
        if int (length es) + 1 \<noteq> sint ver then Inl LogFatal else check_clients expect skipped rs))"

subsection \<open>The partitioner\<close>

text \<open>One turn of \<open>Partitioner\<close>, with the random bits of the servers.\<close>

definition Partitioner_turn :: "int \<Rightarrow> nat list \<Rightarrow> ('s, 'b) state \<Rightarrow> globals \<Rightarrow> (('s, 'b) state \<times> globals) go" where
  "Partitioner_turn t bits st g =
     (let n = N (snd st); a = map (\<lambda>b. b mod 2) (take n bits);
          pa = (\<lambda>i. filter (\<lambda>j. a ! j = i) [0..<n]) in
      bind_go (Tester_Group.Partition (pa 0) (pa 1) st) (\<lambda>st. Inr (st, AnnotateTwoPartitions t (pa 0) (pa 1) g)))"

subsection \<open>The contract of a clerk for keys that nobody else writes\<close>

text \<open>
  \<open>alone k w\<close>: from the state \<open>w\<close> on, no other client writes the key \<open>k\<close>. \<open>room w\<close> bounds the calls that
  can still lose a message. Only such a call can return \<open>ErrMaybe\<close>, and then the first copy of the
  request decided: the put was performed exactly if its version was the right one.
\<close>

locale sole_writer_clerk =
  fixes ck :: "'w IKVClerk"
    and look :: "'w \<Rightarrow> string \<Rightarrow> (string \<times> Tversion) option"
    and alone :: "string \<Rightarrow> 'w \<Rightarrow> bool"
    and room :: "'w \<Rightarrow> nat"
  assumes put_keeps: "ck_Put ck k v n w = (e, w') \<Longrightarrow> alone j w \<Longrightarrow> alone j w' \<and> (j \<noteq> k \<longrightarrow> look w' j = look w j)"
    and put_room: "ck_Put ck k v n w = (e, w') \<Longrightarrow> room w' \<le> room w \<and> (e = ErrMaybe \<longrightarrow> room w' < room w)"
    and put_effect: "ck_Put ck k v n w = (e, w') \<Longrightarrow> alone k w \<Longrightarrow>
      look w' k = (if (case look w k of None \<Rightarrow> n = 0 | Some (_, m) \<Rightarrow> m = n) then Some (v, n + 1) else look w k)"
    and put_error: "ck_Put ck k v n w = (e, w') \<Longrightarrow> alone k w \<Longrightarrow>
      (case look w k of
         None \<Rightarrow> if n = 0 then e \<in> {OK, ErrMaybe} else e = ErrNoKey
       | Some (_, m) \<Rightarrow> if m = n then e \<in> {OK, ErrMaybe} else e \<in> {ErrVersion, ErrMaybe})"
    and get_reads: "ck_Get ck k w = (r, w') \<Longrightarrow> alone k w \<Longrightarrow>
      r = (case look w k of None \<Rightarrow> \<lparr>gr_Value = '''', gr_Version = 0, gr_Err = ErrNoKey\<rparr>
           | Some (v, n) \<Rightarrow> \<lparr>gr_Value = v, gr_Version = n, gr_Err = OK\<rparr>)"
    and get_keeps: "ck_Get ck k w = (r, w') \<Longrightarrow> alone j w \<Longrightarrow> alone j w' \<and> look w' j = look w j"
begin

definition vers :: "'w \<Rightarrow> string \<Rightarrow> nat" where
  "vers w k = (case look w k of None \<Rightarrow> 0 | Some (_, n) \<Rightarrow> unat n)"

lemma put_vers:
  assumes "ck_Put ck k v n w = (e, w')" and "alone k w" and "vers w k < 2 ^ 64 - 1"
  shows "vers w' k = (if vers w k = unat n then vers w k + 1 else vers w k)"
    and "unat n \<le> vers w k \<Longrightarrow> e \<in> {OK, ErrVersion, ErrMaybe}"
    and "e = OK \<Longrightarrow> vers w k = unat n \<and> look w' k = Some (v, n + 1)"
    and "e = ErrVersion \<Longrightarrow> vers w k \<noteq> unat n"
proof -
  have "unat (n + 1) = unat n + 1" if "unat n < 2 ^ 64 - 1" using that by (simp add: unat_Suc_u64)
  then show "vers w' k = (if vers w k = unat n then vers w k + 1 else vers w k)"
    using put_effect [OF assms(1,2)] assms(3) by (auto simp: vers_def word_unat_eq_iff split: option.splits prod.splits if_splits)
  show "unat n \<le> vers w k \<Longrightarrow> e \<in> {OK, ErrVersion, ErrMaybe}"
    and "e = OK \<Longrightarrow> vers w k = unat n \<and> look w' k = Some (v, n + 1)"
    and "e = ErrVersion \<Longrightarrow> vers w k \<noteq> unat n"
    using put_error [OF assms(1,2)] put_effect [OF assms(1,2)]
    by (auto simp: vers_def word_unat_eq_iff split: option.splits prod.splits if_splits)
qed

text \<open>The loop of \<open>PutAtLeastOnce\<close> ends with the value stored under the version it returns.\<close>

lemma put_loop_lands:
  assumes "alone k (world ts)" and "unat ver \<le> vers (world ts) k" and "vers (world ts) k + room (world ts) + 1 < 2 ^ 64"
  shows "\<exists>ver' ts'. put_loop ck k v ver ts = Some (Inr (ver', ts')) \<and> look (world ts') k = Some (v, ver') \<and>
    vers (world ts) k < unat ver' \<and> glob ts' = glob ts"
  using assms
proof (induction "room (world ts) + (vers (world ts) k - unat ver)" arbitrary: ver ts rule: less_induct)
  case less
  obtain e w' where p: "ck_Put ck k v ver (world ts) = (e, w')" by (cases "ck_Put ck k v ver (world ts)")
  obtain ts1 where ts: "ts_Put ck k v ver ts = (e, ts1)" "world ts1 = w'" "glob ts1 = glob ts" by (simp add: ts_Put_def p)
  note lt = less.prems(3)
  have e: "e \<in> {OK, ErrVersion, ErrMaybe}" using put_vers(2) [OF p less.prems(1)] less.prems(2) lt by simp
  note vs = put_vers(1) [OF p less.prems(1)] put_vers(3) [OF p less.prems(1)] put_vers(4) [OF p less.prems(1)]
  have suc: "unat (ver + 1) = unat ver + 1" using less.prems(2) lt by (simp add: unat_Suc_u64)
  show ?case
  proof (cases "e = OK")
    case True
    then show ?thesis using ts vs(2) lt suc by (subst put_loop.simps) simp
  next
    case False
    note rm = put_room [OF p]
    have al: "alone k w'" using put_keeps [OF p less.prems(1)] by simp
    have m: "unat (ver + 1) \<le> vers w' k" "room w' + (vers w' k - unat (ver + 1)) < room (world ts) + (vers (world ts) k - unat ver)"
      "vers w' k + room w' + 1 < 2 ^ 64" "vers (world ts) k \<le> vers w' k"
      using False e vs(1,3) rm less.prems(2) lt suc by auto
    obtain ver' ts' where "put_loop ck k v (ver + 1) ts1 = Some (Inr (ver', ts'))" "look (world ts') k = Some (v, ver')"
        "vers w' k < unat ver'" "glob ts' = glob ts"
      using less.hyps [of ts1 "ver + 1"] m al ts(2,3) by auto
    then show ?thesis using False e ts m(4) by (subst put_loop.simps) (auto simp: Let_def)
  qed
qed

end

context sole_writer_clerk
begin

lemma put_each_keeps:
  "alone j (world ts) \<Longrightarrow> alone j (world (put_each ck kvs ts)) \<and>
    (j \<notin> fst ` set kvs \<longrightarrow> look (world (put_each ck kvs ts)) j = look (world ts) j) \<and> glob (put_each ck kvs ts) = glob ts"
proof (induction kvs arbitrary: ts)
  case (Cons a kvs)
  obtain k v where a: "a = (k, v)" by (cases a)
  obtain e w' where p: "ck_Put ck k v 0 (world ts) = (e, w')" by (cases "ck_Put ck k v 0 (world ts)")
  show ?case using Cons.IH [of "ts\<lparr>world := w'\<rparr>"] put_keeps [OF p Cons.prems] by (auto simp: a p)
qed simp

lemma put_each_stores:
  "distinct (map fst kvs) \<Longrightarrow> \<forall>k\<in>fst ` set kvs. alone k (world ts) \<and> look (world ts) k = None \<Longrightarrow> (k, v) \<in> set kvs \<Longrightarrow>
    look (world (put_each ck kvs ts)) k = Some (v, 1)"
proof (induction kvs arbitrary: ts)
  case (Cons a kvs)
  obtain k1 v1 where a: "a = (k1, v1)" by (cases a)
  obtain e w' where p: "ck_Put ck k1 v1 0 (world ts) = (e, w')" by (cases "ck_Put ck k1 v1 0 (world ts)")
  let ?ts = "ts\<lparr>world := w'\<rparr>"
  have k1: "alone k1 (world ts)" "look (world ts) k1 = None" using Cons.prems(2) a by auto
  have al: "alone j (world ts)" if "j \<in> fst ` set kvs" for j using Cons.prems(2) that by auto
  show ?case
  proof (cases "k = k1")
    case True
    then have "v = v1" using Cons.prems(1,3) a by (force simp: image_iff)
    moreover have "look w' k1 = Some (v1, 1)" using put_effect [OF p k1(1)] k1(2) by simp
    moreover have "alone k1 w'" using put_keeps [OF p k1(1)] by simp
    ultimately show ?thesis using put_each_keeps [of k1 ?ts kvs] Cons.prems(1) True by (simp add: a p)
  next
    case False
    have "alone j w' \<and> look w' j = None" if "j \<in> fst ` set kvs" for j
      using put_keeps [OF p al [OF that]] Cons.prems that a by auto
    then show ?thesis using Cons.IH [of ?ts] Cons.prems(1,3) False by (simp add: a p)
  qed
qed simp

lemma CheckGet_passes:
  assumes "alone k (world ts)" and "look (world ts) k = Some (v, n)" and "finfo (glob ts) \<noteq> None"
  shows "\<exists>ts'. CheckGet t t' ck k v n ts = Inr ts' \<and> finfo (glob ts') \<noteq> None \<and>
    (\<forall>j. alone j (world ts) \<longrightarrow> alone j (world ts') \<and> look (world ts') j = look (world ts) j)"
proof -
  obtain r w' where g: "ck_Get ck k (world ts) = (r, w')" by (cases "ck_Get ck k (world ts)")
  have r: "r = \<lparr>gr_Value = v, gr_Version = n, gr_Err = OK\<rparr>" using get_reads [OF g assms(1)] assms(2) by simp
  show ?thesis using assms(3) get_keeps [OF g]
    by (auto simp: CheckGet_def on_glob_def AnnotateCheckerBegin_def AnnotateCheckerSuccess_def AnnotateCheckerEnd_def
        with_finfo_def ts_Get_def g r Let_def)
qed

lemma check_each_passes:
  "\<forall>(k, v)\<in>set kvs. alone k (world ts) \<and> look (world ts) k = Some (v, 1) \<Longrightarrow> finfo (glob ts) \<noteq> None \<Longrightarrow>
    \<exists>ts'. check_each t t' ck kvs ts = Inr ts'"
proof (induction kvs arbitrary: ts)
  case (Cons a kvs)
  obtain k v where a: "a = (k, v)" by (cases a)
  obtain ts1 where c: "CheckGet t t' ck k v 1 ts = Inr ts1" "finfo (glob ts1) \<noteq> None"
      "\<forall>j. alone j (world ts) \<longrightarrow> alone j (world ts1) \<and> look (world ts1) j = look (world ts) j"
    using CheckGet_passes [of k ts v 1 t t'] Cons.prems by (auto simp: a)
  have "\<forall>(k, v)\<in>set kvs. alone k (world ts1) \<and> look (world ts1) k = Some (v, 1)" using c(3) Cons.prems(1) by fastforce
  then show ?case using Cons.IH [of ts1] c by (simp add: a)
qed simp

end

lemma distinct_MakeKeys: "distinct (MakeKeys n)"
  by (simp add: MakeKeys_def distinct_map inj_on_def)

context sole_writer_clerk
begin

lemma SpreadPutsSize_passes:
  assumes "\<forall>k\<in>set (MakeKeys (length va)). alone k (world ts) \<and> look (world ts) k = None" and "finfo (glob ts) \<noteq> None"
  shows "\<exists>ts'. SpreadPutsSize t t' ck va ts = Inr ((MakeKeys (length va), va), ts')"
proof -
  let ?kvs = "zip (MakeKeys (length va)) va"
  have len: "length (MakeKeys (length va)) = length va" by (simp add: MakeKeys_def)
  have f: "map fst ?kvs = MakeKeys (length va)" using len by simp
  have k: "\<forall>k\<in>fst ` set ?kvs. alone k (world ts) \<and> look (world ts) k = None"
    using assms(1) f by (metis list.set_map)
  have "alone k (world (put_each ck ?kvs ts)) \<and> look (world (put_each ck ?kvs ts)) k = Some (v, 1)" if "(k, v) \<in> set ?kvs" for k v
  proof -
    have "k \<in> fst ` set ?kvs" using that by force
    then have "alone k (world ts)" using k by blast
    then show ?thesis using put_each_stores [OF _ k that] put_each_keeps [of k ts ?kvs] f distinct_MakeKeys by simp
  qed
  moreover have "finfo (glob (put_each ck ?kvs ts)) \<noteq> None"
  proof -
    have "glob (put_each ck xs u) = glob u" for xs and u :: "'w Test"
      by (induction xs arbitrary: u) auto
    then show ?thesis using assms(2) by simp
  qed
  ultimately obtain ts' where "check_each t t' ck ?kvs (put_each ck ?kvs ts) = Inr ts'"
    using check_each_passes [of ?kvs "put_each ck ?kvs ts" t t'] by blast
  then show ?thesis by (simp add: SpreadPutsSize_def Let_def)
qed

end

subsection \<open>The clerk of the key/value server keeps the contract\<close>

text \<open>
  The state behind the clerk: the server and, for each of the next calls, what its attempts meet;
  a call whose schedule has run out, or for which none is left, is answered at once.
\<close>

type_synonym sched_world = "KVServer \<times> attempt list list"

definition final_attempt :: attempt where
  "final_attempt = \<lparr>others = [], outcome = Answered\<rparr>"

definition sched_clerk :: "sched_world IKVClerk" where
  "sched_clerk =
     \<lparr>ck_Get = (\<lambda>k (s, sch). case Clerk_Get ((case sch of [] \<Rightarrow> [] | as # _ \<Rightarrow> as) @ [final_attempt]) \<lparr>ga_Key = k\<rparr> s of
          (s', r) \<Rightarrow> (the r, s', tl sch)),
      ck_Put = (\<lambda>k v n (s, sch). case Clerk_Put ((case sch of [] \<Rightarrow> [] | as # _ \<Rightarrow> as) @ [final_attempt]) False
            \<lparr>pa_Key = k, pa_Value = v, pa_Version = n\<rparr> s of
          (s', e, _) \<Rightarrow> (the e, s', tl sch))\<rparr>"

definition untouched :: "string \<Rightarrow> attempt list \<Rightarrow> bool" where
  "untouched k as \<longleftrightarrow> (\<forall>a\<in>set as. \<forall>p\<in>set (others a). pa_Key p \<noteq> k)"

definition sole_writer :: "string \<Rightarrow> sched_world \<Rightarrow> bool" where
  "sole_writer k w \<longleftrightarrow> (\<forall>as\<in>set (snd w). untouched k as)"

lemma lookup_Put_other: "pa_Key p \<noteq> k \<Longrightarrow> lookup (Put_state s p) k = lookup s k"
  by (simp add: lookup_Put)

lemma serve_untouched: "\<forall>p\<in>set ps. pa_Key p \<noteq> k \<Longrightarrow> lookup (serve s ps) k = lookup s k"
  by (induction ps arbitrary: s) (auto simp: lookup_Put_other)

lemma Clerk_Put_state_Cons:
  "outcome a = ReplyLost \<Longrightarrow>
    fst (Clerk_Put (a # as) retry x s) = fst (Clerk_Put as True x (Put_state (serve s (others a)) x))"
  by (auto simp: Clerk_Put.simps(2) Let_def split: prod.splits)

lemma Clerk_Put_other_key:
  "untouched j as \<Longrightarrow> pa_Key x \<noteq> j \<Longrightarrow> lookup (fst (Clerk_Put as retry x s)) j = lookup s j"
proof (induction as arbitrary: retry s)
  case (Cons a as)
  have u: "untouched j as" "lookup (serve s (others a)) j = lookup s j"
    using Cons.prems(1) serve_untouched by (auto simp: untouched_def)
  show ?case
  proof (cases "outcome a")
    case ReplyLost
    then show ?thesis using Cons.IH [OF u(1) Cons.prems(2), of True "Put_state (serve s (others a)) x"] u Cons.prems(2)
      by (simp add: Clerk_Put_state_Cons lookup_Put_other)
  qed (use Cons.IH [OF u(1) Cons.prems(2)] u Cons.prems(2) in \<open>simp_all add: lookup_Put_other\<close>)
qed simp

lemma Put_twice:
  assumes "Put_err s x = OK"
  shows "Put_err (Put_state s x) x = ErrVersion" "lookup (Put_state s x) (pa_Key x) = Some (pa_Value x, pa_Version x + 1)"
  using assms by (simp_all add: Put_err_lookup lookup_Put)

text \<open>Nobody else writes the key: the first attempt that reaches the server decides.\<close>

definition sole_result :: "attempt list \<Rightarrow> bool \<Rightarrow> PutArgs \<Rightarrow> KVServer \<Rightarrow> KVServer \<times> err option \<times> put_event list \<Rightarrow> bool" where
  "sole_result as retry x s r \<longleftrightarrow>
     (\<exists>e. put_ret r = Some e \<and> e \<in> {Put_err s x, ErrMaybe} \<and> (e = ErrMaybe \<longrightarrow> (retry \<or> as \<noteq> []) \<and> Put_err s x \<noteq> ErrNoKey)) \<and>
     lookup (fst r) (pa_Key x) = (if Put_err s x = OK then Some (pa_Value x, pa_Version x + 1) else lookup s (pa_Key x))"

lemma Clerk_Put_sole:
  "untouched (pa_Key x) as \<Longrightarrow> sole_result as retry x s (Clerk_Put (as @ [final_attempt]) retry x s)"
proof (induction as arbitrary: retry s)
  case Nil
  then show ?case using Put_err_range [of s x] by (auto simp: final_attempt_def lookup_Put sole_result_def put_result_def)
next
  case (Cons a as)
  let ?s1 = "serve s (others a)"
  have u: "untouched (pa_Key x) as" "lookup ?s1 (pa_Key x) = lookup s (pa_Key x)"
    using Cons.prems serve_untouched by (auto simp: untouched_def)
  have e1: "Put_err ?s1 x = Put_err s x" using u(2) by (simp add: Put_err_lookup)
  show ?case
  proof (cases "outcome a")
    case ReqLost
    then show ?thesis using Cons.IH [OF u(1), of True ?s1] e1 u(2) by (simp add: sole_result_def)
  next
    case Answered
    then show ?thesis using e1 u(2) Put_err_range [of s x] by (auto simp: lookup_Put sole_result_def put_result_def)
  next
    case ReplyLost
    have r: "put_ret (Clerk_Put (a # as @ [final_attempt]) retry x s) = put_ret (Clerk_Put (as @ [final_attempt]) True x (Put_state ?s1 x))"
      "fst (Clerk_Put (a # as @ [final_attempt]) retry x s) = fst (Clerk_Put (as @ [final_attempt]) True x (Put_state ?s1 x))"
      using ReplyLost by (simp_all add: Clerk_Put_state_Cons)
    note IH = Cons.IH [OF u(1), of True "Put_state ?s1 x"]
    show ?thesis
    proof (cases "Put_err s x = OK")
      case True
      moreover from this have ok: "Put_err ?s1 x = OK" using e1 by simp
      moreover have "put_ret (Clerk_Put (as @ [final_attempt]) True x (Put_state ?s1 x)) \<noteq> Some ErrVersion"
        by (rule Clerk_Put_retry_ErrVersion)
      ultimately show ?thesis using IH Put_twice [OF ok] r by (auto simp: sole_result_def)
    next
      case False
      then have "Put_state ?s1 x = ?s1" using e1 by (simp add: Put_unchanged)
      then show ?thesis using IH e1 u(2) False r by (simp add: sole_result_def)
    qed
  qed
qed

lemma Clerk_Get_untouched:
  "untouched k as \<Longrightarrow> snd (Clerk_Get (as @ [final_attempt]) \<lparr>ga_Key = k\<rparr> s) \<noteq> None \<and>
    snd (Clerk_Get (as @ [final_attempt]) \<lparr>ga_Key = k\<rparr> s) = Some (Get s \<lparr>ga_Key = k\<rparr>)"
proof (induction as arbitrary: s)
  case (Cons a as)
  have u: "untouched k as" "lookup (serve s (others a)) k = lookup s k"
    using Cons.prems serve_untouched by (auto simp: untouched_def)
  then have "Get (serve s (others a)) \<lparr>ga_Key = k\<rparr> = Get s \<lparr>ga_Key = k\<rparr>" by (simp add: Get_lookup)
  then show ?case using Cons.IH [OF u(1), of "serve s (others a)"] by (cases "outcome a") (simp_all add: Let_def)
qed (simp add: final_attempt_def)

lemma Clerk_Get_keeps:
  "untouched j as \<Longrightarrow> lookup (fst (Clerk_Get (as @ [final_attempt]) x s)) j = lookup s j"
proof (induction as arbitrary: s)
  case (Cons a as)
  have u: "untouched j as" "lookup (serve s (others a)) j = lookup s j"
    using Cons.prems serve_untouched by (auto simp: untouched_def)
  then show ?case using Cons.IH [OF u(1), of "serve s (others a)"] by (cases "outcome a") (simp_all add: Let_def)
qed (simp add: final_attempt_def)

abbreviation put_args :: "string \<Rightarrow> string \<Rightarrow> Tversion \<Rightarrow> PutArgs" where
  "put_args k v n \<equiv> \<lparr>pa_Key = k, pa_Value = v, pa_Version = n\<rparr>"

definition sched_head :: "sched_world \<Rightarrow> attempt list" where
  "sched_head w = (case snd w of [] \<Rightarrow> [] | as # _ \<Rightarrow> as)"

lemma sched_put_eq:
  "ck_Put sched_clerk k v n w =
    (let r = Clerk_Put (sched_head w @ [final_attempt]) False (put_args k v n) (fst w) in (the (put_ret r), fst r, tl (snd w)))"
  by (simp add: sched_clerk_def sched_head_def Let_def split: prod.splits list.splits)

lemma sched_get_eq:
  "ck_Get sched_clerk k w =
    (let r = Clerk_Get (sched_head w @ [final_attempt]) \<lparr>ga_Key = k\<rparr> (fst w) in (the (snd r), fst r, tl (snd w)))"
  by (simp add: sched_clerk_def sched_head_def Let_def split: prod.splits list.splits)

lemma sole_writer_untouched: "sole_writer k w \<Longrightarrow> untouched k (sched_head w)"
  by (cases "snd w") (auto simp: sole_writer_def untouched_def sched_head_def)

lemma untouched_final: "untouched k as \<Longrightarrow> untouched k (as @ [final_attempt])"
  by (auto simp: untouched_def final_attempt_def)

lemma sole_writer_tl: "sole_writer k w \<Longrightarrow> sole_writer k (s, tl (snd w))"
  by (cases "snd w") (auto simp: sole_writer_def)

lemma sched_put_keeps:
  assumes "ck_Put sched_clerk k v n w = (e, w')" and "sole_writer j w"
  shows "sole_writer j w' \<and> (j \<noteq> k \<longrightarrow> lookup (fst w') j = lookup (fst w) j)"
proof -
  have "untouched j (sched_head w @ [final_attempt])" by (intro untouched_final sole_writer_untouched [OF assms(2)])
  then show ?thesis
    using assms(1) Clerk_Put_other_key [of j "sched_head w @ [final_attempt]" "put_args k v n" False "fst w"] sole_writer_tl [OF assms(2)]
    by (auto simp: sched_put_eq Let_def)
qed

lemma sched_put_room:
  assumes "ck_Put sched_clerk k v n w = (e, w')"
  shows "length (snd w') \<le> length (snd w) \<and> (e = ErrMaybe \<longrightarrow> length (snd w') < length (snd w))"
proof -
  have w': "snd w' = tl (snd w)" using assms by (auto simp: sched_put_eq Let_def)
  have "e \<noteq> ErrMaybe" if "snd w = []"
  proof -
    have "sched_head w = []" using that by (simp add: sched_head_def)
    then have "e = Put_err (fst w) (put_args k v n)" using assms by (simp add: sched_put_eq final_attempt_def Let_def)
    then show ?thesis using Put_err_range [of "fst w" "put_args k v n"] by auto
  qed
  then show ?thesis using w' by (cases "snd w") auto
qed

lemma sched_put_sole:
  assumes "ck_Put sched_clerk k v n w = (e, w')" and "sole_writer k w"
  shows "e \<in> {Put_err (fst w) (put_args k v n), ErrMaybe} \<and> (e = ErrMaybe \<longrightarrow> Put_err (fst w) (put_args k v n) \<noteq> ErrNoKey) \<and>
    lookup (fst w') k = (if Put_err (fst w) (put_args k v n) = OK then Some (v, n + 1) else lookup (fst w) k)"
proof -
  have "untouched (pa_Key (put_args k v n)) (sched_head w)" using sole_writer_untouched [OF assms(2)] by simp
  from Clerk_Put_sole [OF this, of False "fst w"] show ?thesis
    using assms(1) by (auto simp: sole_result_def sched_put_eq Let_def)
qed

lemma sched_get_spec:
  assumes "ck_Get sched_clerk k w = (r, w')"
  shows "sole_writer k w \<Longrightarrow> r = Get (fst w) \<lparr>ga_Key = k\<rparr>"
    and "sole_writer j w \<Longrightarrow> sole_writer j w' \<and> lookup (fst w') j = lookup (fst w) j"
proof -
  show "r = Get (fst w) \<lparr>ga_Key = k\<rparr>" if "sole_writer k w"
    using Clerk_Get_untouched [OF sole_writer_untouched [OF that], of "fst w"] assms by (auto simp: sched_get_eq Let_def)
  show "sole_writer j w' \<and> lookup (fst w') j = lookup (fst w) j" if "sole_writer j w"
    using Clerk_Get_keeps [OF sole_writer_untouched [OF that]] sole_writer_tl [OF that] assms by (auto simp: sched_get_eq Let_def)
qed

interpretation sched: sole_writer_clerk sched_clerk "\<lambda>w. lookup (fst w)" sole_writer "\<lambda>w. length (snd w)"
proof (unfold_locales, goal_cases)
  case (1 k v n w e w' j)
  then show ?case by (rule sched_put_keeps)
next
  case (2 k v n w e w')
  then show ?case by (rule sched_put_room)
next
  case (3 k v n w e w')
  from sched_put_sole [OF this] show ?case by (simp add: Put_err_lookup split: option.splits prod.splits)
next
  case (4 k v n w e w')
  from sched_put_sole [OF this] show ?case by (auto simp: Put_err_lookup split: option.splits prod.splits if_splits)
next
  case (5 k w r w')
  from sched_get_spec(1) [OF this] show ?case by (simp add: Get_lookup split: option.splits)
next
  case (6 k w r w' j)
  then show ?case by (rule sched_get_spec(2))
qed

lemma sched_vers: "sched.vers w k = version_of (fst w) k"
  by (simp add: sched.vers_def version_of_def)

text \<open>
  \<open>PutAtLeastOnce\<close> returns, whatever requests and replies the network loses, when no other
  client writes the key, its version is not behind the one the call starts with and cannot overflow;
  afterwards the server stores the value under exactly the version that the call returns.\<close>

theorem put_at_least_once_lands:
  assumes "world ts = (s, sch)" and "\<forall>as\<in>set sch. \<forall>a\<in>set as. \<forall>p\<in>set (others a). pa_Key p \<noteq> key"
    and "unat ver \<le> version_of s key" and "version_of s key + length sch + 1 < 2 ^ 64"
  shows "\<exists>ver' ts'. PutAtLeastOnce t sched_clerk key val ver ts = Some (Inr (ver', ts')) \<and>
    lookup (fst (world ts')) key = Some (val, ver') \<and> version_of s key < unat ver'"
proof -
  have "sole_writer key (world ts)" using assms(1,2) by (simp add: sole_writer_def untouched_def)
  then obtain ver' ts' where "put_loop sched_clerk key val ver ts = Some (Inr (ver', ts'))"
      "lookup (fst (world ts')) key = Some (val, ver')" "version_of s key < unat ver'"
    using sched.put_loop_lands [of key ts ver val] assms(1,3,4) by (auto simp: sched_vers)
  then show ?thesis by (simp add: PutAtLeastOnce_def on_glob_def Let_def)
qed

theorem put_at_least_once_lands_witness:
  "\<exists>ver' ts'. PutAtLeastOnce 1 sched_clerk ''k'' ''v'' 0
      (MakeTest (MakeKVServer, [[\<lparr>others = [], outcome = ReplyLost\<rparr>]]) no_log) = Some (Inr (ver', ts')) \<and>
    lookup (fst (world ts')) ''k'' = Some (''v'', ver') \<and> 0 < unat ver'"
  using put_at_least_once_lands [of "MakeTest (MakeKVServer, [[\<lparr>others = [], outcome = ReplyLost\<rparr>]]) no_log" MakeKVServer
      "[[\<lparr>others = [], outcome = ReplyLost\<rparr>]]" "''k''" 0 1 "''v''"]
  by (simp add: MakeTest_def MakeKVServer_def version_of_def lookup_def)

text \<open>
  \<open>SpreadPutsSize\<close> passes its own checks: on keys that do not exist yet and that no other
  client writes, the checks after the puts find every value under version 1, even when replies were
  lost and the clerk could only report \<open>ErrMaybe\<close>.\<close>

theorem spread_puts_pass:
  assumes "world ts = (s, sch)" and "finfo (glob ts) = Some fi"
    and "\<forall>k\<in>set (MakeKeys (length va)). sole_writer k (s, sch) \<and> lookup s k = None"
  shows "\<exists>ts'. SpreadPutsSize t t' sched_clerk va ts = Inr ((MakeKeys (length va), va), ts')"
  using sched.SpreadPutsSize_passes [of va ts t t'] assms by simp

theorem spread_puts_pass_witness:
  "\<exists>ts'. SpreadPutsSize 1 2 sched_clerk [''a'', ''b'']
      (MakeTest (MakeKVServer, [[\<lparr>others = [], outcome = ReplyLost\<rparr>]]) (AnnotateTest 1 ''Test'' 1 no_log)) =
    Inr ((MakeKeys 2, [''a'', ''b'']), ts')"
proof -
  obtain fi where fi: "finfo (AnnotateTest 1 ''Test'' 1 no_log) = Some fi" using AnnotateTest_nservers [of 1 "''Test''" 1 no_log] by auto
  let ?ts = "MakeTest (MakeKVServer, [[\<lparr>others = [], outcome = ReplyLost\<rparr>]]) (AnnotateTest 1 ''Test'' 1 no_log)"
  have w: "world ?ts = (MakeKVServer, [[\<lparr>others = [], outcome = ReplyLost\<rparr>]])" "finfo (glob ?ts) = Some fi" using fi by (simp_all add: MakeTest_def)
  have "\<forall>k\<in>set (MakeKeys (length [''a'', ''b''])). sole_writer k (MakeKVServer, [[\<lparr>others = [], outcome = ReplyLost\<rparr>]]) \<and> lookup MakeKVServer k = None"
    by (simp add: sole_writer_def untouched_def lookup_def MakeKVServer_def)
  from spread_puts_pass [OF w this, of 1 2] show ?thesis by (simp add: numeral_2_eq_2)
qed

end
