(* ===== verification/Kvtest_Append.thy ===== *)
theory Kvtest_Append
  imports Kvtest "HOL-Library.Countable"
begin

text \<open>
  The append test of \<open>kvtest1/kvtest.go\<close>: many clients run \<open>OneClientAppend\<close> on one key and
  \<open>CheckAppends\<close> examines the list they built. The clients' turns interleave at every request: a
  step is the \<open>Get\<close> of a client, or one attempt of the clerk's \<open>Put\<close>, which may be lost on the way, carried out
  with the reply lost, or answered (\<open>kvsrv1/client.go\<close>). The checker accepts every such run.
\<close>

subsection \<open>What the checker computes\<close>

definition ns_of :: "int \<Rightarrow> entry list \<Rightarrow> int list" where
  "ns_of c es = map e_N (filter (\<lambda>e. e_Id e = c) es)"

lemma ns_of_simps [simp]:
  "ns_of c [] = []" "ns_of c (e # es) = (if e_Id e = c then e_N e # ns_of c es else ns_of c es)"
  "ns_of c (es @ es') = ns_of c es @ ns_of c es'"
  by (simp_all add: ns_of_def)

lemma iget_update: "iget (AList.update k v m) j = (if j = k then v else iget m j)"
  by (simp add: iget_def update_conv)

definition in_order :: "entry list \<Rightarrow> imap \<Rightarrow> bool" where
  "in_order es expect \<longleftrightarrow> (\<forall>c. sorted_wrt (<) (ns_of c es) \<and> (\<forall>n\<in>set (ns_of c es). iget expect c \<le> n))"

definition next_of :: "entry list \<Rightarrow> int \<Rightarrow> int \<Rightarrow> int" where
  "next_of es c n = (if ns_of c es = [] then n else last (ns_of c es) + 1)"

lemma in_order_Cons:
  assumes "in_order (e # es) expect"
  shows "iget expect (e_Id e) \<le> e_N e" "in_order es (AList.update (e_Id e) (e_N e + 1) expect)"
proof -
  have all_c: "sorted_wrt (<) (ns_of c (e # es)) \<and> (\<forall>n\<in>set (ns_of c (e # es)). iget expect c \<le> n)" for c
    using assms unfolding in_order_def by blast
  show "iget expect (e_Id e) \<le> e_N e" using all_c [of "e_Id e"] by simp
  show "in_order es (AList.update (e_Id e) (e_N e + 1) expect)" unfolding in_order_def
  proof
    fix c
    show "sorted_wrt (<) (ns_of c es) \<and> (\<forall>n\<in>set (ns_of c es). iget (AList.update (e_Id e) (e_N e + 1) expect) c \<le> n)"
      using all_c [of c] by (cases "c = e_Id e") (auto simp: iget_update)
  qed
qed

lemma scan_entries_in_order:
  "in_order es expect \<Longrightarrow> \<exists>ex sk. scan_entries es expect skipped = Inr (ex, sk) \<and>
    (\<forall>c. iget ex c = next_of es c (iget expect c) \<and>
         iget sk c = iget skipped c + iget ex c - iget expect c - int (length (ns_of c es))) \<and>
    fst ` set ex = fst ` set expect \<union> e_Id ` set es \<and> (distinct (map fst expect) \<longrightarrow> distinct (map fst ex))"
proof (induction es arbitrary: expect skipped)
  case Nil
  then show ?case by (simp add: next_of_def)
next
  case (Cons e es)
  let ?c = "e_Id e" and ?n = "e_N e"
  let ?ex = "AList.update ?c (?n + 1) expect"
  let ?sk = "if iget expect ?c = ?n then skipped else AList.update ?c (iget skipped ?c + (?n - iget expect ?c)) skipped"
  have le: "iget expect ?c \<le> ?n" and io: "in_order es ?ex" using in_order_Cons [OF Cons.prems] by simp_all
  have eq: "scan_entries (e # es) expect skipped = scan_entries es ?ex ?sk" using le by (simp add: Let_def)
  have sk: "iget ?sk c = iget skipped c + (if c = ?c then ?n - iget expect ?c else 0)" for c by (simp add: iget_update)
  obtain ex sk where r: "scan_entries es ?ex ?sk = Inr (ex, sk)"
      "\<forall>c. iget ex c = next_of es c (iget ?ex c) \<and> iget sk c = iget ?sk c + iget ex c - iget ?ex c - int (length (ns_of c es))"
      "fst ` set ex = fst ` set ?ex \<union> e_Id ` set es" "distinct (map fst ?ex) \<longrightarrow> distinct (map fst ex)"
    using Cons.IH [OF io, of ?sk] by blast
  have "iget ex c = next_of (e # es) c (iget expect c) \<and>
      iget sk c = iget skipped c + iget ex c - iget expect c - int (length (ns_of c (e # es)))" for c
    using r(2) sk [of c] by (auto simp: next_of_def iget_update)
  moreover have "fst ` set ?ex = insert ?c (fst ` set expect)"
    using dom_update [of ?c "?n + 1" expect] by (simp add: dom_map_of_conv_image_fst)
  moreover have "distinct (map fst expect) \<longrightarrow> distinct (map fst ?ex)" by (simp add: distinct_update)
  ultimately show ?case using eq r by (intro exI [of _ ex] exI [of _ sk]) auto
qed

lemma check_clients_pass:
  "\<forall>(c, n)\<in>set expect. 0 \<le> c \<and> c < int (length rs) \<and> iget skipped c \<le> Nmaybe (rs ! nat c) \<and>
    n \<le> Nok (rs ! nat c) + Nmaybe (rs ! nat c) \<Longrightarrow> check_clients expect skipped rs = Inr ()"
  by (induction expect skipped rs rule: check_clients.induct) auto

text \<open>A sufficient condition for the checker to pass, on the list and the counts of the clients.\<close>

lemma CheckAppends_pass:
  assumes "length rs = nclnt" and "sint ver = int (length es) + 1"
    and "\<forall>e\<in>set es. 0 \<le> e_Id e \<and> e_Id e < int nclnt"
    and "\<forall>c. sorted_wrt (<) (ns_of c es) \<and> (\<forall>n\<in>set (ns_of c es). 0 \<le> n)"
    and "\<forall>c<nclnt. (\<forall>n\<in>set (ns_of (int c) es). n < Nok (rs ! c) + Nmaybe (rs ! c)) \<and>
      0 \<le> Nmaybe (rs ! c) \<and> 0 \<le> Nok (rs ! c) \<and> Nok (rs ! c) \<le> int (length (ns_of (int c) es))"
  shows "CheckAppends es nclnt rs ver = Inr ()"
proof -
  let ?z = "map (\<lambda>i. (int i, 0 :: int)) [0..<nclnt]"
  have z: "iget ?z c = 0" for c
    by (cases "map_of ?z c") (auto simp: iget_def dest: map_of_SomeD)
  have keys: "fst ` set ?z = int ` {..<nclnt}" "distinct (map fst ?z)" by (force simp: image_iff, simp add: distinct_map inj_on_def comp_def)
  have "in_order es ?z" using assms(4) z by (simp add: in_order_def)
  from scan_entries_in_order [OF this, of ?z] obtain ex sk where r: "scan_entries es ?z ?z = Inr (ex, sk)"
      "\<And>c. iget ex c = next_of es c 0" "\<And>c. iget sk c = iget ex c - int (length (ns_of c es))"
      "fst ` set ex = fst ` set ?z \<union> e_Id ` set es" "distinct (map fst ex)"
    using keys(2) z by auto
  have "0 \<le> c \<and> c < int (length rs) \<and> iget sk c \<le> Nmaybe (rs ! nat c) \<and> n \<le> Nok (rs ! nat c) + Nmaybe (rs ! nat c)"
    if cn: "(c, n) \<in> set ex" for c n
  proof -
    have "c \<in> fst ` set ex" using cn by force
    then have c: "0 \<le> c" "c < int nclnt" using r(4) keys(1) assms(3) by auto
    have n: "n = iget ex c" using map_of_is_SomeI [OF r(5) cn] by (simp add: iget_def)
    have p: "(\<forall>n\<in>set (ns_of c es). n < Nok (rs ! nat c) + Nmaybe (rs ! nat c)) \<and>
        0 \<le> Nmaybe (rs ! nat c) \<and> 0 \<le> Nok (rs ! nat c) \<and> Nok (rs ! nat c) \<le> int (length (ns_of c es))"
      using assms(5) c by (metis int_nat_eq nat_less_iff)
    have le: "next_of es c 0 \<le> Nok (rs ! nat c) + Nmaybe (rs ! nat c)"
      using p by (auto simp: next_of_def zless_imp_add1_zle)
    then show ?thesis using c p r(2,3) [of c] n assms(1) by auto
  qed
  then have "check_clients ex sk rs = Inr ()" by (intro check_clients_pass) blast
  then show ?thesis using r(1) assms(2) by (simp add: CheckAppends_def)
qed

subsection \<open>Clients that run at the same time\<close>

text \<open>Where a client is: before its \<open>GetJson\<close>, inside \<open>PutJson\<close> with what it read and the clerk's retry flag, or stopped by \<open>Fatalf\<close>.\<close>

datatype ap_place = ApGet | ApPut Tversion "entry list" bool | ApFatal

record appender =
  ap_at :: ap_place
  ap_i :: int
  ap_res :: ClntRes

record ap_sys =
  ap_srv :: KVServer
  ap_cl :: "nat \<Rightarrow> appender"

definition ap_args :: "entry list json \<Rightarrow> nat \<Rightarrow> int \<Rightarrow> entry list \<Rightarrow> Tversion \<Rightarrow> PutArgs" where
  "ap_args js c i es ver = put_args ''k'' (Marshal js (es @ [\<lparr>e_Id = int c, e_N = i\<rparr>])) ver"

definition ap_got :: "entry list json \<Rightarrow> appender \<Rightarrow> GetReply \<Rightarrow> appender" where
  "ap_got js a r = a\<lparr>ap_at := (case decode_reply js r of Inl _ \<Rightarrow> ApFatal | Inr (ver, es) \<Rightarrow> ApPut ver es False)\<rparr>"

definition ap_done :: "appender \<Rightarrow> err \<Rightarrow> appender" where
  "ap_done a e =
     (case append_result e of
        None \<Rightarrow> a\<lparr>ap_at := ApGet\<rparr>
      | Some okf \<Rightarrow> a\<lparr>ap_at := ApGet, ap_i := ap_i a + 1, ap_res := add_res okf (ap_res a)\<rparr>)"

definition ap_set :: "ap_sys \<Rightarrow> nat \<Rightarrow> KVServer \<Rightarrow> appender \<Rightarrow> ap_sys" where
  "ap_set s c srv a = \<lparr>ap_srv = srv, ap_cl = (ap_cl s)(c := a)\<rparr>"

inductive append_step :: "entry list json \<Rightarrow> nat \<Rightarrow> ap_sys \<Rightarrow> ap_sys \<Rightarrow> bool" for js nclnt where
  get: "c < nclnt \<Longrightarrow> ap_at (ap_cl s c) = ApGet \<Longrightarrow>
    append_step js nclnt s (ap_set s c (ap_srv s) (ap_got js (ap_cl s c) (Get (ap_srv s) \<lparr>ga_Key = ''k''\<rparr>)))"
| req_lost: "c < nclnt \<Longrightarrow> ap_at (ap_cl s c) = ApPut ver es r \<Longrightarrow>
    append_step js nclnt s (ap_set s c (ap_srv s) ((ap_cl s c)\<lparr>ap_at := ApPut ver es True\<rparr>))"
| reply_lost: "c < nclnt \<Longrightarrow> ap_at (ap_cl s c) = ApPut ver es r \<Longrightarrow> x = ap_args js c (ap_i (ap_cl s c)) es ver \<Longrightarrow>
    append_step js nclnt s (ap_set s c (Put_state (ap_srv s) x) ((ap_cl s c)\<lparr>ap_at := ApPut ver es True\<rparr>))"
| answered: "c < nclnt \<Longrightarrow> ap_at (ap_cl s c) = ApPut ver es r \<Longrightarrow> x = ap_args js c (ap_i (ap_cl s c)) es ver \<Longrightarrow>
    append_step js nclnt s (ap_set s c (Put_state (ap_srv s) x) (ap_done (ap_cl s c) (put_result r (Put_err (ap_srv s) x))))"

text \<open>The test starts with an empty list under version 1.\<close>

definition ap_init :: "entry list json \<Rightarrow> ap_sys" where
  "ap_init js = \<lparr>ap_srv = Put_state MakeKVServer (put_args ''k'' (Marshal js []) 0),
     ap_cl = (\<lambda>c. \<lparr>ap_at = ApGet, ap_i = 0, ap_res = \<lparr>Nok = 0, Nmaybe = 0\<rparr>\<rparr>)\<rparr>"

subsection \<open>The invariant\<close>

definition place_fits :: "entry list \<Rightarrow> ap_place \<Rightarrow> bool" where
  "place_fits es p = (case p of ApGet \<Rightarrow> True
     | ApPut v es' r \<Rightarrow> unat v \<le> length es \<or> unat v = length es + 1 \<and> es' = es
     | ApFatal \<Rightarrow> False)"

definition awaits_reply :: "entry list \<Rightarrow> ap_place \<Rightarrow> bool" where
  "awaits_reply es p = (case p of ApPut v es' r \<Rightarrow> r \<and> unat v \<le> length es | _ \<Rightarrow> False)"

definition appender_ok :: "entry list \<Rightarrow> nat \<Rightarrow> appender \<Rightarrow> bool" where
  "appender_ok es c a \<longleftrightarrow>
     sorted_wrt (<) (ns_of (int c) es) \<and> (\<forall>n\<in>set (ns_of (int c) es). 0 \<le> n \<and> n \<le> ap_i a) \<and>
     ap_i a = Nok (ap_res a) + Nmaybe (ap_res a) \<and> 0 \<le> Nok (ap_res a) \<and> 0 \<le> Nmaybe (ap_res a) \<and>
     Nok (ap_res a) \<le> int (length (ns_of (int c) es)) \<and> place_fits es (ap_at a) \<and>
     (ap_i a \<in> set (ns_of (int c) es) \<longrightarrow> awaits_reply es (ap_at a))"

definition ap_inv :: "entry list json \<Rightarrow> nat \<Rightarrow> nat \<Rightarrow> ap_sys \<Rightarrow> entry list \<Rightarrow> bool" where
  "ap_inv js nclnt m s es \<longleftrightarrow> lookup (ap_srv s) ''k'' = Some (Marshal js es, of_nat (length es + 1)) \<and> length es \<le> m \<and>
     (\<forall>e\<in>set es. 0 \<le> e_Id e \<and> e_Id e < int nclnt) \<and> (\<forall>c<nclnt. appender_ok es c (ap_cl s c))"

lemma ap_inv_init: "ap_inv js nclnt 0 (ap_init js) []"
proof -
  have "Put_err MakeKVServer (put_args ''k'' (Marshal js []) 0) = OK"
    by (simp add: Put_err_lookup lookup_def MakeKVServer_def)
  then show ?thesis by (simp add: ap_inv_def ap_init_def lookup_Put appender_ok_def place_fits_def)
qed

lemma unat_version: "length es + 1 < 2 ^ 64 \<Longrightarrow> unat (of_nat (length es + 1) :: Tversion) = length es + 1"
  by (simp only: unat_of_nat) simp

lemma sint_version: "length es + 1 < 2 ^ 63 \<Longrightarrow> sint (of_nat (length es + 1) :: Tversion) = int (length es) + 1"
  by (simp only: of_nat_Suc [symmetric] Suc_eq_plus1 [symmetric] signed_of_nat)
    (simp add: signed_take_bit_int_eq_self)

text \<open>What the put of an append does: it lands exactly if nothing was appended since the read.\<close>

lemma append_put:
  assumes "lookup srv ''k'' = Some (Marshal js es, of_nat (length es + 1))" and "length es + 1 < 2 ^ 64"
    and "place_fits es (ApPut v es' r)"
  shows "unat v = length es + 1 \<Longrightarrow> Put_err srv (ap_args js c i es' v) = OK \<and>
      lookup (Put_state srv (ap_args js c i es' v)) ''k'' =
        Some (Marshal js (es @ [\<lparr>e_Id = int c, e_N = i\<rparr>]), of_nat (length es + 2))"
    and "unat v \<le> length es \<Longrightarrow> Put_err srv (ap_args js c i es' v) = ErrVersion \<and> Put_state srv (ap_args js c i es' v) = srv"
proof -
  have u: "unat (of_nat (length es + 1) :: Tversion) = length es + 1" by (rule unat_version [OF assms(2)])
  have e: "Put_err srv (ap_args js c i es' v) = (if of_nat (length es + 1) = v then OK else ErrVersion)"
    using assms(1) by (simp add: Put_err_lookup ap_args_def)
  show "Put_err srv (ap_args js c i es' v) = OK \<and>
      lookup (Put_state srv (ap_args js c i es' v)) ''k'' = Some (Marshal js (es @ [\<lparr>e_Id = int c, e_N = i\<rparr>]), of_nat (length es + 2))"
    if v: "unat v = length es + 1"
  proof -
    have "v = of_nat (length es + 1)" using v u by (simp add: word_unat_eq_iff)
    moreover have "es' = es" using v assms(3) by (simp add: place_fits_def)
    ultimately show ?thesis using e by (simp add: lookup_Put) (simp add: ap_args_def)
  qed
  show "Put_err srv (ap_args js c i es' v) = ErrVersion \<and> Put_state srv (ap_args js c i es' v) = srv" if v: "unat v \<le> length es"
  proof -
    have "of_nat (length es + 1) \<noteq> v" using v u by auto
    then show ?thesis using e by (simp add: Put_unchanged)
  qed
qed

text \<open>An append by one client leaves the others as they are, except that what they read is out of date.\<close>

lemma appender_ok_other:
  assumes "appender_ok es d a" and "d \<noteq> c"
  shows "appender_ok (es @ [\<lparr>e_Id = int c, e_N = i\<rparr>]) d a"
  using assms by (auto simp: appender_ok_def place_fits_def awaits_reply_def split: ap_place.splits)

lemma appender_ok_append:
  assumes "appender_ok es c a" and "ap_at a = ApPut v es' r" and "unat v = length es + 1"
  shows "appender_ok (es @ [\<lparr>e_Id = int c, e_N = ap_i a\<rparr>]) c (a\<lparr>ap_at := ApPut v es' True\<rparr>)"
    and "appender_ok (es @ [\<lparr>e_Id = int c, e_N = ap_i a\<rparr>]) c (ap_done a OK)"
proof -
  have "ap_i a \<notin> set (ns_of (int c) es)" using assms by (auto simp: appender_ok_def awaits_reply_def)
  moreover have "\<forall>n\<in>set (ns_of (int c) es). n \<le> ap_i a" using assms(1) unfolding appender_ok_def by blast
  ultimately have lt: "\<forall>n\<in>set (ns_of (int c) es). n < ap_i a" by (metis order_le_less)
  show "appender_ok (es @ [\<lparr>e_Id = int c, e_N = ap_i a\<rparr>]) c (a\<lparr>ap_at := ApPut v es' True\<rparr>)"
    using assms lt by (auto simp: appender_ok_def place_fits_def awaits_reply_def sorted_wrt_append)
  show "appender_ok (es @ [\<lparr>e_Id = int c, e_N = ap_i a\<rparr>]) c (ap_done a OK)"
    using assms lt by (auto simp: appender_ok_def place_fits_def sorted_wrt_append ap_done_def append_result_def add_res_def)
qed

lemma appender_ok_refused:
  assumes "appender_ok es c a" and "ap_at a = ApPut v es' r" and "unat v \<le> length es"
  shows "appender_ok es c (ap_done a (put_result r ErrVersion))"
  using assms by (auto simp: appender_ok_def place_fits_def awaits_reply_def ap_done_def append_result_def add_res_def put_result_def)

lemma ap_inv_set:
  assumes "ap_inv js nclnt m s es" and "appender_ok es c a"
  shows "ap_inv js nclnt (m + 1) (ap_set s c (ap_srv s) a) es"
  using assms by (auto simp: ap_inv_def ap_set_def)

lemma ap_inv_append:
  assumes "ap_inv js nclnt m s es" and "c < nclnt" and "appender_ok (es @ [\<lparr>e_Id = int c, e_N = i\<rparr>]) c a"
    and "lookup srv ''k'' = Some (Marshal js (es @ [\<lparr>e_Id = int c, e_N = i\<rparr>]), of_nat (length es + 2))"
  shows "ap_inv js nclnt (m + 1) (ap_set s c srv a) (es @ [\<lparr>e_Id = int c, e_N = i\<rparr>])"
  using assms appender_ok_other by (auto simp: ap_inv_def ap_set_def)

lemma append_step_inv:
  assumes "append_step js nclnt s t" and "ap_inv js nclnt m s es" and "json_ok js" and "m + 1 < 2 ^ 64"
  shows "\<exists>es'. ap_inv js nclnt (m + 1) t es'"
  using assms(1)
proof cases
  case (get c)
  have lk: "lookup (ap_srv s) ''k'' = Some (Marshal js es, of_nat (length es + 1))" "length es \<le> m" and
    ok: "appender_ok es c (ap_cl s c)" using assms(2) get(2) by (auto simp: ap_inv_def)
  have "decode_reply js (Get (ap_srv s) \<lparr>ga_Key = ''k''\<rparr>) = Inr (of_nat (length es + 1), es)"
    using lk(1) assms(3) by (simp add: decode_reply_def Get_lookup json_ok_def)
  moreover have "unat (of_nat (length es + 1) :: Tversion) = length es + 1" using lk(2) assms(4) by (intro unat_version) simp
  ultimately have "appender_ok es c (ap_got js (ap_cl s c) (Get (ap_srv s) \<lparr>ga_Key = ''k''\<rparr>))"
    using ok get(3) by (auto simp: ap_got_def appender_ok_def place_fits_def awaits_reply_def)
  then show ?thesis using ap_inv_set [OF assms(2)] get(1) by blast
next
  case (req_lost c ver es' r)
  have "appender_ok es c (ap_cl s c)" using assms(2) req_lost(2) by (auto simp: ap_inv_def)
  then have "appender_ok es c ((ap_cl s c)\<lparr>ap_at := ApPut ver es' True\<rparr>)"
    using req_lost(3) by (auto simp: appender_ok_def place_fits_def awaits_reply_def)
  then show ?thesis using ap_inv_set [OF assms(2)] req_lost(1) by blast
next
  case (reply_lost c ver es' r x)
  have lk: "lookup (ap_srv s) ''k'' = Some (Marshal js es, of_nat (length es + 1))" "length es + 1 < 2 ^ 64" and
    ok: "appender_ok es c (ap_cl s c)" using assms(2,4) reply_lost(2) by (auto simp: ap_inv_def)
  have fits: "place_fits es (ApPut ver es' r)" using ok reply_lost(3) by (simp add: appender_ok_def)
  show ?thesis
  proof (cases "unat ver = length es + 1")
    case True
    then show ?thesis using ap_inv_append [OF assms(2) reply_lost(2) appender_ok_append(1) [OF ok reply_lost(3) True]]
        append_put(1) [OF lk fits True] reply_lost(1,4) by blast
  next
    case False
    then have le: "unat ver \<le> length es" using fits by (auto simp: place_fits_def)
    have "appender_ok es c ((ap_cl s c)\<lparr>ap_at := ApPut ver es' True\<rparr>)"
      using ok reply_lost(3) by (auto simp: appender_ok_def place_fits_def awaits_reply_def)
    then show ?thesis using ap_inv_set [OF assms(2)] append_put(2) [OF lk fits le] reply_lost(1,4) by auto
  qed
next
  case (answered c ver es' r x)
  have lk: "lookup (ap_srv s) ''k'' = Some (Marshal js es, of_nat (length es + 1))" "length es + 1 < 2 ^ 64" and
    ok: "appender_ok es c (ap_cl s c)" using assms(2,4) answered(2) by (auto simp: ap_inv_def)
  have fits: "place_fits es (ApPut ver es' r)" using ok answered(3) by (simp add: appender_ok_def)
  show ?thesis
  proof (cases "unat ver = length es + 1")
    case True
    note p = append_put(1) [OF lk fits True, of c "ap_i (ap_cl s c)"]
    then have "t = ap_set s c (Put_state (ap_srv s) x) (ap_done (ap_cl s c) OK)" using answered(1,4) by simp
    then show ?thesis using ap_inv_append [OF assms(2) answered(2) appender_ok_append(2) [OF ok answered(3) True]] p answered(4) by blast
  next
    case False
    then have le: "unat ver \<le> length es" using fits by (auto simp: place_fits_def)
    note p = append_put(2) [OF lk fits le, of c "ap_i (ap_cl s c)"]
    then have "t = ap_set s c (ap_srv s) (ap_done (ap_cl s c) (put_result r ErrVersion))" using answered(1,4) by simp
    then show ?thesis using ap_inv_set [OF assms(2) appender_ok_refused [OF ok answered(3) le]] by blast
  qed
qed

lemma append_run_inv:
  "(append_step js nclnt ^^ m) (ap_init js) s \<Longrightarrow> json_ok js \<Longrightarrow> m < 2 ^ 64 - 1 \<Longrightarrow> \<exists>es. ap_inv js nclnt m s es"
proof (induction m arbitrary: s)
  case 0
  then show ?case using ap_inv_init by auto
next
  case (Suc m)
  then obtain s0 where "(append_step js nclnt ^^ m) (ap_init js) s0" "append_step js nclnt s0 s" by auto
  then show ?case using Suc append_step_inv [of js nclnt s0 s m] by (metis Suc_eq_plus1 Suc_lessD less_diff_conv)
qed

text \<open>
  Property C8. The checker of the append test accepts every run: however many clients append to the
  same key, in whatever order their requests arrive and whichever requests and replies are lost, when
  all of them are between two turns, \<open>CheckAppends\<close> passes on what a \<open>GetJson\<close> of the key then returns and on the
  clients' own counts, and no client was stopped by \<open>Fatalf\<close>.\<close>

theorem append_checker_accepts:
  assumes "json_ok js" and "(append_step js nclnt ^^ m) (ap_init js) s" and "m < 2 ^ 63 - 1"
    and "\<forall>c<nclnt. \<forall>v es r. ap_at (ap_cl s c) \<noteq> ApPut v es r"
  shows "\<exists>ver es. decode_reply js (Get (ap_srv s) \<lparr>ga_Key = ''k''\<rparr>) = Inr (ver, es) \<and>
    CheckAppends es nclnt (map (\<lambda>c. ap_res (ap_cl s c)) [0..<nclnt]) ver = Inr () \<and>
    (\<forall>c<nclnt. ap_at (ap_cl s c) = ApGet)"
proof -
  obtain es where inv: "ap_inv js nclnt m s es" using append_run_inv [OF assms(2,1)] assms(3) by auto
  let ?ver = "of_nat (length es + 1) :: Tversion"
  have len: "length es + 1 < 2 ^ 63" using inv assms(3) by (simp add: ap_inv_def)
  have ok: "appender_ok es c (ap_cl s c)" if "c < nclnt" for c using inv that by (simp add: ap_inv_def)
  have at: "ap_at (ap_cl s c) = ApGet" if "c < nclnt" for c
    using ok [OF that] assms(4) that by (cases "ap_at (ap_cl s c)") (auto simp: appender_ok_def place_fits_def)
  have lt: "n < ap_i (ap_cl s c)" if "c < nclnt" "n \<in> set (ns_of (int c) es)" for c n
    using ok [OF that(1)] at [OF that(1)] that(2) by (auto simp: appender_ok_def awaits_reply_def order_le_less)
  have none: "ns_of c es = []" if "\<not> (0 \<le> c \<and> c < int nclnt)" for c
    using inv that by (auto simp: ap_inv_def ns_of_def filter_empty_conv)
  have "sorted_wrt (<) (ns_of c es) \<and> (\<forall>n\<in>set (ns_of c es). 0 \<le> n)" for c
  proof (cases "0 \<le> c \<and> c < int nclnt")
    case True
    then show ?thesis using ok [of "nat c"] by (auto simp: appender_ok_def)
  qed (use none in simp)
  moreover have "sint ?ver = int (length es) + 1" by (rule sint_version [OF len])
  ultimately have "CheckAppends es nclnt (map (\<lambda>c. ap_res (ap_cl s c)) [0..<nclnt]) ?ver = Inr ()"
    using inv ok lt by (intro CheckAppends_pass) (auto simp: ap_inv_def appender_ok_def)
  moreover have "decode_reply js (Get (ap_srv s) \<lparr>ga_Key = ''k''\<rparr>) = Inr (?ver, es)"
    using inv assms(1) by (simp add: decode_reply_def Get_lookup json_ok_def ap_inv_def)
  ultimately show ?thesis using at by blast
qed

text \<open>An encoding of lists of entries that decodes: the number of a list, in unary.\<close>

definition unary_json :: "entry list json" where
  "unary_json = \<lparr>Marshal = (\<lambda>es. replicate (to_nat (map (\<lambda>e. (e_Id e, e_N e)) es)) (CHR ''x'')),
     Unmarshal = (\<lambda>s. Some (map (\<lambda>(c, n). \<lparr>e_Id = c, e_N = n\<rparr>) (from_nat (length s))))\<rparr>"

lemma unary_json_ok: "json_ok unary_json"
proof -
  have "map (\<lambda>x. \<lparr>e_Id = e_Id x, e_N = e_N x\<rparr>) es = es" for es :: "entry list" by (induction es) auto
  then show ?thesis by (simp add: json_ok_def unary_json_def comp_def)
qed

lemma ap_done_at: "ap_at (ap_done a e) = ApGet"
  by (simp add: ap_done_def split: option.splits)

theorem append_checker_accepts_witness:
  "\<exists>s ver es. (append_step unary_json 1 ^^ 2) (ap_init unary_json) s \<and>
    CheckAppends es 1 [ap_res (ap_cl s 0)] ver = Inr ()"
proof -
  let ?i = "ap_init unary_json"
  let ?s1 = "ap_set ?i 0 (ap_srv ?i) (ap_got unary_json (ap_cl ?i 0) (Get (ap_srv ?i) \<lparr>ga_Key = ''k''\<rparr>))"
  have g: "append_step unary_json 1 ?i ?s1" by (rule append_step.get) (simp_all add: ap_init_def)
  obtain es where "ap_inv unary_json 1 (0 + 1) ?s1 es" using append_step_inv [OF g ap_inv_init unary_json_ok] by auto
  then have "ap_at (ap_cl ?s1 0) \<noteq> ApFatal" by (auto simp: ap_inv_def appender_ok_def place_fits_def)
  then obtain v es' r where at: "ap_at (ap_cl ?s1 0) = ApPut v es' r"
    by (cases "ap_at (ap_cl ?s1 0)") (auto simp: ap_set_def ap_got_def split: sum.splits prod.splits)
  let ?x = "ap_args unary_json 0 (ap_i (ap_cl ?s1 0)) es' v"
  let ?s2 = "ap_set ?s1 0 (Put_state (ap_srv ?s1) ?x) (ap_done (ap_cl ?s1 0) (put_result r (Put_err (ap_srv ?s1) ?x)))"
  have "append_step unary_json 1 ?s1 ?s2" by (rule append_step.answered [OF _ at refl]) simp
  then have run: "(append_step unary_json 1 ^^ 2) ?i ?s2" using g by (auto simp: numeral_2_eq_2)
  moreover have "\<forall>c<1. \<forall>v es r. ap_at (ap_cl ?s2 c) \<noteq> ApPut v es r" by (simp add: ap_set_def ap_done_at)
  ultimately show ?thesis using append_checker_accepts [OF unary_json_ok run] by auto
qed

end
