(* ===== verification/Raft_Apply.thy ===== *)
theory Raft_Apply
  imports Raft_Peer Tester_Annotation
begin

text \<open>
  The servers around the Raft peers in the Raft tests: \<open>raft1/server.go\<close>, with \<open>checkLogs\<close> of
  \<open>raft1/test.go\<close>, which their appliers call. A value of type \<open>any\<close> is an option, \<open>None\<close> for nil.
  The \<open>gob\<close> encoding of a snapshot is a parameter, as is the printing of values. \<open>log.Fatalf\<close> ends the
  process and is the value \<open>Inl LogFatal\<close>. What an applier hands to \<open>Raft.Snapshot\<close> is part of its result.
\<close>

subsection \<open>Data\<close>

record 'v ApplyMsg =
  CommandValid :: bool
  Command :: "'v option"
  CommandIndex :: int
  SnapshotValid :: bool
  am_Snapshot :: "nat list option"
  SnapshotTerm :: int
  SnapshotIndex :: int

record 'v rfsrv =
  rs_me :: nat
  applyErr :: string
  lastApplied :: int
  rs_persister :: "Persister option"
  rs_raft :: "Raft option"
  logs :: "int \<rightharpoonup> 'v option"

record 'v rftest =
  rsrvs :: "'v rfsrv option list"
  maxIndex :: int

record 'v snap_codec =
  enc_snap :: "int \<Rightarrow> 'v option list \<Rightarrow> nat list"
  dec_snap :: "nat list \<Rightarrow> (int \<times> 'v option list) option"

definition snap_codec_ok :: "'v snap_codec \<Rightarrow> bool" where
  "snap_codec_ok cd \<longleftrightarrow> (\<forall>i xs. dec_snap cd (enc_snap cd i xs) = Some (i, xs))"

definition SnapShotInterval :: int where
  "SnapShotInterval = 10"

text \<open>The environment of the appliers: printing, the encoding, and what the annotations read.\<close>

record 'v apply_env =
  show_any :: "'v option \<Rightarrow> string"
  codec :: "'v snap_codec"
  vis_enable :: string
  open_ok :: bool
  now :: int

subsection \<open>The servers\<close>

definition RLogs :: "'v rfsrv \<Rightarrow> int \<Rightarrow> 'v option option" where
  "RLogs rs i = logs rs i"

definition rs_GetState :: "'v rfsrv \<Rightarrow> (int \<times> bool) go" where
  "rs_GetState rs = (case rs_raft rs of None \<Rightarrow> Inl NilDeref | Some rf \<Rightarrow> Inr (GetState rf))"

definition rs_Raft :: "'v rfsrv \<Rightarrow> Raft option" where
  "rs_Raft rs = rs_raft rs"

definition rs_Kill :: "'v rfsrv \<Rightarrow> 'v rfsrv" where
  "rs_Kill rs =
     (let rs = rs\<lparr>rs_raft := None\<rparr> in
      case rs_persister rs of
        None \<Rightarrow> rs
      | Some ps \<Rightarrow> rs\<lparr>rs_persister := Some (Save ps (ReadRaftState ps) (ReadSnapshot ps))\<rparr>)"

definition rlog_of :: "'v option list \<Rightarrow> int \<rightharpoonup> 'v option" where
  "rlog_of xlog = (\<lambda>j. if 0 \<le> j \<and> j < int (length xlog) then Some (xlog ! nat j) else None)"

text \<open>The way out of the process: annotate and exit.\<close>

definition fail_exit :: "'v apply_env \<Rightarrow> string \<Rightarrow> string \<Rightarrow> globals \<Rightarrow> 'a go" where
  "fail_exit env desp details g =
     bind_go (AnnotateCheckerFailureBeforeExit (vis_enable env) (open_ok env) (now env) desp details g) (\<lambda>_. Inl LogFatal)"

definition ingestSnap :: "'v apply_env \<Rightarrow> globals \<Rightarrow> nat list option \<Rightarrow> int \<Rightarrow> 'v rfsrv \<Rightarrow> (string \<times> 'v rfsrv) go" where
  "ingestSnap env g snap index rs =
     (case snap of
        None \<Rightarrow> fail_exit env ''failed to ingest snapshot'' ''nil snapshot'' g
      | Some b \<Rightarrow>
          (case dec_snap (codec env) b of
             None \<Rightarrow> fail_exit env ''failed to decode snapshot'' ''failed to decode snapshot'' g
           | Some (lastIncludedIndex, xlog) \<Rightarrow>
               if index \<noteq> -1 \<and> index \<noteq> lastIncludedIndex then
                 Inr (''server '' @ itoa (int (rs_me rs)) @ '' snapshot doesn't match m.SnapshotIndex'', rs)
               else Inr ('''', rs\<lparr>logs := rlog_of xlog, lastApplied := lastIncludedIndex\<rparr>)))"

definition newRfsrv :: "'v apply_env \<Rightarrow> globals \<Rightarrow> nat \<Rightarrow> nat \<Rightarrow> Persister \<Rightarrow> bool \<Rightarrow> 'v rfsrv go" where
  "newRfsrv env g npeers srv ps snap =
     (let s = \<lparr>rs_me = srv, applyErr = '''', lastApplied = 0, rs_persister = Some ps, rs_raft = Some (Make npeers srv ps), logs = Map.empty\<rparr> in
      if snap \<and> length (ReadSnapshot ps) > 0 then
        bind_go (ingestSnap env g (Some (ReadSnapshot ps)) (-1) s) (\<lambda>(err, s).
          if err \<noteq> '''' then fail_exit env ''failed to ingest snapshot'' err g else Inr s)
      else Inr s)"

subsection \<open>Checking the logs\<close>

text \<open>The loop of \<open>checkLogs\<close> over the servers: the last disagreement is reported.\<close>

fun check_others :: "('v option \<Rightarrow> string) \<Rightarrow> nat \<Rightarrow> 'v ApplyMsg \<Rightarrow> nat \<Rightarrow> 'v rfsrv option list \<Rightarrow> string \<Rightarrow> string go" where
  "check_others sh i m j [] err = Inr err"
| "check_others sh i m j (rso # rss) err =
     (case rso of
        None \<Rightarrow> Inl NilDeref
      | Some rs \<Rightarrow>
          check_others sh i m (j + 1) rss
            (case RLogs rs (CommandIndex m) of
               Some old \<Rightarrow>
                 if old \<noteq> Command m then
                   ''commit index='' @ itoa (CommandIndex m) @ '' server='' @ itoa (int i) @ '' '' @ sh (Command m)
                     @ '' != server='' @ itoa (int j) @ '' '' @ sh old
                 else err
             | None \<Rightarrow> err))"

definition checkLogs :: "('v option \<Rightarrow> string) \<Rightarrow> nat \<Rightarrow> 'v ApplyMsg \<Rightarrow> 'v rftest \<Rightarrow> (string \<times> bool \<times> 'v rftest) go" where
  "checkLogs sh i m ts =
     bind_go (nth_go (rsrvs ts) i) (\<lambda>me.
       bind_go (check_others sh i m 0 (rsrvs ts) '''') (\<lambda>err.
         case me of
           None \<Rightarrow> Inl NilDeref
         | Some rs \<Rightarrow>
             let prevok = (logs rs (CommandIndex m - 1) \<noteq> None);
                 rs = rs\<lparr>logs := (logs rs)(CommandIndex m \<mapsto> Command m)\<rparr> in
             Inr (err, prevok, ts\<lparr>rsrvs := (rsrvs ts)[i := Some rs],
               maxIndex := (if CommandIndex m > maxIndex ts then CommandIndex m else maxIndex ts)\<rparr>)))"

subsection \<open>The appliers\<close>

text \<open>One message of \<open>applier\<close>.\<close>

definition applier :: "'v apply_env \<Rightarrow> globals \<Rightarrow> nat \<Rightarrow> 'v ApplyMsg \<Rightarrow> 'v rftest \<Rightarrow> 'v rftest go" where
  "applier env g i m ts =
     (if CommandValid m = False then Inr ts
      else
        bind_go (checkLogs (show_any env) i m ts) (\<lambda>(err, prevok, ts).
          let err = (if CommandIndex m > 1 \<and> prevok = False
                     then ''server '' @ itoa (int i) @ '' apply out of order '' @ itoa (CommandIndex m) else err) in
          if err \<noteq> '''' then fail_exit env ''apply error'' err g else Inr ts))"

definition upd_srv :: "nat \<Rightarrow> ('v rfsrv \<Rightarrow> 'v rfsrv) \<Rightarrow> 'v rftest \<Rightarrow> 'v rftest" where
  "upd_srv i f ts = ts\<lparr>rsrvs := (rsrvs ts)[i := map_option f (rsrvs ts ! i)]\<rparr>"

text \<open>
  One message of \<open>applierSnap\<close>: the test, the annotations and the snapshot handed to Raft, if any. The
  server is looked up as \<open>rs\<close> at the start; a server whose \<open>raft\<close> is nil was killed.
\<close>

definition applierSnap :: "'v apply_env \<Rightarrow> nat \<Rightarrow> 'v ApplyMsg \<Rightarrow> 'v rftest \<times> globals \<Rightarrow>
    (('v rftest \<times> globals) \<times> (int \<times> nat list) option) go" where
  "applierSnap env i m st =
     (case st of (ts, g) \<Rightarrow>
      bind_go (nth_go (rsrvs ts) i) (\<lambda>rso.
        case rso of
          None \<Rightarrow> Inl NilDeref
        | Some rs \<Rightarrow>
            if SnapshotValid m then
              bind_go (ingestSnap env g (am_Snapshot m) (SnapshotIndex m) rs) (\<lambda>(err, rs).
                if err \<noteq> '''' then fail_exit env ''apply error'' err g
                else Inr ((ts\<lparr>rsrvs := (rsrvs ts)[i := Some rs]\<rparr>, g), None))
            else if CommandValid m then
              let err = (if CommandIndex m \<noteq> lastApplied rs + 1 then
                    ''server '' @ itoa (int (rs_me rs)) @ '' apply out of order, expected index '' @ itoa (lastApplied rs + 1)
                      @ '', got '' @ itoa (CommandIndex m)
                  else '''') in
              bind_go (if err = '''' then
                  bind_go (checkLogs (show_any env) i m ts) (\<lambda>(err, prevok, ts).
                    Inr (if CommandIndex m > 1 \<and> prevok = False
                      then ''server '' @ itoa (int (rs_me rs)) @ '' apply out of order '' @ itoa (CommandIndex m) else err, ts))
                else Inr (err, ts)) (\<lambda>(err, ts).
                let ts = upd_srv i (\<lambda>rs. rs\<lparr>lastApplied := CommandIndex m\<rparr>) ts in
                bind_go (if (CommandIndex m + 1) mod SnapShotInterval = 0 then
                    case rs_raft rs of
                      None \<Rightarrow> Inl NilDeref
                    | Some rf \<Rightarrow>
                        let xlog = map (\<lambda>j. case rsrvs ts ! i of None \<Rightarrow> None
                              | Some rs \<Rightarrow> (case logs rs j of None \<Rightarrow> None | Some v \<Rightarrow> v)) [0..CommandIndex m];
                            b = enc_snap (codec env) (CommandIndex m) xlog;
                            rf = Snapshot rf (CommandIndex m) b;
                            details = ''snapshot created after applying the command at index '' @ itoa (CommandIndex m) in
                        Inr ((upd_srv i (\<lambda>rs. rs\<lparr>rs_raft := Some rf\<rparr>) ts,
                          AnnotateInfoInterval (now env) (now env) ''snapshot created'' details g), Some (CommandIndex m, b))
                  else Inr ((ts, g), None)) (\<lambda>((ts, g), out).
                  if err \<noteq> '''' then fail_exit env ''apply error'' err g else Inr ((ts, g), out)))
            else Inr (st, None)))"

subsection \<open>What the appliers guarantee\<close>

lemma check_others_empty:
  "check_others sh i m j rss err = Inr '''' \<longleftrightarrow> err = '''' \<and>
    (\<forall>rso\<in>set rss. \<exists>rs. rso = Some rs \<and> (\<forall>old. logs rs (CommandIndex m) = Some old \<longrightarrow> old = Command m))"
  by (induction rss arbitrary: j err) (auto simp: RLogs_def split: option.splits)

lemma fail_exit_not_Inr [simp]: "fail_exit env desp details g \<noteq> Inr x"
  by (auto simp: fail_exit_def bind_go_def split: sum.splits)

text \<open>An applier accepts a command exactly if no server has another one at that index and it is in order.\<close>

definition log_at :: "'v rftest \<Rightarrow> nat \<Rightarrow> int \<Rightarrow> 'v option option" where
  "log_at ts j k = (if j < length (rsrvs ts) then case rsrvs ts ! j of None \<Rightarrow> None | Some rs \<Rightarrow> logs rs k else None)"

definition all_up :: "'v rftest \<Rightarrow> bool" where
  "all_up ts \<longleftrightarrow> (\<forall>rso\<in>set (rsrvs ts). rso \<noteq> None)"

lemma all_up_nth: "all_up ts \<Longrightarrow> i < length (rsrvs ts) \<Longrightarrow> \<exists>rs. rsrvs ts ! i = Some rs"
  by (auto simp: all_up_def all_set_conv_all_nth)

definition acceptable :: "nat \<Rightarrow> 'v ApplyMsg \<Rightarrow> 'v rftest \<Rightarrow> bool" where
  "acceptable i m ts \<longleftrightarrow> (\<forall>j v. log_at ts j (CommandIndex m) = Some v \<longrightarrow> v = Command m) \<and>
     (1 < CommandIndex m \<longrightarrow> log_at ts i (CommandIndex m - 1) \<noteq> None)"

lemma no_conflict_iff:
  assumes "all_up ts"
  shows "check_others sh i m 0 (rsrvs ts) '''' = Inr '''' \<longleftrightarrow> (\<forall>j v. log_at ts j (CommandIndex m) = Some v \<longrightarrow> v = Command m)"
proof -
  have "\<exists>rs. rsrvs ts ! j = Some rs" if "j < length (rsrvs ts)" for j using all_up_nth [OF assms that] .
  then show ?thesis by (auto simp: check_others_empty log_at_def all_set_conv_all_nth split: if_splits) fastforce+
qed

lemma check_others_total: "all_up ts \<Longrightarrow> \<exists>err. check_others sh i m 0 (rsrvs ts) '''' = Inr err"
proof -
  have "\<exists>err'. check_others sh i m j rss err = Inr err'" if "\<forall>rso\<in>set rss. rso \<noteq> None" for rss j err
    using that by (induction rss arbitrary: j err) auto
  then show "all_up ts \<Longrightarrow> \<exists>err. check_others sh i m 0 (rsrvs ts) '''' = Inr err" by (simp add: all_up_def)
qed

definition after_apply :: "nat \<Rightarrow> 'v ApplyMsg \<Rightarrow> 'v rftest \<Rightarrow> 'v rftest" where
  "after_apply i m ts = ts\<lparr>rsrvs := (rsrvs ts)[i := map_option (\<lambda>rs. rs\<lparr>logs := (logs rs)(CommandIndex m \<mapsto> Command m)\<rparr>) (rsrvs ts ! i)],
     maxIndex := max (maxIndex ts) (CommandIndex m)\<rparr>"

lemma applier_iff:
  assumes "all_up ts" and "i < length (rsrvs ts)" and "CommandValid m"
  shows "applier env g i m ts = Inr ts' \<longleftrightarrow> acceptable i m ts \<and> ts' = after_apply i m ts"
proof -
  obtain rs where rs: "rsrvs ts ! i = Some rs" using all_up_nth [OF assms(1,2)] by blast
  obtain err where err: "check_others (show_any env) i m 0 (rsrvs ts) '''' = Inr err" using check_others_total [OF assms(1)] by blast
  let ?ts = "ts\<lparr>rsrvs := (rsrvs ts)[i := Some (rs\<lparr>logs := (logs rs)(CommandIndex m \<mapsto> Command m)\<rparr>)],
      maxIndex := (if CommandIndex m > maxIndex ts then CommandIndex m else maxIndex ts)\<rparr>"
  have c: "checkLogs (show_any env) i m ts = Inr (err, logs rs (CommandIndex m - 1) \<noteq> None, ?ts)"
    using assms(2) rs err by (simp add: checkLogs_def nth_go_def Let_def)
  have a: "after_apply i m ts = ?ts" by (simp add: after_apply_def rs max_def)
  have e: "err = '''' \<longleftrightarrow> (\<forall>j v. log_at ts j (CommandIndex m) = Some v \<longrightarrow> v = Command m)"
    using no_conflict_iff [OF assms(1), of "show_any env" i m] err by simp
  have p: "log_at ts i (CommandIndex m - 1) = logs rs (CommandIndex m - 1)" using assms(2) rs by (simp add: log_at_def)
  show ?thesis using assms(3)
    by (auto simp: applier_def c a acceptable_def e [symmetric] p Let_def)
qed

definition logs_agree :: "'v rftest \<Rightarrow> bool" where
  "logs_agree ts \<longleftrightarrow> (\<forall>i j k u v. log_at ts i k = Some u \<longrightarrow> log_at ts j k = Some v \<longrightarrow> u = v)"

definition logs_contiguous :: "'v rftest \<Rightarrow> bool" where
  "logs_contiguous ts \<longleftrightarrow> (\<forall>i k. 1 < k \<longrightarrow> log_at ts i k \<noteq> None \<longrightarrow> log_at ts i (k - 1) \<noteq> None)"

definition logs_bounded :: "'v rftest \<Rightarrow> bool" where
  "logs_bounded ts \<longleftrightarrow> (\<forall>i k. log_at ts i k \<noteq> None \<longrightarrow> k \<le> maxIndex ts)"

definition apply_inv :: "'v rftest \<Rightarrow> bool" where
  "apply_inv ts \<longleftrightarrow> all_up ts \<and> logs_agree ts \<and> logs_contiguous ts \<and> logs_bounded ts"

definition index_grows :: "'v rftest \<Rightarrow> 'v rftest \<Rightarrow> bool" where
  "index_grows ts ts' \<longleftrightarrow> maxIndex ts \<le> maxIndex ts' \<and> length (rsrvs ts') = length (rsrvs ts)"

text \<open>A message at the applier of some server, or a restart of a server without snapshots.\<close>

inductive apply_step :: "'v apply_env \<Rightarrow> globals \<Rightarrow> 'v rftest \<Rightarrow> 'v rftest \<Rightarrow> bool" for env g where
  message: "i < length (rsrvs ts) \<Longrightarrow> applier env g i m ts = Inr ts' \<Longrightarrow> apply_step env g ts ts'"
| restart: "newRfsrv env g n i ps False = Inr s \<Longrightarrow> apply_step env g ts (ts\<lparr>rsrvs := (rsrvs ts)[i := Some s]\<rparr>)"

lemma log_at_after_apply:
  assumes "all_up ts" and "i < length (rsrvs ts)"
  shows "log_at (after_apply i m ts) j k = (if j = i \<and> k = CommandIndex m then Some (Command m) else log_at ts j k)"
proof -
  obtain rs where "rsrvs ts ! i = Some rs" using all_up_nth [OF assms] by blast
  then show ?thesis using assms(2) by (auto simp: log_at_def after_apply_def nth_list_update)
qed

lemma after_apply_inv:
  assumes "apply_inv ts" and "i < length (rsrvs ts)" and "acceptable i m ts"
  shows "apply_inv (after_apply i m ts)"
proof -
  have up: "all_up ts" using assms(1) by (simp add: apply_inv_def)
  note la = log_at_after_apply [OF up assms(2), of m]
  have "all_up (after_apply i m ts)"
    using up assms(2) by (auto simp: all_up_def after_apply_def dest!: set_update_subset_insert [THEN subsetD])
  moreover have "logs_agree (after_apply i m ts)"
    using assms(1,3) unfolding logs_agree_def la apply_inv_def acceptable_def by (auto split: if_splits)
  moreover have "logs_contiguous (after_apply i m ts)"
    using assms(1,3) unfolding logs_contiguous_def la apply_inv_def acceptable_def by auto
  moreover have "logs_bounded (after_apply i m ts)"
    using assms(1) unfolding logs_bounded_def la apply_inv_def by (auto simp: after_apply_def le_max_iff_disj split: if_splits)
  ultimately show ?thesis by (simp add: apply_inv_def)
qed

lemma log_at_restart:
  assumes "newRfsrv env g n i ps False = Inr s"
  shows "log_at (ts\<lparr>rsrvs := (rsrvs ts)[i := Some s]\<rparr>) j k = (if j = i then None else log_at ts j k)"
proof -
  have "logs s = Map.empty" using assms by (auto simp: newRfsrv_def Let_def)
  then show ?thesis by (auto simp: log_at_def nth_list_update)
qed

lemma apply_step_inv: "apply_step env g ts ts' \<Longrightarrow> apply_inv ts \<Longrightarrow> apply_inv ts'"
proof (induction rule: apply_step.induct)
  case (message i ts m ts')
  show ?case
  proof (cases "CommandValid m")
    case True
    then show ?thesis using message applier_iff [of ts i m env g ts'] after_apply_inv by (auto simp: apply_inv_def)
  next
    case False
    then show ?thesis using message by (simp add: applier_def)
  qed
next
  case (restart n i ps s ts)
  note la = log_at_restart [OF restart.hyps, of ts]
  have "all_up (ts\<lparr>rsrvs := (rsrvs ts)[i := Some s]\<rparr>)"
    using restart.prems by (auto simp: apply_inv_def all_up_def dest!: set_update_subset_insert [THEN subsetD])
  then show ?case using restart.prems
    unfolding apply_inv_def logs_agree_def logs_contiguous_def logs_bounded_def la by simp
qed

lemma apply_step_grows: "apply_step env g ts ts' \<Longrightarrow> apply_inv ts \<Longrightarrow> index_grows ts ts'"
proof (induction rule: apply_step.induct)
  case (message i ts m ts')
  then show ?case using applier_iff [of ts i m env g ts']
    by (cases "CommandValid m") (auto simp: apply_inv_def index_grows_def after_apply_def applier_def)
qed (simp add: index_grows_def)

interpretation applied: step_invariant "apply_step env g" apply_inv index_grows for env g
  by unfold_locales (auto intro: apply_step_inv apply_step_grows, auto simp: index_grows_def)

lemma apply_start:
  assumes "\<forall>rso\<in>set (rsrvs ts). \<exists>rs. rso = Some rs \<and> logs rs = Map.empty"
  shows "apply_inv ts"
proof -
  have "log_at ts i k = None" for i k
    using assms by (auto simp: log_at_def all_set_conv_all_nth split: option.splits)
  then show ?thesis using assms by (auto simp: apply_inv_def all_up_def logs_agree_def logs_contiguous_def logs_bounded_def)
qed

text \<open>
  Property C12. However the committed commands reach the appliers of the Raft test servers, in whatever
  interleaving and with whatever restarts, and as long as no applier has ended the test: two servers
  that hold a command at an index hold the same one, the log of every server has no gap, \<open>maxIndex\<close>
  bounds every index applied and never falls, and the next command is accepted exactly if no server
  holds another command at its index and the server holds the one before it.
\<close>
theorem applied_logs_agree:
  assumes "(apply_step env g)\<^sup>*\<^sup>* ts0 ts"
    and "\<forall>rso\<in>set (rsrvs ts0). \<exists>rs. rso = Some rs \<and> logs rs = Map.empty"
  shows "logs_agree ts \<and> logs_contiguous ts \<and> logs_bounded ts \<and> maxIndex ts0 \<le> maxIndex ts \<and>
    (\<forall>i m ts'. i < length (rsrvs ts0) \<longrightarrow> CommandValid m \<longrightarrow>
       (applier env g i m ts = Inr ts' \<longleftrightarrow> acceptable i m ts \<and> ts' = after_apply i m ts))"
proof -
  have inv: "apply_inv ts" using applied.reach_inv assms(1) apply_start [OF assms(2)] by blast
  have grow: "index_grows ts0 ts" using applied.reach_le assms(1) apply_start [OF assms(2)] by blast
  show ?thesis
    using inv grow applier_iff [of ts _ _ env g] by (auto simp: apply_inv_def index_grows_def)
qed

subsection \<open>Snapshots\<close>

text \<open>The log that a snapshot of server \<open>i\<close> up to index \<open>k\<close> stands for: nil where the server has no entry.\<close>

definition snap_log :: "'v rftest \<Rightarrow> nat \<Rightarrow> int \<Rightarrow> int \<rightharpoonup> 'v option" where
  "snap_log ts i k = (\<lambda>j. if 0 \<le> j \<and> j \<le> k then Some (case log_at ts i j of None \<Rightarrow> None | Some v \<Rightarrow> v) else None)"

lemma rlog_of_map: "rlog_of (map f [0..k]) = (\<lambda>j. if 0 \<le> j \<and> j \<le> k then Some (f j) else None)"
  by (auto simp: rlog_of_def nth_upto fun_eq_iff)

lemma log_at_upd_srv:
  assumes "\<And>rs. logs (f rs) = logs rs"
  shows "log_at (upd_srv i f ts) j k = log_at ts j k"
proof (cases "i = j")
  case True
  then show ?thesis using assms by (cases "rsrvs ts ! j") (auto simp: log_at_def upd_srv_def)
qed (simp add: log_at_def upd_srv_def)

text \<open>The value that is snapshotted for server \<open>i\<close> and the length of the server list.\<close>

lemma checkLogs_length: "checkLogs sh i m ts = Inr (err, p, ts') \<Longrightarrow> length (rsrvs ts') = length (rsrvs ts)"
  by (auto simp: checkLogs_def bind_go_def Let_def split: sum.splits option.splits)

lemma applierSnap_out:
  assumes "applierSnap env i m (ts, g) = Inr ((ts', g'), Some (k, b))"
  shows "k = CommandIndex m \<and> (k + 1) mod SnapShotInterval = 0 \<and> CommandValid m \<and>
    b = enc_snap (codec env) k (map (\<lambda>j. case log_at ts' i j of None \<Rightarrow> None | Some v \<Rightarrow> v) [0..k])"
proof -
  note go = bind_go_def Let_def
  have i: "i < length (rsrvs ts)" using assms by (auto simp: applierSnap_def go nth_go_def split: if_splits)
  then obtain rs where rs: "rsrvs ts ! i = Some rs"
    using assms by (cases "rsrvs ts ! i") (auto simp: applierSnap_def go nth_go_def)
  have valid: "\<not> SnapshotValid m" "CommandValid m" "CommandIndex m = lastApplied rs + 1"
    using assms i rs by (auto simp: applierSnap_def go nth_go_def split: if_splits sum.splits)
  then obtain err p t where c: "checkLogs (show_any env) i m ts = Inr (err, p, t)"
    using assms i rs by (auto simp: applierSnap_def go nth_go_def split: if_splits sum.splits)
  let ?t = "upd_srv i (\<lambda>rs. rs\<lparr>lastApplied := CommandIndex m\<rparr>) t"
  have len: "i < length (rsrvs ?t)" using checkLogs_length [OF c] i by (simp add: upd_srv_def)
  obtain rf where rf: "rs_raft rs = Some rf"
    using assms i rs valid c by (cases "rs_raft rs") (auto simp: applierSnap_def go nth_go_def split: if_splits)
  have iv: "(CommandIndex m + 1) mod SnapShotInterval = 0"
  proof (rule ccontr)
    assume "(CommandIndex m + 1) mod SnapShotInterval \<noteq> 0"
    then show False using assms i rs valid c by (simp add: applierSnap_def go nth_go_def split: if_splits)
  qed
  have ts': "ts' = upd_srv i (\<lambda>rs. rs\<lparr>rs_raft := Some rf\<rparr>) ?t" and k: "k = CommandIndex m"
    and b: "b = enc_snap (codec env) k (map (\<lambda>j. case rsrvs ?t ! i of None \<Rightarrow> None | Some rs \<Rightarrow> (case logs rs j of None \<Rightarrow> None | Some v \<Rightarrow> v)) [0..k])"
    using assms i rs valid c rf iv by (auto simp: applierSnap_def go nth_go_def Snapshot_def split: if_splits)
  have "log_at ts' i j = (case rsrvs ?t ! i of None \<Rightarrow> None | Some rs \<Rightarrow> logs rs j)" for j
    using len unfolding ts' by (subst log_at_upd_srv) (simp_all add: log_at_def)
  then have "(\<lambda>j. case log_at ts' i j of None \<Rightarrow> None | Some v \<Rightarrow> v)
      = (\<lambda>j. case rsrvs ?t ! i of None \<Rightarrow> None | Some rs \<Rightarrow> (case logs rs j of None \<Rightarrow> None | Some v \<Rightarrow> v))"
    by (auto simp: fun_eq_iff split: option.splits)
  then show ?thesis using k b valid iv by simp
qed


lemma ingest_snapshot:
  assumes "snap_codec_ok (codec env)"
    and "b = enc_snap (codec env) k (map (\<lambda>j. case log_at ts i j of None \<Rightarrow> None | Some v \<Rightarrow> v) [0..k])"
  shows "ingestSnap env g (Some b) index rs =
    (if index \<noteq> -1 \<and> index \<noteq> k then Inr (''server '' @ itoa (int (rs_me rs)) @ '' snapshot doesn't match m.SnapshotIndex'', rs)
     else Inr ('''', rs\<lparr>logs := snap_log ts i k, lastApplied := k\<rparr>))"
  using assms by (simp add: ingestSnap_def snap_codec_ok_def rlog_of_map snap_log_def)

text \<open>
  Property C13. What a snapshotting applier hands to Raft restores the server: the snapshot it makes after
  applying index \<open>k\<close> has \<open>k + 1\<close> a multiple of the interval; ingesting it on any server, as an apply message
  with index \<open>k\<close> or after a restart from a persister that saved it, gives the log of the server that made it up to
  \<open>k\<close>, nil where it had no entry, and \<open>k\<close> as the last index applied; and ingesting it as another index is refused
  with an error and changes nothing.
\<close>
theorem snapshot_roundtrip:
  assumes "snap_codec_ok (codec env)"
    and "applierSnap env i m (ts, g) = Inr ((ts', g'), Some (k, b))"
  shows "(k + 1) mod SnapShotInterval = 0 \<and>
    ingestSnap env g1 (Some b) k rs = Inr ('''', rs\<lparr>logs := snap_log ts' i k, lastApplied := k\<rparr>) \<and>
    (index \<noteq> -1 \<longrightarrow> index \<noteq> k \<longrightarrow> (\<exists>err. err \<noteq> '''' \<and> ingestSnap env g1 (Some b) index rs = Inr (err, rs))) \<and>
    (b \<noteq> [] \<longrightarrow> (\<exists>s. newRfsrv env g1 n srv (Save ps rstate b) True = Inr s \<and> logs s = snap_log ts' i k \<and> lastApplied s = k))"
proof -
  note out = applierSnap_out [OF assms(2)]
  note ing = ingest_snapshot [OF assms(1) out [THEN conjunct2, THEN conjunct2, THEN conjunct2]]
  have "ReadSnapshot (Save ps rstate b) = b" by (simp add: ReadSnapshot_def Save_def)
  moreover have "(k + 1) mod SnapShotInterval = 0" using out by blast
  ultimately show ?thesis by (simp add: ing newRfsrv_def Let_def)
qed


text \<open>A concrete encoding of snapshots of numbers, and a server that is about to take one.\<close>

definition demo_codec :: "nat snap_codec" where
  "demo_codec = \<lparr>
     enc_snap = (\<lambda>i xs. (if i < 0 then 2 * nat (- i) + 1 else 2 * nat i) # map (\<lambda>x. case x of None \<Rightarrow> 0 | Some v \<Rightarrow> Suc v) xs),
     dec_snap = (\<lambda>b. case b of [] \<Rightarrow> None
       | n # ys \<Rightarrow> Some (if even n then int (n div 2) else - int (n div 2), map (\<lambda>y. case y of 0 \<Rightarrow> None | Suc v \<Rightarrow> Some v) ys))\<rparr>"

lemma demo_codec_ok: "snap_codec_ok demo_codec"
proof -
  have "map (\<lambda>y. case y of 0 \<Rightarrow> None | Suc v \<Rightarrow> Some v) (map (\<lambda>x. case x of None \<Rightarrow> 0 | Some v \<Rightarrow> Suc v) xs) = xs" for xs :: "nat option list"
    by (induction xs) (auto split: option.splits)
  then show ?thesis by (simp add: snap_codec_ok_def demo_codec_def comp_def)
qed

definition demo_env :: "nat apply_env" where
  "demo_env = \<lparr>show_any = (\<lambda>_. ''v''), codec = demo_codec, vis_enable = '''', open_ok = True, now = 0\<rparr>"

definition demo_srv :: "int \<Rightarrow> (int \<rightharpoonup> nat option) \<Rightarrow> nat rfsrv" where
  "demo_srv k lg = \<lparr>rs_me = 0, applyErr = '''', lastApplied = k, rs_persister = Some MakePersister, rs_raft = Some (Make 1 0 MakePersister), logs = lg\<rparr>"

definition demo_cmd :: "int \<Rightarrow> nat \<Rightarrow> nat ApplyMsg" where
  "demo_cmd k v = \<lparr>CommandValid = True, Command = Some v, CommandIndex = k, SnapshotValid = False, am_Snapshot = None, SnapshotTerm = 0, SnapshotIndex = 0\<rparr>"

definition demo_rftest :: "int \<Rightarrow> (int \<rightharpoonup> nat option) \<Rightarrow> nat rftest" where
  "demo_rftest k lg = \<lparr>rsrvs = [Some (demo_srv k lg)], maxIndex = k\<rparr>"

lemmas demo_defs = demo_env_def demo_srv_def demo_cmd_def demo_rftest_def

lemma demo_snapshot:
  "\<exists>ts' g' b. applierSnap demo_env 0 (demo_cmd 9 5) (demo_rftest 8 [8 \<mapsto> Some 4], g) = Inr ((ts', g'), Some (9, b)) \<and> b \<noteq> []"
  by (simp add: applierSnap_def checkLogs_def nth_go_def demo_defs RLogs_def Let_def SnapShotInterval_def demo_codec_def)


text \<open>Witness.\<close>
theorem snapshot_roundtrip_witness:
  "\<exists>ts' g' b. applierSnap demo_env 0 (demo_cmd 9 5) (demo_rftest 8 [8 \<mapsto> Some 4], no_log) = Inr ((ts', g'), Some (9, b)) \<and>
    ingestSnap demo_env no_log (Some b) 9 (demo_srv 0 Map.empty)
      = Inr ('''', (demo_srv 0 Map.empty)\<lparr>logs := snap_log ts' 0 9, lastApplied := 9\<rparr>) \<and>
    (\<exists>s. newRfsrv demo_env no_log 3 2 (Save MakePersister [] b) True = Inr s \<and> logs s = snap_log ts' 0 9 \<and> lastApplied s = 9)"
proof -
  obtain ts' g' b where "applierSnap demo_env 0 (demo_cmd 9 5) (demo_rftest 8 [8 \<mapsto> Some 4], no_log) = Inr ((ts', g'), Some (9, b))"
      and "b \<noteq> []"
    using demo_snapshot [of no_log] by blast
  moreover from this have "ingestSnap demo_env no_log (Some b) 9 (demo_srv 0 Map.empty)
      = Inr ('''', (demo_srv 0 Map.empty)\<lparr>logs := snap_log ts' 0 9, lastApplied := 9\<rparr>) \<and>
    (\<exists>s. newRfsrv demo_env no_log 3 2 (Save MakePersister [] b) True = Inr s \<and> logs s = snap_log ts' 0 9 \<and> lastApplied s = 9)"
    using snapshot_roundtrip [of demo_env 0 "demo_cmd 9 5" "demo_rftest 8 [8 \<mapsto> Some 4]" no_log ts' g' 9 b no_log "demo_srv 0 Map.empty" 9 3 2 MakePersister "[]"]
    by (simp add: demo_env_def demo_codec_ok)
  ultimately show ?thesis by blast
qed

text \<open>Witness.\<close>
theorem applied_logs_agree_witness:
  "logs_agree (after_apply 0 (demo_cmd 1 5) (demo_rftest 0 Map.empty)) \<and>
    applier demo_env no_log 0 (demo_cmd 2 6) (after_apply 0 (demo_cmd 1 5) (demo_rftest 0 Map.empty))
      = Inr (after_apply 0 (demo_cmd 2 6) (after_apply 0 (demo_cmd 1 5) (demo_rftest 0 Map.empty))) \<and>
    (\<forall>ts'. applier demo_env no_log 0 (demo_cmd 1 7) (after_apply 0 (demo_cmd 1 5) (demo_rftest 0 Map.empty)) \<noteq> Inr ts')"
proof -
  let ?t = "after_apply 0 (demo_cmd 1 5) (demo_rftest 0 Map.empty)"
  have start: "\<forall>rso\<in>set (rsrvs (demo_rftest 0 Map.empty)). \<exists>rs. rso = Some rs \<and> logs rs = Map.empty"
    by (simp add: demo_rftest_def demo_srv_def)
  have "apply_step demo_env no_log (demo_rftest 0 Map.empty) ?t"
    by (rule apply_step.message [where i = 0 and m = "demo_cmd 1 5"])
      (simp_all add: demo_defs applier_def checkLogs_def nth_go_def RLogs_def after_apply_def Let_def)
  then have "(apply_step demo_env no_log)\<^sup>*\<^sup>* (demo_rftest 0 Map.empty) ?t" by blast
  note ok = applied_logs_agree [OF this start]
  have acc: "acceptable 0 (demo_cmd 2 6) ?t" "\<not> acceptable 0 (demo_cmd 1 7) ?t"
    by (auto simp: acceptable_def log_at_def after_apply_def demo_defs intro!: exI [of _ "0::nat"])
  show ?thesis using ok acc by (simp add: demo_cmd_def demo_rftest_def)
qed

end
