(* ===== verification/Raft_Checks.thy ===== *)
theory Raft_Checks
  imports Raft_Cluster Raft_Apply
begin

text \<open>
  The checks of the Raft tests (\<open>raft1/test.go\<close>) and what they find on a cluster of peers. A check returns, or ends
  the test: \<open>Fatalf\<close> is the value \<open>Inl\<close> of the reason. What one pass over the servers reads is a list with an
  entry per server, \<open>None\<close> for one that is not connected; the readings of a pass are made one after the other
  while the cluster runs on. The clock is the argument \<open>tm\<close>.
\<close>

datatype check_end = ManyLeaders int "nat list" | NoLeader | TermsDisagree | UnexpectedLeader nat
  | NotApplied string | Unmatched | Agreement nat | NoAgreement | TooFew nat

type_synonym readings = "(int \<times> bool) option list"

text \<open>The result of a check: the annotations and the reason of the failure or the value.\<close>

type_synonym 'a checked = "(globals \<times> (check_end + 'a)) go"

definition check_fatal :: "int \<Rightarrow> string \<Rightarrow> string \<Rightarrow> check_end \<Rightarrow> globals \<Rightarrow> 'a checked" where
  "check_fatal tm desp details e g = bind_go (AnnotateCheckerFailure tm desp details g) (\<lambda>g. Inr (g, Inl e))"

definition check_success :: "int \<Rightarrow> string \<Rightarrow> string \<Rightarrow> 'a \<Rightarrow> globals \<Rightarrow> 'a checked" where
  "check_success tm desp details v g = bind_go (AnnotateCheckerSuccess tm desp details g) (\<lambda>g. Inr (g, Inr v))"

subsection \<open>checkOneLeader\<close>

text \<open>The map from terms to the servers that claim to lead them, as an association list.\<close>

fun add_leader :: "int \<Rightarrow> nat \<Rightarrow> (int \<times> nat list) list \<Rightarrow> (int \<times> nat list) list" where
  "add_leader t i [] = [(t, [i])]"
| "add_leader t i ((u, is) # ls) = (if u = t then (u, is @ [i]) # ls else (u, is) # add_leader t i ls)"

fun collect_leaders :: "nat \<Rightarrow> readings \<Rightarrow> (int \<times> nat list) list \<Rightarrow> (int \<times> nat list) list" where
  "collect_leaders i [] ls = ls"
| "collect_leaders i (r # rs) ls =
     collect_leaders (i + 1) rs (case r of Some (t, True) \<Rightarrow> add_leader t i ls | _ \<Rightarrow> ls)"

definition last_term :: "(int \<times> nat list) list \<Rightarrow> int" where
  "last_term ls = foldl (\<lambda>l (t, _). if t > l then t else l) (-1) ls"

fun one_leader_rounds :: "int \<Rightarrow> readings list \<Rightarrow> globals \<Rightarrow> nat checked" where
  "one_leader_rounds tm [] g = check_fatal tm ''no leader'' ''unable to find a leader'' NoLeader g"
| "one_leader_rounds tm (rs # rounds) g =
     (let leaders = collect_leaders 0 rs [] in
      case List.find (\<lambda>(t, is). length is > 1) leaders of
        Some (t, is) \<Rightarrow>
          check_fatal tm ''multiple leaders'' (''multiple leaders in term '' @ itoa t @ '' = '' @ fmt_ints is) (ManyLeaders t is) g
      | None \<Rightarrow>
          if length leaders \<noteq> 0 then
            case map_of leaders (last_term leaders) of
              Some (i # _) \<Rightarrow>
                let details = ''leader in term '' @ itoa (last_term leaders) @ '' = '' @ itoa (int i) in
                check_success tm details details i g
            | _ \<Rightarrow> Inl IndexOutOfRange
          else one_leader_rounds tm rounds g)"

text \<open>\<open>rounds\<close>: what the iterations of the loop read, of which there are at most ten.\<close>

definition checkOneLeader :: "int \<Rightarrow> readings list \<Rightarrow> globals \<Rightarrow> nat checked" where
  "checkOneLeader tm rounds g =
     bind_go (AnnotateCheckerBegin tm ''checking for a single leader'' g) (one_leader_rounds tm (take 10 rounds))"

subsection \<open>checkTerms and checkNoLeader\<close>

fun terms_loop :: "int \<Rightarrow> nat \<Rightarrow> readings \<Rightarrow> int \<Rightarrow> globals \<Rightarrow> int checked" where
  "terms_loop tm i [] term g = check_success tm ''term agreed'' (''term = '' @ itoa term) term g"
| "terms_loop tm i (r # rs) term g =
     (case r of
        None \<Rightarrow> terms_loop tm (i + 1) rs term g
      | Some (xterm, _) \<Rightarrow>
          if term = -1 then terms_loop tm (i + 1) rs xterm g
          else if term \<noteq> xterm then
            check_fatal tm ''term disagreed'' (''node ids -> terms = { '' @ itoa (int i - 1) @ '' -> '' @ itoa term @ ''; '' @ itoa (int i)
              @ '' -> '' @ itoa xterm @ '' }'') TermsDisagree g
          else terms_loop tm (i + 1) rs term g)"

definition checkTerms :: "int \<Rightarrow> readings \<Rightarrow> globals \<Rightarrow> int checked" where
  "checkTerms tm rs g = bind_go (AnnotateCheckerBegin tm ''checking term agreement'' g) (terms_loop tm 0 rs (-1))"

fun no_leader_loop :: "int \<Rightarrow> nat \<Rightarrow> readings \<Rightarrow> globals \<Rightarrow> unit checked" where
  "no_leader_loop tm i [] g = check_success tm ''no unexpected leader'' ''no unexpected leader'' () g"
| "no_leader_loop tm i (r # rs) g =
     (case r of
        Some (_, True) \<Rightarrow> check_fatal tm ''unexpected leader found'' (''leader = '' @ itoa (int i)) (UnexpectedLeader i) g
      | _ \<Rightarrow> no_leader_loop tm (i + 1) rs g)"

definition checkNoLeader :: "int \<Rightarrow> readings \<Rightarrow> globals \<Rightarrow> unit checked" where
  "checkNoLeader tm rs g =
     bind_go (AnnotateCheckerBegin tm ''checking no unexpected leader among connected servers'' g) (no_leader_loop tm 0 rs)"

subsection \<open>nCommitted and checkNoAgreement\<close>

fun n_committed :: "int \<Rightarrow> ('v option \<Rightarrow> string) \<Rightarrow> int \<Rightarrow> 'v rfsrv option list \<Rightarrow> nat \<Rightarrow> 'v option \<Rightarrow> globals \<Rightarrow> (nat \<times> 'v option) checked" where
  "n_committed tm sh index [] n cmd g = Inr (g, Inr (n, cmd))"
| "n_committed tm sh index (rso # rss) n cmd g =
     (case rso of
        None \<Rightarrow> Inl NilDeref
      | Some rs \<Rightarrow>
          if applyErr rs \<noteq> '''' then check_fatal tm ''apply error'' (applyErr rs) (NotApplied (applyErr rs)) g
          else
            case RLogs rs index of
              None \<Rightarrow> n_committed tm sh index rss n cmd g
            | Some cmd1 \<Rightarrow>
                if n > 0 \<and> cmd \<noteq> cmd1 then
                  check_fatal tm ''unmatched committed values'' (''committed values at index '' @ itoa index @ '' do not match (''
                    @ sh cmd @ '' != '' @ sh cmd1 @ '')'') Unmatched g
                else n_committed tm sh index rss (n + 1) cmd1 g)"

definition nCommitted :: "int \<Rightarrow> ('v option \<Rightarrow> string) \<Rightarrow> int \<Rightarrow> 'v rftest \<Rightarrow> globals \<Rightarrow> (nat \<times> 'v option) checked" where
  "nCommitted tm sh index ts g = n_committed tm sh index (rsrvs ts) 0 None g"

definition checkNoAgreement :: "int \<Rightarrow> ('v option \<Rightarrow> string) \<Rightarrow> int \<Rightarrow> 'v rftest \<Rightarrow> globals \<Rightarrow> unit checked" where
  "checkNoAgreement tm sh index ts g =
     bind_go (AnnotateCheckerBegin tm (''checking no unexpected agreement at index '' @ itoa index) g) (\<lambda>g.
       bind_go (nCommitted tm sh index ts g) (\<lambda>(g, res).
         case res of
           Inl e \<Rightarrow> Inr (g, Inl e)
         | Inr (n, _) \<Rightarrow>
             if n > 0 then
               check_fatal tm (''unexpected agreement at index '' @ itoa index) (itoa (int n) @ '' server(s) commit incorrectly index'')
                 (Agreement n) g
             else check_success tm (''no unexpected agreement at index '' @ itoa index) ''OK'' () g))"

subsection \<open>Votes over time\<close>

definition clean_step :: "cluster \<Rightarrow> cluster \<Rightarrow> bool" where
  "clean_step C D \<longleftrightarrow> (\<exists>ev. clean C ev \<and> exec C ev = Some D)"

definition votes_kept :: "cluster \<Rightarrow> cluster \<Rightarrow> bool" where
  "votes_kept C D \<longleftrightarrow> length (rafts D) = length (rafts C) \<and> (\<forall>v<length (rafts C). keeps_votes (rafts C ! v) (rafts D ! v))"

lemma keeps_votes_refl [simp]: "keeps_votes rf rf"
  by (simp add: keeps_votes_def)

lemma votes_kept_update:
  "rafts D = (rafts C)[i := rf] \<Longrightarrow> keeps_votes (rafts C ! i) rf \<Longrightarrow> votes_kept C D"
  unfolding votes_kept_def by (metis length_list_update nth_list_update_eq nth_list_update_neq keeps_votes_refl)

lemma exec_votes_kept:
  assumes "exec C ev = Some D" and "clean C ev"
  shows "votes_kept C D"
proof (cases ev)
  case (EvElect i tm)
  then show ?thesis using assms
    by (intro votes_kept_update [of D C i "fst (Elect_begin (rafts C ! i))"])
      (auto simp: Elect_begin_def keeps_votes_def Let_def split: if_splits prod.splits)
next
  case (EvAsk e s)
  then show ?thesis using assms by (auto simp: votes_kept_def split: if_splits)
next
  case (EvVote k)
  then obtain e s args where m: "messages C ! k = VoteReq e s args" using assms(1) by (auto split: if_splits msg.splits)
  have "rafts D = (rafts C)[s := fst (RequestVote (rafts C ! s) args)]"
    using assms(1) EvVote m by (auto simp: Let_def split: if_splits prod.splits)
  then show ?thesis using RequestVote_quiet by (rule votes_kept_update [OF _ conjunct1])
next
  case (EvReply k tm)
  then obtain e s reply where m: "messages C ! k = VoteRep e s reply" using assms(1) by (auto split: if_splits msg.splits)
  obtain i el left where el: "elections C ! e = (i, el, left)" by (cases "elections C ! e")
  obtain rf el' where r: "Elect_reply (rafts C ! i) el True reply tm = (rf, el')" by fastforce
  have "rafts D = (rafts C)[i := rf]" using assms(1) EvReply m el r by (auto split: if_splits)
  moreover have "rvr_Term reply > raft_term (rafts C ! i) \<longrightarrow> voteFor (rafts C ! i) (rvr_Term reply) = None"
    using assms(2) EvReply m el by (simp add: Let_def)
  ultimately show ?thesis using Elect_reply_cases [OF r] votes_kept_update by blast
next
  case (EvTerm e tm)
  obtain i el left where el: "elections C ! e = (i, el, left)" by (cases "elections C ! e")
  obtain t rest where t: "termCh el = t # rest"
    using assms(1) EvTerm el by (auto simp: collect_term_def split: if_splits list.splits)
  have "rafts D = (rafts C)[i := step_down (rafts C ! i) t tm]"
    using assms(1) EvTerm el t by (auto simp: collect_term_def split: if_splits)
  moreover have "voteFor (rafts C ! i) t = None" using assms(2) EvTerm el t by simp
  ultimately show ?thesis using step_down_quiet votes_kept_update by blast
next
  case (EvCount e)
  obtain i el left where el: "elections C ! e = (i, el, left)" by (cases "elections C ! e")
  obtain rf el' d where r: "collect_vote (rafts C ! i) el = Some (rf, el', d)"
    using assms(1) EvCount el by (auto split: if_splits option.splits)
  have "rafts D = (rafts C)[i := rf]" using assms(1) EvCount el r by (auto split: if_splits)
  moreover have "keeps_votes (rafts C ! i) rf" using collect_vote_cases [OF r] by (auto simp: keeps_votes_def)
  ultimately show ?thesis by (rule votes_kept_update)
next
  case (EvTimeout e)
  then show ?thesis using assms by (auto simp: votes_kept_def split: if_splits prod.splits)
next
  case (EvBeat i)
  then show ?thesis using assms by (auto simp: votes_kept_def split: if_splits)
next
  case (EvBeatDeliver k tm)
  then obtain j s args where m: "messages C ! k = Beat j s args" using assms(1) by (auto split: if_splits msg.splits)
  have "rafts D = (rafts C)[s := fst (AppendEntries (rafts C ! s) args tm)]"
    using assms(1) EvBeatDeliver m by (auto simp: Let_def split: if_splits prod.splits)
  then show ?thesis using AppendEntries_quiet by (rule votes_kept_update [OF _ conjunct1])
next
  case (EvBeatReply k)
  then obtain j reply where m: "messages C ! k = BeatRep j reply" using assms(1) by (auto split: if_splits msg.splits)
  have "rafts D = (rafts C)[j := heartbeat_reply (rafts C ! j) reply]"
    using assms(1) EvBeatReply m by (auto split: if_splits)
  then show ?thesis using heartbeat_reply_quiet by (rule votes_kept_update [OF _ conjunct1])
qed

interpretation votes: step_invariant clean_step cluster_inv votes_kept
proof
  show "cluster_inv D" if "cluster_inv C" "clean_step C D" for C D using that inv_exec by (auto simp: clean_step_def)
  show "votes_kept C D" if "cluster_inv C" "clean_step C D" for C D using that exec_votes_kept by (auto simp: clean_step_def)
  show "votes_kept C C" for C by (simp add: votes_kept_def)
  show "votes_kept C E" if "votes_kept C D" "votes_kept D E" for C D E
    using that by (auto simp: votes_kept_def keeps_votes_def)
qed

lemma clean_run_reach: "clean_run C evs \<Longrightarrow> exec_all C evs = Some D \<Longrightarrow> clean_step\<^sup>*\<^sup>* C D"
proof (induction evs arbitrary: C)
  case (Cons ev evs)
  then obtain C' where "exec C ev = Some C'" by (auto split: option.splits)
  moreover from this have "clean_step\<^sup>*\<^sup>* C' D" using Cons by simp
  moreover have "clean C ev" using Cons.prems(1) by simp
  ultimately show ?case by (meson clean_step_def converse_rtranclp_into_rtranclp)
qed simp

lemma exec_all_append: "exec_all C (as @ bs) = (case exec_all C as of None \<Rightarrow> None | Some D \<Rightarrow> exec_all D bs)"
  by (induction as arbitrary: C) (auto split: option.splits)

lemma clean_run_append:
  "clean_run C (as @ bs) \<Longrightarrow> clean_run C as \<and> (\<forall>D. exec_all C as = Some D \<longrightarrow> clean_run D bs)"
  by (induction as arbitrary: C) (auto split: option.splits)

text \<open>A cluster on the way of a run, and the one reached later on it.\<close>

definition on_run :: "nat \<Rightarrow> event list \<Rightarrow> nat \<Rightarrow> cluster \<Rightarrow> bool" where
  "on_run n evs k C \<longleftrightarrow> exec_all (init_cluster n) (take k evs) = Some C"

lemma on_run_reach:
  assumes "clean_run (init_cluster n) evs" and "on_run n evs k C" and "on_run n evs k' D" and "k \<le> k'"
  shows "clean_step\<^sup>*\<^sup>* C D"
proof -
  have split: "take k' evs = take k evs @ take (k' - k) (drop k evs)" using assms(4) by (metis le_add_diff_inverse take_add)
  have run: "clean_run (init_cluster n) (take k' evs)"
    using clean_run_append [of "init_cluster n" "take k' evs" "drop k' evs"] assms(1) by simp
  have "clean_run C (take (k' - k) (drop k evs))"
    using clean_run_append [of "init_cluster n" "take k evs" "take (k' - k) (drop k evs)"] run assms(2) by (auto simp: split on_run_def)
  moreover have "exec_all C (take (k' - k) (drop k evs)) = Some D"
    using assms(2,3) by (simp add: on_run_def split exec_all_append)
  ultimately show ?thesis by (rule clean_run_reach)
qed

lemma on_run_inv: "clean_run (init_cluster n) evs \<Longrightarrow> on_run n evs k C \<Longrightarrow> cluster_inv C \<and> length (rafts C) = n"
  using clean_run_inv [OF _ _ init_cluster_inv, of n "take k evs" C] clean_run_append [of "init_cluster n" "take k evs" "drop k evs"]
  by (simp add: on_run_def init_cluster_def)

lemma leads_supported: "cluster_inv C \<Longrightarrow> leads C i t \<Longrightarrow> supported (rafts C) i t"
  using peer_ok_nth [of C i] by (auto simp: leads_def GetState_def peer_ok_def)

lemma supported_kept:
  assumes "votes_kept C D" and "i < length (rafts C)" and "supported (rafts C) i t"
  shows "supported (rafts D) i t"
proof -
  have kept: "voted (rafts D) v t c" if "v < length (rafts C)" "voted (rafts C) v t c" for v c
    using assms(1) that by (auto simp: votes_kept_def keeps_votes_def)
  obtain v where "v < length (rafts C)" "v \<noteq> i" "voted (rafts C) v t i" "voted (rafts C) i t i"
    using assms(3) by (auto simp: supported_def)
  then show ?thesis using kept assms(1,2) unfolding supported_def votes_kept_def by metis
qed

lemma one_leader_over_time:
  assumes "n \<le> 3" and "clean_run (init_cluster n) evs"
    and "on_run n evs k C" and "leads C i t" and "on_run n evs k' D" and "leads D j t"
  shows "i = j"
proof -
  have ordered: "i = j" if "on_run n evs k C" "leads C i t" "on_run n evs k' D" "leads D j t" "k \<le> k'" for k k' C D i j
  proof -
    have C: "cluster_inv C" "length (rafts C) = n" and D: "cluster_inv D" "length (rafts D) = n"
      using on_run_inv assms(2) that(1,3) by blast+
    have "votes_kept C D" using votes.reach_le on_run_reach [OF assms(2) that(1,3,5)] C(1) by blast
    moreover have "i < n" "j < n" "supported (rafts C) i t" using that(2,4) C D leads_supported by (auto simp: leads_def)
    ultimately have "supported (rafts D) i t" using C(2) supported_kept by blast
    then show ?thesis
      using supported_unique [of "rafts D" i j t] leads_supported [OF D(1) that(4)] assms(1) D(2) \<open>i < n\<close> \<open>j < n\<close> by simp
  qed
  show ?thesis using ordered [OF assms(3-6)] ordered [OF assms(5,6,3,4)] by (cases "k \<le> k'") auto
qed

subsection \<open>What checkOneLeader reports\<close>

text \<open>A leader map is sound for a relation between terms and servers.\<close>

definition leaders_ok :: "(int \<Rightarrow> nat \<Rightarrow> bool) \<Rightarrow> (int \<times> nat list) list \<Rightarrow> bool" where
  "leaders_ok P ls \<longleftrightarrow> distinct (map fst ls) \<and> (\<forall>(t, is)\<in>set ls. is \<noteq> [] \<and> distinct is \<and> (\<forall>i\<in>set is. P t i))"

lemma add_leader_keys: "fst ` set (add_leader t i ls) = insert t (fst ` set ls)"
  by (induction t i ls rule: add_leader.induct) (simp_all add: insert_commute)

lemma add_leader_ok:
  assumes "leaders_ok P ls" and "P t i" and "\<And>u is. (u, is) \<in> set ls \<Longrightarrow> i \<notin> set is"
  shows "leaders_ok P (add_leader t i ls)"
  using assms
proof (induction ls)
  case (Cons l ls)
  obtain u "is" where l: "l = (u, is)" by (cases l)
  show ?case
  proof (cases "u = t")
    case True
    then show ?thesis using Cons.prems l by (auto simp: leaders_ok_def)
  next
    case False
    have "leaders_ok P (add_leader t i ls)" using Cons by (auto simp: leaders_ok_def)
    moreover have "u \<notin> fst ` set (add_leader t i ls)" using Cons.prems(1) l False by (auto simp: add_leader_keys leaders_ok_def)
    ultimately show ?thesis using Cons.prems(1) l False by (auto simp: leaders_ok_def)
  qed
qed (simp add: leaders_ok_def)

lemma add_leader_members: "(u, is) \<in> set (add_leader t i ls) \<Longrightarrow> j \<in> set is \<Longrightarrow> j = i \<or> (\<exists>v js. (v, js) \<in> set ls \<and> j \<in> set js)"
proof (induction t i ls rule: add_leader.induct)
  case (2 t i u' is' ls)
  then show ?case by (cases "u' = t") (fastforce simp del: split_paired_Ex)+
qed simp

definition claims :: "readings \<Rightarrow> int \<Rightarrow> nat \<Rightarrow> bool" where
  "claims rs t i \<longleftrightarrow> i < length rs \<and> rs ! i = Some (t, True)"

lemma collect_leaders_ok:
  assumes "leaders_ok P ls" and "\<And>t is i. (t, is) \<in> set ls \<Longrightarrow> i \<in> set is \<Longrightarrow> i < k"
    and "\<And>t i. claims rs t i \<Longrightarrow> P t (k + i)"
  shows "leaders_ok P (collect_leaders k rs ls) \<and>
    fst ` set (collect_leaders k rs ls) = fst ` set ls \<union> {t. \<exists>i. claims rs t i}"
  using assms
proof (induction rs arbitrary: k ls)
  case (Cons r rs)
  let ?ls = "case r of Some (t, True) \<Rightarrow> add_leader t k ls | _ \<Rightarrow> ls"
  have tail: "P t (k + 1 + i)" if "claims rs t i" for t i using Cons.prems(3) [of t "Suc i"] that by (simp add: claims_def)
  have hd: "r = Some (t, True) \<Longrightarrow> P t k" for t using Cons.prems(3) [of t 0] by (simp add: claims_def)
  have "leaders_ok P ?ls" using Cons.prems(1,2) hd by (auto split: option.splits bool.splits intro!: add_leader_ok)
  moreover have "i < k + 1" if "(t, is) \<in> set ?ls" "i \<in> set is" for t "is" i
    using that Cons.prems(2) by (fastforce split: option.splits bool.splits if_splits dest: add_leader_members)
  ultimately have ih: "leaders_ok P (collect_leaders (k + 1) rs ?ls) \<and>
      fst ` set (collect_leaders (k + 1) rs ?ls) = fst ` set ?ls \<union> {t. \<exists>i. claims rs t i}"
    using tail by (intro Cons.IH) auto
  have "{t. \<exists>i. claims (r # rs) t i} = {t. r = Some (t, True)} \<union> {t. \<exists>i. claims rs t i}"
    by (force simp: claims_def nth_Cons' gr0_conv_Suc intro: exI [of _ "Suc _"])
  moreover have "fst ` set ?ls = fst ` set ls \<union> {t. r = Some (t, True)}"
    by (auto simp: add_leader_keys split: option.splits bool.splits)
  ultimately show ?case using ih by auto
qed (simp add: claims_def [abs_def])

lemma last_term_max:
  "foldl (\<lambda>l (t, _). if t > l then t else l) m ls = Max (insert m (fst ` set ls))"
proof (induction ls arbitrary: m)
  case (Cons l ls)
  have "Max (insert (max m (fst l)) (fst ` set ls)) = Max (insert m (fst ` set (l # ls)))"
    by (cases "ls = []") (simp_all add: max.assoc max.commute)
  then show ?case using Cons.IH by (cases l) (auto simp: max_def not_less split: if_splits)
qed simp


definition single :: "readings \<Rightarrow> bool" where
  "single rs \<longleftrightarrow> (\<forall>t i j. claims rs t i \<longrightarrow> claims rs t j \<longrightarrow> i = j)"

lemma leaders_of_pass:
  assumes "leaders = collect_leaders 0 rs []"
  shows "leaders_ok (claims rs) leaders" and "fst ` set leaders = {t. \<exists>i. claims rs t i}"
  using collect_leaders_ok [of "claims rs" "[]" 0 rs] assms by (auto simp: leaders_ok_def)

lemma single_find:
  assumes "single rs"
  shows "List.find (\<lambda>(t, is). length is > 1) (collect_leaders 0 rs []) = None"
proof -
  have "length is \<le> 1" if "(t, is) \<in> set (collect_leaders 0 rs [])" for t "is"
  proof -
    have "distinct is" "\<forall>i\<in>set is. claims rs t i" using leaders_of_pass(1) [OF refl, of rs] that by (auto simp: leaders_ok_def)
    then show ?thesis using assms unfolding single_def
      by (cases "is" rule: remdups_adj.cases) auto
  qed
  then show ?thesis by (fastforce simp: find_None_iff)
qed

lemma single_pass_leader:
  assumes "single rs" and "claims rs t i" and "-1 < t"
  shows "\<exists>j is. map_of (collect_leaders 0 rs []) (last_term (collect_leaders 0 rs [])) = Some (j # is) \<and>
    claims rs (last_term (collect_leaders 0 rs [])) j \<and> (\<forall>t i. claims rs t i \<longrightarrow> t \<le> last_term (collect_leaders 0 rs []))"
proof -
  let ?ls = "collect_leaders 0 rs []"
  note keys = leaders_of_pass(2) [OF refl, of rs]
  have last: "last_term ?ls = Max (insert (-1) (fst ` set ?ls))" unfolding last_term_def by (rule last_term_max)
  have top: "u \<le> last_term ?ls" if "claims rs u j" for u j
  proof -
    have "u \<in> fst ` set ?ls" using keys that by blast
    then show ?thesis unfolding last by simp
  qed
  then have "last_term ?ls \<noteq> -1" using assms(2,3) by fastforce
  then have "last_term ?ls \<in> fst ` set ?ls" using Max_in [of "insert (-1) (fst ` set ?ls)"] unfolding last by auto
  then obtain "is" where "is": "map_of ?ls (last_term ?ls) = Some is" "(last_term ?ls, is) \<in> set ?ls"
    by (metis map_of_eq_None_iff map_of_SomeD not_None_eq)
  then obtain j js where "is = j # js" "claims rs (last_term ?ls) j"
    using leaders_of_pass(1) [OF refl, of rs] by (cases "is") (auto simp: leaders_ok_def)
  then show ?thesis using "is"(1) top by auto
qed

lemma check_ends:
  assumes "finfo g \<noteq> None"
  shows "\<exists>g'. check_fatal tm desp details e g = Inr (g', Inl e)" and "\<exists>g'. check_success tm desp details v g = Inr (g', Inr v)"
  using assms
  by (auto simp: check_fatal_def check_success_def AnnotateCheckerFailure_def AnnotateCheckerSuccess_def AnnotateCheckerEnd_def
      with_finfo_def Let_def split: option.splits)

lemma rounds_quiet:
  "\<forall>r\<in>set pre. \<forall>t i. \<not> claims r t i \<Longrightarrow> one_leader_rounds tm (pre @ rounds) g = one_leader_rounds tm rounds g"
proof (induction pre)
  case (Cons r pre)
  then have "collect_leaders 0 r [] = []" using leaders_of_pass(2) [OF refl, of r] by auto
  then show ?case using Cons by simp
qed simp

lemma rounds_single:
  assumes "\<forall>r\<in>set rounds. single r" and "finfo g \<noteq> None"
  shows "one_leader_rounds tm rounds g \<noteq> Inr (g', Inl (ManyLeaders t is))"
  using assms(1)
proof (induction rounds)
  case Nil
  obtain g2 where "(check_fatal tm ''no leader'' ''unable to find a leader'' NoLeader g :: nat checked) = Inr (g2, Inl NoLeader)"
    using check_ends(1) [OF assms(2)] by blast
  then show ?case by simp
next
  case (Cons r rounds)
  let ?ls = "collect_leaders 0 r []"
  have ok: "check_success tm desp details (v::nat) g \<noteq> Inr (g', Inl e)" for desp details v e
    using check_ends(2) [OF assms(2), of tm desp details v] by auto
  have none: "List.find (\<lambda>(t, is). length is > 1) ?ls = None" using single_find Cons.prems by simp
  show ?case
  proof (cases "?ls = []")
    case True
    then show ?thesis using none Cons by (simp add: Let_def)
  next
    case False
    then show ?thesis using none ok by (simp add: Let_def split: option.splits list.splits)
  qed
qed


text \<open>What a pass reads of a cluster that runs on: each entry is the answer of \<open>GetState\<close> at some moment of the run.\<close>

definition pass_of :: "nat \<Rightarrow> event list \<Rightarrow> readings \<Rightarrow> bool" where
  "pass_of n evs rs \<longleftrightarrow> length rs = n \<and>
     (\<forall>i<n. case rs ! i of None \<Rightarrow> True | Some r \<Rightarrow> \<exists>k C. on_run n evs k C \<and> GetState (rafts C ! i) = r)"

lemma pass_single:
  assumes "n \<le> 3" and "clean_run (init_cluster n) evs" and "pass_of n evs rs"
  shows "single rs"
proof -
  have "\<exists>k C. on_run n evs k C \<and> leads C i t" if "claims rs t i" for t i
    using that assms(3) on_run_inv [OF assms(2)] by (fastforce simp: pass_of_def claims_def leads_def)
  then show ?thesis using one_leader_over_time [OF assms(1,2)] unfolding single_def by blast
qed



definition demo_log :: globals where
  "demo_log = \<lparr>annotation = mkAnnotation, finfo = Some (mkFrameworkInfo 3)\<rparr>"


subsection \<open>Counting commits\<close>

definition holds_index :: "int \<Rightarrow> 'v rfsrv option \<Rightarrow> bool" where
  "holds_index index rso = (case rso of None \<Rightarrow> False | Some rs \<Rightarrow> logs rs index \<noteq> None)"

lemma n_committed_count:
  assumes "\<forall>rso\<in>set rss. \<exists>rs. rso = Some rs \<and> applyErr rs = '''' \<and> (\<forall>v. logs rs index = Some v \<longrightarrow> v = c)"
    and "0 < n \<longrightarrow> cmd = c"
  shows "n_committed tm sh index rss n cmd g =
    (let k = length (filter (holds_index index) rss) in
     Inr (g, Inr (n + k, if k = 0 then cmd else c)))"
  using assms
proof (induction rss arbitrary: n cmd)
  case (Cons rso rss)
  then obtain rs where "rso = Some rs" "applyErr rs = ''''" "\<forall>v. logs rs index = Some v \<longrightarrow> v = c" by auto
  then show ?case using Cons by (cases "logs rs index") (auto simp: RLogs_def Let_def holds_index_def)
qed simp

text \<open>In a state whose logs agree \<open>nCommitted\<close> succeeds and counts the servers that hold the index.\<close>

lemma nCommitted_agrees:
  assumes "all_up ts" and "logs_agree ts" and "\<forall>rs. Some rs \<in> set (rsrvs ts) \<longrightarrow> applyErr rs = ''''"
  shows "\<exists>c. nCommitted tm sh index ts g =
    Inr (g, Inr (length (filter (holds_index index) (rsrvs ts)), c)) \<and>
    (\<forall>i v. log_at ts i index = Some v \<longrightarrow> c = v)"
proof -
  obtain c where c: "\<forall>i v. log_at ts i index = Some v \<longrightarrow> v = c" using assms(2) unfolding logs_agree_def by metis
  have at: "\<exists>i. log_at ts i index = logs rs index" if "Some rs \<in> set (rsrvs ts)" for rs
  proof -
    obtain i where "i < length (rsrvs ts)" "rsrvs ts ! i = Some rs" using \<open>Some rs \<in> _\<close> by (auto simp: in_set_conv_nth)
    then show ?thesis by (intro exI [of _ i]) (simp add: log_at_def)
  qed
  have "\<forall>rso\<in>set (rsrvs ts). \<exists>rs. rso = Some rs \<and> applyErr rs = '''' \<and> (\<forall>v. logs rs index = Some v \<longrightarrow> v = c)"
    using assms(1,3) c at unfolding all_up_def by (metis not_None_eq)
  note count = n_committed_count [OF this, of 0 None tm sh g]
  have "filter (holds_index index) (rsrvs ts) \<noteq> []" if at_i: "log_at ts i index = Some v" for i v
  proof -
    obtain rs where rs: "i < length (rsrvs ts)" "rsrvs ts ! i = Some rs" "logs rs index = Some v"
      using at_i by (auto simp: log_at_def split: if_splits option.splits)
    then have "Some rs \<in> set (rsrvs ts)" by (metis nth_mem)
    then show ?thesis using rs(3) by (auto simp: filter_empty_conv holds_index_def intro!: bexI [of _ "Some rs"])
  qed
  then show ?thesis using count c by (auto simp: nCommitted_def Let_def)
qed

end
