(* ===== verification/Rsm.thy ===== *)
theory Rsm
  imports Raft_Peer Kv_Server
begin

text \<open>
  The replicated state machine layer and the services on it: \<open>kvraft1/rsm/rsm.go\<close>, the counter service
  \<open>kvraft1/rsm/server.go\<close> that its tests replicate, and the key/value service of \<open>kvraft1/server.go\<close>, whose
  handlers the repository has not filled in: they are modelled as the empty handlers they are.

  A service is handed to \<open>MakeRSM\<close> through the interface \<open>StateMachine\<close>; the locale \<open>state_machine\<close> is its
  contract, interpreted on the counter service and on the key/value service. A Go \<open>int\<close> is a 64-bit word, read
  signed. The gob encoding is a parameter.
\<close>

subsection \<open>The RSM\<close>

record RSM =
  rsm_me :: nat
  rsm_rf :: "Raft option"
  maxraftstate :: int

definition MakeRSM :: "nat \<Rightarrow> nat \<Rightarrow> Persister \<Rightarrow> int \<Rightarrow> RSM" where
  "MakeRSM npeers i ps maxrs = \<lparr>rsm_me = i, rsm_rf = Some (Make npeers i ps), maxraftstate = maxrs\<rparr>"

definition rsm_Raft :: "RSM \<Rightarrow> Raft option" where
  "rsm_Raft r = rsm_rf r"

definition Submit :: "RSM \<Rightarrow> 'req \<Rightarrow> err \<times> 'rep option" where
  "Submit r req = (ErrWrongLeader, None)"

subsection \<open>The counter service\<close>

datatype creq = Inc | Null | Dec | OtherReq

datatype crep = IncRep int | NullRep

record rsmSrv =
  srv_me :: nat
  rsm :: "RSM option"
  counter :: "64 word"

record 'b int_codec =
  enc_int :: "64 word \<Rightarrow> 'b"
  dec_int :: "'b \<Rightarrow> 64 word option"

definition int_codec_ok :: "'b int_codec \<Rightarrow> bool" where
  "int_codec_ok cd \<longleftrightarrow> (\<forall>w. dec_int cd (enc_int cd w) = Some w)"

definition makeRsmSrv :: "nat \<Rightarrow> nat \<Rightarrow> Persister \<Rightarrow> int \<Rightarrow> rsmSrv" where
  "makeRsmSrv npeers srv ps maxrs =
     (let s = \<lparr>srv_me = srv, rsm = None, counter = 0\<rparr> in s\<lparr>rsm := Some (MakeRSM npeers srv ps maxrs)\<rparr>)"

definition rsmSrv_DoOp :: "rsmSrv \<Rightarrow> creq \<Rightarrow> (rsmSrv \<times> crep option) go" where
  "rsmSrv_DoOp rs req =
     (case req of
        Inc \<Rightarrow> let rs = rs\<lparr>counter := counter rs + 1\<rparr> in Inr (rs, Some (IncRep (sint (counter rs))))
      | Null \<Rightarrow> Inr (rs, Some NullRep)
      | _ \<Rightarrow> Inl LogFatal)"

definition rsmSrv_Snapshot :: "'b int_codec \<Rightarrow> rsmSrv \<Rightarrow> 'b" where
  "rsmSrv_Snapshot cd rs = enc_int cd (counter rs)"

definition rsmSrv_Restore :: "'b int_codec \<Rightarrow> rsmSrv \<Rightarrow> 'b \<Rightarrow> rsmSrv go" where
  "rsmSrv_Restore cd rs data =
     (case dec_int cd data of None \<Rightarrow> Inl LogFatal | Some n \<Rightarrow> Inr (rs\<lparr>counter := n\<rparr>))"

definition rsmSrv_Kill :: "rsmSrv \<Rightarrow> rsmSrv" where
  "rsmSrv_Kill rs = rs\<lparr>rsm := None\<rparr>"

definition rsmSrv_Raft :: "rsmSrv \<Rightarrow> Raft option go" where
  "rsmSrv_Raft rs = (case rsm rs of None \<Rightarrow> Inl NilDeref | Some r \<Rightarrow> Inr (rsm_Raft r))"

subsection \<open>The key/value service\<close>

record KVRaftServer =
  kvr_me :: nat
  kvr_dead :: "32 word"
  kvr_rsm :: "RSM option"

definition kvraft_DoOp :: "KVRaftServer \<Rightarrow> 'req \<Rightarrow> (KVRaftServer \<times> 'rep option) go" where
  "kvraft_DoOp s req = Inr (s, None)"

definition kvraft_Snapshot :: "KVRaftServer \<Rightarrow> nat list option" where
  "kvraft_Snapshot s = None"

definition kvraft_Restore :: "KVRaftServer \<Rightarrow> nat list option \<Rightarrow> KVRaftServer go" where
  "kvraft_Restore s data = Inr s"

definition kvraft_Get :: "KVRaftServer \<Rightarrow> GetArgs \<Rightarrow> GetReply \<Rightarrow> KVRaftServer \<times> GetReply" where
  "kvraft_Get s args reply = (s, reply)"

definition kvraft_Put :: "KVRaftServer \<Rightarrow> PutArgs \<Rightarrow> PutReply \<Rightarrow> KVRaftServer \<times> PutReply" where
  "kvraft_Put s args reply = (s, reply)"

definition kvraft_Kill :: "KVRaftServer \<Rightarrow> KVRaftServer" where
  "kvraft_Kill s = s\<lparr>kvr_dead := 1\<rparr>"

definition kvraft_killed :: "KVRaftServer \<Rightarrow> bool" where
  "kvraft_killed s = (let z = kvr_dead s in z = 1)"

definition StartKVServer_raft :: "nat \<Rightarrow> nat \<Rightarrow> Persister \<Rightarrow> int \<Rightarrow> KVRaftServer \<times> Raft option" where
  "StartKVServer_raft npeers i ps maxrs =
     (let kv = \<lparr>kvr_me = i, kvr_dead = 0, kvr_rsm = None\<rparr>; r = MakeRSM npeers i ps maxrs in
      (kv\<lparr>kvr_rsm := Some r\<rparr>, rsm_Raft r))"

subsection \<open>The contract of a state machine\<close>

fun do_ops :: "('s \<Rightarrow> 'req \<Rightarrow> ('s \<times> 'rep) go) \<Rightarrow> 's \<Rightarrow> 'req list \<Rightarrow> ('s \<times> 'rep list) go" where
  "do_ops f s [] = Inr (s, [])"
| "do_ops f s (q # qs) = bind_go (f s q) (\<lambda>(s, r). bind_go (do_ops f s qs) (\<lambda>(s, rs). Inr (s, r # rs)))"

text \<open>
  \<open>core\<close> is what a snapshot stands for. A replica restored from a snapshot agrees with the replica that
  took it on the core, and \<open>DoOp\<close> answers from the core alone.
\<close>

definition on_core :: "('s \<Rightarrow> 'c) \<Rightarrow> ('s \<times> 'r) go \<Rightarrow> ('c \<times> 'r) go" where
  "on_core core x = map_sum id (\<lambda>(s, r). (core s, r)) x"

lemma on_core_simps [simp]: "on_core core (Inl e) = Inl e" "on_core core (Inr (s, r)) = Inr (core s, r)"
  by (simp_all add: on_core_def)

lemma on_core_Inl [simp]: "on_core core x = Inl e \<longleftrightarrow> x = Inl e"
  by (cases x) (auto simp: on_core_def split: prod.splits)

lemma on_core_Inr: "on_core core x = Inr (c, r) \<longleftrightarrow> (\<exists>s. x = Inr (s, r) \<and> core s = c)"
  by (cases x) (auto simp: on_core_def split: prod.splits)

locale state_machine =
  fixes DoOp :: "'s \<Rightarrow> 'req \<Rightarrow> ('s \<times> 'rep) go"
    and Snap :: "'s \<Rightarrow> 'b"
    and Restore :: "'s \<Rightarrow> 'b \<Rightarrow> 's go"
    and core :: "'s \<Rightarrow> 'c"
  assumes op_core: "core s = core t \<Longrightarrow> on_core core (DoOp s q) = on_core core (DoOp t q)"
    and restore_core: "\<exists>t'. Restore t (Snap s) = Inr t' \<and> core t' = core s"
begin

lemma ops_core: "core s = core t \<Longrightarrow> on_core core (do_ops DoOp s qs) = on_core core (do_ops DoOp t qs)"
proof (induction qs arbitrary: s t)
  case (Cons q qs)
  note op = op_core [OF Cons.prems, of q]
  show ?case
  proof (cases "DoOp s q")
    case (Inl e)
    moreover from this have "DoOp t q = Inl e" using op on_core_Inl [of core "DoOp t q" e] by simp
    ultimately show ?thesis by simp
  next
    case (Inr x)
    then obtain s' r where s: "DoOp s q = Inr (s', r)" by (cases x) auto
    then have "on_core core (DoOp t q) = Inr (core s', r)" using op by simp
    then obtain t' where t: "DoOp t q = Inr (t', r)" "core t' = core s'" by (auto simp: on_core_Inr)
    show ?thesis using Cons.IH [OF t(2)]
      by (cases "do_ops DoOp s' qs"; cases "do_ops DoOp t' qs") (auto simp: s t(1) on_core_def split: prod.splits)
  qed
qed simp

lemma replay_from_snapshot:
  assumes "Restore t (Snap s) = Inr t'"
  shows "on_core core (do_ops DoOp t' qs) = on_core core (do_ops DoOp s qs)"
proof (rule ops_core)
  show "core t' = core s" using restore_core [of t s] assms by simp
qed

end

interpretation kvraft_service: state_machine kvraft_DoOp kvraft_Snapshot kvraft_Restore "\<lambda>_. ()"
  by unfold_locales (simp_all add: kvraft_DoOp_def kvraft_Restore_def)

subsection \<open>The counter\<close>

definition incs :: "creq list \<Rightarrow> nat" where
  "incs qs = length (filter (\<lambda>q. q = Inc) qs)"

lemma incs_simps [simp]: "incs [] = 0" "incs (q # qs) = (if q = Inc then 1 else 0) + incs qs" "incs (as @ bs) = incs as + incs bs"
  by (simp_all add: incs_def)

lemma counter_machine: "int_codec_ok cd \<Longrightarrow> state_machine rsmSrv_DoOp (rsmSrv_Snapshot cd) (rsmSrv_Restore cd) counter"
  by unfold_locales (auto simp: rsmSrv_DoOp_def rsmSrv_Snapshot_def rsmSrv_Restore_def int_codec_ok_def on_core_def Let_def split: creq.splits)

lemma counter_runs:
  assumes "set qs \<subseteq> {Inc, Null}"
  shows "\<exists>s' rs. do_ops rsmSrv_DoOp s qs = Inr (s', rs) \<and> counter s' = counter s + of_nat (incs qs) \<and>
    rs = map (\<lambda>k. Some (if qs ! k = Inc then IncRep (sint (counter s + of_nat (incs (take (Suc k) qs)))) else NullRep)) [0..<length qs]"
  using assms
proof (induction qs arbitrary: s)
  case (Cons q qs)
  then obtain s1 r where s1: "rsmSrv_DoOp s q = Inr (s1, Some r)" "counter s1 = counter s + of_nat (incs [q])"
      "r = (if q = Inc then IncRep (sint (counter s1)) else NullRep)"
    by (auto simp: rsmSrv_DoOp_def Let_def)
  obtain s' rs where "do_ops rsmSrv_DoOp s1 qs = Inr (s', rs)" "counter s' = counter s1 + of_nat (incs qs)"
      "rs = map (\<lambda>k. Some (if qs ! k = Inc then IncRep (sint (counter s1 + of_nat (incs (take (Suc k) qs)))) else NullRep)) [0..<length qs]"
    using Cons.IH [of s1] Cons.prems by auto
  then show ?case using s1 by (simp add: upt_conv_Cons map_Suc_upt [symmetric] comp_def add.assoc del: upt_Suc)
qed simp


lemma sint_of_nat_small: "k < 2 ^ 63 \<Longrightarrow> sint (of_nat k :: 64 word) = int k"
  by (simp add: signed_of_nat signed_take_bit_int_eq_self)

text \<open>
  Property C26. The replicated counter: any number of \<open>Inc\<close> and \<open>Null\<close> operations from a fresh service succeed, the
  counter is the number of \<open>Inc\<close> operations modulo \<open>2 ^ 64\<close>, and a service restored from its snapshot answers every
  further sequence of operations the same way and ends with the same counter; while fewer than \<open>2 ^ 63\<close>
  increments were made the counter and the reply of an \<open>Inc\<close> are the exact, positive count.
\<close>
theorem counter_replicas_agree:
  assumes "int_codec_ok cd" and "set as \<subseteq> {Inc, Null}"
  shows "\<exists>s rs. do_ops rsmSrv_DoOp (makeRsmSrv npeers i ps maxrs) as = Inr (s, rs) \<and> counter s = of_nat (incs as) \<and>
    (incs as < 2 ^ 63 - 1 \<longrightarrow> sint (counter s) = int (incs as) \<and>
       (\<exists>s'. rsmSrv_DoOp s Inc = Inr (s', Some (IncRep (int (incs as) + 1))))) \<and>
    (\<forall>t bs. \<exists>t'. rsmSrv_Restore cd t (rsmSrv_Snapshot cd s) = Inr t' \<and>
       on_core counter (do_ops rsmSrv_DoOp t' bs) = on_core counter (do_ops rsmSrv_DoOp s bs))"
proof -
  obtain s rs where run: "do_ops rsmSrv_DoOp (makeRsmSrv npeers i ps maxrs) as = Inr (s, rs)" "counter s = of_nat (incs as)"
    using counter_runs [OF assms(2), of "makeRsmSrv npeers i ps maxrs"] by (auto simp: makeRsmSrv_def)
  have exact: "sint (counter s) = int (incs as) \<and> (\<exists>s'. rsmSrv_DoOp s Inc = Inr (s', Some (IncRep (int (incs as) + 1))))"
    if "incs as < 2 ^ 63 - 1"
    using sint_of_nat_small [of "incs as"] sint_of_nat_small [of "Suc (incs as)"] that
    by (auto simp: run(2) rsmSrv_DoOp_def Let_def add.commute)
  have "\<exists>t'. rsmSrv_Restore cd t (rsmSrv_Snapshot cd s) = Inr t' \<and>
       on_core counter (do_ops rsmSrv_DoOp t' bs) = on_core counter (do_ops rsmSrv_DoOp s bs)" for t bs
    using state_machine.restore_core [OF counter_machine [OF assms(1)], of t s]
      state_machine.replay_from_snapshot [OF counter_machine [OF assms(1)], of t s _ bs] by blast
  then show ?thesis using run exact by blast
qed

text \<open>Witness, with the identity as the encoding.\<close>

definition id_codec :: "64 word int_codec" where
  "id_codec = \<lparr>enc_int = (\<lambda>w. w), dec_int = Some\<rparr>"

theorem counter_replicas_agree_witness:
  "\<exists>s rs. do_ops rsmSrv_DoOp (makeRsmSrv 3 0 MakePersister (-1)) [Inc, Null, Inc] = Inr (s, rs) \<and> sint (counter s) = 2 \<and>
    (\<exists>t'. rsmSrv_Restore id_codec (makeRsmSrv 3 1 MakePersister (-1)) (rsmSrv_Snapshot id_codec s) = Inr t' \<and>
       on_core counter (do_ops rsmSrv_DoOp t' [Inc, Dec]) = on_core counter (do_ops rsmSrv_DoOp s [Inc, Dec]))"
proof -
  have "int_codec_ok id_codec" "set [Inc, Null, Inc] \<subseteq> {Inc, Null}" by (simp_all add: int_codec_ok_def id_codec_def)
  from counter_replicas_agree [OF this, of 3 0 MakePersister "-1"]
  obtain s rs where "do_ops rsmSrv_DoOp (makeRsmSrv 3 0 MakePersister (-1)) [Inc, Null, Inc] = Inr (s, rs)"
      "incs [Inc, Null, Inc] < 2 ^ 63 - 1 \<longrightarrow> sint (counter s) = int (incs [Inc, Null, Inc])"
      "\<forall>t bs. \<exists>t'. rsmSrv_Restore id_codec t (rsmSrv_Snapshot id_codec s) = Inr t' \<and>
         on_core counter (do_ops rsmSrv_DoOp t' bs) = on_core counter (do_ops rsmSrv_DoOp s bs)" by blast
  moreover from this(2) have "sint (counter s) = 2" by simp
  ultimately show ?thesis by blast
qed

end
