(* ===== verification/Leet_Search.thy ===== *)
theory Leet_Search
  imports Go_Prelude "HOL-Library.Signed_Division"
begin

text \<open>
  Searching and scanning sorted arrays and arrays of jumps, of the package \<open>leet\<close>: \<open>search.go\<close>, \<open>sort_arr.go\<close>,
  \<open>can_jump.go\<close> and \<open>move_zero.go\<close>. A slice of \<open>int\<close> is a list of integers, an index is an integer and indexing
  outside the slice is the panic \<open>IndexOutOfRange\<close>. Where a sum of elements can leave the range of a 64-bit
  \<open>int\<close> the wrap-around \<open>wrap64\<close> is written out; sums of two indices stay in range, because the length of a slice
  is at most half of it.
\<close>

subsection \<open>search.go\<close>

lemma sdiv2_between:
  fixes l r :: int
  assumes "l \<le> r"
  shows "l \<le> (l + r) sdiv 2" and "(l + r) sdiv 2 \<le> r"
  using assms by (auto simp: signed_divide_int_def sgn_if)

function search :: "int list \<Rightarrow> int \<Rightarrow> int \<Rightarrow> int \<Rightarrow> int go" where
  "search nums target left right =
     (if left > right then Inr left
      else
        let mid = (left + right) sdiv 2 in
        case nth_int nums mid of
          Inl e \<Rightarrow> Inl e
        | Inr v \<Rightarrow>
            if v = target then Inr mid
            else if target < v then search nums target left (mid - 1)
            else search nums target (mid + 1) right)"
  by pat_completeness auto
termination
  by (relation "measure (\<lambda>(nums, target, left, right). nat (right + 1 - left))")
    (auto simp: not_less dest: sdiv2_between)

declare search.simps [simp del]

definition searchInsert :: "int list \<Rightarrow> int \<Rightarrow> int go" where
  "searchInsert nums target =
     (if length nums = 0 then Inr 0 else search nums target 0 (int (length nums) - 1))"

subsection \<open>sort_arr.go\<close>

text \<open>The result \<open>[]int{a, b}\<close> is a pair.\<close>

definition merge_left :: "int \<Rightarrow> int \<times> int \<Rightarrow> int" where
  "merge_left mid l =
     (if snd l = -1 \<and> fst l = -1 then mid else if fst l \<noteq> -1 \<and> snd l \<noteq> -1 then fst l else snd l)"

definition merge_right :: "int \<Rightarrow> int \<times> int \<Rightarrow> int" where
  "merge_right mid r =
     (if snd r = -1 \<and> fst r = -1 then mid else if fst r \<noteq> -1 \<and> snd r \<noteq> -1 then snd r else fst r)"

lemma sdiv2_nonneg: "0 \<le> l \<Longrightarrow> l \<le> r \<Longrightarrow> (l + r) sdiv 2 = (l + r) div (2::int)"
  by (auto simp: signed_divide_int_def sgn_if)

function binarySearch :: "int list \<Rightarrow> int \<Rightarrow> int \<Rightarrow> int \<Rightarrow> (int \<times> int) go" where
  "binarySearch nums target from to =
     (if from > to then Inr (-1, -1)
      else
        case nth_int nums from of
          Inl e \<Rightarrow> Inl e
        | Inr a \<Rightarrow>
            if a > target then Inr (-1, -1)
            else
              case nth_int nums to of
                Inl e \<Rightarrow> Inl e
              | Inr b \<Rightarrow>
                  if b < target then Inr (-1, -1)
                  else if from = to then (if a = target then Inr (from, from) else Inr (-1, -1))
                  else
                    let mid = (from + to) sdiv 2 in
                    case nth_int nums mid of
                      Inl e \<Rightarrow> Inl e
                    | Inr v \<Rightarrow>
                        if v < target then binarySearch nums target (mid + 1) to
                        else if v > target then binarySearch nums target from mid
                        else
                          case binarySearch nums target from mid of
                            Inl e \<Rightarrow> Inl e
                          | Inr left \<Rightarrow>
                              case binarySearch nums target (mid + 1) to of
                                Inl e \<Rightarrow> Inl e
                              | Inr right \<Rightarrow> Inr (merge_left mid left, merge_right mid right))"
  by pat_completeness auto
termination
  by (relation "measure (\<lambda>(nums, target, from, to). nat (to + 1 - from))")
    (auto simp: not_less sdiv2_nonneg dest!: nth_int_InrD)

declare binarySearch.simps [simp del]

definition searchRange :: "int list \<Rightarrow> int \<Rightarrow> (int \<times> int) go" where
  "searchRange nums target = binarySearch nums target 0 (int (length nums) - 1)"

subsection \<open>move_zero.go\<close>

text \<open>The range loop reads each element when its turn comes, after the writes of the earlier turns.\<close>

function keep_nonzero :: "int list \<Rightarrow> int \<Rightarrow> int \<Rightarrow> (int list \<times> int) go" where
  "keep_nonzero nums i j =
     (if i < int (length nums) then
        case nth_int nums i of
          Inl e \<Rightarrow> Inl e
        | Inr num \<Rightarrow>
            if num \<noteq> 0 then
              case upd_go nums j num of
                Inl e \<Rightarrow> Inl e
              | Inr nums' \<Rightarrow> keep_nonzero nums' (i + 1) (j + 1)
            else keep_nonzero nums (i + 1) j
      else Inr (nums, j))"
  by pat_completeness auto
termination
  by (relation "measure (\<lambda>(nums, i, j). nat (int (length nums) - i))") (auto simp: upd_go_def split: if_splits)

function fill_zero :: "int list \<Rightarrow> int \<Rightarrow> int \<Rightarrow> int list go" where
  "fill_zero nums j zero =
     (if j \<le> zero then
        case upd_go nums j 0 of
          Inl e \<Rightarrow> Inl e
        | Inr nums' \<Rightarrow> fill_zero nums' (j + 1) zero
      else Inr nums)"
  by pat_completeness auto
termination
  by (relation "measure (\<lambda>(nums, j, zero). nat (zero + 1 - j))") auto

declare keep_nonzero.simps [simp del] fill_zero.simps [simp del]

definition moveZeroes :: "int list \<Rightarrow> int list go" where
  "moveZeroes nums =
     (let zero = int (length nums) - 1 in
      bind_go (keep_nonzero nums 0 0) (\<lambda>(nums, j). fill_zero nums j zero))"

subsection \<open>can_jump.go\<close>

function jump_loop :: "int list \<Rightarrow> int \<Rightarrow> int \<Rightarrow> bool go" where
  "jump_loop nums maxIndex i =
     (case nth_int nums i of
        Inl e \<Rightarrow> Inl e
      | Inr target \<Rightarrow>
          let maxIndex = (if wrap64 (i + target) > maxIndex then wrap64 (i + target) else maxIndex) in
          if maxIndex > i then
            (if i + 1 \<ge> int (length nums) - 1 then Inr True else jump_loop nums maxIndex (i + 1))
          else Inr False)"
  by pat_completeness auto
termination
  by (relation "measure (\<lambda>(nums, maxIndex, i). nat (int (length nums) - i))") auto

declare jump_loop.simps [simp del]

definition canJump :: "int list \<Rightarrow> bool go" where
  "canJump nums = (if length nums = 1 then Inr True else jump_loop nums 0 0)"

subsection \<open>Binary search\<close>

definition insertion_point :: "int list \<Rightarrow> int \<Rightarrow> int \<Rightarrow> bool" where
  "insertion_point nums target r \<longleftrightarrow> 0 \<le> r \<and> r \<le> int (length nums) \<and>
     (\<forall>k<length nums. (int k < r \<longrightarrow> nums ! k \<le> target) \<and> (r \<le> int k \<longrightarrow> target \<le> nums ! k)) \<and>
     (target \<in> set nums \<longrightarrow> r < int (length nums) \<and> nums ! nat r = target)"

lemma search_correct:
  assumes "sorted nums" and "0 \<le> left" and "left \<le> right + 1" and "right < int (length nums)"
    and "\<forall>k<length nums. int k < left \<longrightarrow> nums ! k < target"
    and "\<forall>k<length nums. right < int k \<longrightarrow> target < nums ! k"
  shows "\<exists>r. search nums target left right = Inr r \<and> insertion_point nums target r"
  using assms
proof (induction nums target left right rule: search.induct)
  case (1 nums target left right)
  let ?mid = "(left + right) div 2"
  show ?case
  proof (cases "left > right")
    case True
    then have "target \<notin> set nums" using 1(7,8) by (fastforce simp: in_set_conv_nth)
    then show ?thesis using True 1(4-8) by (subst search.simps) (fastforce simp: insertion_point_def)
  next
    case False
    then have le: "left \<le> right" by simp
    have mid: "(left + right) sdiv 2 = ?mid" "left \<le> ?mid" "?mid \<le> right" "0 \<le> ?mid" "?mid < int (length nums)"
      using sdiv2_nonneg [OF 1(4) le] le 1(4,6) by auto
    have low: "nums ! k \<le> nums ! nat ?mid" if "int k \<le> ?mid" for k
      using sorted_nth_mono [OF 1(3), of k "nat ?mid"] that mid by simp
    have high: "nums ! nat ?mid \<le> nums ! k" if "?mid \<le> int k" "k < length nums" for k
      using sorted_nth_mono [OF 1(3), of "nat ?mid" k] that mid by simp
    consider "nums ! nat ?mid = target" | "target < nums ! nat ?mid" | "nums ! nat ?mid < target" by linarith
    then show ?thesis
    proof cases
      case 1
      then show ?thesis using low high mid le by (subst search.simps) (auto simp: insertion_point_def)
    next
      case 2
      then have "search nums target left right = search nums target left (?mid - 1)"
        using mid le by (subst search.simps) (simp add: Let_def)
      moreover have "\<forall>k<length nums. ?mid - 1 < int k \<longrightarrow> target < nums ! k" using high 2 by (meson less_le_trans zle_diff1_eq not_le)
      ultimately show ?thesis using "1.IH"(1) [OF False, of ?mid "nums ! nat ?mid"] 2 "1.prems" mid by simp
    next
      case 3
      then have "search nums target left right = search nums target (?mid + 1) right"
        using mid le by (subst search.simps) (simp add: Let_def)
      moreover have "\<forall>k<length nums. int k < ?mid + 1 \<longrightarrow> nums ! k < target" 
        using low 3 by (auto intro: le_less_trans)
      ultimately show ?thesis using "1.IH"(2) [OF False, of ?mid "nums ! nat ?mid"] 3 "1.prems" mid by simp
    qed
  qed
qed


text \<open>
  \<open>searchInsert\<close> on a sorted slice returns a position at which inserting the target keeps the slice
  sorted, and it is a position of the target whenever the target occurs; on a slice without duplicates it is
  the number of smaller elements.
\<close>
theorem search_insert_point:
  assumes "sorted nums"
  shows "\<exists>r\<le>length nums. searchInsert nums target = Inr (int r) \<and> sorted (take r nums @ target # drop r nums) \<and>
    (target \<in> set nums \<longleftrightarrow> r < length nums \<and> nums ! r = target) \<and>
    (distinct nums \<longrightarrow> r = length (filter (\<lambda>x. x < target) nums))"
proof -
  obtain i where i: "searchInsert nums target = Inr i" "insertion_point nums target i"
    using search_correct [OF assms, of 0 "int (length nums) - 1" target]
    by (cases "nums = []") (auto simp: searchInsert_def insertion_point_def)
  define r where "r = nat i"
  have r: "i = int r" "r \<le> length nums" using i(2) by (auto simp: r_def insertion_point_def)
  have low: "\<forall>x\<in>set (take r nums). x \<le> target" and high: "\<forall>x\<in>set (drop r nums). target \<le> x"
    using i(2) r by (auto simp: insertion_point_def in_set_conv_nth)
  have mem: "target \<in> set nums \<longleftrightarrow> r < length nums \<and> nums ! r = target"
    using i(2) r by (auto simp: insertion_point_def)
  have "sorted (take r nums @ target # drop r nums)"
    using low high assms by (auto simp: sorted_append sorted_wrt_take sorted_wrt_drop intro: order_trans)
  moreover have "r = length (filter (\<lambda>x. x < target) nums)" if "distinct nums"
  proof -
    have "target \<notin> set (take r nums)"
    proof
      assume t: "target \<in> set (take r nums)"
      then have "r < length nums" "nums ! r = target" using mem in_set_takeD by fast+
      then have "target \<in> set (drop r nums)" by (metis Cons_nth_drop_Suc list.set_intros(1))
      then show False using t set_take_disj_set_drop_if_distinct [OF that, of r r] by auto
    qed
    then have "filter (\<lambda>x. x < target) (take r nums) = take r nums" using low by (auto simp: filter_id_conv order.strict_iff_order)
    moreover have "filter (\<lambda>x. x < target) (drop r nums) = []" using high by (auto simp: filter_empty_conv)
    ultimately have "filter (\<lambda>x. x < target) (take r nums @ drop r nums) = take r nums" unfolding filter_append by simp
    then show ?thesis using r(2) by simp
  qed
  ultimately show ?thesis using i(1) r mem by auto
qed


text \<open>The result of \<open>binarySearch\<close> on a segment: no occurrence there, or the first and the last one.\<close>

definition segment_range :: "int list \<Rightarrow> int \<Rightarrow> int \<Rightarrow> int \<Rightarrow> int \<times> int \<Rightarrow> bool" where
  "segment_range nums target fr to p \<longleftrightarrow>
     (p = (-1, -1) \<and> (\<forall>k. fr \<le> k \<and> k \<le> to \<longrightarrow> nums ! nat k \<noteq> target)) \<or>
     (fr \<le> fst p \<and> fst p \<le> snd p \<and> snd p \<le> to \<and>
       (\<forall>k. fr \<le> k \<and> k \<le> to \<longrightarrow> (nums ! nat k = target \<longleftrightarrow> fst p \<le> k \<and> k \<le> snd p)))"

lemma segment_low:
  assumes "\<And>k. fr \<le> k \<Longrightarrow> k < fr' \<Longrightarrow> nums ! nat k \<noteq> target" and "fr \<le> fr'"
    and "segment_range nums target fr' to p"
  shows "segment_range nums target fr to p"
  using assms unfolding segment_range_def by (smt (verit))

lemma segment_high:
  assumes "\<And>k. to' < k \<Longrightarrow> k \<le> to \<Longrightarrow> nums ! nat k \<noteq> target" and "to' \<le> to"
    and "segment_range nums target fr to' p"
  shows "segment_range nums target fr to p"
  using assms unfolding segment_range_def by (smt (verit))

lemma segment_merge:
  assumes "0 \<le> fr" and "fr \<le> mid" and "mid < to" and "nums ! nat mid = target"
    and "segment_range nums target fr mid l" and "segment_range nums target (mid + 1) to r"
    and convex: "\<And>k k'. mid \<le> k \<Longrightarrow> k \<le> k' \<Longrightarrow> k' \<le> to \<Longrightarrow> nums ! nat k' = target \<Longrightarrow> nums ! nat k = target"
  shows "segment_range nums target fr to (merge_left mid l, merge_right mid r)"
proof -
  have l: "fr \<le> fst l" "fst l \<le> mid" "merge_left mid l = fst l"
      "\<And>k. fr \<le> k \<Longrightarrow> k \<le> mid \<Longrightarrow> nums ! nat k = target \<longleftrightarrow> fst l \<le> k"
    using assms(1-5) unfolding segment_range_def merge_left_def by (auto, (smt (verit))+)
  have "mid \<le> merge_right mid r \<and> merge_right mid r \<le> to \<and>
      (\<forall>k. mid + 1 \<le> k \<and> k \<le> to \<longrightarrow> (nums ! nat k = target \<longleftrightarrow> k \<le> merge_right mid r))"
  proof (cases "r = (-1, -1)")
    case True
    then show ?thesis using assms(1-3,6) by (auto simp: segment_range_def merge_right_def)
  next
    case False
    then have b: "mid + 1 \<le> fst r" "fst r \<le> snd r" "snd r \<le> to"
        "\<forall>k. mid + 1 \<le> k \<and> k \<le> to \<longrightarrow> (nums ! nat k = target \<longleftrightarrow> fst r \<le> k \<and> k \<le> snd r)"
      using assms(6) by (auto simp: segment_range_def)
    then have "merge_right mid r = snd r" using assms(1,2) by (auto simp: merge_right_def)
    moreover have "fst r \<le> k" if "mid + 1 \<le> k" "k \<le> snd r" for k
    proof (rule ccontr)
      assume "\<not> fst r \<le> k"
      then show False using convex [of k "fst r"] b that by auto
    qed
    ultimately show ?thesis using b by auto
  qed
  note r = this [THEN conjunct1] this [THEN conjunct2, THEN conjunct1] this [THEN conjunct2, THEN conjunct2, rule_format]
  have "nums ! nat k = target \<longleftrightarrow> fst l \<le> k \<and> k \<le> merge_right mid r" if "fr \<le> k" "k \<le> to" for k
    using that l(2) l(4) [of k] r(1) r(3) [of k] by (cases "k \<le> mid") auto
  then show ?thesis using l(1-3) r(1,2) by (auto simp: segment_range_def)
qed

lemma binarySearch_correct:
  assumes "sorted nums" and "0 \<le> fr" and "to < int (length nums)"
  shows "\<exists>p. binarySearch nums target fr to = Inr p \<and> segment_range nums target fr to p"
  using assms(2,3)
proof (induction "nat (to + 1 - fr)" arbitrary: fr to rule: less_induct)
  case (less fr to)
  let ?mid = "(fr + to) div 2"
  have mono: "nums ! nat k \<le> nums ! nat k'" if "fr \<le> k" "k \<le> k'" "k' \<le> to" for k k'
    using sorted_nth_mono [OF assms(1), of "nat k" "nat k'"] that less.prems by simp
  consider (none) "fr > to" | (above) "fr \<le> to" "nums ! nat fr > target"
    | (below) "fr \<le> to" "nums ! nat to < target" "\<not> nums ! nat fr > target"
    | (one) "fr = to" "nums ! nat fr = target"
    | (split) "fr < to" "nums ! nat fr \<le> target" "target \<le> nums ! nat to" by fastforce
  then show ?case
  proof cases
    case above
    then show ?thesis using mono [of fr] less.prems by (subst binarySearch.simps) (fastforce simp: segment_range_def)
  next
    case below
    then show ?thesis using mono [of _ to] less.prems by (subst binarySearch.simps) (fastforce simp: segment_range_def)
  next
    case split
    have mid: "(fr + to) sdiv 2 = ?mid" "fr \<le> ?mid" "?mid < to" "0 \<le> ?mid" "?mid < int (length nums)"
      using sdiv2_nonneg [OF less.prems(1), of to] split less.prems by auto
    obtain l where l: "binarySearch nums target fr ?mid = Inr l" "segment_range nums target fr ?mid l"
      using less.hyps [of ?mid fr] mid less.prems by auto
    obtain r where r: "binarySearch nums target (?mid + 1) to = Inr r" "segment_range nums target (?mid + 1) to r"
      using less.hyps [of to "?mid + 1"] mid less.prems by auto
    consider (right) "nums ! nat ?mid < target" | (left) "nums ! nat ?mid > target" | (both) "nums ! nat ?mid = target" by linarith
    then show ?thesis
    proof cases
      case right
      have "nums ! nat k \<noteq> target" if "fr \<le> k" "k < ?mid + 1" for k using mono [of k ?mid] that right mid by auto
      then have "segment_range nums target fr to r" using segment_low [of fr "?mid + 1"] mid r(2) by auto
      then show ?thesis using right split less.prems mid r(1) by (subst binarySearch.simps) (auto simp: Let_def)
    next
      case left
      have "nums ! nat k \<noteq> target" if "?mid < k" "k \<le> to" for k using mono [of ?mid k] that left mid by auto
      then have "segment_range nums target fr to l" using segment_high [of ?mid to] mid l(2) by auto
      then show ?thesis using left split less.prems mid l(1) by (subst binarySearch.simps) (auto simp: Let_def)
    next
      case both
      have "nums ! nat k = target" if "?mid \<le> k" "k \<le> k'" "k' \<le> to" "nums ! nat k' = target" for k k'
        using mono [of ?mid k] mono [of k k'] that both mid by auto
      then have "segment_range nums target fr to (merge_left ?mid l, merge_right ?mid r)"
        using segment_merge [of "fr" ?mid to nums target l r] less.prems both mid l(2) r(2) by blast
      then show ?thesis using both split less.prems mid l(1) r(1) by (subst binarySearch.simps) (auto simp: Let_def)
    qed
  next
    case none
    then show ?thesis by (subst binarySearch.simps) (simp add: segment_range_def)
  next
    case one
    then show ?thesis using less.prems by (subst binarySearch.simps) (simp add: segment_range_def, metis order_antisym)
  qed
qed


text \<open>
  \<open>searchRange\<close> on a sorted slice never panics and returns the first and the last position of the
  target, so that exactly the positions between them hold it, and \<open>[-1, -1]\<close> if there is none.
\<close>
theorem search_range_exact:
  assumes "sorted nums"
  shows "if target \<in> set nums
    then \<exists>a b. searchRange nums target = Inr (int a, int b) \<and> a \<le> b \<and> b < length nums \<and>
      (\<forall>k<length nums. nums ! k = target \<longleftrightarrow> a \<le> k \<and> k \<le> b)
    else searchRange nums target = Inr (-1, -1)"
proof -
  obtain p where p: "searchRange nums target = Inr p" "segment_range nums target 0 (int (length nums) - 1) p"
    using binarySearch_correct [OF assms, of 0 "int (length nums) - 1" target] by (auto simp: searchRange_def)
  have mem: "target \<in> set nums \<longleftrightarrow> (\<exists>k. 0 \<le> k \<and> k \<le> int (length nums) - 1 \<and> nums ! nat k = target)"
    (is "?l \<longleftrightarrow> ?r")
  proof
    assume ?l
    then obtain k where "k < length nums" "nums ! k = target" by (auto simp: in_set_conv_nth)
    then show ?r by (intro exI [of _ "int k"]) auto
  next
    assume ?r
    then obtain k where "0 \<le> k" "k \<le> int (length nums) - 1" "nums ! nat k = target" by blast
    then show ?l by (auto simp: in_set_conv_nth intro!: exI [of _ "nat k"])
  qed
  show ?thesis
  proof (cases "target \<in> set nums")
    case True
    then have b: "0 \<le> fst p" "fst p \<le> snd p" "snd p \<le> int (length nums) - 1"
        "\<forall>k. 0 \<le> k \<and> k \<le> int (length nums) - 1 \<longrightarrow> (nums ! nat k = target \<longleftrightarrow> fst p \<le> k \<and> k \<le> snd p)"
      using p(2) mem by (auto simp: segment_range_def)
    have "nums ! k = target \<longleftrightarrow> nat (fst p) \<le> k \<and> k \<le> nat (snd p)" if "k < length nums" for k
      using b(4) [rule_format, of "int k"] b(1-3) that by (simp add: nat_le_iff le_nat_iff)
    then have "\<exists>a b. p = (int a, int b) \<and> a \<le> b \<and> b < length nums \<and> (\<forall>k<length nums. nums ! k = target \<longleftrightarrow> a \<le> k \<and> k \<le> b)"
      using b(1-3) by (intro exI [of _ "nat (fst p)"] exI [of _ "nat (snd p)"]) (auto simp: prod_eq_iff)
    then show ?thesis using True p(1) by auto
  next
    case False
    then show ?thesis using p mem by (auto simp: segment_range_def)
  qed
qed

theorem search_range_exact_witness:
  "\<exists>a b. searchRange [5, 7, 7, 8, 8, 10] 8 = Inr (int a, int b) \<and> a \<le> b \<and> b < length [5, 7, 7, 8, 8, 10::int] \<and>
    (\<forall>k<length [5, 7, 7, 8, 8, 10::int]. [5, 7, 7, 8, 8, 10] ! k = (8::int) \<longleftrightarrow> a \<le> k \<and> k \<le> b)"
  using search_range_exact [of "[5, 7, 7, 8, 8, 10]" 8] by simp

subsection \<open>Moving zeroes\<close>

lemma keep_nonzero_correct:
  assumes "0 \<le> j" and "j \<le> i" and "i \<le> int (length nums)" and "length nums = length orig"
    and "take (nat j) nums = filter (\<lambda>x. x \<noteq> 0) (take (nat i) orig)" and "drop (nat i) nums = drop (nat i) orig"
  shows "\<exists>nums'. keep_nonzero nums i j = Inr (nums', int (length (filter (\<lambda>x. x \<noteq> 0) orig))) \<and> length nums' = length orig \<and>
    take (length (filter (\<lambda>x. x \<noteq> 0) orig)) nums' = filter (\<lambda>x. x \<noteq> 0) orig"
  using assms
proof (induction nums i j rule: keep_nonzero.induct)
  case (1 nums i j)
  show ?case
  proof (cases "i < int (length nums)")
    case False
    then have "int (length (filter (\<lambda>x. x \<noteq> 0) orig)) = j" using "1.prems" by (metis (no_types, lifting) length_take nat_le_iff order_antisym_conv linorder_not_less nat_int min.absorb2 nat_eq_iff2 take_all of_nat_nat zle_int)
    then show ?thesis using False "1.prems" by (subst keep_nonzero.simps) auto
  next
    case True
    then have n: "nth_int nums i = Inr (nums ! nat i)" "nat i < length nums" using "1.prems" by auto
    have hd: "orig ! nat i = nums ! nat i"
      using n(2) "1.prems"(4,6) by (metis hd_drop_conv_nth)
    have tk: "take (nat (i + 1)) orig = take (nat i) orig @ [nums ! nat i]"
      using n(2) "1.prems" hd by (simp add: nat_add_distrib take_Suc_conv_app_nth)
    have dr: "drop (nat (i + 1)) nums = drop (nat (i + 1)) orig"
      using "1.prems"(1,2,6) by (simp add: nat_add_distrib) (metis drop_drop plus_1_eq_Suc)
    show ?thesis
    proof (cases "nums ! nat i = 0")
      case True
      then have "\<exists>nums'. keep_nonzero nums (i + 1) j = Inr (nums', int (length (filter (\<lambda>x. x \<noteq> 0) orig))) \<and> length nums' = length orig \<and>
          take (length (filter (\<lambda>x. x \<noteq> 0) orig)) nums' = filter (\<lambda>x. x \<noteq> 0) orig"
        using "1.IH"(2) [OF \<open>i < _\<close> n(1)] "1.prems" \<open>i < _\<close> tk dr by simp
      then show ?thesis using True n \<open>i < _\<close> by (subst keep_nonzero.simps) simp
    next
      case False
      let ?nums = "nums[nat j := nums ! nat i]"
      have u: "upd_go nums j (nums ! nat i) = Inr ?nums" using "1.prems"(1,2) \<open>i < _\<close> by (simp add: upd_go_def)
      have "take (nat (j + 1)) ?nums = filter (\<lambda>x. x \<noteq> 0) (take (nat (i + 1)) orig)"
        using "1.prems"(1,2,5) n(2) False tk by (simp add: nat_add_distrib take_Suc_conv_app_nth)
      moreover have "drop (nat (i + 1)) ?nums = drop (nat (i + 1)) orig"
        using dr "1.prems"(1,2) by (simp add: drop_update_cancel nat_add_distrib)
      ultimately have "\<exists>nums'. keep_nonzero ?nums (i + 1) (j + 1) = Inr (nums', int (length (filter (\<lambda>x. x \<noteq> 0) orig))) \<and>
          length nums' = length orig \<and> take (length (filter (\<lambda>x. x \<noteq> 0) orig)) nums' = filter (\<lambda>x. x \<noteq> 0) orig"
        using "1.IH"(1) [OF \<open>i < _\<close> n(1) False u] "1.prems" \<open>i < _\<close> by simp
      then show ?thesis using False u n \<open>i < _\<close> by (subst keep_nonzero.simps) simp
    qed
  qed
qed

lemma fill_zero_correct:
  assumes "0 \<le> j" and "j \<le> int (length nums)"
  shows "fill_zero nums j (int (length nums) - 1) = Inr (take (nat j) nums @ replicate (length nums - nat j) 0)"
  using assms
proof (induction "nat (int (length nums) - j)" arbitrary: nums j)
  case 0
  then show ?case by (subst fill_zero.simps) simp
next
  case (Suc n)
  then have "upd_go nums j 0 = Inr (nums[nat j := 0])" and lt: "nat j < length nums" by (auto simp: upd_go_def)
  moreover have "fill_zero (nums[nat j := 0]) (j + 1) (int (length nums) - 1)
      = Inr (take (nat (j + 1)) (nums[nat j := 0]) @ replicate (length nums - nat (j + 1)) 0)"
    using Suc.hyps(1) [of "nums[nat j := 0]" "j + 1"] Suc.hyps(2) Suc.prems by auto
  moreover have "take (nat (j + 1)) (nums[nat j := 0]) = take (nat j) nums @ [0]"
    using lt Suc.prems by (simp add: nat_add_distrib take_Suc_conv_app_nth)
  moreover have "replicate (length nums - nat j) (0::int) = 0 # replicate (length nums - nat (j + 1)) 0"
    using lt Suc.prems by (simp add: nat_add_distrib flip: replicate_Suc)
  ultimately show ?case using Suc.hyps(2) by (subst fill_zero.simps) auto
qed

text \<open>
  \<open>moveZeroes\<close>, which overwrites the slice in place while ranging over it, never panics and leaves
  the nonzero elements in their order, followed by as many zeroes as there were.
\<close>
theorem move_zeroes_stable:
  "moveZeroes nums = Inr (filter (\<lambda>x. x \<noteq> 0) nums @ replicate (length (filter (\<lambda>x. x = 0) nums)) 0)"
proof -
  let ?nz = "filter (\<lambda>x. x \<noteq> 0) nums"
  obtain ys where ys: "keep_nonzero nums 0 0 = Inr (ys, int (length ?nz))" "length ys = length nums" "take (length ?nz) ys = ?nz"
    using keep_nonzero_correct [of 0 0 nums nums] by auto
  have "length ?nz \<le> length nums" by simp
  then have "fill_zero ys (int (length ?nz)) (int (length nums) - 1) = Inr (?nz @ replicate (length nums - length ?nz) 0)"
    using fill_zero_correct [of "int (length ?nz)" ys] ys by simp
  moreover have "length nums - length ?nz = length (filter (\<lambda>x. x = 0) nums)"
    using sum_length_filter_compl [of "\<lambda>x. x = 0" nums] by linarith
  ultimately show ?thesis by (simp add: moveZeroes_def ys(1))
qed

subsection \<open>Jumping\<close>

text \<open>The positions that can be reached by jumps of at most the value at each position.\<close>

inductive jump_reach :: "int list \<Rightarrow> nat \<Rightarrow> bool" for nums where
  start: "jump_reach nums 0"
| jump: "jump_reach nums k \<Longrightarrow> k < m \<Longrightarrow> int m \<le> int k + nums ! k \<Longrightarrow> m < length nums \<Longrightarrow> jump_reach nums m"

definition jump_inv :: "int list \<Rightarrow> int \<Rightarrow> nat \<Rightarrow> bool" where
  "jump_inv nums mx i \<longleftrightarrow> (\<forall>k\<le>i. jump_reach nums k) \<and> (\<forall>k<i. int k + nums ! k \<le> mx) \<and> int i \<le> mx \<and>
     (i = 0 \<and> mx = 0 \<or> (\<exists>k<i. mx = int k + nums ! k))"

lemma jump_stuck:
  assumes "jump_reach nums m" and "\<forall>k\<le>i. int k + nums ! k \<le> int i"
  shows "m \<le> i"
  using assms
proof (induction rule: jump_reach.induct)
  case (jump k m)
  then have "int k + nums ! k \<le> int i" by simp
  then show ?case using jump by linarith
qed simp

lemma jump_loop_correct:
  assumes "\<forall>x\<in>set nums. 0 \<le> x \<and> x < 2 ^ 62" and "length nums < 2 ^ 62" and "i + 1 < length nums" and "jump_inv nums mx i"
  shows "jump_loop nums mx (int i) = Inr (jump_reach nums (length nums - 1))"
  using assms(3,4)
proof (induction "length nums - i" arbitrary: i mx)
  case (Suc n)
  let ?t = "nums ! i"
  let ?mx = "max mx (int i + ?t)"
  have i: "nth_int nums (int i) = Inr ?t" using Suc.prems by simp
  have "0 \<le> ?t" "?t < 2 ^ 62" using assms(1) Suc.prems by auto
  moreover have "int (length nums) < 2 ^ 62" using assms(2) by (metis of_nat_less_iff of_nat_numeral of_nat_power)
  ultimately have w: "wrap64 (int i + ?t) = int i + ?t" using Suc.prems(1) by (intro wrap64_id) auto
  have loop: "jump_loop nums mx (int i) =
      (if ?mx > int i then if int i + 1 \<ge> int (length nums) - 1 then Inr True else jump_loop nums ?mx (int i + 1) else Inr False)"
    using i w by (subst jump_loop.simps) (simp add: Let_def max_def not_less)
  have all: "\<forall>k\<le>i. int k + nums ! k \<le> ?mx"
  proof (intro allI impI)
    fix k assume "k \<le> i"
    then show "int k + nums ! k \<le> ?mx" using Suc.prems(2) by (cases "k = i") (auto simp: jump_inv_def le_max_iff_disj)
  qed
  show ?case
  proof (cases "?mx > int i")
    case False
    then have "\<forall>k\<le>i. int k + nums ! k \<le> int i" using all by (meson not_less order_trans)
    then have "\<not> jump_reach nums (length nums - 1)" using jump_stuck [of nums "length nums - 1" i] Suc.prems(1) by auto
    then show ?thesis using loop False by simp
  next
    case True
    have top: "\<exists>k\<le>i. ?mx = int k + nums ! k"
    proof (cases "mx \<le> int i + ?t")
      case False
      then have "\<exists>k<i. mx = int k + nums ! k" using Suc.prems(2) \<open>0 \<le> ?t\<close> by (auto simp: jump_inv_def)
      then obtain k where "k < i" "mx = int k + nums ! k" by blast
      then show ?thesis using False by (intro exI [of _ k]) simp
    qed (auto intro!: exI [of _ i] simp: max_def)
    then obtain k where k: "k \<le> i" "?mx = int k + nums ! k" by blast
    have "jump_reach nums k" using Suc.prems(2) k(1) by (simp add: jump_inv_def)
    then have step: "jump_reach nums (Suc i)"
      using jump_reach.jump [of nums k "Suc i"] Suc.prems(1) True k by simp
    have inv: "jump_inv nums ?mx (Suc i)"
      using Suc.prems(2) all top True step by (simp add: jump_inv_def le_Suc_eq less_Suc_eq_le all_conj_distrib del: max_less_iff_conj max.bounded_iff less_max_iff_disj le_max_iff_disj)
    show ?thesis
    proof (cases "Suc i + 1 < length nums")
      case False
      then have "length nums - 1 = Suc i" using Suc.prems(1) by simp
      then show ?thesis using step loop True False by simp
    next
      case more: True
      then show ?thesis using Suc.hyps(1) [of "Suc i" ?mx] Suc.hyps(2) inv loop True by (auto simp: add.commute)
    qed
  qed
qed simp

text \<open>
  \<open>canJump\<close> on a nonempty slice of nonnegative numbers below \<open>2 ^ 62\<close> returns true exactly if the last
  position can be reached by jumps; on an empty slice it panics.
\<close>
theorem can_jump_reach:
  assumes "\<forall>x\<in>set nums. 0 \<le> x \<and> x < 2 ^ 62" and "length nums < 2 ^ 62"
  shows "canJump nums = (if nums = [] then Inl IndexOutOfRange else Inr (jump_reach nums (length nums - 1)))"
proof -
  consider "nums = []" | "length nums = 1" | "1 < length nums" by (cases nums) auto
  then show ?thesis
  proof cases
    case 1
    then show ?thesis by (simp add: canJump_def jump_loop.simps nth_int_def)
  next
    case 2
    then show ?thesis by (auto simp: canJump_def jump_reach.start)
  next
    case 3
    then have "jump_loop nums 0 0 = Inr (jump_reach nums (length nums - 1))"
      using jump_loop_correct [OF assms, of 0 0] by (simp add: jump_inv_def jump_reach.start)
    then show ?thesis using 3 by (auto simp: canJump_def)
  qed
qed

theorem can_jump_reach_witness:
  "canJump [3, 2, 1, 0, 4] = Inr (jump_reach [3, 2, 1, 0, 4] (length [3, 2, 1, 0, 4::int] - 1))"
  using can_jump_reach [of "[3, 2, 1, 0, 4]"] by simp


theorem search_insert_point_witness:
  "\<exists>r\<le>length [1, 3, 5, 6::int]. searchInsert [1, 3, 5, 6] 2 = Inr (int r) \<and> r = length (filter (\<lambda>x. x < 2) [1, 3, 5, 6::int])"
  using search_insert_point [of "[1, 3, 5, 6]" 2] by auto

end
