(* ===== verification/Leet_Dp.thy ===== *)
theory Leet_Dp
  imports Go_Prelude "HOL-Library.Sublist"
begin

text \<open>
  The dynamic programs over two strings of the package \<open>leet\<close>: \<open>lcs.go\<close> (longest common subsequence) and
  \<open>dis.go\<close> (edit distance). Both fill a table row by row; \<open>fill_row\<close> and \<open>fill_rows\<close> are their two nested loops, with
  what is stored in a cell as an argument. A string is its list of bytes. The loop bounds keep every index in
  the table. The locale \<open>dp_table\<close> says what the loops compute, once for both programs; the two results are
  then shown to be optimal: the longest of all common subsequences, and the fewest single-character edits.
\<close>

subsection \<open>The table\<close>

text \<open>A cell gets its indices and the entries above left, above and to the left of it.\<close>

type_synonym cell = "nat \<Rightarrow> nat \<Rightarrow> nat \<Rightarrow> nat \<Rightarrow> nat \<Rightarrow> nat"

definition set_cell :: "nat list list \<Rightarrow> nat \<Rightarrow> nat \<Rightarrow> nat \<Rightarrow> nat list list" where
  "set_cell dp i j v = dp[i := (dp ! i)[j := v]]"

function fill_row :: "cell \<Rightarrow> nat \<Rightarrow> nat \<Rightarrow> nat \<Rightarrow> nat list list \<Rightarrow> nat list list" where
  "fill_row f i j m dp =
     (if j \<le> m then fill_row f i (j + 1) m (set_cell dp i j (f i j (dp ! (i - 1) ! (j - 1)) (dp ! (i - 1) ! j) (dp ! i ! (j - 1))))
      else dp)"
  by pat_completeness auto
termination by (relation "measure (\<lambda>(f, i, j, m, dp). m + 1 - j)") auto

function fill_rows :: "cell \<Rightarrow> nat \<Rightarrow> nat \<Rightarrow> nat \<Rightarrow> nat list list \<Rightarrow> nat list list" where
  "fill_rows f i n m dp = (if i \<le> n then fill_rows f (i + 1) n m (fill_row f i 1 m dp) else dp)"
  by pat_completeness auto
termination by (relation "measure (\<lambda>(f, i, n, m, dp). n + 1 - i)") auto

declare fill_row.simps [simp del] fill_rows.simps [simp del]

subsection \<open>lcs.go\<close>

definition lcs_cell :: "string \<Rightarrow> string \<Rightarrow> cell" where
  "lcs_cell text1 text2 i j diag up left =
     (if text1 ! (i - 1) = text2 ! (j - 1) then diag + 1 else max up left)"

definition longestCommonSubsequence :: "string \<Rightarrow> string \<Rightarrow> nat" where
  "longestCommonSubsequence text1 text2 =
     (let len1 = length text1; len2 = length text2;
          dp = map (\<lambda>i. (replicate (len2 + 1) 0)[0 := 0]) [0..<len1 + 1];
          dp = foldl (\<lambda>dp j. set_cell dp 0 j 0) dp [0..<len2 + 1];
          dp = fill_rows (lcs_cell text1 text2) 1 len1 len2 dp in
      dp ! len1 ! len2)"

subsection \<open>dis.go\<close>

definition edit_cell :: "string \<Rightarrow> string \<Rightarrow> cell" where
  "edit_cell word1 word2 i j diag up left =
     (let indexI = i - 1; indexJ = j - 1 in
      if word1 ! indexI = word2 ! indexJ then diag else min (min diag up) left + 1)"

definition minDistance :: "string \<Rightarrow> string \<Rightarrow> nat" where
  "minDistance word1 word2 =
     (let len1 = length word1; len2 = length word2 in
      if len1 = 0 \<or> len2 = 0 then (if len1 = 0 then len2 else len1)
      else
        let dp = map (\<lambda>i. (replicate (len2 + 1) 0)[0 := i]) [0..<len1 + 1];
            dp = foldl (\<lambda>dp j. set_cell dp 0 j j) dp [0..<len2 + 1];
            dp = fill_rows (edit_cell word1 word2) 1 len1 len2 dp in
        dp ! len1 ! len2)"

subsection \<open>What the loops compute\<close>

definition shape :: "nat \<Rightarrow> nat \<Rightarrow> nat list list \<Rightarrow> bool" where
  "shape n m dp \<longleftrightarrow> length dp = n + 1 \<and> (\<forall>i\<le>n. length (dp ! i) = m + 1)"

lemma set_cell_nth: "shape n m dp \<Longrightarrow> i \<le> n \<Longrightarrow> j \<le> m \<Longrightarrow> a \<le> n \<Longrightarrow> set_cell dp i j v ! a ! b = (if a = i \<and> b = j then v else dp ! a ! b)"
  by (auto simp: set_cell_def shape_def nth_list_update)

lemma shape_set_cell [simp]: "shape n m dp \<Longrightarrow> i \<le> n \<Longrightarrow> shape n m (set_cell dp i j v)"
  by (auto simp: set_cell_def shape_def nth_list_update)

locale dp_table =
  fixes f :: cell and T :: "nat \<Rightarrow> nat \<Rightarrow> nat" and n m :: nat
  assumes cell_rec: "\<lbrakk>0 < i; i \<le> n; 0 < j; j \<le> m\<rbrakk> \<Longrightarrow> T i j = f i j (T (i - 1) (j - 1)) (T (i - 1) j) (T i (j - 1))"
begin

text \<open>The first row and column, the rows before \<open>i\<close> and row \<open>i\<close> before column \<open>j\<close> are right.\<close>

definition filled :: "nat \<Rightarrow> nat \<Rightarrow> nat list list \<Rightarrow> bool" where
  "filled i j dp \<longleftrightarrow> shape n m dp \<and> (\<forall>a\<le>n. \<forall>b\<le>m. a = 0 \<or> b = 0 \<or> a < i \<or> a = i \<and> b < j \<longrightarrow> dp ! a ! b = T a b)"

lemma fill_row_filled:
  assumes "0 < i" and "i \<le> n" and "0 < j" and "j \<le> m + 1" and "filled i j dp"
  shows "filled i (m + 1) (fill_row f i j m dp)"
  using assms
proof (induction "m + 1 - j" arbitrary: j dp)
  case 0
  then show ?case by (subst fill_row.simps) simp
next
  case (Suc k)
  let ?v = "f i j (dp ! (i - 1) ! (j - 1)) (dp ! (i - 1) ! j) (dp ! i ! (j - 1))"
  have j: "j \<le> m" using Suc.hyps(2) by simp
  have "?v = T i j" using Suc.prems j cell_rec [of i j] by (auto simp: filled_def)
  then have "filled i (j + 1) (set_cell dp i j ?v)"
    using Suc.prems j by (auto simp: filled_def set_cell_nth) (metis le0)
  then have "filled i (m + 1) (fill_row f i (j + 1) m (set_cell dp i j ?v))"
    using Suc.hyps Suc.prems j by auto
  then show ?case using j by (subst fill_row.simps) simp
qed

lemma filled_next:
  assumes "filled i (m + 1) dp"
  shows "filled (i + 1) 0 dp"
  unfolding filled_def
proof (intro conjI allI impI)
  show "shape n m dp" using assms by (simp add: filled_def)
  fix a b assume ab: "a \<le> n" "b \<le> m" "a = 0 \<or> b = 0 \<or> a < i + 1 \<or> a = i + 1 \<and> b < 0"
  then have "a = 0 \<or> b = 0 \<or> a < i \<or> a = i \<and> b < m + 1" by auto
  then show "dp ! a ! b = T a b" using assms ab(1,2) unfolding filled_def by blast
qed

lemma fill_rows_filled:
  assumes "0 < i" and "i \<le> n + 1" and "filled i 0 dp"
  shows "filled (n + 1) 0 (fill_rows f i n m dp)"
  using assms
proof (induction "n + 1 - i" arbitrary: i dp)
  case 0
  then show ?case by (subst fill_rows.simps) simp
next
  case (Suc k)
  have "filled i 1 dp" using Suc.prems by (auto simp: filled_def less_Suc_eq)
  then have "filled i (m + 1) (fill_row f i 1 m dp)" using fill_row_filled [of i 1] Suc.prems Suc.hyps(2) by simp
  then have "filled (i + 1) 0 (fill_row f i 1 m dp)" by (rule filled_next)
  then have "filled (n + 1) 0 (fill_rows f (i + 1) n m (fill_row f i 1 m dp))"
    using Suc.hyps Suc.prems by auto
  moreover have "i \<le> n" using Suc.hyps(2) by simp
  ultimately show ?case by (subst fill_rows.simps) simp
qed

lemma table_entry:
  assumes "shape n m dp" and "\<forall>i\<le>n. dp ! i ! 0 = T i 0" and "\<forall>j\<le>m. dp ! 0 ! j = T 0 j"
  shows "fill_rows f 1 n m dp ! n ! m = T n m"
proof -
  have "filled 1 0 dp" using assms by (auto simp: filled_def)
  then have "filled (n + 1) 0 (fill_rows f 1 n m dp)" using fill_rows_filled [of 1] by simp
  then show ?thesis by (simp add: filled_def)
qed

end

text \<open>The initial tables.\<close>

lemma foldl_row0:
  assumes "shape n m dp" and "k \<le> m + 1"
  shows "shape n m (foldl (\<lambda>dp j. set_cell dp 0 j (g j)) dp [0..<k]) \<and>
    (\<forall>a\<le>n. \<forall>b\<le>m. foldl (\<lambda>dp j. set_cell dp 0 j (g j)) dp [0..<k] ! a ! b = (if a = 0 \<and> b < k then g b else dp ! a ! b))"
  using assms
proof (induction k)
  case (Suc k)
  let ?d = "foldl (\<lambda>dp j. set_cell dp 0 j (g j)) dp [0..<k]"
  have ih: "shape n m ?d" "\<forall>a\<le>n. \<forall>b\<le>m. ?d ! a ! b = (if a = 0 \<and> b < k then g b else dp ! a ! b)" using Suc by auto
  have "set_cell ?d 0 k (g k) ! a ! b = (if a = 0 \<and> b < Suc k then g b else dp ! a ! b)" if "a \<le> n" "b \<le> m" for a b
    using ih that Suc.prems(2) by (auto simp: set_cell_nth [OF ih(1)] less_Suc_eq)
  then show ?case using ih(1) by simp
qed simp

definition init_table :: "nat \<Rightarrow> nat \<Rightarrow> (nat \<Rightarrow> nat) \<Rightarrow> (nat \<Rightarrow> nat) \<Rightarrow> nat list list" where
  "init_table n m h g = foldl (\<lambda>dp j. set_cell dp 0 j (g j)) (map (\<lambda>i. (replicate (m + 1) 0)[0 := h i]) [0..<n + 1]) [0..<m + 1]"

lemma init_table:
  assumes "g 0 = h 0"
  shows "shape n m (init_table n m h g) \<and> (\<forall>i\<le>n. init_table n m h g ! i ! 0 = h i) \<and> (\<forall>j\<le>m. init_table n m h g ! 0 ! j = g j)"
proof -
  let ?d = "map (\<lambda>i. (replicate (m + 1) (0::nat))[0 := h i]) [0..<n + 1]"
  have "shape n m ?d" by (auto simp: shape_def nth_append simp del: upt_Suc)
  from foldl_row0 [OF this, of "m + 1" g] show ?thesis
    using assms by (auto simp: init_table_def simp del: upt_Suc)
qed

subsection \<open>Longest common subsequences\<close>

fun llcs :: "'a list \<Rightarrow> 'a list \<Rightarrow> nat" where
  "llcs (x # xs) (y # ys) = (if x = y then llcs xs ys + 1 else max (llcs xs (y # ys)) (llcs (x # xs) ys))"
| "llcs xs ys = 0"

lemma llcs_Nil [simp]: "llcs xs [] = 0" by (cases xs) auto

lemma llcs_upper: "subseq zs xs \<Longrightarrow> subseq zs ys \<Longrightarrow> length zs \<le> llcs xs ys"
proof (induction xs ys arbitrary: zs rule: llcs.induct)
  case (1 x xs y ys)
  show ?case
  proof (cases "x = y")
    case True
    then show ?thesis using "1.IH"(1) [of "tl zs"] "1.IH"(1) [of zs] "1.prems" by (cases zs) (auto split: if_splits)
  next
    case False
    then show ?thesis using "1.IH"(2,3) [of zs] "1.prems" by (cases zs) (auto split: if_splits)
  qed
qed auto

lemma llcs_attained: "\<exists>zs. subseq zs xs \<and> subseq zs ys \<and> length zs = llcs xs ys"
proof (induction xs ys rule: llcs.induct)
  case (1 x xs y ys)
  show ?case
  proof (cases "x = y")
    case True
    then obtain zs where "subseq zs xs" "subseq zs ys" "length zs = llcs xs ys" using 1(1) by auto
    then show ?thesis using True by (intro exI [of _ "x # zs"]) auto
  next
    case False
    then obtain us vs where "subseq us xs" "subseq us (y # ys)" "length us = llcs xs (y # ys)"
        "subseq vs (x # xs)" "subseq vs ys" "length vs = llcs (x # xs) ys" using 1(2,3) by auto
    then show ?thesis using False by (cases "llcs xs (y # ys) \<le> llcs (x # xs) ys") (auto simp: max_def)
  qed
qed auto

text \<open>The table is indexed by prefixes, so its entries are about the reversed prefixes.\<close>

abbreviation rtake :: "nat \<Rightarrow> 'a list \<Rightarrow> 'a list" where
  "rtake k xs \<equiv> rev (take k xs)"

lemma rtake_Suc: "0 < i \<Longrightarrow> i \<le> length xs \<Longrightarrow> rtake i xs = xs ! (i - 1) # rtake (i - 1) xs"
  by (cases i) (auto simp: take_Suc_conv_app_nth)

interpretation lcs_table: dp_table "lcs_cell t1 t2" "\<lambda>i j. llcs (rtake i t1) (rtake j t2)" "length t1" "length t2" for t1 t2
  by unfold_locales (simp add: rtake_Suc lcs_cell_def)


lemma subseq_revI: "subseq (rev xs) (rev ys) \<longleftrightarrow> subseq xs ys"
proof -
  have "subseq (rev xs) (rev ys)" if "subseq xs ys" for xs ys :: "'a list"
    using that by (induction rule: list_emb.induct) (auto simp: subseq_append_iff intro: list_emb_append_mono list_emb_append2)
  from this [of xs ys] this [of "rev xs" "rev ys"] show ?thesis by auto
qed

text \<open>
  \<open>longestCommonSubsequence\<close> returns the length of a common subsequence of the two strings, and no
  common subsequence is longer.
\<close>
theorem lcs_longest:
  "(\<exists>zs. subseq zs t1 \<and> subseq zs t2 \<and> length zs = longestCommonSubsequence t1 t2) \<and>
   (\<forall>zs. subseq zs t1 \<longrightarrow> subseq zs t2 \<longrightarrow> length zs \<le> longestCommonSubsequence t1 t2)"
proof -
  let ?n = "length t1" and ?m = "length t2"
  let ?dp = "init_table ?n ?m (\<lambda>_. 0) (\<lambda>_. 0)"
  have "longestCommonSubsequence t1 t2 = fill_rows (lcs_cell t1 t2) 1 ?n ?m ?dp ! ?n ! ?m"
    by (simp add: longestCommonSubsequence_def init_table_def Let_def)
  also have "\<dots> = llcs (rev t1) (rev t2)"
    using lcs_table.table_entry [of t1 t2 ?dp] init_table [of "\<lambda>_. 0" "\<lambda>_. 0" ?n ?m] by simp
  finally have eq: "longestCommonSubsequence t1 t2 = llcs (rev t1) (rev t2)" .
  obtain zs where "subseq zs (rev t1)" "subseq zs (rev t2)" "length zs = llcs (rev t1) (rev t2)" using llcs_attained by blast
  then have "subseq (rev zs) t1 \<and> subseq (rev zs) t2 \<and> length (rev zs) = longestCommonSubsequence t1 t2"
    using subseq_revI [of "rev zs" t1] subseq_revI [of "rev zs" t2] eq by simp
  moreover have "length zs \<le> longestCommonSubsequence t1 t2" if "subseq zs t1" "subseq zs t2" for zs
    using llcs_upper [of "rev zs" "rev t1" "rev t2"] that eq by (simp add: subseq_revI)
  ultimately show ?thesis by blast
qed


theorem lcs_longest_witness:
  "length ''ace'' \<le> longestCommonSubsequence ''abcde'' ''ace'' \<and>
   (\<exists>zs. subseq zs ''abcde'' \<and> subseq zs ''ace'' \<and> length zs = longestCommonSubsequence ''abcde'' ''ace'')"
proof -
  have "subseq ''ace'' ''abcde'' \<and> subseq ''ace'' ''ace''" by simp
  then show ?thesis using lcs_longest [of "''abcde''" "''ace''"] by blast
qed

subsection \<open>Edit distance\<close>

text \<open>One edit: a character inserted, deleted or replaced somewhere.\<close>

inductive edit :: "'a list \<Rightarrow> 'a list \<Rightarrow> bool" where
  insert: "edit (us @ vs) (us @ x # vs)"
| delete: "edit (us @ x # vs) (us @ vs)"
| replace: "edit (us @ x # vs) (us @ y # vs)"

text \<open>Alignments: \<open>align n xs ys\<close> if \<open>ys\<close> comes from \<open>xs\<close> by \<open>n\<close> edits made from left to right.\<close>

inductive align :: "nat \<Rightarrow> 'a list \<Rightarrow> 'a list \<Rightarrow> bool" where
  nil: "align 0 [] []"
| ins: "align n xs ys \<Longrightarrow> align (Suc n) xs (y # ys)"
| del: "align n xs ys \<Longrightarrow> align (Suc n) (x # xs) ys"
| sub: "align n xs ys \<Longrightarrow> align (Suc n) (x # xs) (y # ys)"
| keep: "align n xs ys \<Longrightarrow> align n (x # xs) (x # ys)"

inductive_cases align_ConsConsE: "align n (x # xs) (y # ys)"

lemma align_refl: "align 0 xs xs"
  by (induction xs) (auto intro: align.intros)

lemma align_left: "align (length ys) [] ys"
  by (induction ys) (auto intro: align.intros)

lemma align_right: "align (length xs) xs []"
  by (induction xs) (auto intro: align.intros)

lemma align_bounds: "align n xs ys \<Longrightarrow> length ys \<le> length xs + n \<and> length xs \<le> length ys + n"
  by (induction rule: align.induct) auto

lemma align_tl1: "align n (x # xs) ys \<Longrightarrow> \<exists>m\<le>Suc n. align m xs ys"
proof (induction n "x # xs" ys rule: align.induct)
  case (ins n ys y)
  then show ?case using align.ins by (metis Suc_le_mono)
next
  case (del n ys)
  then show ?case by (intro exI [of _ n]) auto
next
  case (sub n ys y)
  then show ?case using align.ins by (intro exI [of _ "Suc n"]) auto
next
  case (keep n ys)
  then show ?case using align.ins by (intro exI [of _ "Suc n"]) auto
qed

lemma align_tl2: "align n xs (y # ys) \<Longrightarrow> \<exists>m\<le>Suc n. align m xs ys"
proof (induction n xs "y # ys" rule: align.induct)
  case (del n xs x)
  then show ?case using align.del by (metis Suc_le_mono)
next
  case (ins n xs)
  then show ?case by (intro exI [of _ n]) auto
next
  case (sub n xs x)
  then show ?case using align.del by (intro exI [of _ "Suc n"]) auto
next
  case (keep n xs)
  then show ?case using align.del by (intro exI [of _ "Suc n"]) auto
qed

lemma align_same: "align n (x # xs) (x # ys) \<Longrightarrow> \<exists>m\<le>n. align m xs ys"
  by (erule align_ConsConsE) (auto dest: align_tl1 align_tl2 intro: le_SucI)

lemma align_then_cons:
  assumes "align n xs (y # ys)" and step: "\<And>n xs. align n xs ys \<Longrightarrow> \<exists>k\<le>n + m. align k xs zs"
  shows "\<exists>k\<le>n + (if z = y then m else Suc m). align k xs (z # zs)"
  using assms(1)
proof (induction n xs "y # ys" rule: align.induct)
  case (ins n xs)
  then obtain k where "k \<le> n + m" "align k xs zs" using step by blast
  then show ?case by (intro exI [of _ "Suc k"]) (auto intro: align.ins)
next
  case (del n xs x)
  then obtain k where "k \<le> n + (if z = y then m else Suc m)" "align k xs (z # zs)" by blast
  then show ?case by (intro exI [of _ "Suc k"]) (auto intro: align.del)
next
  case (sub n xs x)
  then obtain k where "k \<le> n + m" "align k xs zs" using step by blast
  then show ?case by (intro exI [of _ "Suc k"]) (auto intro: align.sub)
next
  case (keep n xs)
  then obtain k where "k \<le> n + m" "align k xs zs" using step by blast
  then show ?case by (cases "z = y") (auto intro: align.sub align.keep exI [of _ k] exI [of _ "Suc k"])
qed

lemma align_trans: "align m ys zs \<Longrightarrow> align n xs ys \<Longrightarrow> \<exists>k\<le>n + m. align k xs zs"
proof (induction arbitrary: n xs rule: align.induct)
  case nil
  then show ?case by auto
next
  case (ins m ys zs z)
  then obtain k where "k \<le> n + m" "align k xs zs" by blast
  then show ?case by (intro exI [of _ "Suc k"]) (auto intro: align.ins)
next
  case (del m ys zs y)
  obtain k where k: "k \<le> Suc n" "align k xs ys" using align_tl2 [OF del.prems] by blast
  then obtain j where "j \<le> k + m" "align j xs zs" using del.IH by blast
  then show ?case using k(1) by (intro exI [of _ j]) auto
next
  case (sub m ys zs y z)
  obtain k where "k \<le> n + (if z = y then m else Suc m)" "align k xs (z # zs)"
    using align_then_cons [OF sub.prems sub.IH, of z] by blast
  then show ?case by (intro exI [of _ k]) (auto split: if_splits)
next
  case (keep m ys zs y)
  then show ?case using align_then_cons [OF keep.prems keep.IH, of y] by simp
qed

lemma align_context: "align n as bs \<Longrightarrow> align n (us @ as) (us @ bs)"
  by (induction us) (auto intro: align.keep)

lemma edit_align: "edit xs ys \<Longrightarrow> align 1 xs ys"
  unfolding One_nat_def by (induction rule: edit.induct) (auto intro: align_context align.intros align_refl)

lemma edits_align: "(edit ^^ n) xs ys \<Longrightarrow> \<exists>k\<le>n. align k xs ys"
proof (induction n arbitrary: ys)
  case 0
  then show ?case using align_refl by auto
next
  case (Suc n)
  then obtain ws where "(edit ^^ n) xs ws" "edit ws ys" by auto
  then show ?case using Suc.IH [of ws] align_trans [OF edit_align [of ws ys], of _ xs] by (metis Suc_eq_plus1 add_le_mono1 order_trans)
qed

lemma edit_Cons: "edit xs ys \<Longrightarrow> edit (x # xs) (x # ys)"
proof (induction rule: edit.induct)
  case (insert us vs y)
  show ?case using edit.insert [of "x # us" vs y] by simp
next
  case (delete us y vs)
  show ?case using edit.delete [of "x # us" y vs] by simp
next
  case (replace us y vs z)
  show ?case using edit.replace [of "x # us" y vs z] by simp
qed

lemma edits_Cons: "(edit ^^ n) xs ys \<Longrightarrow> (edit ^^ n) (x # xs) (x # ys)"
  by (induction n arbitrary: ys) (auto intro: edit_Cons)

lemma align_edits: "align n xs ys \<Longrightarrow> (edit ^^ n) xs ys"
proof (induction rule: align.induct)
  case (ins n xs ys y)
  then show ?case using edit.insert [of "[]" ys y] by auto
next
  case (del n xs ys x)
  then show ?case using edit.delete [of "[]" x xs] by (metis append_Nil relpowp_Suc_I2)
next
  case (sub n xs ys x y)
  then show ?case using edit.replace [of "[]" x ys y] edits_Cons [of n xs ys x] by auto
qed (auto intro: edits_Cons)


fun lev :: "'a list \<Rightarrow> 'a list \<Rightarrow> nat" where
  "lev (x # xs) (y # ys) = (if x = y then lev xs ys else min (min (lev xs ys) (lev xs (y # ys))) (lev (x # xs) ys) + 1)"
| "lev [] ys = length ys"
| "lev xs [] = length xs"

lemma lev_Nil [simp]: "lev xs [] = length xs" by (cases xs) auto

lemma lev_align: "align (lev xs ys) xs ys"
proof (induction xs ys rule: lev.induct)
  case (1 x xs y ys)
  then show ?case by (auto simp: min_def intro: align.intros)
next
  case (3 x xs)
  then show ?case using align_right [of "x # xs"] by simp
qed (auto intro: align_left)

lemma lev_least: "align n xs ys \<Longrightarrow> lev xs ys \<le> n"
proof (induction xs ys arbitrary: n rule: lev.induct)
  case (1 x xs y ys)
  show ?case
  proof (cases "x = y")
    case True
    then obtain m where "m \<le> n" "align m xs ys" using align_same [of n x xs ys] "1.prems" True by auto
    then show ?thesis using True "1.IH"(1) [of m] by simp
  next
    case False
    from "1.prems" show ?thesis
    proof (cases rule: align.cases)
      case (ins k)
      then show ?thesis using False "1.IH"(4) [of k] by simp
    next
      case (del k)
      then show ?thesis using False "1.IH"(3) [of k] by simp
    next
      case (sub k)
      then show ?thesis using False "1.IH"(2) [of k] by simp
    qed (use False in auto)
  qed
next
  case (2 ys)
  then show ?case using align_bounds [of n "[]" ys] by simp
next
  case (3 x xs)
  then show ?case using align_bounds [of n "x # xs" "[]"] by simp
qed

interpretation edit_table: dp_table "edit_cell w1 w2" "\<lambda>i j. lev (rtake i w1) (rtake j w2)" "length w1" "length w2" for w1 w2
  by unfold_locales (simp add: rtake_Suc edit_cell_def Let_def)

lemma edit_rev: "edit xs ys \<Longrightarrow> edit (rev xs) (rev ys)"
proof (induction rule: edit.induct)
  case (insert us vs x)
  show ?case using edit.insert [of "rev vs" "rev us" x] by simp
next
  case (delete us x vs)
  show ?case using edit.delete [of "rev vs" x "rev us"] by simp
next
  case (replace us x vs y)
  show ?case using edit.replace [of "rev vs" x "rev us" y] by simp
qed

lemma edits_rev: "(edit ^^ n) xs ys \<Longrightarrow> (edit ^^ n) (rev xs) (rev ys)"
  by (induction n arbitrary: ys) (auto intro: edit_rev)

lemma minDistance_lev: "minDistance w1 w2 = lev (rev w1) (rev w2)"
proof (cases "w1 = [] \<or> w2 = []")
  case True
  then show ?thesis by (auto simp: minDistance_def)
next
  case False
  let ?n = "length w1" and ?m = "length w2"
  have "minDistance w1 w2 = fill_rows (edit_cell w1 w2) 1 ?n ?m (init_table ?n ?m (\<lambda>i. i) (\<lambda>j. j)) ! ?n ! ?m"
    using False unfolding minDistance_def init_table_def Let_def by (simp only: length_0_conv simp_thms if_False)
  also have "\<dots> = lev (rev w1) (rev w2)"
    using edit_table.table_entry [of w1 w2 "init_table ?n ?m (\<lambda>i. i) (\<lambda>j. j)"] init_table [of "\<lambda>j. j" "\<lambda>i. i" ?n ?m] by simp
  finally show ?thesis .
qed

text \<open>
  \<open>minDistance\<close> returns the least number of single-character insertions, deletions and replacements,
  made anywhere and in any order, that turn the first word into the second.
\<close>
theorem min_distance_least:
  "(edit ^^ minDistance w1 w2) w1 w2 \<and> (\<forall>n. (edit ^^ n) w1 w2 \<longrightarrow> minDistance w1 w2 \<le> n)"
proof -
  have "(edit ^^ minDistance w1 w2) (rev w1) (rev w2)"
    using align_edits [OF lev_align [of "rev w1" "rev w2"]] by (simp add: minDistance_lev)
  then have "(edit ^^ minDistance w1 w2) w1 w2" using edits_rev [of _ "rev w1" "rev w2"] by simp
  moreover have "minDistance w1 w2 \<le> n" if "(edit ^^ n) w1 w2" for n
    using edits_align [OF edits_rev [OF that]] lev_least [of _ "rev w1" "rev w2"] by (auto simp: minDistance_lev intro: order_trans)
  ultimately show ?thesis by blast
qed


theorem min_distance_least_witness:
  "(edit ^^ minDistance ''horse'' ''orse'') ''horse'' ''orse'' \<and> minDistance ''horse'' ''orse'' \<le> 1"
proof -
  have "(edit ^^ 1) ''horse'' ''orse''" using edit.delete [of "[]" "CHR ''h''" "''orse''"] unfolding relpowp_1 by simp
  then show ?thesis using min_distance_least [of "''horse''" "''orse''"] by blast
qed

end
