(* ===== verification/Leet_Lists.thy ===== *)
theory Leet_Lists
  imports Go_Prelude
begin

text \<open>
  Linked lists and cycles of the package \<open>leet\<close>: \<open>link_list.go\<close> (\<open>reverse\<close>, \<open>isPalindrome\<close>), \<open>delete_cycle.go\<close>
  (\<open>detectCycle\<close>) and \<open>duplicate_num.go\<close> (\<open>findDuplicate\<close>, which treats an array as successor function). The nodes
  live in a store from addresses to records, so that the in-place reversal and its effect on the list that was
  passed in are visible; a pointer is an address or \<open>None\<close>. The loops need not end on an arbitrary store:
  they are partial functions, whose value is \<open>None\<close> when the loop does not return.
\<close>

subsection \<open>The store\<close>

record ListNode =
  Val :: int
  Next :: "nat option"

type_synonym nodes = "nat \<rightharpoonup> ListNode"

definition deref :: "nodes \<Rightarrow> nat option \<Rightarrow> ListNode go" where
  "deref h p = (case p of None \<Rightarrow> Inl NilDeref | Some a \<Rightarrow> (case h a of None \<Rightarrow> Inl NilDeref | Some n \<Rightarrow> Inr n))"

subsection \<open>link_list.go\<close>

partial_function (option) middle_loop :: "nodes \<Rightarrow> nat option \<Rightarrow> nat option \<Rightarrow> nat option go option" where
  "middle_loop h slow fast =
     (if fast = None then Some (Inr slow)
      else
        case deref h fast of
          Inl e \<Rightarrow> Some (Inl e)
        | Inr fn \<Rightarrow>
            if Next fn = None then Some (Inr slow)
            else
              case deref h slow of
                Inl e \<Rightarrow> Some (Inl e)
              | Inr sn \<Rightarrow>
                  (case deref h (Next fn) of
                     Inl e \<Rightarrow> Some (Inl e)
                   | Inr fn2 \<Rightarrow> middle_loop h (Next sn) (Next fn2)))"

partial_function (option) reverse_loop :: "nat option \<Rightarrow> nat option \<Rightarrow> nodes \<Rightarrow> (nat option \<times> nodes) go option" where
  "reverse_loop prev cur h =
     (case cur of
        None \<Rightarrow> Some (Inr (prev, h))
      | Some a \<Rightarrow>
          (case deref h cur of
             Inl e \<Rightarrow> Some (Inl e)
           | Inr n \<Rightarrow> reverse_loop cur (Next n) (h(a \<mapsto> n\<lparr>Next := prev\<rparr>))))"

definition reverse :: "nat option \<Rightarrow> nodes \<Rightarrow> (nat option \<times> nodes) go option" where
  "reverse head h = reverse_loop None head h"

partial_function (option) compare_loop :: "nodes \<Rightarrow> nat option \<Rightarrow> nat option \<Rightarrow> bool go option" where
  "compare_loop h p1 p2 =
     (if p2 = None then Some (Inr True)
      else
        case deref h p1 of
          Inl e \<Rightarrow> Some (Inl e)
        | Inr n1 \<Rightarrow>
            (case deref h p2 of
               Inl e \<Rightarrow> Some (Inl e)
             | Inr n2 \<Rightarrow> if Val n1 \<noteq> Val n2 then Some (Inr False) else compare_loop h (Next n1) (Next n2)))"

definition isPalindrome :: "nat option \<Rightarrow> nodes \<Rightarrow> (bool \<times> nodes) go option" where
  "isPalindrome head h =
     (if head = None then Some (Inr (True, h))
      else
        case deref h head of
          Inl e \<Rightarrow> Some (Inl e)
        | Inr n \<Rightarrow>
            if Next n = None then Some (Inr (True, h))
            else
              case middle_loop h head head of
                None \<Rightarrow> None
              | Some (Inl e) \<Rightarrow> Some (Inl e)
              | Some (Inr slow) \<Rightarrow>
                  (case reverse slow h of
                     None \<Rightarrow> None
                   | Some (Inl e) \<Rightarrow> Some (Inl e)
                   | Some (Inr (revHead, h)) \<Rightarrow>
                       (case compare_loop h head revHead of
                          None \<Rightarrow> None
                        | Some (Inl e) \<Rightarrow> Some (Inl e)
                        | Some (Inr b) \<Rightarrow> Some (Inr (b, h)))))"

subsection \<open>delete_cycle.go\<close>

text \<open>The first loop: \<open>None\<close> for a list that ends, else the pointer at which \<open>slow\<close> and \<open>fast\<close> met.\<close>

partial_function (option) meet_loop :: "nodes \<Rightarrow> nat option \<Rightarrow> nat option \<Rightarrow> nat option option go option" where
  "meet_loop h fast slow =
     (case deref h fast of
        Inl e \<Rightarrow> Some (Inl e)
      | Inr fn \<Rightarrow>
          if Next fn = None then Some (Inr None)
          else
            case deref h (Next fn) of
              Inl e \<Rightarrow> Some (Inl e)
            | Inr fn2 \<Rightarrow>
                if Next fn2 = None then Some (Inr None)
                else
                  case deref h slow of
                    Inl e \<Rightarrow> Some (Inl e)
                  | Inr sn \<Rightarrow> if Next fn2 = Next sn then Some (Inr (Some (Next sn))) else meet_loop h (Next fn2) (Next sn))"

partial_function (option) entry_loop :: "nodes \<Rightarrow> nat option \<Rightarrow> nat option \<Rightarrow> nat option go option" where
  "entry_loop h pointer slow =
     (if pointer \<noteq> slow then
        case deref h pointer of
          Inl e \<Rightarrow> Some (Inl e)
        | Inr pn \<Rightarrow> (case deref h slow of Inl e \<Rightarrow> Some (Inl e) | Inr sn \<Rightarrow> entry_loop h (Next pn) (Next sn))
      else Some (Inr slow))"

definition detectCycle :: "nodes \<Rightarrow> nat option \<Rightarrow> nat option go option" where
  "detectCycle h head =
     (if head = None then Some (Inr None)
      else
        case deref h head of
          Inl e \<Rightarrow> Some (Inl e)
        | Inr n \<Rightarrow>
            if Next n = None then Some (Inr None)
            else
              case meet_loop h head head of
                None \<Rightarrow> None
              | Some (Inl e) \<Rightarrow> Some (Inl e)
              | Some (Inr None) \<Rightarrow> Some (Inr None)
              | Some (Inr (Some slow)) \<Rightarrow> entry_loop h head slow)"

subsection \<open>duplicate_num.go\<close>

text \<open>\<open>count\<close> is never incremented, so that the outer loop is left only when the pointers meet.\<close>

partial_function (option) head_loop :: "int list \<Rightarrow> int \<Rightarrow> int \<Rightarrow> int go option" where
  "head_loop nums head slow =
     (if head \<noteq> slow then
        case nth_int nums head of
          Inl e \<Rightarrow> Some (Inl e)
        | Inr head' \<Rightarrow> (case nth_int nums slow of Inl e \<Rightarrow> Some (Inl e) | Inr slow' \<Rightarrow> head_loop nums head' slow')
      else Some (Inr slow))"

partial_function (option) dup_loop :: "int list \<Rightarrow> int \<Rightarrow> int \<Rightarrow> int \<Rightarrow> int \<Rightarrow> int go option" where
  "dup_loop nums cnt tot slow fast =
     (if cnt < tot then
        case nth_int nums slow of
          Inl e \<Rightarrow> Some (Inl e)
        | Inr slow' \<Rightarrow>
            (case nth_int nums fast of
               Inl e \<Rightarrow> Some (Inl e)
             | Inr f1 \<Rightarrow>
                 (case nth_int nums f1 of
                    Inl e \<Rightarrow> Some (Inl e)
                  | Inr f2 \<Rightarrow> if slow' = f2 then head_loop nums 0 slow' else dup_loop nums cnt tot slow' f2))
      else Some (Inr (-1)))"

definition findDuplicate :: "int list \<Rightarrow> int go option" where
  "findDuplicate nums = dup_loop nums 0 (int (length nums)) 0 0"

subsection \<open>Orbits\<close>

text \<open>
  The sequence of iterates of \<open>f\<close> from \<open>x\<close> has a tail of length \<open>mu\<close> and then a cycle of length \<open>lam\<close>.
\<close>

definition rho :: "('a \<Rightarrow> 'a) \<Rightarrow> 'a \<Rightarrow> nat \<Rightarrow> nat \<Rightarrow> bool" where
  "rho f x mu lam \<longleftrightarrow> 0 < lam \<and> (f ^^ (mu + lam)) x = (f ^^ mu) x \<and> inj_on (\<lambda>n. (f ^^ n) x) {..<mu + lam}"

lemma rho_exists:
  assumes "finite S" and "\<And>n. (f ^^ n) x \<in> S"
  shows "\<exists>mu lam. rho f x mu lam"
proof -
  let ?s = "\<lambda>n. (f ^^ n) x"
  have "\<not> inj_on ?s UNIV" using assms by (metis finite_imageD finite_subset image_subsetI infinite_UNIV_nat)
  then have ex: "\<exists>n. \<exists>m<n. ?s n = ?s m" by (metis (no_types) inj_on_def linorder_neqE_nat)
  define n where "n = (LEAST n. \<exists>m<n. ?s n = ?s m)"
  obtain m where m: "m < n" "?s n = ?s m" using LeastI_ex [OF ex] by (auto simp: n_def)
  have "inj_on ?s {..<n}"
  proof (rule inj_onI)
    fix i j assume ij: "i \<in> {..<n}" "j \<in> {..<n}" "?s i = ?s j"
    then show "i = j"
      using not_less_Least [of i "\<lambda>n. \<exists>m<n. ?s n = ?s m", folded n_def]
        not_less_Least [of j "\<lambda>n. \<exists>m<n. ?s n = ?s m", folded n_def] by (metis lessThan_iff linorder_neqE_nat)
  qed
  then have "rho f x m (n - m)" using m by (simp add: rho_def)
  then show ?thesis by blast
qed

lemma rho_period: "rho f x mu lam \<Longrightarrow> mu \<le> i \<Longrightarrow> (f ^^ (i + lam * k)) x = (f ^^ i) x"
proof (induction k)
  case (Suc k)
  have step: "(f ^^ (j + lam)) x = (f ^^ j) x" if "mu \<le> j" for j
  proof -
    have "(f ^^ (j + lam)) x = (f ^^ (j - mu)) ((f ^^ (mu + lam)) x)" using that by (simp flip: funpow_add comp_apply [of "f ^^ (j - mu)"])
    also have "\<dots> = (f ^^ (j - mu)) ((f ^^ mu) x)" using Suc.prems(1) by (simp add: rho_def)
    also have "\<dots> = (f ^^ j) x" using that by (simp flip: funpow_add comp_apply [of "f ^^ (j - mu)"])
    finally show ?thesis .
  qed
  have "(f ^^ (i + lam * Suc k)) x = (f ^^ ((i + lam * k) + lam)) x" by (simp add: algebra_simps)
  also have "\<dots> = (f ^^ (i + lam * k)) x" using step [of "i + lam * k"] Suc.prems(2) by simp
  finally show ?case using Suc by simp
qed simp

lemma rho_eq_iff:
  assumes "rho f x mu lam" and "i \<le> j"
  shows "(f ^^ i) x = (f ^^ j) x \<longleftrightarrow> i = j \<or> mu \<le> i \<and> lam dvd (j - i)"
proof -
  define r where "r n = (if n < mu then n else mu + (n - mu) mod lam)" for n
  have lam: "0 < lam" and inj: "inj_on (\<lambda>n. (f ^^ n) x) {..<mu + lam}" using assms(1) by (simp_all add: rho_def)
  have red: "(f ^^ n) x = (f ^^ r n) x" for n
  proof (cases "n < mu")
    case False
    then have "n = (mu + (n - mu) mod lam) + lam * ((n - mu) div lam)" by simp
    then show ?thesis using rho_period [OF assms(1), of "mu + (n - mu) mod lam" "(n - mu) div lam"] False by (simp add: r_def)
  qed (simp add: r_def)
  have "r n < mu + lam" for n using lam by (simp add: r_def)
  then have "(f ^^ i) x = (f ^^ j) x \<longleftrightarrow> r i = r j" using inj red by (metis inj_on_eq_iff lessThan_iff)
  also have "\<dots> \<longleftrightarrow> i = j \<or> mu \<le> i \<and> lam dvd (j - i)"
  proof (cases "mu \<le> i")
    case True
    then have "r i = r j \<longleftrightarrow> (j - mu) mod lam = (i - mu) mod lam" using assms(2) by (auto simp: r_def)
    also have "\<dots> \<longleftrightarrow> lam dvd (j - i)" using True assms(2) by (simp add: mod_eq_dvd_iff_nat)
    finally show ?thesis using True by auto
  next
    case False
    then show ?thesis using assms(2) by (auto simp: r_def)
  qed
  finally show ?thesis .
qed

text \<open>Where a pointer that goes twice as fast meets the slow one, and the entry of the cycle from there.\<close>

lemma rho_meet: "rho f x mu lam \<Longrightarrow> 0 < i \<Longrightarrow> (f ^^ i) x = (f ^^ (2 * i)) x \<longleftrightarrow> mu \<le> i \<and> lam dvd i"
  using rho_eq_iff [of f x mu lam i "2 * i"] by auto

lemma rho_meets:
  assumes "rho f x mu lam"
  shows "\<exists>i. 0 < i \<and> (f ^^ i) x = (f ^^ (2 * i)) x"
proof -
  have "0 < lam" using assms by (simp add: rho_def)
  then have "1 * (mu + 1) \<le> lam * (mu + 1)" by (intro mult_le_mono1) simp
  then have "0 < lam * (mu + 1)" "mu \<le> lam * (mu + 1)" using \<open>0 < lam\<close> by simp_all
  then show ?thesis using rho_meet [OF assms, of "lam * (mu + 1)"] by auto
qed

lemma rho_entry: "rho f x mu lam \<Longrightarrow> mu \<le> i \<Longrightarrow> lam dvd i \<Longrightarrow> 0 < i \<Longrightarrow> (f ^^ k) x = (f ^^ (k + i)) x \<longleftrightarrow> mu \<le> k"
  using rho_eq_iff [of f x mu lam k "k + i"] by auto


subsection \<open>The repeated number\<close>

definition in_bounds :: "int list \<Rightarrow> bool" where
  "in_bounds nums \<longleftrightarrow> (\<forall>v\<in>set nums. 0 \<le> v \<and> v < int (length nums))"

abbreviation at :: "int list \<Rightarrow> int \<Rightarrow> int" where
  "at nums i \<equiv> nums ! nat i"

lemma orbit_bounds:
  assumes "in_bounds nums" and "nums \<noteq> []"
  shows "0 \<le> (at nums ^^ k) 0 \<and> (at nums ^^ k) 0 < int (length nums)"
proof (induction k)
  case (Suc k)
  then have "nums ! nat ((at nums ^^ k) 0) \<in> set nums" by (intro nth_mem) auto
  then show ?case using assms(1) by (simp add: in_bounds_def)
qed (use assms in simp)

lemma orbit_rho: "in_bounds nums \<Longrightarrow> nums \<noteq> [] \<Longrightarrow> \<exists>mu lam. rho (at nums) 0 mu lam"
  by (rule rho_exists [of "{0..int (length nums)}"]) (use orbit_bounds in \<open>auto simp: less_imp_le\<close>)

lemma head_loop_correct:
  assumes "in_bounds nums" and "nums \<noteq> []" and "rho (at nums) 0 mu lam" and "mu \<le> i" and "lam dvd i" and "0 < i" and "k \<le> mu"
  shows "head_loop nums ((at nums ^^ k) 0) ((at nums ^^ (k + i)) 0) = Some (Inr ((at nums ^^ mu) 0))"
  using assms(7)
proof (induction "mu - k" arbitrary: k)
  case 0
  then have "k = mu" by simp
  then have "(at nums ^^ (k + i)) 0 = (at nums ^^ k) 0" using rho_entry [OF assms(3-6), of k] by simp
  then show ?case using \<open>k = mu\<close> by (subst head_loop.simps) simp
next
  case (Suc d)
  then have ne: "(at nums ^^ k) 0 \<noteq> (at nums ^^ (k + i)) 0" using rho_entry [OF assms(3-6), of k] by simp
  have "head_loop nums ((at nums ^^ Suc k) 0) ((at nums ^^ (Suc k + i)) 0) = Some (Inr ((at nums ^^ mu) 0))"
    using Suc by (intro Suc.hyps(1)) auto
  then show ?case using ne orbit_bounds [OF assms(1,2), of k] orbit_bounds [OF assms(1,2), of "k + i"]
    by (subst head_loop.simps) simp
qed

lemma dup_loop_correct:
  assumes "in_bounds nums" and "nums \<noteq> []" and "rho (at nums) 0 mu lam"
    and m: "0 < m" "(at nums ^^ m) 0 = (at nums ^^ (2 * m)) 0" "\<And>j. 0 < j \<Longrightarrow> (at nums ^^ j) 0 = (at nums ^^ (2 * j)) 0 \<Longrightarrow> m \<le> j"
    and "k < m"
  shows "dup_loop nums 0 (int (length nums)) ((at nums ^^ k) 0) ((at nums ^^ (2 * k)) 0) = Some (Inr ((at nums ^^ mu) 0))"
  using assms(7)
proof (induction "m - k" arbitrary: k)
  case (Suc d)
  note b = orbit_bounds [OF assms(1,2)]
  have f: "(at nums ^^ (2 * Suc k)) 0 = at nums (at nums ((at nums ^^ (2 * k)) 0))" by simp
  have b1: "0 \<le> at nums ((at nums ^^ (2 * k)) 0) \<and> at nums ((at nums ^^ (2 * k)) 0) < int (length nums)" using b [of "Suc (2 * k)"] by simp
  have step: "dup_loop nums 0 (int (length nums)) ((at nums ^^ k) 0) ((at nums ^^ (2 * k)) 0) =
      (if (at nums ^^ Suc k) 0 = (at nums ^^ (2 * Suc k)) 0 then head_loop nums 0 ((at nums ^^ Suc k) 0)
       else dup_loop nums 0 (int (length nums)) ((at nums ^^ Suc k) 0) ((at nums ^^ (2 * Suc k)) 0))"
    unfolding f using b [of k] b [of "2 * k"] b1 assms(2) by (subst dup_loop.simps) simp
  show ?case
  proof (cases "Suc k = m")
    case True
    then have "mu \<le> m" "lam dvd m" using rho_meet [OF assms(3) m(1)] m(2) by simp_all
    then have "head_loop nums 0 ((at nums ^^ m) 0) = Some (Inr ((at nums ^^ mu) 0))"
      using head_loop_correct [OF assms(1-3), of m 0] m(1) by simp
    then show ?thesis using step True m(2) by simp
  next
    case False
    then have "Suc k < m" using Suc.prems by simp
    then have "(at nums ^^ Suc k) 0 \<noteq> (at nums ^^ (2 * Suc k)) 0" using m(3) [of "Suc k"] by auto
    then show ?thesis using step Suc.hyps(1) [of "Suc k"] Suc.hyps(2) \<open>Suc k < m\<close> by (simp del: funpow.simps)
  qed
qed simp

lemma least_meet:
  assumes "rho f x mu lam"
  obtains m where "0 < m" "(f ^^ m) x = (f ^^ (2 * m)) x" "\<And>j. 0 < j \<Longrightarrow> (f ^^ j) x = (f ^^ (2 * j)) x \<Longrightarrow> m \<le> j"
  using rho_meets [OF assms] LeastI_ex [of "\<lambda>i. 0 < i \<and> (f ^^ i) x = (f ^^ (2 * i)) x"]
    Least_le [of "\<lambda>i. 0 < i \<and> (f ^^ i) x = (f ^^ (2 * i)) x"] by blast

text \<open>
  \<open>findDuplicate\<close> on a slice of \<open>n + 1\<close> numbers between 1 and \<open>n\<close> returns, without a panic and although its
  loop counter never changes, and the number it returns occurs at two positions of the slice.
\<close>
theorem find_duplicate_repeats:
  assumes "\<forall>v\<in>set nums. 1 \<le> v \<and> v < int (length nums)" and "nums \<noteq> []"
  shows "\<exists>d i j. findDuplicate nums = Some (Inr d) \<and> i < j \<and> j < length nums \<and> nums ! i = d \<and> nums ! j = d"
proof -
  have ib: "in_bounds nums" using assms(1) by (fastforce simp: in_bounds_def)
  obtain mu lam where r: "rho (at nums) 0 mu lam" using orbit_rho [OF ib assms(2)] by blast
  let ?s = "\<lambda>k. (at nums ^^ k) 0"
  have res: "findDuplicate nums = Some (Inr (?s mu))"
    using least_meet [OF r] dup_loop_correct [OF ib assms(2) r, of _ 0] unfolding findDuplicate_def
    by (metis funpow_0 mult_0_right)
  have pos: "0 < ?s (Suc k)" for k
  proof -
    have "nums ! nat (?s k) \<in> set nums" using orbit_bounds [OF ib assms(2), of k] by (intro nth_mem) auto
    then show ?thesis using assms(1) by force
  qed
  have lam: "0 < lam" "?s (mu + lam) = ?s mu" "inj_on ?s {..<mu + lam}" using r by (simp_all add: rho_def)
  have "mu \<noteq> 0"
  proof
    assume "mu = 0"
    then show False using lam(1,2) pos [of "lam - 1"] by simp
  qed
  then obtain p where p: "mu = Suc p" by (cases mu) auto
  obtain q where q: "mu + lam = Suc q" using lam(1) by (cases "mu + lam") auto
  have ne: "?s p \<noteq> ?s q" using inj_onD [OF lam(3), of p q] lam(1) p q by auto
  have "nums ! nat (?s p) = ?s mu" "nums ! nat (?s q) = ?s mu" using p q lam(2) by simp_all
  moreover have "nat (?s p) \<noteq> nat (?s q)" "nat (?s p) < length nums" "nat (?s q) < length nums"
    using ne orbit_bounds [OF ib assms(2), of p] orbit_bounds [OF ib assms(2), of q] by auto
  ultimately show ?thesis using res by (metis linorder_neqE_nat)
qed


theorem find_duplicate_repeats_witness:
  "\<exists>d i j. findDuplicate [1, 3, 4, 2, 2] = Some (Inr d) \<and> i < j \<and> j < length [1, 3, 4, 2, 2::int] \<and>
    [1, 3, 4, 2, 2] ! i = d \<and> [1, 3, 4, 2, 2] ! j = d"
  by (rule find_duplicate_repeats) simp_all

subsection \<open>Cycles of a list\<close>

definition succ :: "nodes \<Rightarrow> nat option \<Rightarrow> nat option" where
  "succ h p = (case p of None \<Rightarrow> None | Some a \<Rightarrow> (case h a of None \<Rightarrow> None | Some n \<Rightarrow> Next n))"

text \<open>A Go store: finitely many nodes, and no pointer to a node that is not there.\<close>

definition store_ok :: "nodes \<Rightarrow> bool" where
  "store_ok h \<longleftrightarrow> finite (dom h) \<and> (\<forall>a n b. h a = Some n \<longrightarrow> Next n = Some b \<longrightarrow> b \<in> dom h)"

definition valid_ptr :: "nodes \<Rightarrow> nat option \<Rightarrow> bool" where
  "valid_ptr h p \<longleftrightarrow> (\<forall>a. p = Some a \<longrightarrow> a \<in> dom h)"

lemma succ_None [simp]: "succ h None = None"
  by (simp add: succ_def)

lemma orbit_None: "(succ h ^^ k) None = None"
  by (induction k) auto

lemma orbit_valid: "store_ok h \<Longrightarrow> valid_ptr h p \<Longrightarrow> valid_ptr h ((succ h ^^ k) p)"
proof (induction k)
  case (Suc k)
  have "valid_ptr h (succ h q)" if "valid_ptr h q" for q
    using that Suc.prems(1) by (cases q) (auto simp: valid_ptr_def store_ok_def succ_def dom_def)
  then show ?case using Suc by simp
qed simp

lemma deref_valid:
  assumes "valid_ptr h p" and "p \<noteq> None"
  obtains n where "deref h p = Inr n" "Next n = succ h p"
  using assms by (auto simp: valid_ptr_def deref_def succ_def)

lemma store_rho:
  assumes "store_ok h" and "valid_ptr h p"
  shows "\<exists>mu lam. rho (succ h) p mu lam"
proof (rule rho_exists)
  show "finite (insert None (Some ` dom h))" using assms(1) by (simp add: store_ok_def)
  show "(succ h ^^ k) p \<in> insert None (Some ` dom h)" for k
    using orbit_valid [OF assms, of k] by (cases "(succ h ^^ k) p") (auto simp: valid_ptr_def)
qed

text \<open>Once the pointers have met in a node the list has no end, and conversely.\<close>

lemma met_no_end:
  assumes "rho (succ h) p mu lam" and "mu \<le> i" and "(succ h ^^ i) p \<noteq> None"
  shows "(succ h ^^ n) p \<noteq> None"
proof
  assume none: "(succ h ^^ n) p = None"
  have "0 < lam" using assms(1) by (simp add: rho_def)
  then have "1 * n \<le> lam * n" by (intro mult_le_mono1) simp
  then have "n \<le> i + lam * n" by linarith
  then have "(succ h ^^ (i + lam * n)) p = (succ h ^^ (i + lam * n - n)) ((succ h ^^ n) p)"
    by (simp flip: funpow_add comp_apply [of "succ h ^^ (i + lam * n - n)"])
  then show False using rho_period [OF assms(1,2), of n] none orbit_None [of "i + lam * n - n" h] assms(3) by simp
qed

lemma meet_step:
  assumes "deref h fast = Inr fn" and "Next fn = f1" and "f1 \<noteq> None" and "deref h f1 = Inr fn2" and "Next fn2 = f2" and "f2 \<noteq> None"
    and "deref h slow = Inr sn" and "Next sn = s1"
  shows "meet_loop h fast slow = (if f2 = s1 then Some (Inr (Some s1)) else meet_loop h f2 s1)"
  using assms by (subst meet_loop.simps) auto

lemma meet_loop_correct:
  assumes "store_ok h" and "valid_ptr h p" and "rho (succ h) p mu lam"
    and m: "0 < m" "(succ h ^^ m) p = (succ h ^^ (2 * m)) p" "\<And>j. 0 < j \<Longrightarrow> (succ h ^^ j) p = (succ h ^^ (2 * j)) p \<Longrightarrow> m \<le> j"
    and "k < m" and "(succ h ^^ (2 * k)) p \<noteq> None"
  shows "meet_loop h ((succ h ^^ (2 * k)) p) ((succ h ^^ k) p) =
    Some (Inr (if \<exists>n. (succ h ^^ n) p = None then None else Some ((succ h ^^ m) p)))"
  using assms(7,8)
proof (induction "m - k" arbitrary: k)
  case (Suc d)
  let ?s = "\<lambda>k. (succ h ^^ k) p"
  note v = orbit_valid [OF assms(1,2)]
  obtain fn where fn: "deref h (?s (2 * k)) = Inr fn" "Next fn = ?s (2 * k + 1)"
    using deref_valid [OF v Suc.prems(2)] by (metis funpow.simps(2) comp_apply Suc_eq_plus1)
  show ?case
  proof (cases "?s (2 * k + 1) = None \<or> ?s (2 * k + 2) = None")
    case True
    then have "\<exists>n. ?s n = None" by blast
    moreover have "meet_loop h (?s (2 * k)) (?s k) = Some (Inr None)"
    proof (cases "?s (2 * k + 1) = None")
      case False
      then obtain fn2 where "deref h (?s (2 * k + 1)) = Inr fn2" "Next fn2 = ?s (2 * k + 2)"
        using deref_valid [OF v, of "2 * k + 1"] by (metis funpow.simps(2) comp_apply Suc_eq_plus1 add_2_eq_Suc' Suc_1)
      moreover have "?s (2 * k + 2) = None" using True False by blast
      ultimately show ?thesis using fn False by (subst meet_loop.simps) simp
    qed (use fn in \<open>subst meet_loop.simps, simp\<close>)
    ultimately show ?thesis by simp
  next
    case False
    obtain fn2 where fn2: "deref h (?s (2 * k + 1)) = Inr fn2" "Next fn2 = ?s (2 * Suc k)"
      using deref_valid [OF v, of "2 * k + 1"] False by (metis funpow.simps(2) comp_apply Suc_eq_plus1 mult_Suc_right add_2_eq_Suc)
    have "?s k \<noteq> None"
    proof
      assume "?s k = None"
      then have "?s (k + k) = None" by (simp add: funpow_add orbit_None)
      then show False using Suc.prems(2) by (simp add: mult_2)
    qed
    then obtain sn where sn: "deref h (?s k) = Inr sn" "Next sn = ?s (Suc k)"
      using deref_valid [OF v, of k] by (metis funpow.simps(2) comp_apply)
    have ne: "?s (2 * Suc k) \<noteq> None" using False by simp
    have step: "meet_loop h (?s (2 * k)) (?s k) =
        (if ?s (2 * Suc k) = ?s (Suc k) then Some (Inr (Some (?s (Suc k)))) else meet_loop h (?s (2 * Suc k)) (?s (Suc k)))"
      using meet_step [OF fn _ fn2 ne sn] False by auto
    show ?thesis
    proof (cases "Suc k = m")
      case True
      then have "mu \<le> m" using rho_meet [OF assms(3) m(1)] m(2) by simp
      moreover have "?s m \<noteq> None" using ne m(2) unfolding True by simp
      ultimately have "\<nexists>n. ?s n = None" using met_no_end [OF assms(3)] by blast
      then show ?thesis using step m(2) unfolding True by simp
    next
      case False
      then have "Suc k < m" using Suc.prems by simp
      then have "?s (2 * Suc k) \<noteq> ?s (Suc k)" using m(3) [of "Suc k"] by fastforce
      then show ?thesis using step Suc.hyps(1) [of "Suc k"] Suc.hyps(2) \<open>Suc k < m\<close> ne by (simp del: funpow.simps mult_Suc_right)
    qed
  qed
qed simp


lemma entry_loop_correct:
  assumes "store_ok h" and "valid_ptr h p" and "rho (succ h) p mu lam" and "mu \<le> i" and "lam dvd i" and "0 < i"
    and "\<And>n. (succ h ^^ n) p \<noteq> None" and "k \<le> mu"
  shows "entry_loop h ((succ h ^^ k) p) ((succ h ^^ (k + i)) p) = Some (Inr ((succ h ^^ mu) p))"
  using assms(8)
proof (induction "mu - k" arbitrary: k)
  case 0
  then have k: "k = mu" by simp
  then have "(succ h ^^ (k + i)) p = (succ h ^^ k) p" using rho_entry [OF assms(3-6), of k] by simp
  then show ?case using k by (subst entry_loop.simps) simp
next
  case (Suc d)
  let ?s = "\<lambda>k. (succ h ^^ k) p"
  have ne: "?s k \<noteq> ?s (k + i)" using rho_entry [OF assms(3-6), of k] Suc by simp
  obtain pn where pn: "deref h (?s k) = Inr pn" "Next pn = ?s (Suc k)"
    using deref_valid [OF orbit_valid [OF assms(1,2), of k] assms(7)] by (metis funpow.simps(2) comp_apply)
  obtain sn where sn: "deref h (?s (k + i)) = Inr sn" "Next sn = ?s (Suc k + i)"
    using deref_valid [OF orbit_valid [OF assms(1,2), of "k + i"] assms(7)] by (metis funpow.simps(2) comp_apply add_Suc)
  have "entry_loop h (?s (Suc k)) (?s (Suc k + i)) = Some (Inr (?s mu))" using Suc by (intro Suc.hyps(1)) auto
  moreover have "entry_loop h (?s k) (?s (k + i)) = entry_loop h (Next pn) (Next sn)"
    using ne pn(1) sn(1) by (subst entry_loop.simps) simp
  ultimately show ?case using pn(2) sn(2) by simp
qed

text \<open>
  Property C36. \<open>detectCycle\<close> returns on every finite store and never dereferences nil: nil if the list ends, and else
  the first node of the list that is met again when following \<open>Next\<close>.
\<close>
theorem detect_cycle_entry:
  assumes "store_ok h" and "valid_ptr h head"
  shows "if \<exists>n. (succ h ^^ n) head = None then detectCycle h head = Some (Inr None)
    else \<exists>mu lam. detectCycle h head = Some (Inr ((succ h ^^ mu) head)) \<and> 0 < lam \<and>
      (succ h ^^ (mu + lam)) head = (succ h ^^ mu) head \<and> inj_on (\<lambda>n. (succ h ^^ n) head) {..<mu + lam}"
proof -
  obtain mu lam where r: "rho (succ h) head mu lam" using store_rho [OF assms] by blast
  obtain m where m: "0 < m" "(succ h ^^ m) head = (succ h ^^ (2 * m)) head"
      "\<And>j. 0 < j \<Longrightarrow> (succ h ^^ j) head = (succ h ^^ (2 * j)) head \<Longrightarrow> m \<le> j" using least_meet [OF r] by blast
  consider "head = None" | "head \<noteq> None" "succ h head = None" | "head \<noteq> None" "succ h head \<noteq> None" by blast
  then show ?thesis
  proof cases
    case 1
    then have "(succ h ^^ 0) head = None" by simp
    then have "\<exists>n. (succ h ^^ n) head = None" by blast
    then show ?thesis using 1 by (simp add: detectCycle_def)
  next
    case 2
    then have "(succ h ^^ 1) head = None" by simp
    then have "\<exists>n. (succ h ^^ n) head = None" by blast
    moreover obtain n where "deref h head = Inr n" "Next n = None" using deref_valid [OF assms(2) 2(1)] 2(2) by metis
    ultimately show ?thesis using 2 by (simp add: detectCycle_def)
  next
    case 3
    obtain n where n: "deref h head = Inr n" "Next n \<noteq> None" using deref_valid [OF assms(2) 3(1)] 3(2) by metis
    have meet: "meet_loop h head head = Some (Inr (if \<exists>n. (succ h ^^ n) head = None then None else Some ((succ h ^^ m) head)))"
      using meet_loop_correct [OF assms r m, of 0] m(1) 3(1) by simp
    show ?thesis
    proof (cases "\<exists>n. (succ h ^^ n) head = None")
      case True
      then show ?thesis using meet n 3(1) by (simp add: detectCycle_def)
    next
      case False
      have "mu \<le> m" "lam dvd m" using rho_meet [OF r m(1)] m(2) by simp_all
      then have "entry_loop h head ((succ h ^^ m) head) = Some (Inr ((succ h ^^ mu) head))"
        using entry_loop_correct [OF assms r _ _ m(1), of 0] False by auto
      then have "detectCycle h head = Some (Inr ((succ h ^^ mu) head))" using meet n 3(1) False by (auto simp: detectCycle_def)
      then have "\<exists>mu lam. detectCycle h head = Some (Inr ((succ h ^^ mu) head)) \<and> 0 < lam \<and>
          (succ h ^^ (mu + lam)) head = (succ h ^^ mu) head \<and> inj_on (\<lambda>n. (succ h ^^ n) head) {..<mu + lam}"
        using r unfolding rho_def by blast
      then show ?thesis unfolding if_not_P [OF False] .
    qed
  qed
qed

definition demo_cycle :: nodes where
  "demo_cycle = [0 \<mapsto> \<lparr>Val = 3, Next = Some 1\<rparr>, 1 \<mapsto> \<lparr>Val = 2, Next = Some 2\<rparr>, 2 \<mapsto> \<lparr>Val = 0, Next = Some 1\<rparr>]"

theorem detect_cycle_entry_witness:
  "\<exists>mu lam. detectCycle demo_cycle (Some 0) = Some (Inr ((succ demo_cycle ^^ mu) (Some 0))) \<and> 0 < lam \<and>
    (succ demo_cycle ^^ (mu + lam)) (Some 0) = (succ demo_cycle ^^ mu) (Some 0)"
proof -
  have ok: "store_ok demo_cycle" "valid_ptr demo_cycle (Some 0)"
    by (auto simp: store_ok_def valid_ptr_def demo_cycle_def split: if_splits)
  have "(succ demo_cycle ^^ n) (Some 0) \<in> {Some 0, Some 1, Some 2}" for n
    by (induction n) (auto simp: succ_def demo_cycle_def)
  then have "\<nexists>n. (succ demo_cycle ^^ n) (Some 0) = None" by (metis insert_iff empty_iff option.distinct(1))
  from detect_cycle_entry [OF ok, unfolded if_not_P [OF this]] show ?thesis by blast
qed


subsection \<open>Lists in the store\<close>

fun node_path :: "nodes \<Rightarrow> nat option \<Rightarrow> nat list \<Rightarrow> nat option \<Rightarrow> bool" where
  "node_path h p [] q \<longleftrightarrow> p = q"
| "node_path h p (a # as) q \<longleftrightarrow> p = Some a \<and> (\<exists>n. h a = Some n \<and> node_path h (Next n) as q)"

definition is_list :: "nodes \<Rightarrow> nat option \<Rightarrow> nat list \<Rightarrow> bool" where
  "is_list h p as \<longleftrightarrow> node_path h p as None \<and> distinct as"

definition val_at :: "nodes \<Rightarrow> nat \<Rightarrow> int" where
  "val_at h a = (case h a of None \<Rightarrow> 0 | Some n \<Rightarrow> Val n)"

lemma path_append: "node_path h p (as @ bs) q \<longleftrightarrow> (\<exists>r. node_path h p as r \<and> node_path h r bs q)"
  by (induction as arbitrary: p) auto

lemma path_cong: "node_path h p as q \<Longrightarrow> (\<And>a. a \<in> set as \<Longrightarrow> h' a = h a) \<Longrightarrow> node_path h' p as q"
  by (induction as arbitrary: p) auto

lemma path_drop:
  assumes "node_path h p as None" and "k \<le> length as"
  shows "\<exists>q. node_path h p (take k as) q \<and> node_path h q (drop k as) None"
  using assms path_append [of h p "take k as" "drop k as" None] by simp

lemma path_hd: "node_path h p as None \<Longrightarrow> p = (if as = [] then None else Some (hd as))"
  by (cases as) auto

text \<open>The pointer to the \<open>k\<close>-th node of a list.\<close>

definition ptr_at :: "nat list \<Rightarrow> nat \<Rightarrow> nat option" where
  "ptr_at as k = (if k < length as then Some (as ! k) else None)"

lemma ptr_at_path: "node_path h p as None \<Longrightarrow> k \<le> length as \<Longrightarrow> node_path h (ptr_at as k) (drop k as) None"
  using path_drop [of h p as k] path_hd [of h _ "drop k as"] by (fastforce simp: ptr_at_def hd_drop_conv_nth)

lemma deref_ptr_at:
  assumes "node_path h p as None" and "k < length as"
  shows "deref h (ptr_at as k) = Inr \<lparr>Val = val_at h (as ! k), Next = ptr_at as (Suc k)\<rparr>"
proof -
  obtain n where n: "h (as ! k) = Some n" "node_path h (Next n) (drop (Suc k) as) None"
    using ptr_at_path [OF assms(1), of k] assms(2) by (auto simp: Cons_nth_drop_Suc [symmetric])
  then have "Next n = ptr_at as (Suc k)" using path_hd [OF n(2)] assms(2) by (auto simp: ptr_at_def hd_drop_conv_nth)
  then show ?thesis using n(1) assms(2) by (cases n) (simp add: deref_def ptr_at_def val_at_def)
qed

lemma middle_loop_correct:
  assumes "node_path h p as None" and "2 * k \<le> length as"
  shows "middle_loop h (ptr_at as k) (ptr_at as (2 * k)) = Some (Inr (ptr_at as (length as div 2)))"
  using assms(2)
proof (induction "length as - 2 * k" arbitrary: k rule: less_induct)
  case less
  show ?case
  proof (cases "2 * k + 1 < length as")
    case False
    then have "length as div 2 = k" using less.prems by auto
    moreover have "ptr_at as (2 * k) = None \<or> (\<exists>n. deref h (ptr_at as (2 * k)) = Inr n \<and> Next n = None)"
      using deref_ptr_at [OF assms(1), of "2 * k"] False by (auto simp: ptr_at_def)
    ultimately show ?thesis by (subst middle_loop.simps) auto
  next
    case True
    have "middle_loop h (ptr_at as (Suc k)) (ptr_at as (2 * Suc k)) = Some (Inr (ptr_at as (length as div 2)))"
      using True by (intro less.hyps) auto
    moreover have "middle_loop h (ptr_at as k) (ptr_at as (2 * k)) = middle_loop h (ptr_at as (Suc k)) (ptr_at as (2 * Suc k))"
      using deref_ptr_at [OF assms(1), of "2 * k"] deref_ptr_at [OF assms(1), of "Suc (2 * k)"] deref_ptr_at [OF assms(1), of k] True
      by (subst middle_loop.simps) (auto simp: ptr_at_def)
    ultimately show ?thesis by simp
  qed
qed

lemma reverse_loop_correct:
  assumes "node_path h cur as None" and "distinct (rev bs @ as)" and "node_path h prev bs None"
  shows "\<exists>h'. reverse_loop prev cur h = Some (Inr (ptr_at (rev as @ bs) 0, h')) \<and> node_path h' (ptr_at (rev as @ bs) 0) (rev as @ bs) None \<and>
    (\<forall>a. a \<notin> set as \<longrightarrow> h' a = h a) \<and> (\<forall>a. val_at h' a = val_at h a)"
  using assms
proof (induction as arbitrary: prev cur bs h)
  case Nil
  then have "cur = None" "prev = ptr_at bs 0" using path_hd [of h prev bs] by (auto simp: ptr_at_def hd_conv_nth)
  then show ?case using Nil by (subst reverse_loop.simps) auto
next
  case (Cons a as)
  then obtain n where n: "cur = Some a" "h a = Some n" "node_path h (Next n) as None" by auto
  let ?h = "h(a \<mapsto> n\<lparr>Next := prev\<rparr>)"
  have p1: "node_path ?h (Next n) as None" using n(3) Cons.prems(2) by (auto intro: path_cong)
  have "node_path ?h prev bs None" using Cons.prems(2,3) by (auto intro: path_cong)
  then have p2: "node_path ?h cur (a # bs) None" using n(1) by simp
  have "distinct (rev (a # bs) @ as)" using Cons.prems(2) by auto
  from Cons.IH [OF p1 this p2] obtain h' where h': "reverse_loop cur (Next n) ?h = Some (Inr (ptr_at (rev as @ a # bs) 0, h'))"
      "node_path h' (ptr_at (rev as @ a # bs) 0) (rev as @ a # bs) None" "\<forall>b. b \<notin> set as \<longrightarrow> h' b = ?h b" "\<forall>b. val_at h' b = val_at ?h b"
    by blast
  moreover have "reverse_loop prev cur h = reverse_loop cur (Next n) ?h"
    using n by (subst reverse_loop.simps) (simp add: deref_def)
  moreover have "val_at ?h b = val_at h b" for b using n(2) by (simp add: val_at_def)
  ultimately show ?case by (intro exI [of _ h']) (auto simp: fun_upd_apply)
qed


lemma compare_step:
  "p2 \<noteq> None \<Longrightarrow> deref h p1 = Inr n1 \<Longrightarrow> deref h p2 = Inr n2 \<Longrightarrow>
    compare_loop h p1 p2 = (if Val n1 \<noteq> Val n2 then Some (Inr False) else compare_loop h (Next n1) (Next n2))"
  by (subst compare_loop.simps) auto

lemma compare_loop_correct:
  assumes "node_path h p xs None" and "node_path h q ys None" and "length ys \<le> length xs" and "j \<le> length ys"
  shows "compare_loop h (ptr_at xs j) (ptr_at ys j) =
    Some (Inr (\<forall>i<length ys. j \<le> i \<longrightarrow> val_at h (xs ! i) = val_at h (ys ! i)))"
  using assms(4)
proof (induction "length ys - j" arbitrary: j)
  case 0
  then show ?case by (subst compare_loop.simps) (simp add: ptr_at_def)
next
  case (Suc d)
  then have j: "j < length ys" by simp
  let ?eq = "\<lambda>i. val_at h (xs ! i) = val_at h (ys ! i)"
  have ih: "compare_loop h (ptr_at xs (Suc j)) (ptr_at ys (Suc j)) = Some (Inr (\<forall>i<length ys. Suc j \<le> i \<longrightarrow> ?eq i))"
    using Suc j by (intro Suc.hyps(1)) auto
  have "ptr_at ys j \<noteq> None" using j by (simp add: ptr_at_def)
  then have step: "compare_loop h (ptr_at xs j) (ptr_at ys j) =
      (if \<not> ?eq j then Some (Inr False) else compare_loop h (ptr_at xs (Suc j)) (ptr_at ys (Suc j)))"
    using deref_ptr_at [OF assms(1), of j] deref_ptr_at [OF assms(2), of j] j assms(3) compare_step by fastforce
  have "(\<forall>i<length ys. j \<le> i \<longrightarrow> ?eq i) \<longleftrightarrow> ?eq j \<and> (\<forall>i<length ys. Suc j \<le> i \<longrightarrow> ?eq i)"
    using j by (auto simp: Suc_le_eq le_less)
  then show ?case unfolding step ih by simp
qed

lemma palindrome_half:
  "xs = rev xs \<longleftrightarrow> (\<forall>i<length xs - length xs div 2. xs ! i = xs ! (length xs - Suc i))"
proof
  assume "xs = rev xs"
  then show "\<forall>i<length xs - length xs div 2. xs ! i = xs ! (length xs - Suc i)" by (metis diff_le_self order_less_le_trans rev_nth)
next
  assume half: "\<forall>i<length xs - length xs div 2. xs ! i = xs ! (length xs - Suc i)"
  have all: "xs ! i = xs ! (length xs - Suc i)" if "i < length xs" for i
  proof (cases "i < length xs - length xs div 2")
    case False
    then have "length xs - Suc i < length xs - length xs div 2" using that by linarith
    then have "xs ! (length xs - Suc i) = xs ! (length xs - Suc (length xs - Suc i))" using half by blast
    moreover have "length xs - Suc (length xs - Suc i) = i" using that by simp
    ultimately show ?thesis by simp
  qed (use half in blast)
  show "xs = rev xs"
  proof (rule nth_equalityI)
    show "xs ! i = rev xs ! i" if "i < length xs" for i using all [OF that] rev_nth [OF that] by (rule trans [OF _ sym])
  qed simp
qed

text \<open>
  \<open>isPalindrome\<close> on a well-formed list returns, without dereferencing nil, whether the list reads the same
  both ways; it changes no value, but cuts the list that was passed in: of two or more nodes only the first
  half and one node remain reachable from its head, the rest having been reversed in place.
\<close>
theorem is_palindrome_decides:
  assumes "is_list h head as"
  shows "\<exists>h'. isPalindrome head h = Some (Inr (map (val_at h) as = rev (map (val_at h) as), h')) \<and>
    (\<forall>a. val_at h' a = val_at h a) \<and>
    is_list h' head (if length as < 2 then as else take (length as div 2 + 1) as)"
proof (cases "length as < 2")
  case True
  then have "isPalindrome head h = Some (Inr (True, h))"
    using assms by (cases as rule: remdups_adj.cases) (auto simp: isPalindrome_def is_list_def deref_def)
  moreover have "map (val_at h) as = rev (map (val_at h) as)" using True by (cases as rule: remdups_adj.cases) auto
  ultimately show ?thesis using True assms by auto
next
  case False
  let ?k = "length as div 2"
  have k: "0 < ?k" "?k < length as" using False by auto
  have p: "node_path h head as None" and d: "distinct as" using assms by (simp_all add: is_list_def)
  have hd: "head = ptr_at as 0" using path_hd [OF p] k by (auto simp: ptr_at_def hd_conv_nth)
  obtain n0 where start: "head \<noteq> None" "deref h head = Inr n0" "Next n0 \<noteq> None"
  proof
    show "deref h head = Inr \<lparr>Val = val_at h (as ! 0), Next = ptr_at as (Suc 0)\<rparr>" unfolding hd using k by (intro deref_ptr_at [OF p]) auto
    show "head \<noteq> None" unfolding hd ptr_at_def using k by (cases as) auto
  qed (use False in \<open>simp add: ptr_at_def\<close>)
  have mid: "middle_loop h head head = Some (Inr (ptr_at as ?k))" using middle_loop_correct [OF p, of 0] hd by simp
  let ?ys = "rev (drop ?k as)"
  have "distinct (rev [] @ drop ?k as)" using d by simp
  then obtain h' where h': "reverse_loop None (ptr_at as ?k) h = Some (Inr (ptr_at ?ys 0, h'))" "node_path h' (ptr_at ?ys 0) ?ys None"
      "\<forall>a. a \<notin> set (drop ?k as) \<longrightarrow> h' a = h a" "\<forall>a. val_at h' a = val_at h a"
    using reverse_loop_correct [OF ptr_at_path [OF p, of ?k], of "[]" None] k by auto
  have ys: "?ys = rev (drop (Suc ?k) as) @ [as ! ?k]" using k by (simp add: Cons_nth_drop_Suc [symmetric])
  obtain n where n: "h' (as ! ?k) = Some n" "Next n = None" using h'(2) unfolding ys path_append by auto
  obtain q where q: "node_path h head (take ?k as) q" "node_path h q (drop ?k as) None" using path_drop [OF p, of ?k] k by auto
  have "q = Some (as ! ?k)" using path_hd [OF q(2)] k by (simp add: hd_drop_conv_nth)
  moreover have "node_path h' head (take ?k as) q"
    using q(1) h'(3) set_take_disj_set_drop_if_distinct [OF d, of ?k ?k] by (auto intro: path_cong)
  ultimately have p': "node_path h' head (take (Suc ?k) as) None" using n k by (simp add: take_Suc_conv_app_nth path_append)
  have "compare_loop h' head (ptr_at ?ys 0) = Some (Inr (\<forall>i<length ?ys. val_at h' (take (Suc ?k) as ! i) = val_at h' (?ys ! i)))"
  proof -
    have "head = ptr_at (take (Suc ?k) as) 0" "length ?ys \<le> length (take (Suc ?k) as)" using hd k by (auto simp: ptr_at_def)
    then show ?thesis using compare_loop_correct [OF p' h'(2), of 0] by simp
  qed
  also have "(\<forall>i<length ?ys. val_at h' (take (Suc ?k) as ! i) = val_at h' (?ys ! i)) \<longleftrightarrow> map (val_at h) as = rev (map (val_at h) as)"
    unfolding palindrome_half using k h'(4) by (auto simp: rev_nth)
  finally have "isPalindrome head h = Some (Inr (map (val_at h) as = rev (map (val_at h) as), h'))"
    using mid h'(1) start by (auto simp: isPalindrome_def reverse_def)
  then show ?thesis using h'(4) p' d False by (auto simp: is_list_def)
qed

definition demo_list :: nodes where
  "demo_list = [0 \<mapsto> \<lparr>Val = 1, Next = Some 1\<rparr>, 1 \<mapsto> \<lparr>Val = 2, Next = Some 2\<rparr>, 2 \<mapsto> \<lparr>Val = 1, Next = None\<rparr>]"

theorem is_palindrome_decides_witness:
  "\<exists>h'. isPalindrome (Some 0) demo_list = Some (Inr (True, h')) \<and> (\<forall>a. val_at h' a = val_at demo_list a)"
proof -
  have l: "is_list demo_list (Some 0) [0, 1, 2]" by (simp add: is_list_def demo_list_def)
  have "map (val_at demo_list) [0, 1, 2] = rev (map (val_at demo_list) [0, 1, 2])" by (simp add: val_at_def demo_list_def)
  from is_palindrome_decides [OF l, unfolded eqTrueI [OF this]] show ?thesis by blast
qed

end
