(* ===== verification/Leet_Trees.thy ===== *)
theory Leet_Trees
  imports Go_Prelude "HOL-Library.Tree"
begin

text \<open>
  Trees of the package \<open>leet\<close>: \<open>invert_tree.go\<close>, which swaps the children of every node in place. The nodes live in a
  store from addresses to records; \<open>repr\<close> relates a pointer to the tree of addresses under it. On an arbitrary
  store the recursion need not end, so that \<open>invertTree\<close> is a partial function.
\<close>

record TreeNode =
  tVal :: int
  tLeft :: "nat option"
  tRight :: "nat option"

type_synonym tnodes = "nat \<rightharpoonup> TreeNode"

text \<open>The update of a node's field, a nil dereference if there is none.\<close>

definition upd_node :: "nat \<Rightarrow> (TreeNode \<Rightarrow> TreeNode) \<Rightarrow> tnodes \<Rightarrow> tnodes go" where
  "upd_node a f h = (case h a of None \<Rightarrow> Inl NilDeref | Some n \<Rightarrow> Inr (h(a \<mapsto> f n)))"

partial_function (option) invertTree :: "nat option \<Rightarrow> tnodes \<Rightarrow> (nat option \<times> tnodes) go option" where
  "invertTree root h =
     (case root of
        None \<Rightarrow> Some (Inr (None, h))
      | Some a \<Rightarrow>
          (case h a of
             None \<Rightarrow> Some (Inl NilDeref)
           | Some n \<Rightarrow>
               Option.bind (invertTree (tRight n) h) (\<lambda>r1.
                 case r1 of
                   Inl e \<Rightarrow> Some (Inl e)
                 | Inr (p, h1) \<Rightarrow>
                     (case upd_node a (\<lambda>n. n\<lparr>tLeft := p\<rparr>) h1 of
                        Inl e \<Rightarrow> Some (Inl e)
                      | Inr h2 \<Rightarrow>
                          Option.bind (invertTree (tLeft n) h2) (\<lambda>r2.
                            case r2 of
                              Inl e \<Rightarrow> Some (Inl e)
                            | Inr (q, h3) \<Rightarrow>
                                (case upd_node a (\<lambda>n. n\<lparr>tRight := q\<rparr>) h3 of
                                   Inl e \<Rightarrow> Some (Inl e)
                                 | Inr h4 \<Rightarrow> Some (Inr (Some a, h4))))))))"

subsection \<open>Trees in the store\<close>

fun repr :: "tnodes \<Rightarrow> nat option \<Rightarrow> nat tree \<Rightarrow> bool" where
  "repr h p Leaf \<longleftrightarrow> p = None"
| "repr h p (Node l a r) \<longleftrightarrow> p = Some a \<and> (\<exists>n. h a = Some n \<and> repr h (tLeft n) l \<and> repr h (tRight n) r)"

definition swapped :: "TreeNode \<Rightarrow> TreeNode" where
  "swapped n = n\<lparr>tLeft := tRight n, tRight := tLeft n\<rparr>"

lemma repr_cong: "repr h p t \<Longrightarrow> (\<And>a. a \<in> set_tree t \<Longrightarrow> h' a = h a) \<Longrightarrow> repr h' p t"
  by (induction t arbitrary: p) auto

lemma invertTree_swaps:
  assumes "repr h p t" and "distinct (inorder t)"
  shows "\<exists>h'. invertTree p h = Some (Inr (p, h')) \<and>
    (\<forall>a. h' a = (if a \<in> set_tree t then map_option swapped (h a) else h a))"
  using assms
proof (induction t arbitrary: p h)
  case Leaf
  then show ?case by (subst invertTree.simps) auto
next
  case (Node l a r)
  then obtain n where n: "p = Some a" "h a = Some n" "repr h (tLeft n) l" "repr h (tRight n) r" by auto
  have d: "a \<notin> set_tree l" "a \<notin> set_tree r" "set_tree l \<inter> set_tree r = {}" using Node.prems(2) by auto
  obtain h1 where h1: "invertTree (tRight n) h = Some (Inr (tRight n, h1))"
      "\<forall>b. h1 b = (if b \<in> set_tree r then map_option swapped (h b) else h b)"
    using Node.IH(2) [OF n(4)] Node.prems(2) by auto
  let ?h2 = "h1(a \<mapsto> n\<lparr>tLeft := tRight n\<rparr>)"
  have a1: "h1 a = Some n" using h1(2) d n(2) by simp
  have "repr ?h2 (tLeft n) l" using n(3) d h1(2) by (intro repr_cong [OF n(3)]) auto
  then obtain h3 where h3: "invertTree (tLeft n) ?h2 = Some (Inr (tLeft n, h3))"
      "\<forall>b. h3 b = (if b \<in> set_tree l then map_option swapped (?h2 b) else ?h2 b)"
    using Node.IH(1) Node.prems(2) by fastforce
  have a3: "h3 a = Some (n\<lparr>tLeft := tRight n\<rparr>)" using h3(2) d by simp
  have "invertTree p h = Some (Inr (p, h3(a \<mapsto> swapped n)))"
    using n h1(1) h3(1) a1 a3 by (subst invertTree.simps) (simp add: upd_node_def swapped_def)
  moreover have "(h3(a \<mapsto> swapped n)) b = (if b \<in> set_tree (Node l a r) then map_option swapped (h b) else h b)" for b
    using d n(2) h1(2) h3(2) by auto
  ultimately show ?case by blast
qed

lemma set_mirror: "set_tree (mirror t) = set_tree t"
  by (induction t) auto

lemma repr_swapped:
  assumes "repr h p t" and "\<And>a. a \<in> set_tree t \<Longrightarrow> h' a = map_option swapped (h a)"
  shows "repr h' p (mirror t)"
  using assms by (induction t arbitrary: p) (auto simp: swapped_def)

text \<open>
  \<open>invertTree\<close> on a tree returns its root; afterwards the same nodes with the same values form the mirror
  image of the tree and no other node has changed; and inverting twice restores the store.
\<close>
theorem invert_tree_mirrors:
  assumes "repr h p t" and "distinct (inorder t)"
  shows "\<exists>h'. invertTree p h = Some (Inr (p, h')) \<and> repr h' p (mirror t) \<and>
    (\<forall>a. a \<notin> set_tree t \<longrightarrow> h' a = h a) \<and> (\<forall>a. map_option tVal (h' a) = map_option tVal (h a)) \<and>
    invertTree p h' = Some (Inr (p, h))"
proof -
  obtain h' where h': "invertTree p h = Some (Inr (p, h'))" "\<forall>a. h' a = (if a \<in> set_tree t then map_option swapped (h a) else h a)"
    using invertTree_swaps [OF assms] by blast
  have m: "repr h' p (mirror t)" using h'(2) by (intro repr_swapped [OF assms(1)]) auto
  have "distinct (inorder (mirror t))" using assms(2) by (simp add: inorder_mirror)
  then obtain h'' where h'': "invertTree p h' = Some (Inr (p, h''))"
      "\<forall>a. h'' a = (if a \<in> set_tree t then map_option swapped (h' a) else h' a)"
    using invertTree_swaps [OF m] by (auto simp: set_mirror)
  have "h'' a = h a" for a using h''(2) h'(2) by (cases "h a") (auto simp: swapped_def)
  then have "h'' = h" by blast
  moreover have "\<forall>a. map_option tVal (h' a) = map_option tVal (h a)" using h'(2) by (auto simp: swapped_def option.map_comp comp_def)
  ultimately show ?thesis using h' h''(1) m by auto
qed

definition demo_tree :: tnodes where
  "demo_tree = [0 \<mapsto> \<lparr>tVal = 4, tLeft = Some 1, tRight = None\<rparr>, 1 \<mapsto> \<lparr>tVal = 2, tLeft = None, tRight = None\<rparr>]"

theorem invert_tree_mirrors_witness:
  "\<exists>h'. invertTree (Some 0) demo_tree = Some (Inr (Some 0, h')) \<and> repr h' (Some 0) (Node Leaf 0 (Node Leaf 1 Leaf)) \<and>
    invertTree (Some 0) h' = Some (Inr (Some 0, demo_tree))"
proof -
  have "repr demo_tree (Some 0) (Node (Node Leaf 1 Leaf) 0 Leaf)" by (simp add: demo_tree_def)
  from invert_tree_mirrors [OF this] show ?thesis by auto
qed

end
