(* ===== verification/Leet_Strings.thy ===== *)
theory Leet_Strings
  imports Go_Prelude
begin

text \<open>
  Functions of the package \<open>leet\<close> that enumerate or cut strings: \<open>parenthesis.go\<close> (all balanced strings of \<open>n\<close> pairs),
  \<open>partition.go\<close> (all splits into palindromes) and \<open>partition_range.go\<close> (the cuts between which no letter is shared).
  A Go string is the list of its bytes; a slice that a recursive function appends to through a pointer or a captured
  variable is state that is passed along.
\<close>

subsection \<open>parenthesis.go\<close>

function add :: "string list \<Rightarrow> string \<Rightarrow> int \<Rightarrow> int \<Rightarrow> int \<Rightarrow> string list" where
  "add res str lb rb target =
     (if int (length str) = wrap64 (target * 2) then res @ [str]
      else
        let res = (if target - lb > 0 then add res (str @ ''('') (lb + 1) rb target else res) in
        if rb < lb then add res (str @ '')'') lb (rb + 1) target else res)"
  by pat_completeness auto
termination by (relation "measures [\<lambda>(res, str, lb, rb, target). nat (target - lb), \<lambda>(res, str, lb, rb, target). nat (lb - rb)]") auto

definition generateParenthesis :: "int \<Rightarrow> string list" where
  "generateParenthesis n = add [] '''' 0 0 n"

subsection \<open>partition.go\<close>

text \<open>
  The table \<open>dp\<close>: \<open>init_row\<close> is the first loop's \<open>dp[i] = make([]bool, len(s)); dp[i][i] = true\<close>, \<open>pal_row\<close> the inner and
  \<open>pal_rows\<close> the outer loop, which goes down.
\<close>

definition init_row :: "nat \<Rightarrow> nat \<Rightarrow> bool list" where
  "init_row n i = (replicate n False)[i := True]"

function pal_row :: "string \<Rightarrow> bool list list \<Rightarrow> nat \<Rightarrow> nat \<Rightarrow> bool list list" where
  "pal_row s dp i j =
     (if j < length s then
        let v = (if s ! i = s ! j then (if j - i < 2 then True else dp ! (i + 1) ! (j - 1)) else False) in
        pal_row s (dp[i := (dp ! i)[j := v]]) i (j + 1)
      else dp)"
  by pat_completeness auto
termination by (relation "measure (\<lambda>(s, dp, i, j). length s - j)") auto

fun pal_rows :: "string \<Rightarrow> bool list list \<Rightarrow> nat \<Rightarrow> bool list list" where
  "pal_rows s dp 0 = dp"
| "pal_rows s dp (Suc i) = pal_rows s (pal_row s dp i (i + 1)) i"

text \<open>
  \<open>dfs\<close> with its captured variables \<open>splits\<close> and \<open>res\<close>. What is appended to \<open>res\<close> is a copy, so that the later changes of
  \<open>splits\<close> do not reach it.
\<close>

function dfs :: "string \<Rightarrow> bool list list \<Rightarrow> nat \<Rightarrow> string list \<times> string list list \<Rightarrow> string list \<times> string list list"
  and dfs_loop :: "string \<Rightarrow> bool list list \<Rightarrow> nat \<Rightarrow> nat \<Rightarrow> string list \<times> string list list \<Rightarrow> string list \<times> string list list" where
  "dfs s dp i (splits, res) = (if i = length s then (splits, res @ [splits]) else dfs_loop s dp i i (splits, res))"
| "dfs_loop s dp i j (splits, res) =
     (if j < length s then
        if dp ! i ! j then
          let (splits, res) = dfs s dp (j + 1) (splits @ [take (j + 1 - i) (drop i s)], res) in
          dfs_loop s dp i (j + 1) (take (length splits - 1) splits, res)
        else dfs_loop s dp i (j + 1) (splits, res)
      else (splits, res))"
  by pat_completeness auto
termination
  by (relation "measure (\<lambda>x. case x of Inl (s, dp, i, st) \<Rightarrow> 2 * (length s - i) + 2 | Inr (s, dp, i, j, st) \<Rightarrow> 2 * (length s - j) + 1)") auto

definition partition :: "string \<Rightarrow> string list list" where
  "partition s =
     (let dp = map (init_row (length s)) [0..<length s];
          dp = pal_rows s dp (length s) in
      snd (dfs s dp 0 ([], [])))"

subsection \<open>partition_range.go\<close>

text \<open>\<open>s[i] - 'a'\<close> on bytes, which wraps around below \<open>'a'\<close>.\<close>

definition letter :: "char \<Rightarrow> nat" where
  "letter c = (of_char c + 159) mod 256"

function flag_loop :: "string \<Rightarrow> int list \<Rightarrow> nat \<Rightarrow> int list go" where
  "flag_loop s flag i =
     (if i < length s then bind_go (upd_go flag (int (letter (s ! i))) (int i)) (\<lambda>flag. flag_loop s flag (i + 1))
      else Inr flag)"
  by pat_completeness auto
termination by (relation "measure (\<lambda>(s, flag, i). length s - i)") auto

text \<open>
  The endless loop, left at one of its two breaks; \<open>fin\<close> is the variable \<open>end\<close>. \<open>result\<close> is a variable of the package: it keeps
  what earlier calls appended.
\<close>

function label_loop :: "string \<Rightarrow> int list \<Rightarrow> nat \<Rightarrow> nat \<Rightarrow> int \<Rightarrow> int list \<Rightarrow> int list go" where
  "label_loop s flag lp rp fin result =
     (if lp \<ge> length s \<or> rp \<ge> length s then Inr result
      else
        bind_go (nth_int flag (int (letter (s ! rp)))) (\<lambda>last.
        let fin = (if last > fin then last else fin) in
        if fin = int rp then label_loop s flag (rp + 1) (rp + 1) fin (result @ [int rp - int lp + 1])
        else label_loop s flag lp (rp + 1) fin result))"
  by pat_completeness auto
termination by (relation "measure (\<lambda>(s, flag, lp, rp, fin, result). length s - rp)") auto

definition partitionLabels :: "string \<Rightarrow> int list \<Rightarrow> int list go" where
  "partitionLabels s result =
     bind_go (flag_loop s (replicate 26 0) 0) (\<lambda>flag. label_loop s flag 0 0 0 result)"

declare flag_loop.simps [simp del] label_loop.simps [simp del]
declare add.simps [simp del] pal_row.simps [simp del] dfs.simps [simp del] dfs_loop.simps [simp del]

subsection \<open>All balanced strings\<close>

text \<open>\<open>s\<close> closes \<open>d\<close> open parentheses and its own.\<close>

fun balanced_from :: "nat \<Rightarrow> string \<Rightarrow> bool" where
  "balanced_from d [] \<longleftrightarrow> d = 0"
| "balanced_from d (c # s) \<longleftrightarrow> c = CHR ''('' \<and> balanced_from (Suc d) s \<or> c = CHR '')'' \<and> 0 < d \<and> balanced_from (d - 1) s"

lemma balanced_length: "balanced_from d s \<Longrightarrow> d \<le> length s"
  by (induction d s rule: balanced_from.induct) auto

lemma balanced_char: "balanced_from d s \<Longrightarrow> c \<in> set s \<Longrightarrow> c = CHR ''('' \<or> c = CHR '')''"
  by (induction d s rule: balanced_from.induct) auto

definition completions :: "string \<Rightarrow> nat \<Rightarrow> nat \<Rightarrow> string set" where
  "completions str d k = {str @ t | t. length t = k \<and> balanced_from d t}"

lemma completions_0: "completions str 0 0 = {str}"
  by (auto simp: completions_def)

lemma completions_Suc:
  "completions str d (Suc k) = completions (str @ ''('') (Suc d) k \<union> (if 0 < d then completions (str @ '')'') (d - 1) k else {})"
proof -
  have "(length t = Suc k \<and> balanced_from d t) \<longleftrightarrow>
      (\<exists>u. length u = k \<and> (t = CHR ''('' # u \<and> balanced_from (Suc d) u \<or> t = CHR '')'' # u \<and> 0 < d \<and> balanced_from (d - 1) u))" for t
    by (cases t) auto
  then show ?thesis unfolding completions_def by auto
qed

lemma completions_disjoint: "completions (str @ ''('') d k \<inter> completions (str @ '')'') d' k' = {}"
  by (auto simp: completions_def)

lemma completions_long: "k < d \<Longrightarrow> completions str d k = {}"
  using balanced_length by (fastforce simp: completions_def)

lemma add_correct:
  assumes "n < 2 ^ 62" and "b \<le> a" and "a \<le> n" and "length str = a + b"
  shows "\<exists>ys. add res str (int a) (int b) (int n) = res @ ys \<and> distinct ys \<and> set ys = completions str (a - b) (2 * n - a - b)"
  using assms(2-4)
proof (induction "2 * n - a - b" arbitrary: a b str res)
  case 0
  then have "a = n" "b = n" by auto
  moreover have "wrap64 (int n * 2) = int (n + n)" using assms(1) by simp
  ultimately show ?case using 0 by (subst add.simps) (auto simp: completions_0)
next
  case (Suc k)
  have "wrap64 (int n * 2) = int (2 * n)" using assms(1) by simp
  then have go_on: "int (length str) \<noteq> wrap64 (int n * 2)" using Suc by simp
  have k: "2 * n - a - b = Suc k" using Suc.hyps(2) by simp
  obtain ys where ys: "(if int n - int a > 0 then add res (str @ ''('') (int a + 1) (int b) (int n) else res) = res @ ys"
    "distinct ys" "set ys = completions (str @ ''('') (Suc (a - b)) k"
  proof (cases "a < n")
    case True
    have "k = 2 * n - Suc a - b" "Suc a - b = Suc (a - b)" using k Suc.prems by auto
    then show ?thesis
      using Suc.hyps(1) [of "Suc a" b "str @ ''(''" res] Suc.prems True that by (auto simp: add.commute)
  next
    case False
    then show ?thesis using completions_long [of k "Suc (a - b)"] Suc.prems k that [of "[]"] by auto
  qed
  obtain zs where zs: "(if int b < int a then add (res @ ys) (str @ '')'') (int a) (int b + 1) (int n) else res @ ys) = res @ ys @ zs"
    "distinct zs" "set zs = (if 0 < a - b then completions (str @ '')'') (a - b - 1) k else {})"
  proof (cases "b < a")
    case True
    have "k = 2 * n - a - Suc b" "a - Suc b = a - b - 1" using k Suc.prems by auto
    then show ?thesis
      using Suc.hyps(1) [of a "Suc b" "str @ '')''" "res @ ys"] Suc.prems True that by (auto simp: add.commute)
  next
    case False
    then show ?thesis using that [of "[]"] by auto
  qed
  have "add res str (int a) (int b) (int n) = res @ ys @ zs"
    using go_on zs(1) by (subst add.simps) (simp only: if_False ys(1) Let_def)
  moreover have "distinct (ys @ zs)" using ys zs completions_disjoint by auto
  moreover have "set (ys @ zs) = completions str (a - b) (2 * n - a - b)"
    unfolding k completions_Suc set_append ys(3) zs(3) ..
  ultimately show ?case by blast
qed

text \<open>
  \<open>generateParenthesis n\<close> lists the balanced strings of \<open>n\<close> pairs of parentheses, each once.
\<close>
theorem generate_parenthesis_all:
  assumes "n < 2 ^ 62"
  shows "distinct (generateParenthesis (int n)) \<and> set (generateParenthesis (int n)) = {s. length s = 2 * n \<and> balanced_from 0 s}"
  using add_correct [OF assms, of 0 0 "''''" "[]"] by (auto simp: generateParenthesis_def completions_def)

theorem generate_parenthesis_all_witness:
  "set (generateParenthesis 3) = {s. length s = 6 \<and> balanced_from 0 s} \<and>
   generateParenthesis 3 = [''((()))'', ''(()())'', ''(())()'', ''()(())'', ''()()()'']"
proof -
  have "generateParenthesis 3 = [''((()))'', ''(()())'', ''(())()'', ''()(())'', ''()()()'']"
    by code_simp
  then show ?thesis using generate_parenthesis_all [of 3] by simp
qed

subsection \<open>All splits into palindromes\<close>

definition slice_of :: "string \<Rightarrow> nat \<Rightarrow> nat \<Rightarrow> string" where
  "slice_of s i j = take (j - i) (drop i s)"

definition palindrome :: "string \<Rightarrow> bool" where
  "palindrome s \<longleftrightarrow> rev s = s"

lemma part_cons: "i < j \<Longrightarrow> j \<le> length s \<Longrightarrow> slice_of s i j = s ! i # slice_of s (Suc i) j"
  by (simp add: slice_of_def Cons_nth_drop_Suc [symmetric] Suc_diff_Suc [symmetric])

lemma part_snoc: "i \<le> j \<Longrightarrow> j < length s \<Longrightarrow> slice_of s i (Suc j) = slice_of s i j @ [s ! j]"
  by (simp add: slice_of_def Suc_diff_le take_Suc_conv_app_nth)

lemma length_part: "j \<le> length s \<Longrightarrow> length (slice_of s i j) = j - i"
  by (simp add: slice_of_def)

lemma palindrome_ends: "palindrome (c # t @ [d]) \<longleftrightarrow> c = d \<and> palindrome t"
  by (auto simp: palindrome_def)

lemma palindrome_short: "length t \<le> 1 \<Longrightarrow> palindrome t"
  by (cases t) (auto simp: palindrome_def)

text \<open>The cells of row \<open>i\<close> with a column from \<open>i\<close> to \<open>j\<close> are filled.\<close>

definition cell_ok :: "string \<Rightarrow> bool list list \<Rightarrow> nat \<Rightarrow> nat \<Rightarrow> bool" where
  "cell_ok s dp i j \<longleftrightarrow> dp ! i ! j = palindrome (slice_of s i (Suc j))"

definition square :: "string \<Rightarrow> bool list list \<Rightarrow> bool" where
  "square s dp \<longleftrightarrow> length dp = length s \<and> (\<forall>i<length s. length (dp ! i) = length s)"

lemma palindrome_step:
  assumes "i < j" and "j < length s"
  shows "palindrome (slice_of s i (Suc j)) \<longleftrightarrow> s ! i = s ! j \<and> (j - i < 2 \<or> palindrome (slice_of s (Suc i) j))"
proof -
  have "slice_of s i (Suc j) = s ! i # slice_of s (Suc i) j @ [s ! j]"
    using assms part_cons [of i "Suc j" s] part_snoc [of "Suc i" j s] by simp
  moreover have "palindrome (slice_of s (Suc i) j)" if "j - i < 2"
    using that assms by (intro palindrome_short) (simp add: length_part)
  ultimately show ?thesis using palindrome_ends by auto
qed

lemma pal_row_correct:
  assumes "square s dp" and "i < j" and "i < length s" and "\<forall>k. i < k \<longrightarrow> k < length s \<longrightarrow> (\<forall>l\<ge>k. l < length s \<longrightarrow> cell_ok s dp k l)"
    and "\<forall>l. i \<le> l \<longrightarrow> l < j \<longrightarrow> l < length s \<longrightarrow> cell_ok s dp i l"
  shows "square s (pal_row s dp i j) \<and> (\<forall>k. i \<le> k \<longrightarrow> k < length s \<longrightarrow> (\<forall>l\<ge>k. l < length s \<longrightarrow> cell_ok s (pal_row s dp i j) k l)) \<and>
    (\<forall>k<i. pal_row s dp i j ! k = dp ! k)"
  using assms
proof (induction "length s - j" arbitrary: j dp)
  case 0
  then have e: "pal_row s dp i j = dp" by (subst pal_row.simps) simp
  show ?case unfolding e using 0 by (metis diff_is_0_eq le_neq_implies_less order_less_le_trans)
next
  case (Suc n)
  then have j: "j < length s" by simp
  define v where "v = (if s ! i = s ! j then (if j - i < 2 then True else dp ! (i + 1) ! (j - 1)) else False)"
  let ?dp = "dp[i := (dp ! i)[j := v]]"
  have "slice_of s (Suc i) (Suc (j - 1)) = slice_of s (Suc i) j" using Suc.prems(2) by simp
  then have "dp ! (i + 1) ! (j - 1) = palindrome (slice_of s (Suc i) j)" if "\<not> j - i < 2"
    using Suc.prems(4) [rule_format, of "Suc i" "j - 1"] that j by (simp add: cell_ok_def)
  then have v: "v = palindrome (slice_of s i (Suc j))"
    unfolding palindrome_step [OF Suc.prems(2) j] by (auto simp: v_def)
  have step: "pal_row s dp i j = pal_row s ?dp i (j + 1)" using j by (subst pal_row.simps) (simp add: v_def Let_def)
  have old: "cell_ok s ?dp k l = cell_ok s dp k l" if "k \<noteq> i \<or> l \<noteq> j" for k l
    using that Suc.prems(1,3) by (auto simp: cell_ok_def square_def nth_list_update)
  have new: "cell_ok s ?dp i j" using Suc.prems(1,3) j v by (simp add: cell_ok_def square_def)
  have "square s (pal_row s ?dp i (j + 1)) \<and> (\<forall>k. i \<le> k \<longrightarrow> k < length s \<longrightarrow> (\<forall>l\<ge>k. l < length s \<longrightarrow> cell_ok s (pal_row s ?dp i (j + 1)) k l)) \<and>
    (\<forall>k<i. pal_row s ?dp i (j + 1) ! k = ?dp ! k)"
  proof (rule Suc.hyps(1))
    show "square s ?dp" using Suc.prems(1) unfolding square_def by (metis length_list_update nth_list_update_eq nth_list_update_neq)
    show "\<forall>k. i < k \<longrightarrow> k < length s \<longrightarrow> (\<forall>l\<ge>k. l < length s \<longrightarrow> cell_ok s ?dp k l)" using Suc.prems(4) old by simp
    show "\<forall>l. i \<le> l \<longrightarrow> l < j + 1 \<longrightarrow> l < length s \<longrightarrow> cell_ok s ?dp i l"
      using Suc.prems(5) old new by (metis Suc_eq_plus1 less_Suc_eq)
  qed (use Suc in auto)
  then show ?case unfolding step by auto
qed

lemma pal_rows_correct:
  assumes "square s dp" and "i \<le> length s" and "\<forall>k. i \<le> k \<longrightarrow> k < length s \<longrightarrow> (\<forall>l\<ge>k. l < length s \<longrightarrow> cell_ok s dp k l)"
    and "\<forall>k<i. dp ! k ! k = True"
  shows "square s (pal_rows s dp i) \<and> (\<forall>k l. k \<le> l \<longrightarrow> l < length s \<longrightarrow> cell_ok s (pal_rows s dp i) k l)"
  using assms
proof (induction i arbitrary: dp)
  case 0
  then show ?case by auto
next
  case (Suc i)
  have "cell_ok s dp i i" using Suc.prems(2,4) by (simp add: cell_ok_def palindrome_short length_part)
  then have "\<forall>l. i \<le> l \<longrightarrow> l < i + 1 \<longrightarrow> l < length s \<longrightarrow> cell_ok s dp i l" by (auto simp: less_Suc_eq_le le_antisym)
  then have "square s (pal_row s dp i (i + 1)) \<and> (\<forall>k. i \<le> k \<longrightarrow> k < length s \<longrightarrow> (\<forall>l\<ge>k. l < length s \<longrightarrow> cell_ok s (pal_row s dp i (i + 1)) k l)) \<and>
    (\<forall>k<i. pal_row s dp i (i + 1) ! k = dp ! k)"
    using Suc.prems by (intro pal_row_correct) (auto simp: Suc_le_eq)
  then show ?case using Suc.prems Suc.IH [of "pal_row s dp i (i + 1)"] by simp
qed

lemma pal_table:
  fixes s
  defines "dp \<equiv> pal_rows s (map (init_row (length s)) [0..<length s]) (length s)"
  shows "i \<le> j \<Longrightarrow> j < length s \<Longrightarrow> dp ! i ! j = palindrome (slice_of s i (Suc j))"
proof -
  have "square s (map (init_row (length s)) [0..<length s])" by (simp add: square_def init_row_def)
  then show "i \<le> j \<Longrightarrow> j < length s \<Longrightarrow> dp ! i ! j = palindrome (slice_of s i (Suc j))"
    using pal_rows_correct [of s _ "length s"] unfolding dp_def by (simp add: init_row_def cell_ok_def)
qed

text \<open>The splits of \<open>s\<close> from \<open>i\<close> on, and those whose first part ends at \<open>j\<close> or later.\<close>

definition pal_splits :: "string \<Rightarrow> string list set" where
  "pal_splits t = {ps. concat ps = t \<and> (\<forall>p\<in>set ps. p \<noteq> [] \<and> palindrome p)}"

definition splits_from :: "string \<Rightarrow> nat \<Rightarrow> nat \<Rightarrow> string list set" where
  "splits_from s i j = {p # ps | p ps. p @ concat ps = drop i s \<and> j < i + length p \<and> (\<forall>q\<in>set (p # ps). q \<noteq> [] \<and> palindrome q)}"

lemma pal_splits_Nil: "pal_splits [] = {[]}"
proof -
  have "ps = []" if "concat ps = []" "\<forall>p\<in>set ps. p \<noteq> [] \<and> palindrome p" for ps :: "string list"
    using that by (cases ps) auto
  then show ?thesis by (auto simp: pal_splits_def)
qed

lemma pal_splits_from: "i < length s \<Longrightarrow> pal_splits (drop i s) = splits_from s i i"
proof -
  assume "i < length s"
  then have "concat ps = drop i s \<Longrightarrow> \<exists>p qs. ps = p # qs" for ps by (cases ps) auto
  then show ?thesis unfolding pal_splits_def splits_from_def by fastforce
qed

lemma splits_from_end: "length s \<le> j \<Longrightarrow> splits_from s i j = {}"
proof -
  assume j: "length s \<le> j"
  have "\<not> j < i + length p" if "p \<noteq> []" "p @ concat ps = drop i s" for p ps
  proof -
    have "length p \<le> length s - i" using arg_cong [OF that(2), of length] by simp
    then show ?thesis using that(1) j by (cases "i < length s") auto
  qed
  then show ?thesis by (fastforce simp: splits_from_def)
qed

lemma splits_from_step:
  assumes "i \<le> j" and "j < length s"
  shows "splits_from s i j = (if palindrome (slice_of s i (Suc j)) then (#) (slice_of s i (Suc j)) ` pal_splits (drop (Suc j) s) else {}) \<union> splits_from s i (Suc j)"
proof -
  have p: "p = slice_of s i (Suc j) \<and> concat ps = drop (Suc j) s \<longleftrightarrow> p @ concat ps = drop i s \<and> i + length p = Suc j" for p ps
  proof
    assume "p @ concat ps = drop i s \<and> i + length p = Suc j"
    then have l: "length p = Suc j - i" and e: "p @ concat ps = drop i s" by auto
    have "p = take (Suc j - i) (drop i s)" "concat ps = drop (Suc j - i) (drop i s)"
      unfolding e [symmetric] using l by simp_all
    then show "p = slice_of s i (Suc j) \<and> concat ps = drop (Suc j) s" using assms by (simp add: slice_of_def)
  next
    assume "p = slice_of s i (Suc j) \<and> concat ps = drop (Suc j) s"
    moreover have "drop (Suc j) s = drop (Suc j - i) (drop i s)" using assms by simp
    ultimately show "p @ concat ps = drop i s \<and> i + length p = Suc j"
      using assms by (simp add: slice_of_def del: drop_drop)
  qed
  have ne: "slice_of s i (Suc j) \<noteq> []" using assms by (metis length_part Suc_leI diff_is_0_eq le_imp_less_Suc list.size(3) not_le)
  have less: "j < m \<longleftrightarrow> m = Suc j \<or> Suc j < m" for m by auto
  have split: "splits_from s i j = {q # ps | q ps. q @ concat ps = drop i s \<and> i + length q = Suc j \<and> (\<forall>r\<in>set (q # ps). r \<noteq> [] \<and> palindrome r)} \<union> splits_from s i (Suc j)"
    unfolding splits_from_def less [of "_ + _"] by blast
  have "{q # ps | q ps. q @ concat ps = drop i s \<and> i + length q = Suc j \<and> (\<forall>r\<in>set (q # ps). r \<noteq> [] \<and> palindrome r)} =
      {q # ps | q ps. (q = slice_of s i (Suc j) \<and> concat ps = drop (Suc j) s) \<and> (\<forall>r\<in>set (q # ps). r \<noteq> [] \<and> palindrome r)}"
    unfolding p by blast
  also have "\<dots> = (if palindrome (slice_of s i (Suc j)) then (#) (slice_of s i (Suc j)) ` pal_splits (drop (Suc j) s) else {})"
    using ne by (auto simp: pal_splits_def)
  finally show ?thesis using split by simp
qed

definition dfs_ok :: "string \<Rightarrow> bool list list \<Rightarrow> nat \<Rightarrow> bool" where
  "dfs_ok s dp i \<longleftrightarrow> (\<forall>splits res. \<exists>ys. dfs s dp i (splits, res) = (splits, res @ map ((@) splits) ys) \<and>
     distinct ys \<and> set ys = pal_splits (drop i s))"

lemma dfs_loop_correct:
  assumes "\<And>j. i \<le> j \<Longrightarrow> j < length s \<Longrightarrow> dp ! i ! j = palindrome (slice_of s i (Suc j))"
    and "\<And>k. i < k \<Longrightarrow> k \<le> length s \<Longrightarrow> dfs_ok s dp k" and "i \<le> j"
  shows "\<exists>ys. dfs_loop s dp i j (splits, res) = (splits, res @ map ((@) splits) ys) \<and> distinct ys \<and> set ys = splits_from s i j"
  using assms(3)
proof (induction "length s - j" arbitrary: j splits res)
  case 0
  then show ?case by (subst dfs_loop.simps) (auto simp: splits_from_end)
next
  case (Suc n)
  then have j: "j < length s" by simp
  let ?p = "slice_of s i (Suc j)"
  have slice: "take (j + 1 - i) (drop i s) = ?p" by (simp add: slice_of_def)
  have n: "n = length s - (j + 1)" using Suc.hyps(2) by simp
  show ?case
  proof (cases "dp ! i ! j")
    case False
    then show ?thesis using Suc.hyps(1) [of "j + 1" splits res] Suc j assms(1) [of j]
      by (subst dfs_loop.simps) (simp add: splits_from_step)
  next
    case True
    then have pal: "palindrome ?p" using assms(1) Suc.prems j by simp
    obtain ys where ys: "dfs s dp (j + 1) (splits @ [?p], res) = (splits @ [?p], res @ map ((@) (splits @ [?p])) ys)"
      "distinct ys" "set ys = pal_splits (drop (Suc j) s)"
      using assms(2) [of "Suc j", unfolded dfs_ok_def, THEN spec [of _ "splits @ [?p]"], THEN spec [of _ res]] Suc.prems j by auto
    obtain zs where zs: "dfs_loop s dp i (j + 1) (splits, res @ map ((@) (splits @ [?p])) ys) = (splits, (res @ map ((@) (splits @ [?p])) ys) @ map ((@) splits) zs)"
      "distinct zs" "set zs = splits_from s i (Suc j)"
      using Suc.hyps(1) [OF n, of splits "res @ map ((@) (splits @ [?p])) ys"] Suc.prems by auto
    have "dfs_loop s dp i j (splits, res) = (splits, res @ map ((@) splits) (map ((#) ?p) ys @ zs))"
      using True j zs(1) by (subst dfs_loop.simps) (simp only: slice ys(1) if_True Let_def split_conv, simp)
    moreover have "?p # ps \<notin> splits_from s i (Suc j)" for ps
      using Suc.prems j by (auto simp: splits_from_def length_part)
    then have "distinct (map ((#) ?p) ys @ zs)" using ys(2) zs(2,3) by (auto simp: distinct_map)
    moreover have "set (map ((#) ?p) ys @ zs) = splits_from s i j"
      using ys(3) zs(3) pal Suc.prems j by (simp add: splits_from_step)
    ultimately show ?thesis by blast
  qed
qed

lemma dfs_correct:
  assumes "\<And>i j. i \<le> j \<Longrightarrow> j < length s \<Longrightarrow> dp ! i ! j = palindrome (slice_of s i (Suc j))"
  shows "i \<le> length s \<Longrightarrow> dfs_ok s dp i"
proof (induction "length s - i" arbitrary: i rule: less_induct)
  case less
  show ?case
  proof (cases "i = length s")
    case True
    have "dfs s dp i (splits, res) = (splits, res @ map ((@) splits) [[]])" for splits res
      using True by (subst dfs.simps) simp
    then show ?thesis unfolding dfs_ok_def using True pal_splits_Nil by (metis distinct_singleton drop_all empty_set le_refl list.simps(15))
  next
    case False
    have "dfs s dp i (splits, res) = dfs_loop s dp i i (splits, res)" for splits res using False by (subst dfs.simps) simp
    moreover have "\<exists>ys. dfs_loop s dp i i (splits, res) = (splits, res @ map ((@) splits) ys) \<and> distinct ys \<and> set ys = splits_from s i i" for splits res
      using less.hyps False less.prems by (intro dfs_loop_correct assms) auto
    ultimately show ?thesis unfolding dfs_ok_def using pal_splits_from [of i s] False less.prems by simp
  qed
qed

text \<open>
  \<open>partition\<close> lists the ways to cut the string into nonempty palindromes, each once.
\<close>
theorem partition_all_splits:
  "distinct (partition s) \<and> set (partition s) = {ps. concat ps = s \<and> (\<forall>p\<in>set ps. p \<noteq> [] \<and> palindrome p)}"
proof -
  have "dfs_ok s (pal_rows s (map (init_row (length s)) [0..<length s]) (length s)) 0"
    using pal_table by (intro dfs_correct) auto
  then obtain ys where "partition s = ys" "distinct ys" "set ys = pal_splits s"
    unfolding dfs_ok_def partition_def Let_def by (metis append_Nil drop0 list.map_ident snd_conv map_idI)
  then show ?thesis by (simp add: pal_splits_def)
qed

theorem partition_all_splits_witness:
  "partition ''aab'' = [[''a'', ''a'', ''b''], [''aa'', ''b'']] \<and>
   set (partition ''aab'') = {ps. concat ps = ''aab'' \<and> (\<forall>p\<in>set ps. p \<noteq> [] \<and> palindrome p)}"
proof -
  have "partition ''aab'' = [[''a'', ''a'', ''b''], [''aa'', ''b'']]" by code_simp
  then show ?thesis using partition_all_splits [of "''aab''"] by simp
qed

subsection \<open>The finest cut that separates the letters\<close>

lemma wrap_letter: "n < 256 \<Longrightarrow> (n + 159) mod 256 = (if n < 97 then n + 159 else n - 97)" for n :: nat
  using mod_add_self2 [of "n - 97" 256] by (cases "n < 97") (simp_all add: le_mod_geq)

lemma wrap_letter_inject: "m < 256 \<Longrightarrow> n < 256 \<Longrightarrow> (m + 159) mod 256 = (n + 159) mod 256 \<Longrightarrow> m = n" for m n :: nat
  by (simp add: wrap_letter split: if_splits)

lemma letter_inject [simp]: "letter c = letter d \<longleftrightarrow> c = d"
proof
  assume "letter c = letter d"
  then have e: "(of_char c + 159) mod 256 = (of_char d + 159) mod (256 :: nat)" by (simp add: letter_def)
  have "of_char c = (of_char d :: nat)" by (rule wrap_letter_inject [OF _ _ e]) simp_all
  then show "c = d" by simp
qed simp

text \<open>What the first loop leaves: the last position, among the first \<open>i\<close>, of each letter.\<close>

definition last_ok :: "string \<Rightarrow> nat \<Rightarrow> char \<Rightarrow> int \<Rightarrow> bool" where
  "last_ok s i c l \<longleftrightarrow> 0 \<le> l \<and> nat l < i \<and> s ! nat l = c \<and> (\<forall>m<i. s ! m = c \<longrightarrow> int m \<le> l)"

lemma last_ok_Suc: "last_ok s (Suc i) (s ! i) (int i)"
  by (auto simp: last_ok_def)

lemma last_ok_other: "last_ok s i c l \<Longrightarrow> s ! i \<noteq> c \<Longrightarrow> last_ok s (Suc i) c l"
  by (auto simp: last_ok_def less_Suc_eq)

lemma flag_loop_correct:
  assumes "\<forall>c\<in>set s. letter c < 26" and "i \<le> length s" and "length flag = 26" and "\<forall>k<i. last_ok s i (s ! k) (flag ! letter (s ! k))"
  shows "\<exists>flag'. flag_loop s flag i = Inr flag' \<and> length flag' = 26 \<and> (\<forall>k<length s. last_ok s (length s) (s ! k) (flag' ! letter (s ! k)))"
  using assms(2-4)
proof (induction "length s - i" arbitrary: i flag)
  case 0
  then show ?case by (subst flag_loop.simps) simp
next
  case (Suc n)
  then have i: "i < length s" by simp
  let ?flag = "flag[letter (s ! i) := int i]"
  have "letter (s ! i) < 26" using assms(1) i by simp
  then have step: "flag_loop s flag i = flag_loop s ?flag (i + 1)"
    using i Suc.prems(2) by (subst flag_loop.simps) (simp add: upd_go_def)
  have "last_ok s (Suc i) (s ! k) (?flag ! letter (s ! k))" if "k < Suc i" for k
  proof (cases "s ! k = s ! i")
    case True
    show ?thesis unfolding True using last_ok_Suc \<open>letter (s ! i) < 26\<close> Suc.prems(2) by simp
  next
    case False
    then have "k < i" using that by (metis less_Suc_eq)
    then show ?thesis using Suc.prems(3) last_ok_other False by auto
  qed
  then show ?case unfolding step using Suc i by (intro Suc.hyps(1)) auto
qed

lemma flag_loop_panics:
  "length flag = 26 \<Longrightarrow> i \<le> k \<Longrightarrow> k < length s \<Longrightarrow> 26 \<le> letter (s ! k) \<Longrightarrow> flag_loop s flag i = Inl IndexOutOfRange"
proof (induction "length s - i" arbitrary: i flag)
  case (Suc n)
  then have i: "i < length s" by simp
  show ?case
  proof (cases "letter (s ! i) < 26")
    case False
    then show ?thesis using i Suc.prems(1) by (subst flag_loop.simps) (simp add: upd_go_def)
  next
    case True
    then have "flag_loop s flag i = flag_loop s (flag[letter (s ! i) := int i]) (i + 1)"
      using i Suc.prems(1) by (subst flag_loop.simps) (simp add: upd_go_def)
    moreover have "i \<noteq> k" using True Suc.prems(4) by auto
    ultimately show ?thesis using Suc by simp
  qed
qed simp

definition cut_at :: "string \<Rightarrow> nat \<Rightarrow> bool" where
  "cut_at s p \<longleftrightarrow> set (take p s) \<inter> set (drop p s) = {}"

definition cuts :: "string \<Rightarrow> nat \<Rightarrow> int list" where
  "cuts s p = map int (filter (cut_at s) [1..<Suc p])"

lemma cuts_simps [simp]:
  "cuts s 0 = []"
  "cuts s (Suc p) = cuts s p @ (if cut_at s (Suc p) then [int (Suc p)] else [])"
  by (simp_all add: cuts_def)

text \<open>Where the pieces of the given lengths end.\<close>

fun ends :: "int \<Rightarrow> int list \<Rightarrow> int list" where
  "ends a [] = []"
| "ends a (l # ls) = (a + l) # ends (a + l) ls"

lemma ends_snoc: "ends a (ls @ [l]) = ends a ls @ [a + sum_list ls + l]"
  by (induction ls arbitrary: a) auto

lemma set_drop_nth: "set (drop p s) = (!) s ` {p..<length s}"
proof (intro equalityI subsetI)
  fix x assume "x \<in> set (drop p s)"
  then obtain i where "i < length s - p" "x = s ! (p + i)" by (auto simp: set_conv_nth)
  then show "x \<in> (!) s ` {p..<length s}" by (intro image_eqI [of _ _ "p + i"]) auto
next
  fix x assume "x \<in> (!) s ` {p..<length s}"
  then obtain m where "p \<le> m" "m < length s" "x = s ! m" by auto
  then have "x = drop p s ! (m - p)" "m - p < length (drop p s)" by auto
  then show "x \<in> set (drop p s)" by (metis nth_mem)
qed

lemma disjoint_images: "f ` A \<inter> f ` B = {} \<longleftrightarrow> (\<forall>k\<in>A. \<forall>m\<in>B. f k \<noteq> f m)"
  by auto

lemma cut_iff:
  assumes "p < length s" and "\<forall>k<length s. last_ok s (length s) (s ! k) (lst (s ! k))"
  shows "cut_at s (Suc p) \<longleftrightarrow> (\<forall>k\<le>p. lst (s ! k) \<le> int p)"
proof -
  have "cut_at s (Suc p) \<longleftrightarrow> (\<forall>k\<le>p. \<forall>m. p < m \<longrightarrow> m < length s \<longrightarrow> s ! k \<noteq> s ! m)"
    unfolding cut_at_def set_drop_nth nth_image [OF Suc_leI [OF assms(1)], symmetric] disjoint_images
    by (simp add: Ball_def Suc_le_eq less_Suc_eq_le imp_conjL)
  also have "\<dots> \<longleftrightarrow> (\<forall>k\<le>p. lst (s ! k) \<le> int p)"
  proof (intro all_cong)
    fix k assume "k \<le> p"
    then have l: "last_ok s (length s) (s ! k) (lst (s ! k))" using assms by simp
    show "(\<forall>m. p < m \<longrightarrow> m < length s \<longrightarrow> s ! k \<noteq> s ! m) \<longleftrightarrow> lst (s ! k) \<le> int p"
    proof
      assume "\<forall>m. p < m \<longrightarrow> m < length s \<longrightarrow> s ! k \<noteq> s ! m"
      then show "lst (s ! k) \<le> int p" using l unfolding last_ok_def by (metis nat_int_comparison(3) not_le nat_le_iff)
    next
      assume "lst (s ! k) \<le> int p"
      then show "\<forall>m. p < m \<longrightarrow> m < length s \<longrightarrow> s ! k \<noteq> s ! m" using l unfolding last_ok_def by fastforce
    qed
  qed
  finally show ?thesis .
qed

lemma label_loop_correct:
  assumes len: "length flag = 26" and low: "\<forall>c\<in>set s. letter c < 26"
    and flag: "\<forall>k<length s. last_ok s (length s) (s ! k) (flag ! letter (s ! k))"
    and "rp \<le> length s" and "int lp = sum_list lens" and "lp \<le> rp"
    and "ends 0 lens = cuts s rp"
    and "\<forall>k<rp. flag ! letter (s ! k) \<le> fin" and "fin \<noteq> 0 \<longrightarrow> (\<exists>k<rp. flag ! letter (s ! k) = fin)" and "0 \<le> fin"
  shows "\<exists>lens'. label_loop s flag lp rp fin (res @ lens) = Inr (res @ lens') \<and> ends 0 lens' = cuts s (length s)"
  using assms(4-10)
proof (induction "length s - rp" arbitrary: lp rp fin lens)
  case 0
  then have "rp = length s" by simp
  then show ?case using 0 by (subst label_loop.simps) auto
next
  case (Suc n)
  then have rp: "rp < length s" by simp
  define lst where "lst = flag ! letter (s ! rp)"
  define fin' where "fin' = max fin lst"
  have le: "int rp \<le> lst" using flag rp by (auto simp: last_ok_def lst_def)
  have all: "\<forall>k<Suc rp. flag ! letter (s ! k) \<le> fin'" using Suc.prems(5) by (auto simp: fin'_def lst_def less_Suc_eq)
  have ex: "\<exists>k<Suc rp. flag ! letter (s ! k) = fin'"
    using Suc.prems(6,7) le unfolding fin'_def lst_def by (metis less_Suc_eq max_def order_antisym_conv of_nat_0_le_iff order_trans)
  have cut: "cut_at s (Suc rp) \<longleftrightarrow> fin' = int rp"
  proof -
    have "cut_at s (Suc rp) \<longleftrightarrow> (\<forall>k\<le>rp. flag ! letter (s ! k) \<le> int rp)" using cut_iff [OF rp, of "\<lambda>c. flag ! letter c"] flag by simp
    also have "\<dots> \<longleftrightarrow> fin' \<le> int rp" using all ex by (metis less_Suc_eq_le order_trans)
    also have "\<dots> \<longleftrightarrow> fin' = int rp" using le by (auto simp: fin'_def)
    finally show ?thesis .
  qed
  have lp: "lp < length s" using rp Suc.prems(3) by simp
  have "letter (s ! rp) < 26" using low rp by simp
  then have step: "label_loop s flag lp rp fin (res @ lens) =
      (if fin' = int rp then label_loop s flag (rp + 1) (rp + 1) fin' (res @ lens @ [int rp - int lp + 1])
       else label_loop s flag lp (rp + 1) fin' (res @ lens))"
    using rp lp len by (subst label_loop.simps) (simp add: Let_def fin'_def lst_def max_def)
  have n: "n = length s - Suc rp" using Suc.hyps(2) by simp
  show ?case
  proof (cases "fin' = int rp")
    case True
    then have "\<exists>lens'. label_loop s flag (Suc rp) (Suc rp) fin' (res @ lens @ [int rp - int lp + 1]) = Inr (res @ lens') \<and>
        ends 0 lens' = cuts s (length s)"
      using Suc.hyps(1) [OF n, of "Suc rp" "lens @ [int rp - int lp + 1]" fin'] Suc.prems rp cut all ex
      by (simp add: ends_snoc)
    then show ?thesis using step True by simp
  next
    case False
    then have "\<exists>lens'. label_loop s flag lp (Suc rp) fin' (res @ lens) = Inr (res @ lens') \<and>
        ends 0 lens' = cuts s (length s)"
      using Suc.hyps(1) [OF n, of lp lens fin'] Suc.prems rp cut all ex le by (simp add: fin'_def)
    then show ?thesis using step False by simp
  qed
qed

text \<open>
  \<open>partitionLabels\<close> on a string of lower case letters appends to the package's \<open>result\<close> the lengths of the
  finest cut into pieces that share no letter: the pieces end exactly at the positions before and after which there is
  no common letter. A later call returns the pieces of the earlier ones too. On every other string it panics.
\<close>
theorem partition_labels_cuts:
  "if \<forall>c\<in>set s. letter c < 26
   then \<exists>lens. partitionLabels s result = Inr (result @ lens) \<and> ends 0 lens = cuts s (length s)
   else partitionLabels s result = Inl IndexOutOfRange"
proof (cases "\<forall>c\<in>set s. letter c < 26")
  case True
  then obtain flag where flag: "flag_loop s (replicate 26 0) 0 = Inr flag" "length flag = 26"
    "\<forall>k<length s. last_ok s (length s) (s ! k) (flag ! letter (s ! k))"
    using flag_loop_correct [of s 0 "replicate 26 0"] by auto
  then show ?thesis using True label_loop_correct [OF flag(2) True flag(3), of 0 0 "[]" 0 result]
    by (simp add: partitionLabels_def)
next
  case False
  then obtain k where "k < length s" "26 \<le> letter (s ! k)" by (auto simp: all_set_conv_all_nth not_less)
  then show ?thesis using False flag_loop_panics [of "replicate 26 0" 0 k s] by (simp add: partitionLabels_def)
qed

theorem partition_labels_cuts_witness:
  "partitionLabels ''ababcc'' [] = Inr [4, 2] \<and> partitionLabels ''aa'' [4, 2] = Inr [4, 2, 2] \<and>
   (\<exists>lens. partitionLabels ''ababcc'' [7] = Inr ([7] @ lens) \<and> ends 0 lens = cuts ''ababcc'' 6)"
proof -
  have "\<forall>c\<in>set ''ababcc''. letter c < 26" by code_simp
  then have "\<exists>lens. partitionLabels ''ababcc'' [7] = Inr ([7] @ lens) \<and> ends 0 lens = cuts ''ababcc'' 6"
    using partition_labels_cuts [of "''ababcc''" "[7]"] by (simp del: cuts_simps add: eval_nat_numeral)
  moreover have "partitionLabels ''ababcc'' [] = Inr [4, 2]" "partitionLabels ''aa'' [4, 2] = Inr [4, 2, 2]" by code_simp+
  ultimately show ?thesis by blast
qed

end
