(* ===== verification/Leet_Windows.thy ===== *)
theory Leet_Windows
  imports Leet_Strings "HOL-Library.Multiset"
begin

text \<open>
  Functions of the package \<open>leet\<close> that keep counts of what they have seen: \<open>duplicate.go\<close> (the longest substring without a
  repeated byte), \<open>Anagrams.go\<close> (the windows that are permutations of a pattern) and \<open>leet.go\<close> (the longest run of
  consecutive numbers). A map of Go is a map; the order in which Go ranges over one is an argument. Counts are at most
  the length of a string, which Go keeps below \<open>2 ^ 63\<close>, so they are plain integers.
\<close>

subsection \<open>duplicate.go\<close>

function window_loop :: "string \<Rightarrow> (char \<rightharpoonup> int) \<Rightarrow> nat \<Rightarrow> nat \<Rightarrow> int \<Rightarrow> int go" where
  "window_loop s store lp rp maxLength =
     (if rp < length s then
        case store (s ! rp) of
          Some _ \<Rightarrow>
            if lp < length s then
              let v = (case store (s ! lp) of None \<Rightarrow> 0 | Some v \<Rightarrow> v) - 1;
                  store = (if v = 0 then store(s ! lp := None) else store(s ! lp \<mapsto> v)) in
              window_loop s store (lp + 1) rp maxLength
            else Inl IndexOutOfRange
        | None \<Rightarrow>
            window_loop s (store(s ! rp \<mapsto> 1)) lp (rp + 1)
              (if int rp - int lp + 1 > maxLength then int rp - int lp + 1 else maxLength)
      else Inr maxLength)"
  by pat_completeness auto
termination by (relation "measure (\<lambda>(s, store, lp, rp, mx). (length s - lp) + (length s - rp))") auto

definition lengthOfLongestSubstring :: "string \<Rightarrow> int go" where
  "lengthOfLongestSubstring s =
     (if length s = 0 then Inr 0
      else if length s = 1 then Inr 1
      else window_loop s [s ! 0 \<mapsto> 1] 0 1 1)"

subsection \<open>Anagrams.go\<close>

definition bump :: "int list \<Rightarrow> char \<Rightarrow> int \<Rightarrow> int list go" where
  "bump cnt c d = bind_go (nth_int cnt (int (letter c))) (\<lambda>v. upd_go cnt (int (letter c)) (v + d))"

function first_window :: "string \<Rightarrow> string \<Rightarrow> int list \<Rightarrow> int list \<Rightarrow> nat \<Rightarrow> (int list \<times> int list) go" where
  "first_window s p pCount sCount i =
     (if i < length p then
        bind_go (bump pCount (p ! i) 1) (\<lambda>pCount.
        bind_go (bump sCount (s ! i) 1) (\<lambda>sCount.
        first_window s p pCount sCount (i + 1)))
      else Inr (pCount, sCount))"
  by pat_completeness auto
termination by (relation "measure (\<lambda>(s, p, a, b, i). length p - i)") auto

function slide :: "string \<Rightarrow> nat \<Rightarrow> int list \<Rightarrow> int list \<Rightarrow> nat list \<Rightarrow> nat \<Rightarrow> nat list go" where
  "slide s m pCount sCount result i =
     (if i < length s then
        bind_go (bump sCount (s ! i) 1) (\<lambda>sCount.
        bind_go (bump sCount (s ! (i - m)) (- 1)) (\<lambda>sCount.
        slide s m pCount sCount (if sCount = pCount then result @ [i - m + 1] else result) (i + 1)))
      else Inr result)"
  by pat_completeness auto
termination by (relation "measure (\<lambda>(s, m, a, b, r, i). length s - i)") auto

text \<open>The result is a slice of indices; the nil slice of the early return has no elements either.\<close>

definition findAnagrams :: "string \<Rightarrow> string \<Rightarrow> nat list go" where
  "findAnagrams s p =
     (let n = length s; m = length p in
      if n < m then Inr []
      else
        bind_go (first_window s p (replicate 26 0) (replicate 26 0) 0) (\<lambda>(pCount, sCount).
        slide s m pCount sCount (if sCount = pCount then [0] else []) m))"

subsection \<open>leet.go\<close>

text \<open>\<open>seen\<close> is the set of the keys of the map; \<open>run_loop\<close> is the loop over \<open>cur\<close>, which need not end on every set of keys.\<close>

partial_function (option) run_loop :: "int set \<Rightarrow> int \<Rightarrow> int \<Rightarrow> int option" where
  "run_loop seen cur len = (if cur \<in> seen then run_loop seen (wrap64 (cur + 1)) (len + 1) else Some len)"

fun range_loop :: "int set \<Rightarrow> int list \<Rightarrow> int \<Rightarrow> int option" where
  "range_loop seen [] maxLen = Some maxLen"
| "range_loop seen (v # vs) maxLen =
     (if wrap64 (v - 1) \<in> seen then range_loop seen vs maxLen
      else Option.bind (run_loop seen (wrap64 (v + 1)) 1) (\<lambda>len. range_loop seen vs (if len > maxLen then len else maxLen)))"

definition longestConsecutive :: "int list \<Rightarrow> int list \<Rightarrow> int option" where
  "longestConsecutive order nums = (if length nums = 0 then Some 0 else range_loop (set nums) order 0)"

definition MaxInt :: "int \<Rightarrow> int \<Rightarrow> int" where
  "MaxInt a b = (if a > b then a else b)"

declare window_loop.simps [simp del] first_window.simps [simp del] slide.simps [simp del]

subsection \<open>The longest substring without a repetition\<close>

lemma distinct_part_mono: "i \<le> i' \<Longrightarrow> j' \<le> j \<Longrightarrow> distinct (slice_of s i j) \<Longrightarrow> distinct (slice_of s i' j')"
proof -
  assume a: "i \<le> i'" "j' \<le> j" "distinct (slice_of s i j)"
  have "slice_of s i' j' = take (j' - i') (drop (i' - i) (slice_of s i j))"
    using a(1,2) by (simp add: slice_of_def drop_take min_def)
  then show ?thesis using a(3) by simp
qed

text \<open>No distinct slice that ends by \<open>rp\<close> is longer than \<open>mx\<close>, and one is as long.\<close>

definition best_window :: "string \<Rightarrow> nat \<Rightarrow> int \<Rightarrow> bool" where
  "best_window s rp mx \<longleftrightarrow> (\<exists>i j. i \<le> j \<and> j \<le> rp \<and> distinct (slice_of s i j) \<and> mx = int (j - i)) \<and>
     (\<forall>i j. i \<le> j \<longrightarrow> j \<le> rp \<longrightarrow> distinct (slice_of s i j) \<longrightarrow> int (j - i) \<le> mx)"

lemma best_window_Suc:
  assumes "best_window s rp mx" and "lp \<le> rp" and "distinct (slice_of s lp (Suc rp))" and "\<forall>i<lp. \<not> distinct (slice_of s i (Suc rp))"
  shows "best_window s (Suc rp) (max mx (int rp - int lp + 1))"
proof -
  have "int (j - i) \<le> max mx (int rp - int lp + 1)" if "i \<le> j" "j \<le> Suc rp" "distinct (slice_of s i j)" for i j
  proof (cases "j = Suc rp")
    case True
    then have "lp \<le> i" using assms(4) that(3) by (metis not_le)
    then show ?thesis using True that(1) by simp
  next
    case False
    then have "int (j - i) \<le> mx" using assms(1) that by (auto simp: best_window_def)
    then show ?thesis by simp
  qed
  moreover have "\<exists>i j. i \<le> j \<and> j \<le> Suc rp \<and> distinct (slice_of s i j) \<and> max mx (int rp - int lp + 1) = int (j - i)"
  proof (cases "mx \<le> int rp - int lp + 1")
    case True
    then show ?thesis using assms(2,3) by (intro exI [of _ lp] exI [of _ "Suc rp"]) auto
  next
    case False
    obtain i j where "i \<le> j" "j \<le> rp" "distinct (slice_of s i j)" "mx = int (j - i)" using assms(1) by (auto simp: best_window_def)
    then show ?thesis using False by (intro exI [of _ i] exI [of _ j]) auto
  qed
  ultimately show ?thesis unfolding best_window_def by blast
qed

definition window_store :: "string \<Rightarrow> nat \<Rightarrow> nat \<Rightarrow> char \<rightharpoonup> int" where
  "window_store s lp rp = (\<lambda>c. if c \<in> set (slice_of s lp rp) then Some 1 else None)"

lemma window_store_drop:
  assumes "lp < rp" and "rp \<le> length s" and "distinct (slice_of s lp rp)"
  shows "(window_store s lp rp)(s ! lp := None) = window_store s (Suc lp) rp"
proof -
  have p: "slice_of s lp rp = s ! lp # slice_of s (Suc lp) rp" using part_cons assms by blast
  have "s ! lp \<notin> set (slice_of s (Suc lp) rp)" using assms(3) unfolding p by simp
  then show ?thesis unfolding window_store_def p by auto
qed

lemma window_store_add: "lp \<le> rp \<Longrightarrow> rp < length s \<Longrightarrow> (window_store s lp rp)(s ! rp \<mapsto> 1) = window_store s lp (Suc rp)"
  unfolding window_store_def by (auto simp: part_snoc)

lemma window_loop_correct:
  assumes "lp \<le> rp" and "rp \<le> length s" and "distinct (slice_of s lp rp)" and "best_window s rp mx"
    and "\<forall>i<lp. \<not> distinct (slice_of s i (Suc rp))"
  shows "\<exists>r. window_loop s (window_store s lp rp) lp rp mx = Inr r \<and> best_window s (length s) r"
  using assms
proof (induction "(length s - lp) + (length s - rp)" arbitrary: lp rp mx rule: less_induct)
  case less
  show ?case
  proof (cases "rp < length s")
    case False
    then show ?thesis using less.prems by (subst window_loop.simps) simp
  next
    case rp: True
    show ?thesis
    proof (cases "s ! rp \<in> set (slice_of s lp rp)")
      case True
      then have lt: "lp < rp" using less.prems(1) by (cases "lp = rp") (auto simp: slice_of_def)
      have "s ! lp \<in> set (slice_of s lp rp)" using part_cons [OF lt less.prems(2)] by simp
      then have step: "window_loop s (window_store s lp rp) lp rp mx = window_loop s (window_store s (Suc lp) rp) (Suc lp) rp mx"
        using True rp lt by (subst window_loop.simps)
          (simp add: window_store_drop [OF lt less.prems(2,3), symmetric], simp add: window_store_def)
      have "\<not> distinct (slice_of s lp (Suc rp))" using True lt rp by (simp add: part_snoc)
      then have "\<forall>i<Suc lp. \<not> distinct (slice_of s i (Suc rp))" using less.prems(5) by (auto simp: less_Suc_eq)
      then show ?thesis unfolding step using less.prems lt rp distinct_part_mono [of lp "Suc lp" rp rp s]
        by (intro less.hyps) auto
    next
      case False
      have m: "(if int rp - int lp + 1 > mx then int rp - int lp + 1 else mx) = max mx (int rp - int lp + 1)" by simp
      from False have step: "window_loop s (window_store s lp rp) lp rp mx = window_loop s (window_store s lp (Suc rp)) lp (Suc rp) (max mx (int rp - int lp + 1))"
        using rp m by (subst window_loop.simps, subst m)
          (simp add: window_store_add [OF less.prems(1) rp, symmetric], simp add: window_store_def)
      have d: "distinct (slice_of s lp (Suc rp))" using False less.prems(1,3) rp by (simp add: part_snoc)
      have "\<forall>i<lp. \<not> distinct (slice_of s i (Suc (Suc rp)))"
        using less.prems(5) distinct_part_mono [of _ _ "Suc rp" "Suc (Suc rp)" s] by auto
      then show ?thesis unfolding step using less.prems rp d best_window_Suc [OF less.prems(4,1) d less.prems(5)]
        by (intro less.hyps) auto
    qed
  qed
qed

text \<open>
  \<open>lengthOfLongestSubstring\<close> never panics and returns the greatest length of a substring in which no byte
  occurs twice.
\<close>
theorem longest_substring_greatest:
  "\<exists>r. lengthOfLongestSubstring s = Inr r \<and>
     (\<exists>i j. i \<le> j \<and> j \<le> length s \<and> distinct (slice_of s i j) \<and> r = int (j - i)) \<and>
     (\<forall>i j. i \<le> j \<and> j \<le> length s \<and> distinct (slice_of s i j) \<longrightarrow> int (j - i) \<le> r)"
proof -
  have one: "distinct (slice_of s i 1)" for i by (rule card_distinct) (cases i; cases s; simp add: slice_of_def)
  have small: "best_window s p (int p)" if "p \<le> 1" for p
    using one [of 0] distinct_part_mono [of 0 0 p 1 s] that unfolding best_window_def
    by (intro conjI exI [of _ 0] exI [of _ p]) auto
  have "\<exists>r. lengthOfLongestSubstring s = Inr r \<and> best_window s (length s) r"
  proof (cases "length s \<le> 1")
    case True
    then have "best_window s (length s) (int (length s))" by (rule small)
    then show ?thesis using True by (auto simp: lengthOfLongestSubstring_def le_Suc_eq)
  next
    case False
    then have "[s ! 0 \<mapsto> 1] = window_store s 0 1" by (cases s) (auto simp: window_store_def slice_of_def)
    moreover have "best_window s 1 1" "s \<noteq> []" using small [of 1] False by auto
    ultimately show ?thesis using False one [of 0] window_loop_correct [of 0 1 s 1]
      by (simp add: lengthOfLongestSubstring_def)
  qed
  then show ?thesis unfolding best_window_def by blast
qed

theorem longest_substring_greatest_witness:
  "lengthOfLongestSubstring ''abcabcbb'' = Inr 3 \<and>
   (\<forall>i j. i \<le> j \<and> j \<le> 8 \<and> distinct (slice_of ''abcabcbb'' i j) \<longrightarrow> int (j - i) \<le> 3)"
proof -
  have "lengthOfLongestSubstring ''abcabcbb'' = Inr 3" by code_simp
  then show ?thesis using longest_substring_greatest [of "''abcabcbb''"] by simp
qed

subsection \<open>The windows that are anagrams\<close>

definition lower :: "char \<Rightarrow> bool" where
  "lower c \<longleftrightarrow> letter c < 26"

text \<open>An array of 26 counts stands for a multiset of letters.\<close>

definition letter_counts :: "int list \<Rightarrow> char multiset \<Rightarrow> bool" where
  "letter_counts cnt M \<longleftrightarrow> length cnt = 26 \<and> (\<forall>c. lower c \<longrightarrow> cnt ! letter c = int (count M c))"

lemma letter_surj: "l < 26 \<Longrightarrow> \<exists>c. letter c = l"
proof -
  assume "l < 26"
  moreover have "of_char (char_of (l + 97)) = (l + 97) mod (256 :: nat)" by simp
  ultimately have "letter (char_of (l + 97)) = (l + 97 + 159) mod 256" by (simp add: letter_def)
  also have "\<dots> = l" using \<open>l < 26\<close> by simp
  finally show ?thesis by blast
qed

lemma counts_eq_iff:
  assumes "letter_counts a A" and "letter_counts b B" and "\<forall>c\<in>#A. lower c" and "\<forall>c\<in>#B. lower c"
  shows "a = b \<longleftrightarrow> A = B"
proof
  assume "a = b"
  then have "count A c = count B c" for c
    using assms unfolding letter_counts_def by (cases "lower c") (metis of_nat_eq_iff, metis count_inI)
  then show "A = B" by (rule multiset_eqI)
next
  assume "A = B"
  then have "a ! l = b ! l" if "l < 26" for l using letter_surj [OF that] assms(1,2) that unfolding letter_counts_def lower_def by metis
  then show "a = b" using assms(1,2) by (simp add: letter_counts_def list_eq_iff_nth_eq)
qed

lemma bump_bad: "length cnt = 26 \<Longrightarrow> \<not> lower c \<Longrightarrow> bump cnt c d = Inl IndexOutOfRange"
  by (simp add: bump_def lower_def nth_int_def)

lemma bump_ok:
  assumes "letter_counts cnt M" and "lower c" and "\<And>x. int (count M' x) = int (count M x) + (if x = c then d else 0)"
  shows "\<exists>cnt'. bump cnt c d = Inr cnt' \<and> letter_counts cnt' M'"
  using assms unfolding letter_counts_def lower_def by (auto simp: bump_def upd_go_def nth_list_update)

lemma bump_add: "letter_counts cnt M \<Longrightarrow> lower c \<Longrightarrow> \<exists>cnt'. bump cnt c 1 = Inr cnt' \<and> letter_counts cnt' (add_mset c M)"
  by (rule bump_ok) auto

lemma bump_del: "letter_counts cnt (add_mset c M) \<Longrightarrow> lower c \<Longrightarrow> \<exists>cnt'. bump cnt c (- 1) = Inr cnt' \<and> letter_counts cnt' M"
  by (rule bump_ok) auto

lemma mset_take_Suc: "i < length xs \<Longrightarrow> mset (take (Suc i) xs) = add_mset (xs ! i) (mset (take i xs))"
  by (simp add: take_Suc_conv_app_nth)

lemma first_window_correct:
  assumes "length p \<le> length s" and "letter_counts a (mset (take i p))" and "letter_counts b (mset (take i s))" and "i \<le> length p"
  shows "if \<forall>k. i \<le> k \<longrightarrow> k < length p \<longrightarrow> lower (p ! k) \<and> lower (s ! k)
         then \<exists>a' b'. first_window s p a b i = Inr (a', b') \<and> letter_counts a' (mset p) \<and> letter_counts b' (mset (take (length p) s))
         else first_window s p a b i = Inl IndexOutOfRange"
  using assms(2-4)
proof (induction "length p - i" arbitrary: i a b)
  case 0
  then show ?case by (subst first_window.simps) auto
next
  case (Suc n)
  then have i: "i < length p" "i < length s" using assms(1) by auto
  let ?ok = "\<lambda>i. \<forall>k. i \<le> k \<longrightarrow> k < length p \<longrightarrow> lower (p ! k) \<and> lower (s ! k)"
  have ok: "?ok i \<longleftrightarrow> lower (p ! i) \<and> lower (s ! i) \<and> ?ok (Suc i)" using i(1) by (metis Suc_le_eq order_le_less)
  have l: "length a = 26" "length b = 26" using Suc.prems by (auto simp: letter_counts_def)
  show ?case
  proof (cases "lower (p ! i)")
    case False
    then show ?thesis using i ok bump_bad [OF l(1)] by (subst first_window.simps) auto
  next
    case p: True
    then obtain a' where a': "bump a (p ! i) 1 = Inr a'" "letter_counts a' (mset (take (Suc i) p))"
      using bump_add [OF Suc.prems(1)] i by (auto simp: mset_take_Suc)
    show ?thesis
    proof (cases "lower (s ! i)")
      case False
      then show ?thesis using i ok a' bump_bad [OF l(2)] by (subst first_window.simps) auto
    next
      case True
      then obtain b' where b': "bump b (s ! i) 1 = Inr b'" "letter_counts b' (mset (take (Suc i) s))"
        using bump_add [OF Suc.prems(2)] i by (auto simp: mset_take_Suc)
      have step: "first_window s p a b i = first_window s p a' b' (Suc i)"
        using i a' b' by (subst first_window.simps) simp
      have n: "n = length p - Suc i" using Suc.hyps(2) by simp
      show ?thesis using Suc.hyps(1) [OF n a'(2) b'(2)] i p True unfolding step ok by auto
    qed
  qed
qed

text \<open>The window of length \<open>m\<close> that ends before \<open>i\<close>.\<close>

definition anagram_at :: "string \<Rightarrow> string \<Rightarrow> nat \<Rightarrow> bool" where
  "anagram_at s p k \<longleftrightarrow> k + length p \<le> length s \<and> mset (slice_of s k (k + length p)) = mset p"

lemma window_shift:
  assumes "m \<le> i" and "i < length s"
  shows "add_mset (s ! i) (mset (slice_of s (i - m) i)) = add_mset (s ! (i - m)) (mset (slice_of s (Suc i - m) (Suc i)))"
proof -
  have "mset (slice_of s (i - m) (Suc i)) = add_mset (s ! i) (mset (slice_of s (i - m) i))"
    using assms by (simp add: part_snoc)
  moreover have "slice_of s (i - m) (Suc i) = s ! (i - m) # slice_of s (Suc (i - m)) (Suc i)"
    using assms by (intro part_cons) auto
  ultimately show ?thesis using assms(1) by (simp add: Suc_diff_le)
qed

lemma slide_correct:
  assumes "letter_counts a (mset p)" and "\<forall>c\<in>set p. lower c"
    and "length p \<le> i" and "i \<le> length s" and "letter_counts b (mset (slice_of s (i - length p) i))" and "\<forall>c\<in>set (take i s). lower c"
    and "res = filter (anagram_at s p) [0..<Suc (i - length p)]"
  shows "slide s (length p) a b res i =
    (if \<forall>c\<in>set s. lower c then Inr (filter (anagram_at s p) [0..<Suc (length s - length p)]) else Inl IndexOutOfRange)"
  using assms(3-7)
proof (induction "length s - i" arbitrary: i b res)
  case 0
  then show ?case by (subst slide.simps) simp
next
  case (Suc n)
  then have i: "i < length s" by simp
  have l: "length b = 26" using Suc.prems by (auto simp: letter_counts_def)
  show ?case
  proof (cases "lower (s ! i)")
    case False
    then have "\<not> (\<forall>c\<in>set s. lower c)" using i by auto
    then show ?thesis using False i bump_bad [OF l] by (subst slide.simps) auto
  next
    case True
    let ?m = "length p"
    obtain b1 where b1: "bump b (s ! i) 1 = Inr b1" "letter_counts b1 (add_mset (s ! i) (mset (slice_of s (i - ?m) i)))"
      using bump_add [OF Suc.prems(3) True] by auto
    have take: "\<forall>c\<in>set (take (Suc i) s). lower c" using Suc.prems(4) True i by (auto simp: take_Suc_conv_app_nth)
    have low: "lower (s ! (i - ?m))"
      using take i by (metis in_set_conv_nth length_take less_Suc_eq_le diff_le_self min.absorb2 nth_take Suc_leI)
    then obtain b2 where b2: "bump b1 (s ! (i - ?m)) (- 1) = Inr b2" "letter_counts b2 (mset (slice_of s (Suc i - ?m) (Suc i)))"
      using bump_del b1(2) window_shift [OF Suc.prems(1) i] by metis
    have "set (slice_of s (Suc i - ?m) (Suc i)) \<subseteq> set (take (Suc i) s)"
      unfolding slice_of_def by (metis drop_take set_drop_subset)
    then have "b2 = a \<longleftrightarrow> mset (slice_of s (Suc i - ?m) (Suc i)) = mset p"
      using take assms(2) by (intro counts_eq_iff b2(2) assms(1)) auto
    also have "\<dots> \<longleftrightarrow> anagram_at s p (i - ?m + 1)"
      using Suc.prems(1) i by (simp add: anagram_at_def Suc_diff_le)
    finally have eq: "b2 = a \<longleftrightarrow> anagram_at s p (i - ?m + 1)" .
    let ?res = "if b2 = a then res @ [i - ?m + 1] else res"
    have step: "slide s ?m a b res i = slide s ?m a b2 ?res (Suc i)" using i b1 b2 by (subst slide.simps) simp
    have "?res = filter (anagram_at s p) [0..<Suc (Suc i - ?m)]"
      unfolding eq Suc.prems(5) using Suc.prems(1) by (simp add: Suc_diff_le)
    then show ?thesis unfolding step using Suc i take b2(2) by (intro Suc.hyps(1)) auto
  qed
qed

text \<open>
  \<open>findAnagrams\<close> returns, in order, the positions of the substrings of \<open>s\<close> that are permutations of \<open>p\<close>; it
  panics exactly if \<open>s\<close> is not shorter than \<open>p\<close> and one of them has a byte that is not a lower case letter.
\<close>
theorem find_anagrams_all:
  "findAnagrams s p =
     (if length p \<le> length s \<and> (\<exists>c\<in>set s \<union> set p. \<not> lower c) then Inl IndexOutOfRange
      else Inr (filter (anagram_at s p) [0..<Suc (length s)]))"
proof (cases "length p \<le> length s")
  case False
  then have "\<not> anagram_at s p k" for k by (simp add: anagram_at_def)
  then show ?thesis using False by (simp add: findAnagrams_def)
next
  case True
  have zero: "letter_counts (replicate 26 0) {#}" by (simp add: letter_counts_def lower_def)
  have none: "filter (anagram_at s p) [0..<Suc (length s)] = filter (anagram_at s p) [0..<Suc (length s - length p)]"
  proof -
    have "[0..<Suc (length s)] = [0..<Suc (length s - length p)] @ [Suc (length s - length p)..<Suc (length s)]"
      using upt_add_eq_append [of 0 "Suc (length s - length p)" "length p"] True by simp
    moreover have "filter (anagram_at s p) [Suc (length s - length p)..<Suc (length s)] = []"
      by (auto simp: filter_empty_conv anagram_at_def)
    ultimately show ?thesis by simp
  qed
  have fw: "if \<forall>k. 0 \<le> k \<longrightarrow> k < length p \<longrightarrow> lower (p ! k) \<and> lower (s ! k)
         then \<exists>a' b'. first_window s p (replicate 26 0) (replicate 26 0) 0 = Inr (a', b') \<and> letter_counts a' (mset p) \<and> letter_counts b' (mset (take (length p) s))
         else first_window s p (replicate 26 0) (replicate 26 0) 0 = Inl IndexOutOfRange"
    using first_window_correct [OF True, of "replicate 26 0" 0 "replicate 26 0"] zero by simp
  show ?thesis
  proof (cases "\<forall>k<length p. lower (p ! k) \<and> lower (s ! k)")
    case False
    then have "\<exists>c\<in>set s \<union> set p. \<not> lower c" using True by (meson UnCI nth_mem order_less_le_trans)
    then show ?thesis using False fw True by (auto simp: findAnagrams_def)
  next
    case low: True
    then obtain a b where ab: "first_window s p (replicate 26 0) (replicate 26 0) 0 = Inr (a, b)"
      "letter_counts a (mset p)" "letter_counts b (mset (take (length p) s))" using fw by auto
    have lp: "\<forall>c\<in>set p. lower c" using low by (auto simp: all_set_conv_all_nth)
    have ls: "\<forall>c\<in>set (take (length p) s). lower c" using low True by (auto simp: all_set_conv_all_nth)
    have "b = a \<longleftrightarrow> anagram_at s p 0"
      using counts_eq_iff [OF ab(3,2)] ls lp True by (simp add: anagram_at_def slice_of_def)
    then have "(if b = a then [0] else []) = filter (anagram_at s p) [0..<Suc (length p - length p)]" by simp
    then have "slide s (length p) a b (if b = a then [0] else []) (length p) =
        (if \<forall>c\<in>set s. lower c then Inr (filter (anagram_at s p) [0..<Suc (length s - length p)]) else Inl IndexOutOfRange)"
      using ab(3) ls True by (intro slide_correct [OF ab(2) lp]) (auto simp: slice_of_def)
    then show ?thesis unfolding none using True ab(1) lp by (auto simp: findAnagrams_def)
  qed
qed

theorem find_anagrams_all_witness:
  "findAnagrams ''cbaebabacd'' ''abc'' = Inr [0, 6] \<and> findAnagrams ''ab'' ''Ab'' = Inl IndexOutOfRange"
proof -
  have "filter (anagram_at ''cbaebabacd'' ''abc'') [0..<Suc (length ''cbaebabacd'')] = [0, 6]" "\<not> (\<exists>c\<in>set ''cbaebabacd'' \<union> set ''abc''. \<not> lower c)"
    "\<exists>c\<in>set ''ab'' \<union> set ''Ab''. \<not> lower c"
    by code_simp+
  then show ?thesis using find_anagrams_all [of "''cbaebabacd''" "''abc''"] find_anagrams_all [of "''ab''" "''Ab''"]
    by (simp del: upt_Suc)
qed

subsection \<open>The longest run of consecutive numbers\<close>

definition run_from :: "int set \<Rightarrow> int \<Rightarrow> nat \<Rightarrow> bool" where
  "run_from S v n \<longleftrightarrow> (\<forall>k<n. v + int k \<in> S)"

lemma run_from_Suc: "run_from S v (Suc n) \<longleftrightarrow> v \<in> S \<and> run_from S (v + 1) n"
  by (simp add: run_from_def All_less_Suc2 add.assoc)

definition inner :: "int set \<Rightarrow> bool" where
  "inner S \<longleftrightarrow> finite S \<and> (\<forall>x\<in>S. - (2 ^ 63) < x \<and> x < 2 ^ 63 - 1)"

lemma run_loop_correct:
  assumes "inner S" and "wrap64 v = v"
  shows "\<exists>n. run_loop S v len = Some (len + int n) \<and> run_from S v n \<and> v + int n \<notin> S"
  using assms(2)
proof (induction "card {x\<in>S. v \<le> x}" arbitrary: v len rule: less_induct)
  case less
  show ?case
  proof (cases "v \<in> S")
    case False
    then have "run_loop S v len = Some (len + int 0) \<and> run_from S v 0 \<and> v + int 0 \<notin> S"
      by (subst run_loop.simps) (simp add: run_from_def)
    then show ?thesis by blast
  next
    case True
    then have w: "wrap64 (v + 1) = v + 1" using assms(1) by (auto simp: inner_def)
    have "v \<in> {x\<in>S. v \<le> x}" "v \<notin> {x\<in>S. v + 1 \<le> x}" "{x\<in>S. v + 1 \<le> x} \<subseteq> {x\<in>S. v \<le> x}" using True by auto
    then have "{x\<in>S. v + 1 \<le> x} \<subset> {x\<in>S. v \<le> x}" by blast
    moreover have "finite {x\<in>S. v \<le> x}" using assms(1) by (simp add: inner_def)
    ultimately have "card {x\<in>S. v + 1 \<le> x} < card {x\<in>S. v \<le> x}" by (rule psubset_card_mono [rotated])
    then obtain n where n: "run_loop S (v + 1) (len + 1) = Some (len + 1 + int n)" "run_from S (v + 1) n" "v + 1 + int n \<notin> S"
      using less.hyps [OF _ w, of "len + 1"] by blast
    have "run_loop S v len = Some (len + int (Suc n))" using True n(1) w by (subst run_loop.simps) simp
    moreover have "run_from S v (Suc n)" "v + int (Suc n) \<notin> S" using True n(2,3) by (auto simp: run_from_Suc algebra_simps)
    ultimately show ?thesis by blast
  qed
qed

text \<open>A longest run that begins at a number of \<open>vs\<close> whose predecessor is not in \<open>S\<close>.\<close>

definition best_run :: "int set \<Rightarrow> int set \<Rightarrow> int \<Rightarrow> bool" where
  "best_run S V mx \<longleftrightarrow> (\<exists>v n. run_from S v n \<and> mx = int n) \<and> (\<forall>v\<in>V. v - 1 \<notin> S \<longrightarrow> (\<forall>n. run_from S v n \<longrightarrow> int n \<le> mx))"

lemma run_from_le: "run_from S v n \<Longrightarrow> v + int m \<notin> S \<Longrightarrow> n \<le> m"
  unfolding run_from_def by (meson not_le)

lemma range_loop_correct:
  assumes "inner S" and "set vs \<subseteq> S" and "best_run S V mx"
  shows "\<exists>r. range_loop S vs mx = Some r \<and> best_run S (V \<union> set vs) r"
  using assms(2,3)
proof (induction vs arbitrary: V mx)
  case Nil
  then show ?case by simp
next
  case (Cons v vs)
  have w: "wrap64 (v - 1) = v - 1" "wrap64 (v + 1) = v + 1" using assms(1) Cons.prems(1) by (auto simp: inner_def)
  have V: "V \<union> set (v # vs) = (insert v V) \<union> set vs" by auto
  show ?case
  proof (cases "v - 1 \<in> S")
    case True
    then have "best_run S (insert v V) mx" using Cons.prems(2) by (auto simp: best_run_def)
    then show ?thesis unfolding V using True w Cons.IH [of "insert v V" mx] Cons.prems(1) by simp
  next
    case False
    have w': "wrap64 (wrap64 (v + 1)) = wrap64 (v + 1)" using w by simp
    obtain n where n: "run_loop S (v + 1) 1 = Some (1 + int n)" "run_from S (v + 1) n" "v + 1 + int n \<notin> S"
      using run_loop_correct [OF assms(1) w', of 1] w by auto
    have run: "run_from S v (Suc n)" "v + int (Suc n) \<notin> S" using n(2,3) Cons.prems(1) by (auto simp: run_from_Suc algebra_simps)
    have "best_run S (insert v V) (max mx (int (Suc n)))"
      unfolding best_run_def
    proof (intro conjI ballI impI allI)
      show "\<exists>v n'. run_from S v n' \<and> max mx (int (Suc n)) = int n'"
        using Cons.prems(2) run(1) unfolding best_run_def max_def by metis
      fix u m assume u: "u \<in> insert v V" "u - 1 \<notin> S" "run_from S u m"
      show "int m \<le> max mx (int (Suc n))"
      proof (cases "u = v")
        case True
        then have "m \<le> Suc n" using u(3) run(2) run_from_le by blast
        then show ?thesis by simp
      next
        case False
        then have "int m \<le> mx" using u Cons.prems(2) by (auto simp: best_run_def)
        then show ?thesis by simp
      qed
    qed
    moreover have "range_loop S (v # vs) mx = range_loop S vs (max mx (int (Suc n)))"
      using False w n(1) by (simp add: max_def add.commute)
    ultimately show ?thesis unfolding V using Cons.IH [of "insert v V" "max mx (int (Suc n))"] Cons.prems(1) by simp
  qed
qed

lemma run_start:
  assumes "finite S" and "run_from S v n" and "0 < n"
  shows "\<exists>u m. u \<in> S \<and> u - 1 \<notin> S \<and> run_from S u m \<and> n \<le> m"
  using assms(2,3)
proof (induction "card {x\<in>S. x \<le> v}" arbitrary: v n rule: less_induct)
  case less
  have v: "v \<in> S" using less.prems by (auto simp: run_from_def)
  show ?case
  proof (cases "v - 1 \<in> S")
    case False
    then show ?thesis using v less.prems by blast
  next
    case True
    have "v \<in> {x\<in>S. x \<le> v}" "v \<notin> {x\<in>S. x \<le> v - 1}" "{x\<in>S. x \<le> v - 1} \<subseteq> {x\<in>S. x \<le> v}" using v by auto
    then have "{x\<in>S. x \<le> v - 1} \<subset> {x\<in>S. x \<le> v}" by blast
    then have "card {x\<in>S. x \<le> v - 1} < card {x\<in>S. x \<le> v}" using assms(1) by (intro psubset_card_mono) auto
    moreover have "run_from S (v - 1) (Suc n)" using True less.prems(1) by (simp add: run_from_Suc)
    ultimately obtain u m where "u \<in> S" "u - 1 \<notin> S" "run_from S u m" "Suc n \<le> m" using less.hyps [of "v - 1" "Suc n"] by auto
    then show ?thesis by (metis Suc_leD)
  qed
qed

text \<open>
  \<open>longestConsecutive\<close> returns, in whatever order Go ranges over the map, the greatest number of consecutive
  integers in the slice, provided that it has neither the least nor the greatest 64-bit integer.
\<close>
theorem longest_consecutive_greatest:
  assumes "set order = set nums" and "\<forall>x\<in>set nums. - (2 ^ 63) < x \<and> x < 2 ^ 63 - 1"
  shows "\<exists>r. longestConsecutive order nums = Some (int r) \<and> (\<exists>v. \<forall>k<r. v + int k \<in> set nums) \<and>
    (\<forall>n v. (\<forall>k<n. v + int k \<in> set nums) \<longrightarrow> n \<le> r)"
proof (cases "nums = []")
  case True
  then show ?thesis by (auto simp: longestConsecutive_def)
next
  case False
  have inner: "inner (set nums)" using assms(2) by (simp add: inner_def)
  have "best_run (set nums) {} 0" by (auto simp: best_run_def run_from_def intro!: exI [of _ 0])
  then obtain mx where mx: "range_loop (set nums) order 0 = Some mx" "best_run (set nums) (set nums) mx"
    using range_loop_correct [OF inner, of order "{}" 0] assms(1) by auto
  then obtain v r where r: "run_from (set nums) v r" "mx = int r" by (auto simp: best_run_def)
  have "n \<le> r" if run: "run_from (set nums) u n" for u n
  proof (cases "n = 0")
    case False
    then obtain u' m where "u' \<in> set nums" "u' - 1 \<notin> set nums" "run_from (set nums) u' m" "n \<le> m"
      using run_start [OF _ run] by auto
    then show ?thesis using mx(2) r(2) unfolding best_run_def by fastforce
  qed simp
  then show ?thesis using mx(1) r False unfolding run_from_def by (auto simp: longestConsecutive_def)
qed

theorem longest_consecutive_greatest_witness:
  "\<exists>r. longestConsecutive [1, 2, 3, 4, 100, 200] [100, 4, 200, 1, 3, 2] = Some (int r) \<and>
    (\<forall>n v. (\<forall>k<n. v + int k \<in> set [100, 4, 200, 1, 3, 2]) \<longrightarrow> n \<le> r)"
proof -
  have "set [1, 2, 3, 4, 100, 200] = set [100, 4, 200, 1, 3, 2 :: int]" "\<forall>x\<in>set [100, 4, 200, 1, 3, 2 :: int]. - (2 ^ 63) < x \<and> x < 2 ^ 63 - 1"
    by auto
  from longest_consecutive_greatest [OF this] show ?thesis by blast
qed

text \<open>The least and the greatest 64-bit integer count as neighbours, since \<open>cur++\<close> wraps around.\<close>

lemma longest_consecutive_wraps: "longestConsecutive [2 ^ 63 - 1, - (2 ^ 63)] [2 ^ 63 - 1, - (2 ^ 63)] = Some 2"
proof -
  let ?S = "set [2 ^ 63 - 1, - (2 ^ 63) :: int]"
  have "run_loop ?S (- (2 ^ 63)) 1 = Some 2"
    by (subst run_loop.simps, simp add: wrap64_def, subst run_loop.simps, simp add: wrap64_def)
  then show ?thesis by (simp add: longestConsecutive_def wrap64_def)
qed

end
