(* ===== verification/Leet_Intervals.thy ===== *)
theory Leet_Intervals
  imports Complex_Main Go_Prelude "HOL-Library.Multiset"
begin

text \<open>
  The merging of intervals of \<open>leet/merge.go\<close>. The code sorts the intervals by their start, builds a linked list of nodes
  behind a dummy node, changing the end of the last node where intervals overlap, and reads the result off the list. The
  nodes live in a store, a pointer is an address or nil. \<open>sort.Slice\<close> is not stable, so the sorted slice is a parameter:
  any function that returns a permutation in which the starts do not decrease.
\<close>

record Node =
  n_start :: int
  n_end :: int
  n_next :: "nat option"
  n_pre :: "nat option"

type_synonym store = "nat \<Rightarrow> Node option"

definition node :: "store \<Rightarrow> nat option \<Rightarrow> Node go" where
  "node h p = (case p of None \<Rightarrow> Inl NilDeref | Some a \<Rightarrow> case h a of None \<Rightarrow> Inl NilDeref | Some n \<Rightarrow> Inr n)"

definition set_node :: "nat option \<Rightarrow> (Node \<Rightarrow> Node) \<Rightarrow> store \<Rightarrow> store go" where
  "set_node p f h = bind_go (node h p) (\<lambda>n. Inr (h(the p \<mapsto> f n)))"

text \<open>
  One iteration of the loop over the intervals. \<open>new\<close> is the address of the next node to be allocated, \<open>dummy\<close> that of the
  first one.
\<close>

definition merge_interval :: "nat \<Rightarrow> int list \<Rightarrow> store \<times> nat \<times> nat \<Rightarrow> (store \<times> nat \<times> nat) go" where
  "merge_interval dummy interval st =
     (case st of (h, tail, new) \<Rightarrow>
        bind_go (nth_go interval 0) (\<lambda>a. bind_go (nth_go interval 1) (\<lambda>b.
        bind_go (if tail = dummy then Inr True else bind_go (node h (Some tail)) (\<lambda>t. Inr (a > n_end t))) (\<lambda>apart.
        if apart then
          let h = h(new \<mapsto> \<lparr>n_start = a, n_end = b, n_next = None, n_pre = None\<rparr>) in
          bind_go (set_node (Some tail) (\<lambda>t. t\<lparr>n_next := Some new\<rparr>) h) (\<lambda>h. Inr (h, new, new + 1))
        else
          bind_go (node h (Some tail)) (\<lambda>t.
          if b > n_end t then bind_go (set_node (Some tail) (\<lambda>t. t\<lparr>n_end := b\<rparr>) h) (\<lambda>h. Inr (h, tail, new))
          else Inr (h, tail, new))))))"

fun merge_loop :: "nat \<Rightarrow> int list list \<Rightarrow> store \<times> nat \<times> nat \<Rightarrow> (store \<times> nat \<times> nat) go" where
  "merge_loop dummy [] st = Inr st"
| "merge_loop dummy (interval # intervals) st = bind_go (merge_interval dummy interval st) (merge_loop dummy intervals)"

partial_function (option) collect_nodes :: "store \<Rightarrow> nat option \<Rightarrow> int list list \<Rightarrow> int list list go option" where
  "collect_nodes h cur res =
     (if cur = None then Some (Inr res)
      else case node h cur of
        Inl e \<Rightarrow> Some (Inl e)
      | Inr c \<Rightarrow> collect_nodes h (n_next c) (res @ [[n_start c, n_end c]]))"

definition merge :: "(int list list \<Rightarrow> int list list) \<Rightarrow> int list list \<Rightarrow> int list list go option" where
  "merge sort_slice intervals =
     (if length intervals = 0 then Some (Inr [])
      else
        case merge_loop 0 (sort_slice intervals) ([0 \<mapsto> \<lparr>n_start = 0, n_end = 0, n_next = None, n_pre = None\<rparr>], 0, 1) of
          Inl e \<Rightarrow> Some (Inl e)
        | Inr (h, tail, new) \<Rightarrow> case node h (Some 0) of Inl e \<Rightarrow> Some (Inl e) | Inr d \<Rightarrow> collect_nodes h (n_next d) [])"

text \<open>\<open>overlap\<close> is not called; it compares pointers with the package's variable \<open>head\<close>, which nothing assigns.\<close>

definition overlap :: "nat option \<Rightarrow> store \<Rightarrow> nat option \<Rightarrow> nat option \<Rightarrow> bool go" where
  "overlap head h node0 node1 =
     (if node0 = head \<or> node1 = head then Inr False
      else
        bind_go (node h node0) (\<lambda>n0. bind_go (node h node1) (\<lambda>n1.
        if n_start n0 > n_end n1 \<or> n_start n1 > n_end n0 then Inr False else Inr True)))"

subsection \<open>The list in the store\<close>

text \<open>
  The nodes are allocated one behind the other: node \<open>i\<close> links to \<open>i + 1\<close>, the last one to nil. \<open>holds h rs\<close> says that the
  store has the dummy node and behind it the intervals \<open>rs\<close>.
\<close>

definition holds :: "store \<Rightarrow> (int \<times> int) list \<Rightarrow> bool" where
  "holds h rs \<longleftrightarrow>
     (\<forall>i\<le>length rs. \<exists>n. h i = Some n \<and> n_next n = (if i < length rs then Some (Suc i) else None) \<and>
        (0 < i \<longrightarrow> (n_start n, n_end n) = rs ! (i - 1)))"

definition merge_pair :: "(int \<times> int) list \<Rightarrow> int \<times> int \<Rightarrow> (int \<times> int) list" where
  "merge_pair rs ab =
     (if rs = [] \<or> fst ab > snd (last rs) then rs @ [ab] else butlast rs @ [(fst (last rs), max (snd (last rs)) (snd ab))])"

lemma holds_last: "holds h rs \<Longrightarrow> rs \<noteq> [] \<Longrightarrow> \<exists>n. node h (Some (length rs)) = Inr n \<and> h (length rs) = Some n \<and>
    n_next n = None \<and> n_start n = fst (last rs) \<and> n_end n = snd (last rs)"
  unfolding holds_def node_def by (auto simp: last_conv_nth prod_eq_iff dest: spec [of _ "length rs"])

lemma holds_append:
  assumes "holds h rs" and "h (length rs) = Some t"
  shows "holds (h(Suc (length rs) \<mapsto> \<lparr>n_start = a, n_end = b, n_next = None, n_pre = None\<rparr>, length rs \<mapsto> t\<lparr>n_next := Some (Suc (length rs))\<rparr>)) (rs @ [(a, b)])"
  unfolding holds_def
proof (intro allI impI)
  fix i assume "i \<le> length (rs @ [(a, b)])"
  then consider "i = Suc (length rs)" | "i = length rs" | "i < length rs" by fastforce
  then show "\<exists>n. (h(Suc (length rs) \<mapsto> \<lparr>n_start = a, n_end = b, n_next = None, n_pre = None\<rparr>, length rs \<mapsto> t\<lparr>n_next := Some (Suc (length rs))\<rparr>)) i = Some n \<and>
      n_next n = (if i < length (rs @ [(a, b)]) then Some (Suc i) else None) \<and> (0 < i \<longrightarrow> (n_start n, n_end n) = (rs @ [(a, b)]) ! (i - 1))"
  proof cases
    case 1
    then show ?thesis by simp
  next
    case 2
    then show ?thesis using assms unfolding holds_def by (auto simp: nth_append dest: spec [of _ "length rs"])
  next
    case 3
    then show ?thesis using assms(1) unfolding holds_def by (auto simp: nth_append dest: spec [of _ i])
  qed
qed

lemma holds_update:
  assumes "holds h rs" and "rs \<noteq> []" and "h (length rs) = Some t"
  shows "holds (h(length rs \<mapsto> t\<lparr>n_end := b\<rparr>)) (butlast rs @ [(fst (last rs), b)])"
  unfolding holds_def
proof (intro allI impI)
  let ?rs = "butlast rs @ [(fst (last rs), b)]"
  have len: "length ?rs = length rs" using assms(2) by (cases rs rule: rev_cases) auto
  fix i assume "i \<le> length ?rs"
  then have i: "i \<le> length rs" unfolding len .
  obtain n where n: "h i = Some n" "n_next n = (if i < length rs then Some (Suc i) else None)" "0 < i \<longrightarrow> (n_start n, n_end n) = rs ! (i - 1)"
    using assms(1) i unfolding holds_def by blast
  have nth: "?rs ! (i - 1) = (if i = length rs then (fst (last rs), b) else rs ! (i - 1))" if "0 < i"
    using i that assms(2) by (auto simp: nth_append nth_butlast last_conv_nth)
  show "\<exists>n. (h(length rs \<mapsto> t\<lparr>n_end := b\<rparr>)) i = Some n \<and> n_next n = (if i < length ?rs then Some (Suc i) else None) \<and>
      (0 < i \<longrightarrow> (n_start n, n_end n) = ?rs ! (i - 1))"
    unfolding len using n assms(2,3) nth by (cases "i = length rs") (auto simp: last_conv_nth prod_eq_iff)
qed

lemma merge_interval_correct:
  assumes "holds h rs"
  shows "\<exists>h'. merge_interval 0 [a, b] (h, length rs, Suc (length rs)) = Inr (h', length (merge_pair rs (a, b)), Suc (length (merge_pair rs (a, b)))) \<and>
    holds h' (merge_pair rs (a, b))"
proof -
  obtain t where t: "h (length rs) = Some t" using assms by (auto simp: holds_def)
  have nth: "nth_go [a, b] 0 = Inr a" "nth_go [a, b] 1 = Inr b" by (simp_all add: nth_go_def)
  show ?thesis
  proof (cases "rs = [] \<or> a > snd (last rs)")
    case True
    then have ap: "(if length rs = 0 then Inr True else bind_go (node h (Some (length rs))) (\<lambda>t. Inr (a > n_end t))) = Inr True"
      using holds_last [OF assms] by auto
    have "merge_interval 0 [a, b] (h, length rs, Suc (length rs)) =
        Inr (h(Suc (length rs) \<mapsto> \<lparr>n_start = a, n_end = b, n_next = None, n_pre = None\<rparr>, length rs \<mapsto> t\<lparr>n_next := Some (Suc (length rs))\<rparr>),
          Suc (length rs), Suc (Suc (length rs)))"
      unfolding merge_interval_def prod.case nth bind_go_simps ap if_True Let_def using t by (simp add: set_node_def node_def)
    then show ?thesis using True holds_append [OF assms t, of a b] by (auto simp: merge_pair_def)
  next
    case False
    then have ne: "rs \<noteq> []" by simp
    have n: "node h (Some (length rs)) = Inr t" "n_end t = snd (last rs)" using holds_last [OF assms ne] t by auto
    have ap: "(if length rs = 0 then Inr True else bind_go (node h (Some (length rs))) (\<lambda>t. Inr (a > n_end t))) = Inr False"
      using n False by auto
    have len: "length (butlast rs @ [x]) = length rs" for x using ne by (cases rs rule: rev_cases) auto
    have same: "butlast rs @ [(fst (last rs), snd (last rs))] = rs" using ne by simp
    have "merge_interval 0 [a, b] (h, length rs, Suc (length rs)) =
        Inr (if b > n_end t then h(length rs \<mapsto> t\<lparr>n_end := b\<rparr>) else h, length rs, Suc (length rs))"
      unfolding merge_interval_def prod.case nth bind_go_simps ap if_False using n(1) by (simp add: set_node_def)
    moreover have "holds (if b > n_end t then h(length rs \<mapsto> t\<lparr>n_end := b\<rparr>) else h) (merge_pair rs (a, b))"
      using False assms n(2) same holds_update [OF assms ne t, of b] by (auto simp: merge_pair_def max_def)
    moreover have "length (merge_pair rs (a, b)) = length rs" using False len by (simp add: merge_pair_def)
    ultimately show ?thesis by auto
  qed
qed

lemma merge_loop_correct:
  "holds h rs \<Longrightarrow> \<exists>h'. let rs' = foldl merge_pair rs ivs in
     merge_loop 0 (map (\<lambda>(a, b). [a, b]) ivs) (h, length rs, Suc (length rs)) = Inr (h', length rs', Suc (length rs')) \<and> holds h' rs'"
proof (induction ivs arbitrary: h rs)
  case (Cons ab ivs)
  obtain h' where h': "merge_interval 0 [fst ab, snd ab] (h, length rs, Suc (length rs)) = Inr (h', length (merge_pair rs ab), Suc (length (merge_pair rs ab)))"
    "holds h' (merge_pair rs ab)" using merge_interval_correct [OF Cons.prems, of "fst ab" "snd ab"] by auto
  then show ?case using Cons.IH [OF h'(2)] by (simp add: split_beta Let_def)
qed (simp add: Let_def)

lemma collect_correct:
  assumes "holds h rs" and "i \<le> length rs"
  shows "collect_nodes h (if i < length rs then Some (Suc i) else None) res = Some (Inr (res @ map (\<lambda>(a, b). [a, b]) (drop i rs)))"
  using assms(2)
proof (induction "length rs - i" arbitrary: i res)
  case 0
  then show ?case by (subst collect_nodes.simps) simp
next
  case (Suc n)
  then have i: "i < length rs" by simp
  obtain m where m: "h (Suc i) = Some m" "n_next m = (if Suc i < length rs then Some (Suc (Suc i)) else None)" "(n_start m, n_end m) = rs ! i"
    using assms(1) i unfolding holds_def by (metis Suc_leI diff_Suc_1 zero_less_Suc)
  have "collect_nodes h (Some (Suc i)) res = collect_nodes h (n_next m) (res @ [[n_start m, n_end m]])"
    using m(1) by (subst collect_nodes.simps) (simp add: node_def)
  also have "\<dots> = Some (Inr (res @ [[n_start m, n_end m]] @ map (\<lambda>(a, b). [a, b]) (drop (Suc i) rs)))"
    unfolding m(2) using Suc.hyps(1) [of "Suc i" "res @ [[n_start m, n_end m]]"] Suc.hyps(2) i by simp
  also have "\<dots> = Some (Inr (res @ map (\<lambda>(a, b). [a, b]) (drop i rs)))"
    using m(3) Cons_nth_drop_Suc [OF i, symmetric] by (simp add: case_prod_beta prod_eq_iff)
  finally show ?case using i by simp
qed

subsection \<open>What is covered\<close>

definition cover :: "(int \<times> int) list \<Rightarrow> real set" where
  "cover rs = (\<Union>(a, b)\<in>set rs. {real_of_int a..real_of_int b})"

fun separated :: "(int \<times> int) list \<Rightarrow> bool" where
  "separated ((a, b) # (c, d) # rs) \<longleftrightarrow> a \<le> b \<and> b < c \<and> separated ((c, d) # rs)"
| "separated [(a, b)] \<longleftrightarrow> a \<le> b"
| "separated [] \<longleftrightarrow> True"

lemma separated_snoc:
  "separated (rs @ [(a, b)]) \<longleftrightarrow> a \<le> b \<and> separated rs \<and> (rs \<noteq> [] \<longrightarrow> snd (last rs) < a)"
  by (induction rs rule: separated.induct) auto

lemma cover_append [simp]: "cover (rs @ ss) = cover rs \<union> cover ss"
  by (simp add: cover_def)

lemma cover_Cons: "cover ((a, b) # rs) = {real_of_int a..real_of_int b} \<union> cover rs"
  by (simp add: cover_def)

lemma cover_Nil [simp]: "cover [] = {}"
  by (simp add: cover_def)

text \<open>Merging keeps the cover and the separation as long as the starts do not decrease.\<close>

lemma merge_pair_correct:
  assumes "separated rs" and "rs \<noteq> [] \<Longrightarrow> fst (last rs) \<le> a" and "a \<le> b"
  shows "separated (merge_pair rs (a, b)) \<and> cover (merge_pair rs (a, b)) = cover rs \<union> cover [(a, b)] \<and>
    merge_pair rs (a, b) \<noteq> [] \<and> fst (last (merge_pair rs (a, b))) \<le> a"
proof (cases "rs = [] \<or> a > snd (last rs)")
  case True
  then show ?thesis using assms by (auto simp: merge_pair_def separated_snoc)
next
  case False
  then obtain qs c d where rs: "rs = qs @ [(c, d)]" by (cases rs rule: rev_cases) auto
  have "{real_of_int c..real_of_int (max d b)} = {real_of_int c..real_of_int d} \<union> {real_of_int a..real_of_int b}"
    using False assms(2,3) unfolding rs by (auto simp: max_def)
  then show ?thesis using False assms unfolding rs
    by (auto simp: merge_pair_def separated_snoc cover_Cons)
qed

lemma foldl_merge_correct:
  assumes "separated rs" and "rs \<noteq> [] \<Longrightarrow> \<forall>ab\<in>set ivs. fst (last rs) \<le> fst ab" and "\<forall>(a, b)\<in>set ivs. a \<le> b" and "sorted (map fst ivs)"
  shows "separated (foldl merge_pair rs ivs) \<and> cover (foldl merge_pair rs ivs) = cover rs \<union> cover ivs"
  using assms
proof (induction ivs arbitrary: rs)
  case (Cons ab ivs)
  obtain a b where ab: "ab = (a, b)" by (cases ab)
  have step: "separated (merge_pair rs (a, b)) \<and> cover (merge_pair rs (a, b)) = cover rs \<union> cover [(a, b)] \<and>
    merge_pair rs (a, b) \<noteq> [] \<and> fst (last (merge_pair rs (a, b))) \<le> a"
    using Cons.prems unfolding ab by (intro merge_pair_correct) auto
  then have "\<forall>p\<in>set ivs. fst (last (merge_pair rs (a, b))) \<le> fst p" using Cons.prems(4) unfolding ab by fastforce
  then show ?case using Cons.IH [of "merge_pair rs (a, b)"] step Cons.prems(3,4) unfolding ab by (auto simp: cover_Cons)
qed simp

text \<open>What \<open>sort.Slice\<close> promises.\<close>

definition sorts_slice :: "(int list list \<Rightarrow> int list list) \<Rightarrow> bool" where
  "sorts_slice f \<longleftrightarrow> (\<forall>xs. mset (f xs) = mset xs \<and> ((\<forall>x\<in>set xs. x \<noteq> []) \<longrightarrow> sorted (map hd (f xs))))"

definition of_pairs :: "(int \<times> int) list \<Rightarrow> int list list" where
  "of_pairs rs = map (\<lambda>(a, b). [a, b]) rs"

lemma of_pairs_mset: "mset xs = mset (of_pairs rs) \<Longrightarrow> \<exists>qs. xs = of_pairs qs \<and> mset qs = mset rs"
proof -
  assume m: "mset xs = mset (of_pairs rs)"
  let ?qs = "map (\<lambda>x. (x ! 0, x ! 1)) xs"
  have "\<forall>x\<in>set xs. \<exists>a b. x = [a, b]" using mset_eq_setD [OF m] by (auto simp: of_pairs_def)
  then have "xs = of_pairs ?qs" by (induction xs) (auto simp: of_pairs_def)
  moreover have "mset ?qs = mset (map (\<lambda>x. (x ! 0, x ! 1)) (of_pairs rs))" unfolding mset_map m ..
  moreover have "map (\<lambda>x. (x ! 0, x ! 1)) (of_pairs rs) = rs" by (induction rs) (auto simp: of_pairs_def)
  ultimately show ?thesis by metis
qed

text \<open>
  \<open>merge\<close> on intervals whose start is not after their end returns, however the sort orders intervals of equal
  start: it gives intervals in ascending order with gaps between them that cover exactly what the given ones cover.
\<close>
theorem merge_covers:
  assumes "sorts_slice sort_slice" and "\<forall>(a, b)\<in>set ivs. a \<le> b"
  shows "\<exists>rs. merge sort_slice (of_pairs ivs) = Some (Inr (of_pairs rs)) \<and> separated rs \<and> cover rs = cover ivs"
proof (cases "ivs = []")
  case True
  then show ?thesis by (auto simp: merge_def of_pairs_def intro!: exI [of _ "[]"])
next
  case False
  have m: "mset (sort_slice (of_pairs ivs)) = mset (of_pairs ivs)" using assms(1) by (simp add: sorts_slice_def)
  obtain qs where qs: "sort_slice (of_pairs ivs) = of_pairs qs" "mset qs = mset ivs" using of_pairs_mset [OF m] by blast
  have set: "set qs = set ivs" using mset_eq_setD [OF qs(2)] .
  have "\<forall>x\<in>set (of_pairs ivs). x \<noteq> []" by (auto simp: of_pairs_def)
  then have "sorted (map hd (of_pairs qs))" using assms(1) qs(1) unfolding sorts_slice_def by metis
  moreover have "map hd (of_pairs qs) = map fst qs" by (induction qs) (auto simp: of_pairs_def)
  ultimately have fold: "separated (foldl merge_pair [] qs) \<and> cover (foldl merge_pair [] qs) = cover ivs"
    using foldl_merge_correct [of "[]" qs] assms(2) set by (simp add: cover_def)
  let ?h = "[0 \<mapsto> \<lparr>n_start = 0, n_end = 0, n_next = None, n_pre = None\<rparr>] :: store" and ?rs = "foldl merge_pair [] qs"
  have "holds ?h []" by (simp add: holds_def)
  then obtain h where h: "merge_loop 0 (of_pairs qs) (?h, 0, 1) = Inr (h, length ?rs, Suc (length ?rs))" "holds h ?rs"
    using merge_loop_correct [of ?h "[]" qs] by (auto simp: of_pairs_def Let_def)
  obtain d where d: "node h (Some 0) = Inr d" "n_next d = (if 0 < length ?rs then Some (Suc 0) else None)"
    using h(2) unfolding holds_def node_def by (auto dest: spec [of _ 0])
  have "merge sort_slice (of_pairs ivs) = collect_nodes h (n_next d) []"
    using False qs(1) h(1) d(1) by (simp add: merge_def of_pairs_def)
  also have "\<dots> = Some (Inr (of_pairs ?rs))" unfolding d(2) using collect_correct [OF h(2), of 0 "[]"] by (simp add: of_pairs_def)
  finally show ?thesis using fold by blast
qed

theorem merge_covers_witness:
  "\<exists>rs. merge (sort_key hd) [[1, 4], [8, 10], [4, 5]] = Some (Inr (of_pairs rs)) \<and> separated rs \<and>
     cover rs = cover [(1, 4), (8, 10), (4, 5)]"
proof -
  have "sorts_slice (sort_key hd)" by (simp add: sorts_slice_def)
  then show ?thesis using merge_covers [of "sort_key hd" "[(1, 4), (8, 10), (4, 5)]"] by (simp add: of_pairs_def)
qed

end
