(* ===== verification/Leet_Scan.thy ===== *)
theory Leet_Scan
  imports Go_Prelude
begin

text \<open>
  Scans of the package \<open>leet\<close> over an array, each compared with the optimum it stands for: \<open>max_sub_array.go\<close>,
  \<open>max_product.go\<close>, \<open>rob.go\<close>, \<open>water.go\<close> and \<open>sum_k.go\<close>. A slice of \<open>int\<close> is a list of integers; sums, differences and
  products wrap around at 64 bits (\<open>wrap64\<close>), and the theorems say which values must be in range for the result to
  be the exact one. The loop conditions keep every index within the slices.
\<close>

subsection \<open>max_sub_array.go\<close>

function sub_loop :: "int list \<Rightarrow> int list \<Rightarrow> int \<Rightarrow> nat \<Rightarrow> int" where
  "sub_loop nums dp maxValue i =
     (if i < length nums then
        let dp = dp[i := max (wrap64 (dp ! (i - 1) + nums ! i)) (nums ! i)];
            maxValue = (if dp ! i > maxValue then dp ! i else maxValue) in
        sub_loop nums dp maxValue (i + 1)
      else maxValue)"
  by pat_completeness auto
termination by (relation "measure (\<lambda>(nums, dp, mx, i). length nums - i)") auto

definition maxSubArray :: "int list \<Rightarrow> int" where
  "maxSubArray nums =
     (if length nums = 0 then 0
      else sub_loop nums ((replicate (length nums) 0)[0 := nums ! 0]) (nums ! 0) 1)"

subsection \<open>max_product.go\<close>

function prod_loop :: "int list \<Rightarrow> int list \<Rightarrow> int list \<Rightarrow> int \<Rightarrow> nat \<Rightarrow> int" where
  "prod_loop nums dpMin dpMax curMax i =
     (if i < length nums then
        let x = nums ! i;
            (dpMin, dpMax) =
              (if x \<le> 0 then (dpMin[i := min (wrap64 (dpMax ! (i - 1) * x)) x], dpMax[i := max (wrap64 (dpMin ! (i - 1) * x)) x])
               else (dpMin[i := min (wrap64 (dpMin ! (i - 1) * x)) x], dpMax[i := max (wrap64 (dpMax ! (i - 1) * x)) x]));
            curMax = (if dpMax ! i > curMax then dpMax ! i else curMax) in
        prod_loop nums dpMin dpMax curMax (i + 1)
      else curMax)"
  by pat_completeness auto
termination by (relation "measure (\<lambda>(nums, a, b, mx, i). length nums - i)") auto

definition maxProduct :: "int list \<Rightarrow> int" where
  "maxProduct nums =
     (if length nums = 0 then 0
      else if length nums = 1 then nums ! 0
      else
        let dp = (replicate (length nums) 0)[0 := nums ! 0] in
        prod_loop nums dp dp (nums ! 0) 1)"

subsection \<open>rob.go\<close>

function rob_loop :: "int list \<Rightarrow> int list \<Rightarrow> nat \<Rightarrow> int list" where
  "rob_loop nums dp i =
     (if i < length nums then rob_loop nums (dp[i := max (dp ! (i - 1)) (wrap64 (dp ! (i - 2) + nums ! i))]) (i + 1) else dp)"
  by pat_completeness auto
termination by (relation "measure (\<lambda>(nums, dp, i). length nums - i)") auto

definition rob :: "int list \<Rightarrow> int" where
  "rob nums =
     (if length nums = 0 then 0
      else if length nums = 1 then nums ! 0
      else if length nums = 2 then max (nums ! 0) (nums ! 1)
      else
        let dp = (replicate (length nums) 0)[0 := nums ! 0, 1 := max (nums ! 0) (nums ! 1)];
            dp = rob_loop nums dp 2 in
        dp ! (length dp - 1))"

subsection \<open>water.go\<close>

function area_loop :: "int list \<Rightarrow> int \<Rightarrow> int \<Rightarrow> int \<Rightarrow> int" where
  "area_loop height maxHeight lp rp =
     (if lp < rp then
        if height ! nat lp < height ! nat rp then
          area_loop height (if wrap64 ((rp - lp) * height ! nat lp) > maxHeight then wrap64 (height ! nat lp * (rp - lp)) else maxHeight) (lp + 1) rp
        else
          area_loop height (if wrap64 ((rp - lp) * height ! nat rp) > maxHeight then wrap64 (height ! nat rp * (rp - lp)) else maxHeight) lp (rp - 1)
      else maxHeight)"
  by pat_completeness auto
termination by (relation "measure (\<lambda>(height, mx, lp, rp). nat (rp - lp))") auto

definition maxArea :: "int list \<Rightarrow> int" where
  "maxArea height = area_loop height 0 0 (int (length height) - 1)"

subsection \<open>sum_k.go\<close>

text \<open>A missing key of \<open>store\<close> reads as 0 in \<open>store[total]++\<close>.\<close>

function sum_loop :: "int list \<Rightarrow> int \<Rightarrow> (int \<rightharpoonup> int) \<Rightarrow> int \<Rightarrow> int \<Rightarrow> nat \<Rightarrow> int" where
  "sum_loop nums k store tot result i =
     (if i < length nums then
        let tot = wrap64 (tot + nums ! i);
            target = wrap64 (tot - k);
            result = (case store target of None \<Rightarrow> result | Some v \<Rightarrow> wrap64 (result + v));
            store = store(tot \<mapsto> wrap64 ((case store tot of None \<Rightarrow> 0 | Some v \<Rightarrow> v) + 1)) in
        sum_loop nums k store tot result (i + 1)
      else result)"
  by pat_completeness auto
termination by (relation "measure (\<lambda>(nums, k, store, tot, result, i). length nums - i)") auto

definition subarraySum :: "int list \<Rightarrow> int \<Rightarrow> int" where
  "subarraySum nums k = (if length nums = 0 then 0 else sum_loop nums k [0 \<mapsto> 1] 0 0 0)"

declare sub_loop.simps [simp del] prod_loop.simps [simp del] rob_loop.simps [simp del] area_loop.simps [simp del] sum_loop.simps [simp del]

subsection \<open>Greatest and least elements\<close>

definition greatest :: "int set \<Rightarrow> int \<Rightarrow> bool" where
  "greatest S x \<longleftrightarrow> x \<in> S \<and> (\<forall>y\<in>S. y \<le> x)"

definition is_least :: "int set \<Rightarrow> int \<Rightarrow> bool" where
  "is_least S x \<longleftrightarrow> x \<in> S \<and> (\<forall>y\<in>S. x \<le> y)"

lemma greatest_single: "greatest {x} x" and least_single: "is_least {x} x"
  by (simp_all add: greatest_def is_least_def)

lemma greatest_Un: "greatest S x \<Longrightarrow> greatest T y \<Longrightarrow> greatest (S \<union> T) (max x y)"
  by (auto simp: greatest_def max_def intro: order_trans)

lemma least_Un: "is_least S x \<Longrightarrow> is_least T y \<Longrightarrow> is_least (S \<union> T) (min x y)"
  by (auto simp: is_least_def min_def intro: order_trans)

lemma greatest_plus: "greatest S x \<Longrightarrow> greatest ((\<lambda>y. y + c) ` S) (x + c)"
  by (auto simp: greatest_def)

lemma greatest_times: "greatest S x \<Longrightarrow> 0 \<le> c \<Longrightarrow> greatest ((\<lambda>y. y * c) ` S) (x * c)"
  by (auto simp: greatest_def mult_right_mono)

lemma least_times: "is_least S x \<Longrightarrow> 0 \<le> c \<Longrightarrow> is_least ((\<lambda>y. y * c) ` S) (x * c)"
  by (auto simp: is_least_def mult_right_mono)

lemma greatest_times_neg: "is_least S x \<Longrightarrow> c \<le> 0 \<Longrightarrow> greatest ((\<lambda>y. y * c) ` S) (x * c)"
  by (auto simp: greatest_def is_least_def mult_right_mono_neg)

lemma least_times_neg: "greatest S x \<Longrightarrow> c \<le> 0 \<Longrightarrow> is_least ((\<lambda>y. y * c) ` S) (x * c)"
  by (auto simp: greatest_def is_least_def mult_right_mono_neg)

definition in_range :: "int \<Rightarrow> bool" where
  "in_range x \<longleftrightarrow> - (2 ^ 63) \<le> x \<and> x < 2 ^ 63"

lemma wrap_in_range [simp]: "in_range x \<Longrightarrow> wrap64 x = x"
  by (simp add: in_range_def)

subsection \<open>Segments\<close>

definition seg_sum :: "int list \<Rightarrow> nat \<Rightarrow> nat \<Rightarrow> int" where
  "seg_sum nums a b = (\<Sum>k=a..<b. nums ! k)"

definition seg_prod :: "int list \<Rightarrow> nat \<Rightarrow> nat \<Rightarrow> int" where
  "seg_prod nums a b = (\<Prod>k=a..<b. nums ! k)"

text \<open>The values of the segments that end at \<open>i\<close>, and of those that end at \<open>i\<close> or before.\<close>

definition ending :: "(nat \<Rightarrow> nat \<Rightarrow> int) \<Rightarrow> nat \<Rightarrow> int set" where
  "ending f i = (\<lambda>a. f a i) ` {..<i}"

definition segments :: "(nat \<Rightarrow> nat \<Rightarrow> int) \<Rightarrow> nat \<Rightarrow> int set" where
  "segments f i = {f a b | a b. a < b \<and> b \<le> i}"

lemma segments_Suc: "segments f (Suc i) = segments f i \<union> ending f (Suc i)"
  by (auto simp: segments_def ending_def le_Suc_eq)

lemma segments_1: "segments f (Suc 0) = ending f (Suc 0)"
  by (auto simp: segments_def ending_def le_Suc_eq)

lemma ending_mem: "x \<in> ending f i \<Longrightarrow> i \<le> n \<Longrightarrow> x \<in> segments f n"
  by (auto simp: ending_def segments_def)

lemma ending_Suc:
  assumes "\<And>a. a < i \<Longrightarrow> f a (Suc i) = g (f a i)"
  shows "ending f (Suc i) = g ` ending f i \<union> {f i (Suc i)}"
  using assms by (simp add: ending_def lessThan_Suc image_image)

lemma ending_sum_Suc: "ending (seg_sum nums) (Suc i) = (\<lambda>y. y + nums ! i) ` ending (seg_sum nums) i \<union> {nums ! i}"
  using ending_Suc [of i "seg_sum nums" "\<lambda>y. y + nums ! i"] by (simp add: seg_sum_def)

lemma ending_prod_Suc: "ending (seg_prod nums) (Suc i) = (\<lambda>y. y * nums ! i) ` ending (seg_prod nums) i \<union> {nums ! i}"
  using ending_Suc [of i "seg_prod nums" "\<lambda>y. y * nums ! i"] by (simp add: seg_prod_def)

lemma sub_loop_correct:
  assumes "\<forall>x\<in>segments (seg_sum nums) (length nums). in_range x" and "length dp = length nums" and "0 < i" and "i \<le> length nums"
    and "greatest (ending (seg_sum nums) i) (dp ! (i - 1))" and "greatest (segments (seg_sum nums) i) mx"
  shows "greatest (segments (seg_sum nums) (length nums)) (sub_loop nums dp mx i)"
  using assms(2-6)
proof (induction "length nums - i" arbitrary: i dp mx)
  case 0
  then show ?case by (subst sub_loop.simps) simp
next
  case (Suc n)
  then have i: "i < length nums" by simp
  let ?S = "ending (seg_sum nums)" and ?v = "max (dp ! (i - 1) + nums ! i) (nums ! i)"
  have next_i: "greatest (?S (Suc i)) ?v"
    unfolding ending_sum_Suc by (intro greatest_Un greatest_plus greatest_single Suc.prems)
  have "dp ! (i - 1) + nums ! i \<in> ?S (Suc i)" unfolding ending_sum_Suc using Suc.prems(4) by (simp add: greatest_def)
  then have "in_range (dp ! (i - 1) + nums ! i)" using assms(1) i ending_mem by fastforce
  then have step: "sub_loop nums dp mx i = sub_loop nums (dp[i := ?v]) (max mx ?v) (i + 1)"
    using i Suc.prems(1) by (subst sub_loop.simps) (simp add: Let_def max_def)
  have "greatest (segments (seg_sum nums) (i + 1)) (max mx ?v)"
    using greatest_Un [OF Suc.prems(5) next_i] by (simp add: segments_Suc)
  then show ?case unfolding step using Suc i next_i by (intro Suc.hyps(1)) auto
qed

text \<open>
  \<open>maxSubArray\<close> returns the greatest sum of a nonempty contiguous part of the slice, provided that these
  sums are 64-bit integers.
\<close>
theorem max_sub_array_greatest:
  assumes "nums \<noteq> []" and "\<forall>x\<in>segments (seg_sum nums) (length nums). in_range x"
  shows "greatest (segments (seg_sum nums) (length nums)) (maxSubArray nums)"
proof -
  have "ending (seg_sum nums) (Suc 0) = {nums ! 0}" by (auto simp: ending_def seg_sum_def)
  then show ?thesis unfolding maxSubArray_def using assms
    by (auto intro!: sub_loop_correct simp: segments_1 greatest_single Suc_le_eq)
qed


lemma prod_loop_correct:
  assumes "\<forall>x\<in>segments (seg_prod nums) (length nums). in_range x" and "length dpMin = length nums" and "length dpMax = length nums"
    and "0 < i" and "i \<le> length nums"
    and "is_least (ending (seg_prod nums) i) (dpMin ! (i - 1))" and "greatest (ending (seg_prod nums) i) (dpMax ! (i - 1))"
    and "greatest (segments (seg_prod nums) i) mx"
  shows "greatest (segments (seg_prod nums) (length nums)) (prod_loop nums dpMin dpMax mx i)"
  using assms(2-8)
proof (induction "length nums - i" arbitrary: i dpMin dpMax mx)
  case 0
  then show ?case by (subst prod_loop.simps) simp
next
  case (Suc n)
  then have i: "i < length nums" by simp
  let ?S = "ending (seg_prod nums)" and ?x = "nums ! i"
  define lo hi where "lo = (if ?x \<le> 0 then dpMax ! (i - 1) * ?x else dpMin ! (i - 1) * ?x)"
    and "hi = (if ?x \<le> 0 then dpMin ! (i - 1) * ?x else dpMax ! (i - 1) * ?x)"
  have sc: "is_least ((\<lambda>y. y * ?x) ` ?S i) lo" "greatest ((\<lambda>y. y * ?x) ` ?S i) hi"
    using Suc.prems(5,6) by (simp_all add: lo_def hi_def least_times least_times_neg greatest_times greatest_times_neg)
  have lo: "is_least (?S (Suc i)) (min lo ?x)" and hi: "greatest (?S (Suc i)) (max hi ?x)"
    unfolding ending_prod_Suc by (intro least_Un greatest_Un sc least_single greatest_single)+
  have "lo \<in> ?S (Suc i)" "hi \<in> ?S (Suc i)" unfolding ending_prod_Suc using sc by (auto simp: is_least_def greatest_def)
  then have r: "in_range lo" "in_range hi" using assms(1) i ending_mem [of _ "seg_prod nums" "Suc i" "length nums"] by auto
  have step: "prod_loop nums dpMin dpMax mx i =
      prod_loop nums (dpMin[i := min lo ?x]) (dpMax[i := max hi ?x]) (max mx (max hi ?x)) (i + 1)"
  proof (cases "?x \<le> 0")
    case True
    then show ?thesis using r i Suc.prems(1,2)
      by (subst prod_loop.simps) (simp add: Let_def lo_def hi_def max.absorb_iff2 [symmetric] max_def [of mx])
  next
    case False
    then show ?thesis using r i Suc.prems(1,2)
      by (subst prod_loop.simps) (simp add: Let_def lo_def hi_def max.absorb_iff2 [symmetric] max_def [of mx])
  qed
  have "greatest (segments (seg_prod nums) (i + 1)) (max mx (max hi ?x))"
    using greatest_Un [OF Suc.prems(7) hi] by (simp add: segments_Suc)
  then show ?case unfolding step using Suc i lo hi by (intro Suc.hyps(1)) auto
qed

text \<open>
  \<open>maxProduct\<close> returns the greatest product of a nonempty contiguous part of the slice, provided that these products
  are 64-bit integers.
\<close>
theorem max_product_greatest:
  assumes "nums \<noteq> []" and "\<forall>x\<in>segments (seg_prod nums) (length nums). in_range x"
  shows "greatest (segments (seg_prod nums) (length nums)) (maxProduct nums)"
proof -
  have e: "ending (seg_prod nums) (Suc 0) = {nums ! 0}" by (auto simp: ending_def seg_prod_def)
  show ?thesis
  proof (cases "length nums = 1")
    case True
    then show ?thesis using e segments_1 [of "seg_prod nums"] by (simp add: maxProduct_def greatest_single)
  next
    case False
    then show ?thesis unfolding maxProduct_def Let_def using assms e
      by (auto intro!: prod_loop_correct simp: segments_1 greatest_single least_single Suc_le_eq)
  qed
qed

subsection \<open>Houses that are not adjacent\<close>

definition apart :: "nat set \<Rightarrow> bool" where
  "apart S \<longleftrightarrow> (\<forall>i\<in>S. Suc i \<notin> S)"

definition hauls :: "int list \<Rightarrow> nat \<Rightarrow> int set" where
  "hauls nums i = (\<lambda>S. \<Sum>k\<in>S. nums ! k) ` {S. S \<subseteq> {..<i} \<and> apart S}"

lemma hauls_0: "hauls nums 0 = {0}"
proof -
  have "{S. S \<subseteq> {..<0::nat} \<and> apart S} = {{}}" by (auto simp: apart_def)
  then show ?thesis by (simp add: hauls_def)
qed

lemma apart_Suc:
  "{S. S \<subseteq> {..<Suc (Suc i)} \<and> apart S} = {S. S \<subseteq> {..<Suc i} \<and> apart S} \<union> insert (Suc i) ` {S. S \<subseteq> {..<i} \<and> apart S}"
  (is "?L = ?A \<union> ?B")
proof
  show "?L \<subseteq> ?A \<union> ?B"
  proof
    fix S assume S: "S \<in> ?L"
    show "S \<in> ?A \<union> ?B"
    proof (cases "Suc i \<in> S")
      case False
      then have "S \<subseteq> {..<Suc i}" using S by (auto simp: less_Suc_eq)
      then show ?thesis using S by simp
    next
      case True
      then have "i \<notin> S" using S by (auto simp: apart_def)
      then have "S - {Suc i} \<subseteq> {..<i}" using S by (auto simp: less_Suc_eq)
      moreover have "apart (S - {Suc i})" using S by (auto simp: apart_def)
      moreover have "S = insert (Suc i) (S - {Suc i})" using True by auto
      ultimately show ?thesis by blast
    qed
  qed
  show "?A \<union> ?B \<subseteq> ?L" by (auto simp: apart_def)
qed

lemma hauls_Suc: "hauls nums (Suc (Suc i)) = hauls nums (Suc i) \<union> (\<lambda>y. y + nums ! Suc i) ` hauls nums i"
proof -
  have "(\<Sum>k\<in>insert (Suc i) S. nums ! k) = (\<Sum>k\<in>S. nums ! k) + nums ! Suc i" if "S \<subseteq> {..<i}" for S
    using that finite_subset [OF that] by (subst sum.insert) auto
  then have "(\<lambda>S. \<Sum>k\<in>S. nums ! k) ` insert (Suc i) ` {S. S \<subseteq> {..<i} \<and> apart S} = (\<lambda>y. y + nums ! Suc i) ` hauls nums i"
    unfolding hauls_def image_image by (intro image_cong) auto
  then show ?thesis unfolding hauls_def [of _ "Suc (Suc i)"] apart_Suc image_Un hauls_def [symmetric] by (simp add: hauls_def)
qed

lemma hauls_1: "hauls nums (Suc 0) = {0, nums ! 0}"
proof -
  have "{S. S \<subseteq> {..<1::nat} \<and> apart S} = {{}, {0}}" by (auto simp: apart_def lessThan_Suc subset_singleton_iff)
  then show ?thesis by (simp add: hauls_def)
qed

lemma rob_loop_correct:
  assumes "\<forall>j\<le>length nums. \<forall>x\<in>hauls nums j. in_range x" and "length dp = length nums" and "2 \<le> i" and "i \<le> length nums"
    and "\<forall>j<i. greatest (hauls nums (Suc j)) (dp ! j)"
  shows "length (rob_loop nums dp i) = length nums \<and> (\<forall>j<length nums. greatest (hauls nums (Suc j)) (rob_loop nums dp i ! j))"
  using assms(2-5)
proof (induction "length nums - i" arbitrary: i dp)
  case 0
  then have "rob_loop nums dp i = dp" by (subst rob_loop.simps) simp
  then show ?case using 0 by simp
next
  case (Suc n)
  then have i: "i < length nums" by simp
  then obtain k where k: "i = Suc (Suc k)" using Suc.prems(2) by (metis add_2_eq_Suc le_Suc_ex)
  have g: "greatest (hauls nums (Suc (Suc k))) (dp ! Suc k)" "greatest (hauls nums (Suc k)) (dp ! k)"
    using Suc.prems(4) k by auto
  have next_i: "greatest (hauls nums (Suc i)) (max (dp ! Suc k) (dp ! k + nums ! i))"
    unfolding k hauls_Suc [of nums "Suc k"] by (intro greatest_Un greatest_plus g)
  have "dp ! k + nums ! i \<in> hauls nums (Suc i)" unfolding k hauls_Suc [of nums "Suc k"] using g(2) by (auto simp: greatest_def)
  then have "in_range (dp ! k + nums ! i)" using assms(1) i by (meson Suc_leI)
  then have step: "rob_loop nums dp i = rob_loop nums (dp[i := max (dp ! Suc k) (dp ! k + nums ! i)]) (i + 1)"
    using i k by (subst rob_loop.simps) simp
  have "\<forall>j<i + 1. greatest (hauls nums (Suc j)) (dp[i := max (dp ! Suc k) (dp ! k + nums ! i)] ! j)"
    using Suc.prems(1,4) next_i i by (auto simp: less_Suc_eq nth_list_update)
  then show ?case unfolding step using Suc i by (intro Suc.hyps(1)) auto
qed

text \<open>
  \<open>rob\<close> on nonnegative amounts returns the greatest total of a set of houses of which no two are adjacent,
  provided that these totals are 64-bit integers.
\<close>
theorem rob_greatest:
  assumes "\<forall>x\<in>set nums. 0 \<le> x" and "\<forall>j\<le>length nums. \<forall>x\<in>hauls nums j. in_range x"
  shows "greatest (hauls nums (length nums)) (rob nums)"
proof -
  have pos: "0 \<le> nums ! k" if "k < length nums" for k using assms(1) that by simp
  have one: "greatest (hauls nums (Suc 0)) (nums ! 0)" if "0 < length nums" using pos [OF that] by (auto simp: hauls_1 greatest_def)
  have two: "greatest (hauls nums (Suc (Suc 0))) (max (nums ! 0) (nums ! 1))" if "1 < length nums"
    using pos [of 0] pos [of 1] that unfolding hauls_Suc hauls_1 hauls_0 by (auto simp: greatest_def max_def)
  consider "length nums = 0" | "length nums = 1" | "length nums = 2" | "2 < length nums" by linarith
  then show ?thesis
  proof cases
    case 1
    then show ?thesis by (simp add: rob_def hauls_0 greatest_single)
  next
    case 2
    then show ?thesis using one by (simp add: rob_def)
  next
    case 3
    then show ?thesis using two by (simp add: rob_def numeral_2_eq_2)
  next
    case 4
    let ?dp = "(replicate (length nums) 0)[0 := nums ! 0, 1 := max (nums ! 0) (nums ! 1)]"
    have "0 < length nums" "1 < length nums" using 4 by auto
    then have "\<forall>j<2. greatest (hauls nums (Suc j)) (?dp ! j)"
      using one two by (simp add: less_Suc_eq numeral_2_eq_2)
    then have l: "length (rob_loop nums ?dp 2) = length nums"
      and "\<forall>j<length nums. greatest (hauls nums (Suc j)) (rob_loop nums ?dp 2 ! j)"
      using rob_loop_correct [OF assms(2), of ?dp 2] 4 by auto
    then have "greatest (hauls nums (Suc (length nums - 1))) (rob_loop nums ?dp 2 ! (length nums - 1))" using 4 by auto
    moreover have "Suc (length nums - 1) = length nums" "nums \<noteq> []" using 4 by auto
    ultimately show ?thesis using 4 l by (simp add: rob_def Let_def)
  qed
qed

subsection \<open>The container with most water\<close>

definition area :: "int list \<Rightarrow> nat \<Rightarrow> nat \<Rightarrow> int" where
  "area height i j = (int j - int i) * min (height ! i) (height ! j)"

definition areas :: "int list \<Rightarrow> int set" where
  "areas height = {area height i j | i j. i < j \<and> j < length height}"

lemma area_narrow:
  assumes "area height i j' = (int j' - int i) * height ! i" and "i < j" and "j \<le> j'" and "0 \<le> height ! i"
  shows "area height i j \<le> area height i j'"
proof -
  have "area height i j \<le> (int j - int i) * height ! i" using assms(2) by (simp add: area_def mult_left_mono)
  also have "\<dots> \<le> (int j' - int i) * height ! i" using assms(3,4) by (simp add: mult_right_mono)
  finally show ?thesis using assms(1) by simp
qed

lemma area_narrow_left:
  assumes "area height i' j = (int j - int i') * height ! j" and "i' \<le> i" and "i < j" and "0 \<le> height ! j"
  shows "area height i j \<le> area height i' j"
proof -
  have "area height i j \<le> (int j - int i) * height ! j" using assms(3) by (simp add: area_def mult_left_mono)
  also have "\<dots> \<le> (int j - int i') * height ! j" using assms(2,4) by (simp add: mult_right_mono)
  finally show ?thesis using assms(1) by simp
qed

text \<open>The pairs that the two pointers have passed: those with an end outside of the window.\<close>

definition passed :: "int list \<Rightarrow> nat \<Rightarrow> nat \<Rightarrow> int \<Rightarrow> bool" where
  "passed height lp rp mx \<longleftrightarrow> (\<forall>i j. i < j \<longrightarrow> j < length height \<longrightarrow> i < lp \<or> rp < j \<longrightarrow> area height i j \<le> mx)"

lemma passed_left:
  assumes "passed height lp rp mx" and "lp < rp" and "rp < length height" and "height ! lp < height ! rp" and "0 \<le> height ! lp"
  shows "passed height (Suc lp) rp (max mx (area height lp rp))"
  unfolding passed_def
proof (intro allI impI)
  fix i j assume ij: "i < j" "j < length height" "i < Suc lp \<or> rp < j"
  show "area height i j \<le> max mx (area height lp rp)"
  proof (cases "i < lp \<or> rp < j")
    case True
    then show ?thesis using assms(1) ij by (auto simp: passed_def max_def intro: order_trans)
  next
    case False
    then have "i = lp" "j \<le> rp" using ij by auto
    moreover have "area height lp rp = (int rp - int lp) * height ! lp" using assms(4) by (simp add: area_def)
    ultimately have "area height i j \<le> area height lp rp" using assms(5) ij area_narrow by blast
    then show ?thesis by simp
  qed
qed

lemma passed_right:
  assumes "passed height lp rp mx" and "lp < rp" and "rp < length height" and "height ! rp \<le> height ! lp" and "0 \<le> height ! rp"
  shows "passed height lp (rp - 1) (max mx (area height lp rp))"
  unfolding passed_def
proof (intro allI impI)
  fix i j assume ij: "i < j" "j < length height" "i < lp \<or> rp - 1 < j"
  show "area height i j \<le> max mx (area height lp rp)"
  proof (cases "i < lp \<or> rp < j")
    case True
    then show ?thesis using assms(1) ij by (auto simp: passed_def max_def intro: order_trans)
  next
    case False
    then have "j = rp" "lp \<le> i" using ij by auto
    moreover have "area height lp rp = (int rp - int lp) * height ! rp" using assms(4) by (simp add: area_def)
    ultimately have "area height i j \<le> area height lp rp" using assms(5) ij area_narrow_left by blast
    then show ?thesis by simp
  qed
qed

lemma area_loop_correct:
  assumes "\<forall>x\<in>areas height. in_range x" and "\<forall>x\<in>set height. 0 \<le> x" and "lp \<le> rp" and "rp < length height"
    and "passed height lp rp mx" and "mx \<in> insert 0 (areas height)" and "0 \<le> mx"
  shows "greatest (insert 0 (areas height)) (area_loop height mx (int lp) (int rp))"
  using assms(3-7)
proof (induction "rp - lp" arbitrary: lp rp mx)
  case 0
  then have "area_loop height mx (int lp) (int rp) = mx" by (subst area_loop.simps) simp
  moreover have "area height i j \<le> mx" if "i < j" "j < length height" for i j
    using 0 that unfolding passed_def by (metis diff_is_0_eq le_less_trans not_le order_less_le)
  ultimately show ?case using 0 by (auto simp: greatest_def areas_def)
next
  case (Suc n)
  then have lt: "lp < rp" by simp
  have nn: "0 \<le> height ! lp" "0 \<le> height ! rp" using assms(2) lt Suc.prems(2) by auto
  have mem: "area height lp rp \<in> areas height" using lt Suc.prems(2) by (auto simp: areas_def)
  then have rg: "in_range (area height lp rp)" using assms(1) by blast
  have mx: "max mx (area height lp rp) \<in> insert 0 (areas height)" using mem Suc.prems(4) by (auto simp: max_def)
  show ?case
  proof (cases "height ! lp < height ! rp")
    case True
    then have "area height lp rp = (int rp - int lp) * height ! lp" by (simp add: area_def)
    then have step: "area_loop height mx (int lp) (int rp) = area_loop height (max mx (area height lp rp)) (int (Suc lp)) (int rp)"
      using True lt rg by (subst area_loop.simps) (simp add: max_def mult.commute add.commute)
    show ?thesis unfolding step
      by (rule Suc.hyps(1) [OF _ _ _ passed_left [OF Suc.prems(3) lt Suc.prems(2) True nn(1)] mx])
         (use Suc.hyps(2) Suc.prems lt in auto)
  next
    case False
    then have "area height lp rp = (int rp - int lp) * height ! rp" by (simp add: area_def)
    then have step: "area_loop height mx (int lp) (int rp) = area_loop height (max mx (area height lp rp)) (int lp) (int (rp - 1))"
      using False lt rg by (subst area_loop.simps) (simp add: max_def mult.commute of_nat_diff)
    have le: "height ! rp \<le> height ! lp" using False by simp
    show ?thesis unfolding step
      by (rule Suc.hyps(1) [OF _ _ _ passed_right [OF Suc.prems(3) lt Suc.prems(2) le nn(2)] mx])
         (use Suc.hyps(2) Suc.prems lt in auto)
  qed
qed

text \<open>
  \<open>maxArea\<close> on nonnegative heights returns the greatest area between two lines, and 0 where there are less than two
  lines, provided that the areas are 64-bit integers.
\<close>
theorem max_area_greatest:
  assumes "\<forall>x\<in>set height. 0 \<le> x" and "\<forall>x\<in>areas height. in_range x"
  shows "greatest (insert 0 (areas height)) (maxArea height)"
proof (cases "height = []")
  case True
  then show ?thesis by (simp add: maxArea_def area_loop.simps areas_def greatest_def)
next
  case False
  then have rp: "int (length height) - 1 = int (length height - 1)" by (cases height) auto
  have "passed height 0 (length height - 1) 0" by (auto simp: passed_def)
  then have "greatest (insert 0 (areas height)) (area_loop height 0 (int 0) (int (length height - 1)))"
    using False by (intro area_loop_correct assms) auto
  then show ?thesis unfolding maxArea_def rp by simp
qed

subsection \<open>Segments with a given sum\<close>

text \<open>The number of prefixes, among the first \<open>i\<close>, whose sum is \<open>x\<close>.\<close>

definition prefix_count :: "int list \<Rightarrow> nat \<Rightarrow> int \<Rightarrow> nat" where
  "prefix_count nums i x = card {a. a < i \<and> seg_sum nums 0 a = x}"

definition sum_pairs :: "int list \<Rightarrow> int \<Rightarrow> nat \<Rightarrow> (nat \<times> nat) set" where
  "sum_pairs nums k i = {(a, b). a < b \<and> b \<le> i \<and> seg_sum nums a b = k}"

lemma prefix_count_Suc: "prefix_count nums (Suc i) x = prefix_count nums i x + (if seg_sum nums 0 i = x then 1 else 0)"
proof -
  have "{a. a < Suc i \<and> seg_sum nums 0 a = x} = {a. a < i \<and> seg_sum nums 0 a = x} \<union> (if seg_sum nums 0 i = x then {i} else {})"
    by (auto simp: less_Suc_eq)
  then show ?thesis unfolding prefix_count_def by (auto simp: card_insert_if)
qed

lemma prefix_count_le: "prefix_count nums i x \<le> i"
  using card_mono [of "{..<i}" "{a. a < i \<and> seg_sum nums 0 a = x}"] by (auto simp: prefix_count_def)

lemma seg_sum_diff: "a \<le> b \<Longrightarrow> seg_sum nums a b = seg_sum nums 0 b - seg_sum nums 0 a"
  unfolding seg_sum_def by (metis add_diff_cancel_left' le0 sum.atLeastLessThan_concat)

lemma sum_pairs_Suc:
  "card (sum_pairs nums k (Suc i)) = card (sum_pairs nums k i) + prefix_count nums (Suc i) (seg_sum nums 0 (Suc i) - k)"
proof -
  let ?A = "{a. a < Suc i \<and> seg_sum nums 0 a = seg_sum nums 0 (Suc i) - k}"
  have d: "seg_sum nums a (Suc i) = k \<longleftrightarrow> a \<in> ?A" if "a < Suc i" for a
    using that seg_sum_diff [of a "Suc i" nums] by auto
  have "sum_pairs nums k (Suc i) = sum_pairs nums k i \<union> {(a, b). b = Suc i \<and> a < Suc i \<and> seg_sum nums a (Suc i) = k}"
    by (auto simp: sum_pairs_def le_Suc_eq)
  also have "\<dots> = sum_pairs nums k i \<union> (\<lambda>a. (a, Suc i)) ` ?A" using d by auto
  finally have "sum_pairs nums k (Suc i) = \<dots>" .
  moreover have "finite (sum_pairs nums k i)"
    by (rule finite_subset [of _ "{..i} \<times> {..i}"]) (auto simp: sum_pairs_def)
  moreover have "sum_pairs nums k i \<inter> (\<lambda>a. (a, Suc i)) ` ?A = {}" by (auto simp: sum_pairs_def)
  ultimately show ?thesis
    by (simp add: card_Un_disjoint card_image inj_on_def prefix_count_def)
qed

lemma sum_pairs_0 [simp]: "sum_pairs nums k 0 = {}"
  by (auto simp: sum_pairs_def)

lemma sum_pairs_le: "card (sum_pairs nums k i) \<le> i * Suc i"
proof (induction i)
  case (Suc i)
  then show ?case using prefix_count_le [of nums "Suc i" "seg_sum nums 0 (Suc i) - k"] by (simp add: sum_pairs_Suc)
qed (simp add: sum_pairs_0)

definition counts_ok :: "int list \<Rightarrow> nat \<Rightarrow> (int \<rightharpoonup> int) \<Rightarrow> bool" where
  "counts_ok nums i store \<longleftrightarrow>
     (\<forall>x. store x = (if prefix_count nums i x = 0 then None else Some (int (prefix_count nums i x))))"

lemma sum_loop_correct:
  assumes "\<forall>b\<le>length nums. in_range (seg_sum nums 0 b) \<and> in_range (seg_sum nums 0 b - k)" and "length nums < 2 ^ 31"
    and "i \<le> length nums" and "counts_ok nums (Suc i) store"
  shows "sum_loop nums k store (seg_sum nums 0 i) (int (card (sum_pairs nums k i))) i = int (card (sum_pairs nums k (length nums)))"
  using assms(3,4)
proof (induction "length nums - i" arbitrary: i store)
  case 0
  then show ?case by (subst sum_loop.simps) simp
next
  case (Suc n)
  then have i: "i < length nums" by simp
  let ?t = "seg_sum nums 0 (Suc i)" and ?c = "\<lambda>x. prefix_count nums (Suc i) x"
  let ?store = "store(?t \<mapsto> int (?c ?t) + 1)"
  have "in_range ?t" "in_range (?t - k)" using assms(1) i Suc_leI by blast+
  moreover have "seg_sum nums 0 i + nums ! i = ?t" by (simp add: seg_sum_def)
  ultimately have t: "wrap64 (seg_sum nums 0 i + nums ! i) = ?t" "wrap64 (?t - k) = ?t - k" by simp_all
  have small: "in_range (int m)" if "m \<le> length nums * Suc (length nums)" for m
  proof -
    have "length nums * Suc (length nums) < 2 ^ 31 * 2 ^ 32" using assms(2) by (intro mult_strict_mono) auto
    then show ?thesis using that by (simp add: in_range_def)
  qed
  have "card (sum_pairs nums k (Suc i)) \<le> length nums * Suc (length nums)"
    using sum_pairs_le [of nums k "Suc i"] mult_le_mono [of "Suc i" "length nums" "Suc (Suc i)" "Suc (length nums)"] i by linarith
  then have "in_range (int (card (sum_pairs nums k i)) + int (?c (?t - k)))"
    using small by (metis of_nat_add sum_pairs_Suc)
  moreover have "in_range (int (?c ?t) + 1)"
  proof -
    have "Suc (?c ?t) \<le> Suc (length nums)" using prefix_count_le [of nums "Suc i" ?t] i by linarith
    also have "\<dots> \<le> length nums * Suc (length nums)" using i by (cases nums) auto
    finally show ?thesis using small [of "Suc (?c ?t)"] by (simp add: add.commute)
  qed
  ultimately have step: "sum_loop nums k store (seg_sum nums 0 i) (int (card (sum_pairs nums k i))) i =
      sum_loop nums k ?store ?t (int (card (sum_pairs nums k (Suc i)))) (Suc i)"
    using i t Suc.prems(2) by (subst sum_loop.simps) (auto simp: Let_def counts_ok_def sum_pairs_Suc)
  have "counts_ok nums (Suc (Suc i)) ?store"
    using Suc.prems(2) by (auto simp: counts_ok_def prefix_count_Suc [of nums "Suc i"])
  then show ?case unfolding step using Suc i by (intro Suc.hyps(1)) auto
qed

text \<open>
  \<open>subarraySum\<close> returns the number of the nonempty contiguous parts of the slice whose sum is \<open>k\<close>, provided that the
  prefix sums, and their differences to \<open>k\<close>, are 64-bit integers and the slice is shorter than \<open>2 ^ 31\<close>.
\<close>
theorem subarray_sum_counts:
  assumes "\<forall>b\<le>length nums. in_range (seg_sum nums 0 b) \<and> in_range (seg_sum nums 0 b - k)" and "length nums < 2 ^ 31"
  shows "subarraySum nums k = int (card (sum_pairs nums k (length nums)))"
proof (cases "nums = []")
  case True
  then show ?thesis by (simp add: subarraySum_def)
next
  case False
  have "counts_ok nums (Suc 0) [0 \<mapsto> 1]"
    by (auto simp: counts_ok_def prefix_count_Suc prefix_count_def [of _ 0] seg_sum_def)
  then show ?thesis using False sum_loop_correct [OF assms, of 0 "[0 \<mapsto> 1]"]
    by (simp add: subarraySum_def seg_sum_def)
qed

end
