(* ===== verification/Leet_Sums.thy ===== *)
theory Leet_Sums
  imports Leet_Scan "HOL-Library.Multiset"
begin

text \<open>
  Functions of the package \<open>leet\<close> that look for numbers with a given sum: \<open>three_sum.go\<close> (all triples that add up to 0),
  \<open>can_partition.go\<close> (two parts of equal sum) and \<open>numSquare.go\<close> (the least number of squares).
\<close>

subsection \<open>three_sum.go\<close>

function pair_loop :: "int list \<Rightarrow> nat \<Rightarrow> int list list \<Rightarrow> nat \<Rightarrow> nat \<Rightarrow> int list list" where
  "pair_loop nums i result lp rp =
     (if lp < rp then
        if rp < length nums - 1 \<and> nums ! rp = nums ! (rp + 1) then pair_loop nums i result lp (rp - 1)
        else if lp > i + 1 \<and> nums ! lp = nums ! (lp - 1) then pair_loop nums i result (lp + 1) rp
        else
          let cur = nums ! i; tot = wrap64 (wrap64 (nums ! lp + nums ! rp) + cur) in
          if tot = 0 then pair_loop nums i (result @ [[nums ! lp, nums ! rp, cur]]) (lp + 1) (rp - 1)
          else if tot < 0 then pair_loop nums i result (lp + 1) rp
          else pair_loop nums i result lp (rp - 1)
      else result)"
  by pat_completeness auto
termination by (relation "measure (\<lambda>(nums, i, result, lp, rp). rp - lp)") auto

function triple_loop :: "int list \<Rightarrow> int list list \<Rightarrow> nat \<Rightarrow> int list list" where
  "triple_loop nums result i =
     (if i < length nums then
        if nums ! i > 0 then result
        else if i > 0 \<and> nums ! i = nums ! (i - 1) then triple_loop nums result (i + 1)
        else triple_loop nums (pair_loop nums i result (i + 1) (length nums - 1)) (i + 1)
      else result)"
  by pat_completeness auto
termination by (relation "measure (\<lambda>(nums, result, i). length nums - i)") auto

text \<open>\<open>slices.Sort\<close> sorts the caller's slice; the second component is what the caller finds in it afterwards.\<close>

definition threeSum :: "int list \<Rightarrow> int list list \<times> int list" where
  "threeSum nums = (let nums = sort nums in (triple_loop nums [] 0, nums))"

subsection \<open>can_partition.go\<close>

function knap_loop :: "int \<Rightarrow> int list \<Rightarrow> int \<Rightarrow> int list go" where
  "knap_loop num dp j =
     (if j \<ge> num then
        bind_go (nth_int dp j) (\<lambda>x. bind_go (nth_int dp (wrap64 (j - num))) (\<lambda>y.
        bind_go (upd_go dp j (if x > wrap64 (y + num) then x else wrap64 (y + num))) (\<lambda>dp.
        knap_loop num dp (j - 1))))
      else Inr dp)"
  by pat_completeness auto
termination by (relation "measure (\<lambda>(num, dp, j). nat (j - num + 1))") auto

function part_loop :: "int list \<Rightarrow> int \<Rightarrow> int list \<Rightarrow> nat \<Rightarrow> bool go" where
  "part_loop nums target dp i =
     (if i < length nums then
        bind_go (knap_loop (nums ! i) dp target) (\<lambda>dp.
        bind_go (nth_int dp target) (\<lambda>x. if x = target then Inr True else part_loop nums target dp (i + 1)))
      else Inr False)"
  by pat_completeness auto
termination by (relation "measure (\<lambda>(nums, target, dp, i). length nums - i)") auto

text \<open>A total with remainder 0 is even, so that the division that truncates is exact.\<close>

definition canPartition :: "int list \<Rightarrow> bool go" where
  "canPartition nums =
     (if length nums < 2 then Inr False
      else
        let tot = foldl (\<lambda>t x. wrap64 (t + x)) 0 nums in
        if tot mod 2 \<noteq> 0 then Inr False
        else
          let target = tot div 2 in
          bind_go (make_slice (target + 1)) (\<lambda>dp.
          bind_go (upd_go dp 0 0) (\<lambda>dp. part_loop nums target dp 0)))"

subsection \<open>numSquare.go\<close>

text \<open>The slice \<open>dp\<close> has \<open>n + 1\<close> elements, so \<open>n\<close> is far below the numbers at which \<open>j * j\<close> would wrap around.\<close>

function square_loop :: "int list \<Rightarrow> nat \<Rightarrow> nat \<Rightarrow> int list" where
  "square_loop dp i j =
     (if 0 < j \<and> j * j \<le> i then square_loop (dp[i := min (dp ! (i - j * j) + 1) (dp ! i)]) i (j + 1) else dp)"
  by pat_completeness auto
termination
proof (relation "measure (\<lambda>(dp, i, j). Suc i - j)")
  fix i j :: nat assume "0 < j \<and> j * j \<le> i"
  then have "j \<le> i" by (metis Suc_leI le_trans mult_le_mono1 mult_1 One_nat_def)
  then show "((dp[i := min (dp ! (i - j * j) + 1) (dp ! i)], i, j + 1), dp, i, j) \<in> measure (\<lambda>(dp, i, j). Suc i - j)" for dp :: "int list"
    by simp
qed simp

function squares_loop :: "int list \<Rightarrow> nat \<Rightarrow> nat \<Rightarrow> int list" where
  "squares_loop dp n i = (if i \<le> n then squares_loop (square_loop dp i 2) n (i + 1) else dp)"
  by pat_completeness auto
termination by (relation "measure (\<lambda>(dp, n, i). Suc n - i)") auto

text \<open>\<open>make([]int, n+1)\<close> panics below \<open>-1\<close>, and \<open>dp[n]\<close> at \<open>-1\<close>.\<close>

definition numSquares :: "int \<Rightarrow> int go" where
  "numSquares n =
     (if n = 0 then Inr 0
      else if n = 1 then Inr 1
      else
        bind_go (make_slice (n + 1)) (\<lambda>dp.
        let dp = map int [0..<length dp] in
        nth_int (squares_loop dp (nat n) 1) n))"

declare knap_loop.simps [simp del] part_loop.simps [simp del] square_loop.simps [simp del] squares_loop.simps [simp del]
declare pair_loop.simps [simp del] triple_loop.simps [simp del]

subsection \<open>All triples that add up to 0\<close>

text \<open>
  The pairs of values the inner loop still has to find: those at a left end that is the first of its value behind \<open>i\<close> and a
  right end that is the last of its value.
\<close>

definition fresh :: "int list \<Rightarrow> nat \<Rightarrow> nat \<Rightarrow> nat \<Rightarrow> bool" where
  "fresh xs i l r \<longleftrightarrow> (l = Suc i \<or> xs ! (l - 1) \<noteq> xs ! l) \<and> (r = length xs - 1 \<or> xs ! r \<noteq> xs ! Suc r)"

definition good_pair :: "int list \<Rightarrow> nat \<Rightarrow> nat \<Rightarrow> nat \<Rightarrow> bool" where
  "good_pair xs i l r \<longleftrightarrow> fresh xs i l r \<and> xs ! l + xs ! r + xs ! i = 0"

definition open_pairs :: "int list \<Rightarrow> nat \<Rightarrow> nat \<Rightarrow> nat \<Rightarrow> (nat \<times> nat) set" where
  "open_pairs xs i lp rp = {(l, r). lp \<le> l \<and> l < r \<and> r \<le> rp \<and> good_pair xs i l r}"

definition small_ints :: "int list \<Rightarrow> bool" where
  "small_ints xs \<longleftrightarrow> (\<forall>x\<in>set xs. - (2 ^ 61) < x \<and> x < 2 ^ 61)"

lemma open_pairs_right:
  assumes "lp < rp" and "\<And>l. lp \<le> l \<Longrightarrow> l < rp \<Longrightarrow> \<not> good_pair xs i l rp"
  shows "open_pairs xs i lp rp = open_pairs xs i lp (rp - 1)"
proof -
  have "(l, r) \<in> open_pairs xs i lp rp \<longleftrightarrow> (l, r) \<in> open_pairs xs i lp (rp - 1)" for l r
    using assms by (cases "r = rp") (auto simp: open_pairs_def)
  then show ?thesis by auto
qed

lemma open_pairs_left:
  assumes "\<And>r. lp < r \<Longrightarrow> r \<le> rp \<Longrightarrow> \<not> good_pair xs i lp r"
  shows "open_pairs xs i lp rp = open_pairs xs i (Suc lp) rp"
  using assms unfolding open_pairs_def by (auto simp: Suc_le_eq order_le_less)

text \<open>In a sorted list a fresh end determines its position by the value.\<close>

lemma fresh_left_unique:
  assumes "sorted xs" and "i < l" and "l < l'" and "l' < length xs" and "fresh xs i l' r"
  shows "xs ! l < xs ! l'"
proof -
  have "xs ! l \<le> xs ! (l' - 1)" "xs ! (l' - 1) \<le> xs ! l'" using assms(1-4) by (auto intro!: sorted_nth_mono)
  moreover have "xs ! (l' - 1) \<noteq> xs ! l'" using assms(2,3,5) by (auto simp: fresh_def)
  ultimately show ?thesis by simp
qed

lemma fresh_right_unique:
  assumes "sorted xs" and "r' < r" and "r < length xs" and "fresh xs i l r'"
  shows "xs ! r' < xs ! r"
proof -
  have "xs ! Suc r' \<le> xs ! r" "xs ! r' \<le> xs ! Suc r'" using assms(1-3) by (auto intro!: sorted_nth_mono)
  moreover have "xs ! r' \<noteq> xs ! Suc r'" using assms(2,3,4) by (auto simp: fresh_def)
  ultimately show ?thesis by simp
qed

lemma small_sum:
  assumes "small_ints xs" and "l < length xs" and "r < length xs" and "i < length xs"
  shows "wrap64 (wrap64 (xs ! l + xs ! r) + xs ! i) = xs ! l + xs ! r + xs ! i"
proof -
  have "- (2 ^ 61) < xs ! k \<and> xs ! k < 2 ^ 61" if "k < length xs" for k using assms(1) that by (simp add: small_ints_def)
  note b = this [OF assms(2)] this [OF assms(3)] this [OF assms(4)]
  then show ?thesis by simp
qed

definition triple_at :: "int list \<Rightarrow> nat \<Rightarrow> nat \<times> nat \<Rightarrow> int list" where
  "triple_at xs i = (\<lambda>(l, r). [xs ! l, xs ! r, xs ! i])"

lemma open_pairs_low:
  assumes "sorted xs" and "rp < length xs" and "xs ! lp + xs ! rp + xs ! i < 0"
  shows "open_pairs xs i lp rp = open_pairs xs i (Suc lp) rp"
proof (rule open_pairs_left)
  fix r assume "lp < r" "r \<le> rp"
  then have "xs ! r \<le> xs ! rp" using assms(1,2) by (simp add: sorted_nth_mono)
  then show "\<not> good_pair xs i lp r" using assms(3) by (simp add: good_pair_def)
qed

lemma open_pairs_high:
  assumes "sorted xs" and "lp < rp" and "rp < length xs" and "0 < xs ! lp + xs ! rp + xs ! i"
  shows "open_pairs xs i lp rp = open_pairs xs i lp (rp - 1)"
proof (rule open_pairs_right [OF assms(2)])
  fix l assume "lp \<le> l" "l < rp"
  then have "xs ! lp \<le> xs ! l" using assms(1,3) by (simp add: sorted_nth_mono)
  then show "\<not> good_pair xs i l rp" using assms(4) by (simp add: good_pair_def)
qed

lemma open_pairs_found:
  assumes "sorted xs" and "i < lp" and "lp < rp" and "rp < length xs" and "good_pair xs i lp rp"
  shows "open_pairs xs i lp rp = insert (lp, rp) (open_pairs xs i (Suc lp) (rp - 1))" (is ?found)
    and "(l, r) \<in> open_pairs xs i (Suc lp) (rp - 1) \<Longrightarrow> xs ! lp \<noteq> xs ! l"
proof -
  have gl: "\<not> good_pair xs i lp r" if "lp < r" "r < rp" for r
    using fresh_right_unique [OF assms(1), of r rp i lp] that assms(4,5) by (auto simp: good_pair_def)
  have gr: "\<not> good_pair xs i l rp" if "lp < l" "l < rp" for l
    using fresh_left_unique [OF assms(1), of i lp l rp] that assms by (auto simp: good_pair_def)
  have "(l, r) \<in> open_pairs xs i lp rp \<longleftrightarrow> (l, r) \<in> insert (lp, rp) (open_pairs xs i (Suc lp) (rp - 1))" for l r
  proof (cases "l = lp \<or> r = rp")
    case True
    then show ?thesis using gl gr assms(3,5) by (auto simp: open_pairs_def order_le_less)
  next
    case False
    then show ?thesis using assms(3) by (auto simp: open_pairs_def)
  qed
  then show ?found by auto
  assume "(l, r) \<in> open_pairs xs i (Suc lp) (rp - 1)"
  then have "lp < l" "l < length xs" "fresh xs i l r" using assms(4) by (auto simp: open_pairs_def good_pair_def)
  then show "xs ! lp \<noteq> xs ! l" using fresh_left_unique [OF assms(1,2)] by fastforce
qed

lemma pair_loop_correct:
  assumes "sorted xs" and "small_ints xs" and "i < lp" and "rp < length xs"
  shows "\<exists>ys. pair_loop xs i result lp rp = result @ ys \<and> distinct ys \<and> set ys = triple_at xs i ` open_pairs xs i lp rp"
  using assms(3,4)
proof (induction "rp - lp" arbitrary: lp rp result rule: less_induct)
  case less
  let ?sum = "xs ! lp + xs ! rp + xs ! i" and ?t = "[xs ! lp, xs ! rp, xs ! i]"
  let ?skip_r = "rp < length xs - 1 \<and> xs ! rp = xs ! (rp + 1)" and ?skip_l = "lp > i + 1 \<and> xs ! lp = xs ! (lp - 1)"
  show ?case
  proof (cases "lp < rp")
    case False
    then have "open_pairs xs i lp rp = {}" by (auto simp: open_pairs_def)
    then show ?thesis using False by (subst pair_loop.simps) auto
  next
    case lt: True
    have w: "wrap64 (wrap64 (xs ! lp + xs ! rp) + xs ! i) = ?sum" using less.prems lt by (intro small_sum assms(2)) auto
    have step: "pair_loop xs i result lp rp =
        (if ?skip_r then pair_loop xs i result lp (rp - 1) else if ?skip_l then pair_loop xs i result (Suc lp) rp
         else if ?sum = 0 then pair_loop xs i (result @ [?t]) (Suc lp) (rp - 1)
         else if ?sum < 0 then pair_loop xs i result (Suc lp) rp else pair_loop xs i result lp (rp - 1))"
      using lt by (subst pair_loop.simps) (simp only: if_True Let_def w Suc_eq_plus1)
    have left: ?thesis if "pair_loop xs i result lp rp = pair_loop xs i result (Suc lp) rp" "open_pairs xs i lp rp = open_pairs xs i (Suc lp) rp"
      unfolding that using less.prems lt by (intro less.hyps) auto
    have right: ?thesis if "pair_loop xs i result lp rp = pair_loop xs i result lp (rp - 1)" "open_pairs xs i lp rp = open_pairs xs i lp (rp - 1)"
      unfolding that using less.prems lt by (intro less.hyps) auto
    have skip_r: "open_pairs xs i lp rp = open_pairs xs i lp (rp - 1)" if ?skip_r
      using that lt by (intro open_pairs_right) (auto simp: good_pair_def fresh_def)
    have skip_l: "open_pairs xs i lp rp = open_pairs xs i (Suc lp) rp" if ?skip_l
      using that by (intro open_pairs_left) (auto simp: good_pair_def fresh_def)
    consider (r) "?skip_r" | (l) "\<not> ?skip_r" "?skip_l" | (lo) "\<not> ?skip_r" "\<not> ?skip_l" "?sum < 0"
      | (hi) "\<not> ?skip_r" "\<not> ?skip_l" "0 < ?sum" | (eq) "\<not> ?skip_r" "\<not> ?skip_l" "?sum = 0" by linarith
    then show ?thesis
    proof cases
      case r
      then show ?thesis unfolding step by (intro right [unfolded step] skip_r) (rule if_P)
    next
      case l
      then show ?thesis unfolding step by (intro left [unfolded step] skip_l) (metis (full_types))
    next
      case lo
      have "pair_loop xs i result lp rp = pair_loop xs i result (Suc lp) rp" unfolding step if_not_P [OF lo(1)] if_not_P [OF lo(2)] using lo(3) by simp
      then show ?thesis using less.prems lo(3) by (intro left open_pairs_low assms(1))
    next
      case hi
      have "pair_loop xs i result lp rp = pair_loop xs i result lp (rp - 1)" unfolding step if_not_P [OF hi(1)] if_not_P [OF hi(2)] using hi(3) by simp
      then show ?thesis using less.prems lt hi(3) by (intro right open_pairs_high assms(1))
    next
      case eq
      then have "good_pair xs i lp rp" using less.prems by (auto simp: good_pair_def fresh_def)
      note found = open_pairs_found [OF assms(1) less.prems(1) lt less.prems(2) this]
      have m: "rp - 1 - Suc lp < rp - lp" "i < Suc lp" "rp - 1 < length xs" using less.prems lt by auto
      obtain ys where ys: "pair_loop xs i (result @ [?t]) (Suc lp) (rp - 1) = (result @ [?t]) @ ys"
        "distinct ys" "set ys = triple_at xs i ` open_pairs xs i (Suc lp) (rp - 1)"
        using less.hyps [OF m, of "result @ [?t]"] by auto
      have "pair_loop xs i result lp rp = result @ ?t # ys" unfolding step if_not_P [OF eq(1)] if_not_P [OF eq(2)] using eq(3) ys(1) by simp
      moreover have "?t \<notin> set ys" unfolding ys(3) using found(2) by (auto simp: triple_at_def)
      ultimately show ?thesis using ys(2,3) unfolding found(1) by (intro exI [of _ "?t # ys"]) (simp add: triple_at_def)
    qed
  qed
qed

text \<open>The triples with the value at \<open>i\<close> as the least one, and what the outer loop adds from \<open>i\<close> on.\<close>

definition triples_at :: "int list \<Rightarrow> nat \<Rightarrow> int list set" where
  "triples_at xs i = {[xs ! l, xs ! r, xs ! i] | l r. i < l \<and> l < r \<and> r < length xs \<and> xs ! l + xs ! r + xs ! i = 0}"

lemma first_of_value:
  assumes "sorted xs" and "i < l" and "l < length xs"
  shows "\<exists>k. i < k \<and> k \<le> l \<and> xs ! k = xs ! l \<and> (k = Suc i \<or> xs ! (k - 1) \<noteq> xs ! k)"
  using assms(2,3)
proof (induction l)
  case (Suc l)
  show ?case
  proof (cases "Suc l = Suc i \<or> xs ! l \<noteq> xs ! Suc l")
    case True
    then show ?thesis using Suc.prems by (intro exI [of _ "Suc l"]) auto
  next
    case False
    then obtain k where k: "i < k" "k \<le> l" "xs ! k = xs ! l" "k = Suc i \<or> xs ! (k - 1) \<noteq> xs ! k" using Suc by auto
    moreover have "xs ! k = xs ! Suc l" using False k(3) by metis
    ultimately show ?thesis by (intro exI [of _ k]) simp
  qed
qed simp

lemma last_of_value:
  assumes "r < length xs"
  shows "\<exists>k. r \<le> k \<and> k < length xs \<and> xs ! k = xs ! r \<and> (k = length xs - 1 \<or> xs ! k \<noteq> xs ! Suc k)"
  using assms
proof (induction "length xs - r" arbitrary: r)
  case (Suc n)
  show ?case
  proof (cases "r = length xs - 1 \<or> xs ! r \<noteq> xs ! Suc r")
    case True
    then show ?thesis using Suc.prems by blast
  next
    case False
    then have n: "n = length xs - Suc r" "Suc r < length xs" using Suc.prems Suc.hyps(2) by auto
    then obtain k where k: "Suc r \<le> k" "k < length xs" "xs ! k = xs ! Suc r" "k = length xs - 1 \<or> xs ! k \<noteq> xs ! Suc k"
      using Suc.hyps(1) [OF n] by blast
    moreover have "xs ! k = xs ! r" using False k(3) by metis
    ultimately show ?thesis by (intro exI [of _ k]) simp
  qed
qed simp

lemma open_pairs_all:
  assumes "sorted xs"
  shows "triple_at xs i ` open_pairs xs i (Suc i) (length xs - 1) = triples_at xs i"
proof (intro equalityI subsetI)
  fix t assume "t \<in> triple_at xs i ` open_pairs xs i (Suc i) (length xs - 1)"
  then obtain l r where "Suc i \<le> l" "l < r" "r \<le> length xs - 1" "xs ! l + xs ! r + xs ! i = 0" "t = [xs ! l, xs ! r, xs ! i]"
    by (auto simp: triple_at_def open_pairs_def good_pair_def)
  then show "t \<in> triples_at xs i" unfolding triples_at_def by (intro CollectI exI [of _ l] exI [of _ r]) auto
next
  fix t assume "t \<in> triples_at xs i"
  then obtain l r where lr: "i < l" "l < r" "r < length xs" "xs ! l + xs ! r + xs ! i = 0" and t: "t = [xs ! l, xs ! r, xs ! i]"
    by (auto simp: triples_at_def)
  obtain l' where l': "i < l'" "l' \<le> l" "xs ! l' = xs ! l" "l' = Suc i \<or> xs ! (l' - 1) \<noteq> xs ! l'"
    using first_of_value [OF assms lr(1)] lr by fastforce
  obtain r' where r': "r \<le> r'" "r' < length xs" "xs ! r' = xs ! r" "r' = length xs - 1 \<or> xs ! r' \<noteq> xs ! Suc r'"
    using last_of_value [OF lr(3)] by blast
  have "fresh xs i l' r'" using l'(4) r'(4) unfolding fresh_def by blast
  moreover have "xs ! l' + xs ! r' + xs ! i = 0" unfolding l'(3) r'(3) by (rule lr(4))
  ultimately have "(l', r') \<in> open_pairs xs i (Suc i) (length xs - 1)"
    using l'(1,2) r'(1,2) lr(2) by (simp add: open_pairs_def good_pair_def)
  moreover have "t = triple_at xs i (l', r')" unfolding t triple_at_def by (simp only: l'(3) r'(3) prod.case)
  ultimately show "t \<in> triple_at xs i ` open_pairs xs i (Suc i) (length xs - 1)" by blast
qed

lemma triples_at_pos: "sorted xs \<Longrightarrow> 0 < xs ! i \<Longrightarrow> i \<le> j \<Longrightarrow> triples_at xs j = {}"
proof -
  assume a: "sorted xs" "0 < xs ! i" "i \<le> j"
  have "0 < xs ! l + xs ! r + xs ! j" if "j < l" "l < r" "r < length xs" for l r
    using a that sorted_nth_mono [OF a(1), of i l] sorted_nth_mono [OF a(1), of i r] sorted_nth_mono [OF a(1), of i j] by auto
  then show ?thesis by (fastforce simp: triples_at_def)
qed

lemma triples_at_same:
  assumes "xs ! i = xs ! j" and "j \<le> i"
  shows "triples_at xs i \<subseteq> triples_at xs j"
proof
  fix t assume "t \<in> triples_at xs i"
  then obtain l r where lr: "i < l" "l < r" "r < length xs" "xs ! l + xs ! r + xs ! i = 0" and t: "t = [xs ! l, xs ! r, xs ! i]"
    by (auto simp: triples_at_def)
  then show "t \<in> triples_at xs j" unfolding triples_at_def assms(1)
    using assms(2) by (intro CollectI exI [of _ l] exI [of _ r]) auto
qed

lemma triples_at_last: "t \<in> triples_at xs i \<Longrightarrow> t ! 2 = xs ! i"
  by (auto simp: triples_at_def)

lemma triple_loop_correct:
  assumes "sorted xs" and "small_ints xs" and "i \<le> length xs" and "distinct result" and "set result = (\<Union>j<i. triples_at xs j)"
  shows "distinct (triple_loop xs result i) \<and> set (triple_loop xs result i) = (\<Union>j<length xs. triples_at xs j)"
  using assms(3-5)
proof (induction "length xs - i" arbitrary: i result)
  case 0
  then have "triple_loop xs result i = result" by (subst triple_loop.simps) simp
  then show ?case using 0 by simp
next
  case (Suc n)
  then have i: "i < length xs" by simp
  have n: "n = length xs - Suc i" using Suc.hyps(2) by simp
  consider (stop) "0 < xs ! i" | (skip) "\<not> 0 < xs ! i" "i > 0 \<and> xs ! i = xs ! (i - 1)" | (go) "\<not> 0 < xs ! i" "\<not> (i > 0 \<and> xs ! i = xs ! (i - 1))" by blast
  then show ?case
  proof cases
    case stop
    have "{..<length xs} = {..<i} \<union> {i..<length xs}" using i by auto
    then have "(\<Union>j<length xs. triples_at xs j) = (\<Union>j<i. triples_at xs j)" using triples_at_pos [OF assms(1) stop] by simp
    then show ?thesis using stop i Suc.prems by (subst triple_loop.simps, subst triple_loop.simps) simp
  next
    case skip
    then have "triples_at xs i \<subseteq> triples_at xs (i - 1)" by (intro triples_at_same) auto
    moreover have "triples_at xs (i - 1) \<subseteq> set result" unfolding Suc.prems(3) using skip(2) by (intro UN_upper) simp
    ultimately have "set result = (\<Union>j<Suc i. triples_at xs j)" using Suc.prems(3) by (auto simp: lessThan_Suc)
    moreover have "triple_loop xs result i = triple_loop xs result (Suc i)"
      unfolding triple_loop.simps [of xs result i] if_P [OF i] if_not_P [OF skip(1)] if_P [OF skip(2)] by simp
    ultimately show ?thesis using Suc.hyps(1) [OF n] Suc.prems i by simp
  next
    case go
    have last: "length xs - 1 < length xs" using i by simp
    obtain ys where ys: "pair_loop xs i result (Suc i) (length xs - 1) = result @ ys" "distinct ys" "set ys = triples_at xs i"
      using pair_loop_correct [OF assms(1,2) lessI last, of i result] open_pairs_all [OF assms(1)] by metis
    have less: "xs ! j < xs ! i" if "j < i" for j
      using sorted_nth_mono [OF assms(1), of j "i - 1"] sorted_nth_mono [OF assms(1), of "i - 1" i] go(2) that i by fastforce
    have "t \<notin> triples_at xs i" if "j < i" "t \<in> triples_at xs j" for t j
      using less [OF that(1)] triples_at_last [OF that(2)] triples_at_last [of t xs i] by auto
    then have "set result \<inter> set ys = {}" unfolding Suc.prems(3) ys(3) by auto
    moreover have "triple_loop xs result i = triple_loop xs (result @ ys) (Suc i)"
      using go i ys(1) by (subst triple_loop.simps) (simp only: if_True if_False Suc_eq_plus1)
    ultimately show ?thesis using Suc.hyps(1) [OF n, of "result @ ys"] Suc.prems i ys by (simp add: lessThan_Suc Un_commute)
  qed
qed

lemma sorted_pick:
  assumes "sorted xs" and "add_mset a M \<subseteq># mset xs" and "\<forall>x\<in>#M. a \<le> x"
  shows "\<exists>p q. xs = p @ a # q \<and> M \<subseteq># mset q"
proof -
  have "a \<in> set xs" using assms(2) by (metis mset_subset_eqD set_mset_mset union_single_eq_member)
  then obtain p q where xs: "xs = p @ a # q" "a \<notin> set p" by (meson split_list_first)
  have "M \<subseteq># mset p + mset q" using assms(2) unfolding xs(1) by simp
  moreover have "count (mset p) x = 0" if "x \<in># M" for x
  proof -
    have "\<forall>y\<in>set p. y \<le> a" using assms(1) unfolding xs(1) by (auto simp: sorted_append)
    then show ?thesis using assms(3) that xs(2) by (metis count_eq_zero_iff order_antisym set_mset_mset)
  qed
  ultimately have "count M x \<le> count (mset q) x" for x
    by (cases "x \<in># M") (metis add_0 count_union mset_subset_eq_count, metis count_eq_zero_iff le0)
  then show ?thesis using xs(1) by (auto simp: subseteq_mset_def)
qed

lemma sorted_triple:
  assumes "sorted xs" and "{#a, b, c#} \<subseteq># mset xs" and "a \<le> b" and "b \<le> c"
  shows "\<exists>i l r. i < l \<and> l < r \<and> r < length xs \<and> xs ! i = a \<and> xs ! l = b \<and> xs ! r = c"
proof -
  have "add_mset a {#b, c#} \<subseteq># mset xs" "\<forall>x\<in>#{#b, c#}. a \<le> x" using assms by auto
  then obtain p q where 1: "xs = p @ a # q" "{#b, c#} \<subseteq># mset q" using sorted_pick [OF assms(1)] by blast
  have s: "sorted q" using assms(1) unfolding 1(1) by (simp add: sorted_append)
  have "\<forall>x\<in>#{#c#}. b \<le> x" using assms by auto
  then obtain p' q' where 2: "q = p' @ b # q'" "{#c#} \<subseteq># mset q'" using sorted_pick [OF s 1(2)] by blast
  obtain p'' q'' where 3: "q' = p'' @ c # q''" using 2(2) split_list [of c q'] by auto
  show ?thesis unfolding 1 2 3
    by (intro exI [of _ "length p"] exI [of _ "Suc (length p + length p')"] exI [of _ "Suc (Suc (length p + length p' + length p''))"])
      (auto simp: nth_append nth_Cons split: nat.splits)
qed

lemma triple_mset_subset:
  assumes "i < l" and "l < r" and "r < length xs"
  shows "{#xs ! i, xs ! l, xs ! r#} \<subseteq># mset xs"
proof -
  have "inj_on id {i, l, r}" "{i, l, r} \<subseteq> {..<length xs}" using assms by auto
  then have "image_mset ((!) xs) (mset_set {i, l, r}) \<subseteq># image_mset ((!) xs) (mset_set {..<length xs})"
    by (intro image_mset_subseteq_mono) simp
  moreover have "image_mset ((!) xs) (mset_set {i, l, r}) = {#xs ! i, xs ! l, xs ! r#}" using assms by simp
  moreover have "image_mset ((!) xs) (mset_set {..<length xs}) = mset xs"
    by (metis lessThan_atLeast0 map_nth mset_map mset_upt)
  ultimately show ?thesis by simp
qed

lemma all_triples:
  assumes "sorted xs"
  shows "mset ` (\<Union>i<length xs. triples_at xs i) = {M. M \<subseteq># mset xs \<and> size M = 3 \<and> sum_mset M = 0}"
proof (intro equalityI subsetI)
  fix M assume "M \<in> mset ` (\<Union>i<length xs. triples_at xs i)"
  then obtain i l r where "i < l" "l < r" "r < length xs" "xs ! l + xs ! r + xs ! i = 0" "M = {#xs ! l, xs ! r, xs ! i#}"
    by (auto simp: triples_at_def)
  moreover from this have "M = {#xs ! i, xs ! l, xs ! r#}" by (simp add: add_mset_commute)
  ultimately show "M \<in> {M. M \<subseteq># mset xs \<and> size M = 3 \<and> sum_mset M = 0}" using triple_mset_subset by auto
next
  fix M assume "M \<in> {M. M \<subseteq># mset xs \<and> size M = 3 \<and> sum_mset M = 0}"
  then have M: "M \<subseteq># mset xs" "size M = 3" "sum_mset M = 0" by auto
  let ?ms = "sorted_list_of_multiset M"
  have ms: "mset ?ms = M" by simp
  have "length ?ms = 3" using M(2) ms by (metis size_mset)
  then obtain a b c where abc': "?ms = [a, b, c]" by (auto simp: numeral_3_eq_3 length_Suc_conv)
  have "sorted ?ms" by simp
  then have abc: "?ms = [a, b, c]" "a \<le> b" "b \<le> c" unfolding abc' by auto
  have M3: "M = {#a, b, c#}" using ms abc(1) by (metis mset.simps)
  obtain i l r where ilr: "i < l" "l < r" "r < length xs" "xs ! i = a" "xs ! l = b" "xs ! r = c"
    using sorted_triple [OF assms _ abc(2,3)] M(1) M3 by metis
  have "[b, c, a] \<in> triples_at xs i" unfolding triples_at_def
    using ilr M(3) M3 by (intro CollectI exI [of _ l] exI [of _ r]) (auto simp: algebra_simps)
  moreover have "M = mset [b, c, a]" using M3 by (simp add: add_mset_commute)
  ultimately show "M \<in> mset ` (\<Union>i<length xs. triples_at xs i)" using ilr by (intro image_eqI [of _ _ "[b, c, a]"]) auto
qed

lemma triples_mset_inject:
  assumes "sorted xs"
  shows "inj_on mset (\<Union>i<length xs. triples_at xs i)"
proof (rule inj_onI)
  fix s t assume st: "s \<in> (\<Union>i<length xs. triples_at xs i)" "t \<in> (\<Union>i<length xs. triples_at xs i)" "mset s = mset t"
  have ord: "\<exists>a b c. u = [b, c, a] \<and> sorted [a, b, c]" if "u \<in> (\<Union>i<length xs. triples_at xs i)" for u
    using that assms by (auto simp: triples_at_def intro!: sorted_nth_mono)
  obtain a b c a' b' c' where s: "s = [b, c, a]" "sorted [a, b, c]" and t: "t = [b', c', a']" "sorted [a', b', c']"
    using ord [OF st(1)] ord [OF st(2)] by blast
  have "mset [a, b, c] = mset [a', b', c']" using st(3) unfolding s t by (simp add: add_mset_commute)
  then have "[a, b, c] = [a', b', c']" using s(2) t(2) by (metis properties_for_sort sorted_sort_id)
  then show "s = t" unfolding s t by simp
qed

text \<open>
  \<open>threeSum\<close> on numbers below \<open>2 ^ 61\<close> in absolute value lists, each once, the triples of entries of the slice
  that add up to 0: as multisets they are exactly the three-element parts of the slice with sum 0. The caller's slice
  is sorted afterwards.
\<close>
theorem three_sum_all:
  assumes "small_ints nums" and "threeSum nums = (result, nums')"
  shows "nums' = sort nums \<and> distinct (map mset result) \<and>
    set (map mset result) = {M. M \<subseteq># mset nums \<and> size M = 3 \<and> sum_mset M = 0}"
proof -
  have small: "small_ints (sort nums)" using assms(1) by (simp add: small_ints_def)
  have res: "distinct result" "set result = (\<Union>i<length (sort nums). triples_at (sort nums) i)"
    using triple_loop_correct [OF sorted_sort small, of 0 "[]"] assms(2) by (auto simp: threeSum_def Let_def)
  have "nums' = sort nums" using assms(2) by (simp add: threeSum_def Let_def)
  moreover have "distinct (map mset result)" unfolding distinct_map res(2) using res(1) triples_mset_inject [OF sorted_sort] by blast
  moreover have "set (map mset result) = {M. M \<subseteq># mset nums \<and> size M = 3 \<and> sum_mset M = 0}"
    unfolding set_map res(2) all_triples [OF sorted_sort] by simp
  ultimately show ?thesis by blast
qed

theorem three_sum_all_witness:
  "threeSum [-1, 0, 1, 2, -1, -4] = ([[-1, 2, -1], [0, 1, -1]], [-4, -1, -1, 0, 1, 2]) \<and>
   set (map mset [[-1, 2, -1], [0, 1, -1]]) = {M. M \<subseteq># mset [-1, 0, 1, 2, -1, -4] \<and> size M = 3 \<and> sum_mset M = (0 :: int)}"
proof -
  have "threeSum [-1, 0, 1, 2, -1, -4] = ([[-1, 2, -1], [0, 1, -1]], [-4, -1, -1, 0, 1, 2])" by code_simp
  moreover have "small_ints [-1, 0, 1, 2, -1, -4]" by (simp add: small_ints_def)
  ultimately show ?thesis using three_sum_all by blast
qed

subsection \<open>Two parts of equal sum\<close>

definition sub_sums :: "int list \<Rightarrow> nat \<Rightarrow> int set" where
  "sub_sums nums i = (\<lambda>S. \<Sum>k\<in>S. nums ! k) ` Pow {..<i}"

lemma sub_sums_0 [simp]: "sub_sums nums 0 = {0}"
  by (simp add: sub_sums_def)

lemma sub_sums_Suc: "sub_sums nums (Suc i) = sub_sums nums i \<union> (\<lambda>y. y + nums ! i) ` sub_sums nums i"
proof -
  have "(\<Sum>k\<in>insert i S. nums ! k) = (\<Sum>k\<in>S. nums ! k) + nums ! i" if "S \<in> Pow {..<i}" for S
    using that finite_subset [of S "{..<i}"] by (subst sum.insert) auto
  then have "(\<lambda>S. \<Sum>k\<in>insert i S. nums ! k) ` Pow {..<i} = (\<lambda>S. (\<Sum>k\<in>S. nums ! k) + nums ! i) ` Pow {..<i}"
    by (intro image_cong) auto
  then show ?thesis unfolding sub_sums_def lessThan_Suc Pow_insert image_Un image_image by simp
qed

lemma sub_sums_bounds: "\<forall>x\<in>set nums. 0 \<le> x \<Longrightarrow> i \<le> length nums \<Longrightarrow> y \<in> sub_sums nums i \<Longrightarrow> 0 \<le> y \<and> y \<le> (\<Sum>k<i. nums ! k)"
  unfolding sub_sums_def by (auto intro!: sum_nonneg sum_mono2)

text \<open>The entry \<open>j\<close> after \<open>i\<close> numbers: the greatest sum of some of them that is at most \<open>j\<close>.\<close>

definition knap :: "int list \<Rightarrow> nat \<Rightarrow> int \<Rightarrow> int set" where
  "knap nums i j = {y \<in> sub_sums nums i. y \<le> j}"

lemma knap_Suc: "knap nums (Suc i) j = knap nums i j \<union> (\<lambda>y. y + nums ! i) ` knap nums i (j - nums ! i)"
  unfolding knap_def sub_sums_Suc by (auto simp: algebra_simps)

lemma knap_Suc_small:
  assumes "\<forall>x\<in>set nums. 0 \<le> x" and "i < length nums" and "j < nums ! i"
  shows "knap nums (Suc i) j = knap nums i j"
proof -
  have "knap nums i (j - nums ! i) = {}" using sub_sums_bounds [OF assms(1), of i] assms(2,3) by (force simp: knap_def)
  then show ?thesis by (simp add: knap_Suc)
qed

lemma knap_loop_correct:
  assumes "\<forall>x\<in>set nums. 0 \<le> x" and "i < length nums" and "in_range (\<Sum>k<length nums. nums ! k)"
    and "0 \<le> target" and "target < 2 ^ 63" and "length dp = nat (target + 1)" and "j \<le> target" and "nums ! i - 1 \<le> j"
    and "\<forall>l. 0 \<le> l \<longrightarrow> l \<le> target \<longrightarrow> greatest (knap nums (if l \<le> j then i else Suc i) l) (dp ! nat l)"
  shows "\<exists>dp'. knap_loop (nums ! i) dp j = Inr dp' \<and> length dp' = nat (target + 1) \<and>
    (\<forall>l. 0 \<le> l \<longrightarrow> l \<le> target \<longrightarrow> greatest (knap nums (Suc i) l) (dp' ! nat l))"
  using assms(6-9)
proof (induction "nat (j - nums ! i + 1)" arbitrary: j dp)
  case 0
  then have j: "j = nums ! i - 1" by simp
  have "greatest (knap nums (Suc i) l) (dp ! nat l)" if "0 \<le> l" "l \<le> target" for l
    using 0(5) that knap_Suc_small [OF assms(1,2), of l] j by (cases "l \<le> j") auto
  then show ?case using j 0 by (subst knap_loop.simps) simp
next
  case (Suc n)
  have num: "0 \<le> nums ! i" using assms(1,2) by simp
  have j: "nums ! i \<le> j" "0 \<le> j" using Suc.hyps(2) num by auto
  let ?y = "dp ! nat (j - nums ! i)"
  have gx: "greatest (knap nums i j) (dp ! nat j)" and gy: "greatest (knap nums i (j - nums ! i)) ?y"
    using Suc.prems(4) [rule_format, of j] Suc.prems(4) [rule_format, of "j - nums ! i"] j num Suc.prems(2) by auto
  have "?y + nums ! i \<in> sub_sums nums (Suc i)" using gy unfolding sub_sums_Suc by (auto simp: greatest_def knap_def)
  then have b: "0 \<le> ?y + nums ! i" "?y + nums ! i \<le> (\<Sum>k<Suc i. nums ! k)" using sub_sums_bounds [OF assms(1) Suc_leI [OF assms(2)]] by blast+
  moreover have "(\<Sum>k<Suc i. nums ! k) \<le> (\<Sum>k<length nums. nums ! k)" using assms(1,2) by (intro sum_mono2) auto
  ultimately have wy: "wrap64 (?y + nums ! i) = ?y + nums ! i" using assms(3) by (simp add: in_range_def)
  have wj: "wrap64 (j - nums ! i) = j - nums ! i" using j num Suc.prems(2) assms(5) by simp
  let ?dp = "dp[nat j := max (dp ! nat j) (?y + nums ! i)]"
  have step: "knap_loop (nums ! i) dp j = knap_loop (nums ! i) ?dp (j - 1)"
    using j num Suc.prems(1,2) by (subst knap_loop.simps) (simp add: wj wy upd_go_def max_def)
  have new: "greatest (knap nums (Suc i) j) (max (dp ! nat j) (?y + nums ! i))"
    unfolding knap_Suc by (intro greatest_Un gx greatest_plus gy)
  have "\<forall>l. 0 \<le> l \<longrightarrow> l \<le> target \<longrightarrow> greatest (knap nums (if l \<le> j - 1 then i else Suc i) l) (?dp ! nat l)"
  proof (intro allI impI)
    fix l assume l: "0 \<le> l" "l \<le> target"
    show "greatest (knap nums (if l \<le> j - 1 then i else Suc i) l) (?dp ! nat l)"
      using Suc.prems(4) [rule_format, OF l] new l j Suc.prems(1,2) by (cases "l = j") (auto simp: nat_eq_iff)
  qed
  then show ?case unfolding step using Suc j by (intro Suc.hyps(1)) auto
qed

lemma sub_sums_mono: "i \<le> i' \<Longrightarrow> sub_sums nums i \<subseteq> sub_sums nums i'"
  unfolding sub_sums_def by (intro image_mono Pow_mono) auto

lemma part_loop_correct:
  assumes "\<forall>x\<in>set nums. 0 \<le> x" and "in_range (\<Sum>k<length nums. nums ! k)" and "0 \<le> target" and "target < 2 ^ 63"
    and "length dp = nat (target + 1)" and "i \<le> length nums"
    and "\<forall>l. 0 \<le> l \<longrightarrow> l \<le> target \<longrightarrow> greatest (knap nums i l) (dp ! nat l)" and "target \<notin> sub_sums nums i"
  shows "part_loop nums target dp i = Inr (target \<in> sub_sums nums (length nums))"
  using assms(5-8)
proof (induction "length nums - i" arbitrary: i dp)
  case 0
  then show ?case by (subst part_loop.simps) simp
next
  case (Suc n)
  then have i: "i < length nums" by simp
  obtain dp' where dp': "knap_loop (nums ! i) dp target = Inr dp'" "length dp' = nat (target + 1)"
    "\<forall>l. 0 \<le> l \<longrightarrow> l \<le> target \<longrightarrow> greatest (knap nums (Suc i) l) (dp' ! nat l)"
  proof (cases "nums ! i - 1 \<le> target")
    case True
    have "\<forall>l. 0 \<le> l \<longrightarrow> l \<le> target \<longrightarrow> greatest (knap nums (if l \<le> target then i else Suc i) l) (dp ! nat l)"
      using Suc.prems(3) by simp
    then show ?thesis using knap_loop_correct [OF assms(1) i assms(2,3,4) Suc.prems(1) order_refl True] that by blast
  next
    case False
    then have "knap_loop (nums ! i) dp target = Inr dp" by (subst knap_loop.simps) simp
    moreover have "knap nums (Suc i) l = knap nums i l" if "l \<le> target" for l
      using False that by (intro knap_Suc_small assms(1) i) simp
    ultimately show ?thesis using that [of dp] Suc.prems(1,3) by simp
  qed
  have "greatest (knap nums (Suc i) target) (dp' ! nat target)" using dp'(3) assms(3) by simp
  then have hit: "dp' ! nat target = target \<longleftrightarrow> target \<in> sub_sums nums (Suc i)" by (auto simp: greatest_def knap_def)
  have step: "part_loop nums target dp i = (if dp' ! nat target = target then Inr True else part_loop nums target dp' (Suc i))"
    using i dp'(1,2) assms(3) by (subst part_loop.simps) simp
  show ?case
  proof (cases "target \<in> sub_sums nums (Suc i)")
    case True
    then have "target \<in> sub_sums nums (length nums)" using sub_sums_mono [of "Suc i" "length nums" nums] i by auto
    then show ?thesis using step hit True by simp
  next
    case False
    then show ?thesis using step hit Suc.hyps(1) [of "Suc i" dp'] Suc.hyps(2) dp'(2,3) i by simp
  qed
qed

lemma wrapped_total:
  assumes "\<forall>x\<in>set nums. 0 \<le> x" and "i \<le> length nums" and "in_range (\<Sum>k<length nums. nums ! k)"
  shows "foldl (\<lambda>t x. wrap64 (t + x)) 0 (take i nums) = (\<Sum>k<i. nums ! k)"
  using assms(2)
proof (induction i)
  case (Suc i)
  have "0 \<le> (\<Sum>k<Suc i. nums ! k)" "(\<Sum>k<Suc i. nums ! k) \<le> (\<Sum>k<length nums. nums ! k)"
    using assms(1) Suc.prems by (auto intro!: sum_nonneg sum_mono2 simp del: sum.lessThan_Suc)
  then have "wrap64 (\<Sum>k<Suc i. nums ! k) = (\<Sum>k<Suc i. nums ! k)" using assms(3) by (simp add: in_range_def)
  then show ?case using Suc by (simp add: take_Suc_conv_app_nth)
qed simp

text \<open>
  \<open>canPartition\<close> on a nonempty slice of positive numbers whose total is a 64-bit integer returns whether some
  of them add up to half of the total, so that the others do so too.
\<close>
theorem can_partition_decides:
  assumes "nums \<noteq> []" and "\<forall>x\<in>set nums. 0 < x" and "(\<Sum>k<length nums. nums ! k) < 2 ^ 63"
  shows "canPartition nums = Inr (\<exists>S\<subseteq>{..<length nums}. (\<Sum>k\<in>S. nums ! k) = (\<Sum>k\<in>{..<length nums} - S. nums ! k))"
proof -
  let ?tot = "\<Sum>k<length nums. nums ! k"
  have nn: "\<forall>x\<in>set nums. 0 \<le> x" using assms(2) by auto
  have "nums ! 0 \<le> ?tot" using nn assms(1) by (intro member_le_sum) auto
  moreover have "0 < nums ! 0" using assms(1,2) by auto
  ultimately have pos: "0 < ?tot" by simp
  then have r: "in_range ?tot" using assms(3) by (simp add: in_range_def)
  have tot: "foldl (\<lambda>t x. wrap64 (t + x)) 0 nums = ?tot" using wrapped_total [OF nn order_refl r] by simp
  have rest: "(\<Sum>k\<in>S. nums ! k) = (\<Sum>k\<in>{..<length nums} - S. nums ! k) \<longleftrightarrow> 2 * (\<Sum>k\<in>S. nums ! k) = ?tot" if "S \<subseteq> {..<length nums}" for S
    using that by (auto simp: sum_diff)
  have half: "(\<exists>S\<subseteq>{..<length nums}. (\<Sum>k\<in>S. nums ! k) = (\<Sum>k\<in>{..<length nums} - S. nums ! k)) \<longleftrightarrow>
      (\<exists>y\<in>sub_sums nums (length nums). 2 * y = ?tot)"
    unfolding sub_sums_def using rest by (simp add: Bex_def conj_commute cong: conj_cong)
  consider (one) "length nums = 1" | (odd) "1 < length nums" "?tot mod 2 \<noteq> 0" | (even) "1 < length nums" "?tot mod 2 = 0"
    using assms(1) by (metis One_nat_def Suc_lessI length_greater_0_conv)
  then show ?thesis
  proof cases
    case one
    then have "\<not> (\<exists>y\<in>sub_sums nums (length nums). 2 * y = ?tot)" using pos by (auto simp: sub_sums_Suc)
    then show ?thesis unfolding half using one by (simp add: canPartition_def)
  next
    case odd
    then have "\<not> (\<exists>y\<in>sub_sums nums (length nums). 2 * y = ?tot)" by (metis mod_mult_self1_is_0)
    then show ?thesis unfolding half using odd by (simp add: canPartition_def tot)
  next
    case even
    let ?t = "?tot div 2"
    have t: "2 * ?t = ?tot" "0 < ?t" "?t < 2 ^ 63" using even(2) pos assms(3) by auto
    have "greatest (knap nums 0 l) ((replicate (nat (?t + 1)) 0)[0 := 0] ! nat l)" if "0 \<le> l" "l \<le> ?t" for l
    proof -
      have "knap nums 0 l = {0}" using that by (auto simp: knap_def)
      moreover have "(replicate (nat (?t + 1)) 0)[0 := 0] ! nat l = (0 :: int)" using that by (cases "nat l = 0") auto
      ultimately show ?thesis by (simp add: greatest_single)
    qed
    then have "part_loop nums ?t ((replicate (nat (?t + 1)) 0)[0 := 0]) 0 = Inr (?t \<in> sub_sums nums (length nums))"
      using t by (intro part_loop_correct nn r) auto
    moreover have "?t \<in> sub_sums nums (length nums) \<longleftrightarrow> (\<exists>y\<in>sub_sums nums (length nums). 2 * y = ?tot)"
      using t(1) by (metis nonzero_mult_div_cancel_left zero_neq_numeral)
    ultimately show ?thesis unfolding half using even t by (simp add: canPartition_def tot make_slice_def upd_go_def)
  qed
qed

theorem can_partition_decides_witness:
  "canPartition [1, 5, 11, 5] = Inr True \<and>
   (\<exists>S\<subseteq>{..<4}. (\<Sum>k\<in>S. [1, 5, 11, 5] ! k) = (\<Sum>k\<in>{..<4} - S. [1, 5, 11, 5] ! k :: int))"
proof -
  have "canPartition [1, 5, 11, 5] = Inr True" by code_simp
  moreover have "(\<Sum>k<length [1, 5, 11, 5]. [1, 5, 11, 5 :: int] ! k) < 2 ^ 63" by code_simp
  ultimately show ?thesis using can_partition_decides [of "[1, 5, 11, 5]"] by (simp add: eval_nat_numeral)
qed

subsection \<open>The least number of squares\<close>

definition square_counts :: "nat \<Rightarrow> int set" where
  "square_counts i = {int (length xs) | xs. (\<forall>x\<in>set xs. 0 < x) \<and> (\<Sum>x\<leftarrow>xs. x * x) = i}"

lemma square_counts_step: "y \<in> square_counts (i - j * j) \<Longrightarrow> 0 < j \<Longrightarrow> j * j \<le> i \<Longrightarrow> y + 1 \<in> square_counts i"
proof -
  assume a: "y \<in> square_counts (i - j * j)" "0 < j" "j * j \<le> i"
  then obtain xs where "y = int (length xs)" "\<forall>x\<in>set xs. 0 < x" "(\<Sum>x\<leftarrow>xs. x * x) = i - j * j" by (auto simp: square_counts_def)
  then show ?thesis unfolding square_counts_def using a(2,3) by (intro CollectI exI [of _ "j # xs"]) auto
qed

lemma square_counts_ones: "int i \<in> square_counts i"
  unfolding square_counts_def by (intro CollectI exI [of _ "replicate i 1"]) (auto simp: map_replicate_const sum_list_replicate)

text \<open>A sum of squares consists of ones, or has a square greater than 1 in it that can be taken out.\<close>

lemma square_counts_cases:
  assumes "y \<in> square_counts i"
  shows "y = int i \<or> (\<exists>j\<ge>2. j * j \<le> i \<and> y - 1 \<in> square_counts (i - j * j))"
proof -
  obtain xs where xs: "y = int (length xs)" "\<forall>x\<in>set xs. 0 < x" "(\<Sum>x\<leftarrow>xs. x * x) = i" using assms by (auto simp: square_counts_def)
  show ?thesis
  proof (cases "\<exists>j\<in>set xs. 2 \<le> j")
    case True
    then obtain j where j: "j \<in> set xs" "2 \<le> j" by blast
    have s: "(\<Sum>x\<leftarrow>xs. x * x) = j * j + (\<Sum>x\<leftarrow>remove1 j xs. x * x)" using j(1) by (rule sum_list_map_remove1)
    have "Suc 0 \<le> length xs" using j(1) by (cases xs) auto
    then have "y - 1 = int (length (remove1 j xs))" using xs(1) j(1) by (simp add: length_remove1 of_nat_diff)
    then have "y - 1 \<in> square_counts (i - j * j)" unfolding square_counts_def
      using xs s by (intro CollectI exI [of _ "remove1 j xs"]) (auto dest: notin_set_remove1)
    moreover have "j * j \<le> i" using s xs(3) by simp
    ultimately show ?thesis using j(2) by blast
  next
    case False
    then have "\<forall>x\<in>set xs. x = 1" using xs(2) by (metis Suc_leI less_2_cases_iff not_le not_less_zero One_nat_def order_less_le)
    then have "(\<Sum>x\<leftarrow>xs. x * x) = length xs" by (induction xs) auto
    then show ?thesis using xs by simp
  qed
qed

definition squares_upto :: "nat \<Rightarrow> nat \<Rightarrow> int set" where
  "squares_upto i j = insert (int i) (\<Union>k\<in>{k. 2 \<le> k \<and> k < j \<and> k * k \<le> i}. (\<lambda>y. y + 1) ` square_counts (i - k * k))"

lemma squares_upto_all: "i < j * j \<Longrightarrow> squares_upto i j = square_counts i"
proof (intro equalityI subsetI)
  fix y assume "y \<in> squares_upto i j"
  then show "y \<in> square_counts i" using square_counts_ones square_counts_step by (auto simp: squares_upto_def)
next
  fix y assume ij: "i < j * j" and "y \<in> square_counts i"
  then consider "y = int i" | k where "2 \<le> k" "k * k \<le> i" "y - 1 \<in> square_counts (i - k * k)" using square_counts_cases by blast
  then show "y \<in> squares_upto i j"
  proof cases
    case 2
    then have "k < j" using ij by (metis le_less_trans mult_le_mono not_less)
    moreover have "y \<in> (\<lambda>y. y + 1) ` square_counts (i - k * k)" using 2(3) by (intro image_eqI [of _ _ "y - 1"]) auto
    ultimately show ?thesis using 2 unfolding squares_upto_def by blast
  qed (simp add: squares_upto_def)
qed

lemma is_least_Suc: "is_least S x \<Longrightarrow> is_least ((\<lambda>y. y + 1) ` S) (x + 1)"
  by (auto simp: is_least_def)

lemma square_loop_correct:
  assumes "i < length dp" and "0 < i" and "2 \<le> j" and "\<forall>k<i. is_least (square_counts k) (dp ! k)" and "is_least (squares_upto i j) (dp ! i)"
  shows "length (square_loop dp i j) = length dp \<and> (\<forall>k. k \<noteq> i \<longrightarrow> square_loop dp i j ! k = dp ! k) \<and>
    is_least (square_counts i) (square_loop dp i j ! i)"
  using assms
proof (induction dp i j rule: square_loop.induct)
  case (1 dp i j)
  show ?case
  proof (cases "j * j \<le> i")
    case False
    then have "square_loop dp i j = dp" by (subst square_loop.simps) simp
    then show ?thesis using False 1 squares_upto_all [of i j] by simp
  next
    case True
    let ?dp = "dp[i := min (dp ! (i - j * j) + 1) (dp ! i)]"
    have step: "square_loop dp i j = square_loop ?dp i (j + 1)" using True 1 by (subst square_loop.simps) simp
    have "{k. 2 \<le> k \<and> k < Suc j \<and> k * k \<le> i} = insert j {k. 2 \<le> k \<and> k < j \<and> k * k \<le> i}" using True 1(4) by (auto simp: less_Suc_eq)
    then have "squares_upto i (Suc j) = (\<lambda>y. y + 1) ` square_counts (i - j * j) \<union> squares_upto i j" unfolding squares_upto_def by auto
    moreover have "i - j * j < i" using 1 True by (intro diff_less) auto
    then have "is_least ((\<lambda>y. y + 1) ` square_counts (i - j * j)) (dp ! (i - j * j) + 1)" using 1 by (intro is_least_Suc) simp
    ultimately have "is_least (squares_upto i (j + 1)) (?dp ! i)" using 1 least_Un by simp
    then have "length (square_loop ?dp i (j + 1)) = length ?dp \<and> (\<forall>k. k \<noteq> i \<longrightarrow> square_loop ?dp i (j + 1) ! k = ?dp ! k) \<and>
      is_least (square_counts i) (square_loop ?dp i (j + 1) ! i)" using 1 True by (intro 1(1)) auto
    then show ?thesis unfolding step by simp
  qed
qed

lemma squares_loop_correct:
  assumes "length dp = Suc n" and "0 < i" and "i \<le> Suc n" and "\<forall>k<i. is_least (square_counts k) (dp ! k)" and "\<forall>k. i \<le> k \<longrightarrow> k \<le> n \<longrightarrow> dp ! k = int k"
  shows "length (squares_loop dp n i) = Suc n \<and> (\<forall>k\<le>n. is_least (square_counts k) (squares_loop dp n i ! k))"
  using assms
proof (induction "Suc n - i" arbitrary: i dp)
  case 0
  then have "squares_loop dp n i = dp" by (subst squares_loop.simps) simp
  then show ?case using 0 by (simp add: less_Suc_eq_le)
next
  case (Suc m)
  then have i: "i \<le> n" by simp
  have "{k. 2 \<le> k \<and> k < 2 \<and> k * k \<le> i} = {}" by auto
  then have "squares_upto i 2 = {int i}" by (simp add: squares_upto_def)
  then have "is_least (squares_upto i 2) (dp ! i)" using Suc.prems(5) i by (simp add: is_least_def)
  then have sq: "length (square_loop dp i 2) = length dp \<and> (\<forall>k. k \<noteq> i \<longrightarrow> square_loop dp i 2 ! k = dp ! k) \<and>
    is_least (square_counts i) (square_loop dp i 2 ! i)" using Suc.prems i by (intro square_loop_correct) auto
  have step: "squares_loop dp n i = squares_loop (square_loop dp i 2) n (i + 1)" using i by (subst squares_loop.simps) simp
  show ?case unfolding step using Suc sq i by (intro Suc.hyps(1)) (auto simp: less_Suc_eq)
qed

text \<open>
  \<open>numSquares\<close> returns the least number of positive squares that add up to \<open>n\<close>, and panics below 0.
\<close>
theorem num_squares_least:
  "numSquares n =
     (if n < 0 then Inl (if n = - 1 then IndexOutOfRange else MakeSlice)
      else Inr (int (LEAST k. \<exists>xs. length xs = k \<and> (\<forall>x\<in>set xs. 0 < x) \<and> (\<Sum>x\<leftarrow>xs. x * x) = nat n)))"
proof (cases "n < 0")
  case True
  then show ?thesis by (auto simp: numSquares_def make_slice_def nth_int_def)
next
  case False
  have zero: "is_least (square_counts 0) 0" using square_counts_ones [of 0] by (auto simp: is_least_def square_counts_def)
  have "squares_upto 1 2 = square_counts 1" by (intro squares_upto_all) simp
  moreover have "{k. 2 \<le> k \<and> k < 2 \<and> k * k \<le> Suc 0} = {}" by auto
  ultimately have one: "square_counts (Suc 0) = {1}" by (simp add: squares_upto_def)
  have least: "\<exists>r. numSquares n = Inr r \<and> is_least (square_counts (nat n)) r"
  proof (cases "n \<le> 1")
    case True
    then show ?thesis using False zero one least_single by (cases "n = 0") (auto simp: numSquares_def le_less)
  next
    case big: False
    let ?dp = "map int [0..<Suc (nat n)]"
    have "length (squares_loop ?dp (nat n) 1) = Suc (nat n) \<and> (\<forall>k\<le>nat n. is_least (square_counts k) (squares_loop ?dp (nat n) 1 ! k))"
      using big zero by (intro squares_loop_correct) (auto simp del: upt_Suc)
    moreover have "nat (n + 1) = Suc (nat n)" using big by simp
    ultimately show ?thesis using big by (simp add: numSquares_def make_slice_def del: upt_Suc)
  qed
  then obtain r where r: "numSquares n = Inr r" "is_least (square_counts (nat n)) r" by blast
  let ?P = "\<lambda>k. \<exists>xs. length xs = k \<and> (\<forall>x\<in>set xs. 0 < x) \<and> (\<Sum>x\<leftarrow>xs. x * x) = nat n"
  obtain k where k: "r = int k" "?P k" using r(2) by (auto simp: is_least_def square_counts_def)
  have "k \<le> m" if "?P m" for m
  proof -
    have "int m \<in> square_counts (nat n)" using that by (auto simp: square_counts_def)
    then show ?thesis using r(2) k(1) by (auto simp: is_least_def)
  qed
  then have "(LEAST k. ?P k) = k" using k(2) by (intro Least_equality) auto
  then show ?thesis using r(1) k(1) False by simp
qed

end
