(* ===== verification/Leet_Matrix.thy ===== *)
theory Leet_Matrix
  imports Go_Prelude
begin

text \<open>
  Functions of the package \<open>leet\<close> on matrices, slices of rows: \<open>set_zero.go\<close> (rows and columns of zeros are cleared in place)
  and \<open>roll.go\<close> (the spiral order). An access outside of a row panics; the theorems are about rectangular matrices, on
  which there is no panic.
\<close>

type_synonym matrix = "int list list"

definition mat_get :: "'a list list \<Rightarrow> nat \<Rightarrow> nat \<Rightarrow> 'a go" where
  "mat_get mat i j = bind_go (nth_go mat i) (\<lambda>row. nth_go row j)"

definition mat_set :: "'a list list \<Rightarrow> nat \<Rightarrow> nat \<Rightarrow> 'a \<Rightarrow> 'a list list go" where
  "mat_set mat i j v = bind_go (nth_go mat i) (\<lambda>row. if j < length row then Inr (mat[i := row[j := v]]) else Inl IndexOutOfRange)"

text \<open>\<open>for i := a; i < b; i++\<close> with a body that changes neither \<open>i\<close> nor \<open>b\<close>.\<close>

function for_go :: "nat \<Rightarrow> nat \<Rightarrow> (nat \<Rightarrow> 's \<Rightarrow> 's go) \<Rightarrow> 's \<Rightarrow> 's go" where
  "for_go a b f s = (if a < b then bind_go (f a s) (for_go (a + 1) b f) else Inr s)"
  by pat_completeness auto
termination by (relation "measure (\<lambda>(a, b, f, s). b - a)") auto

subsection \<open>set_zero.go\<close>

definition mark_cell :: "nat \<Rightarrow> nat \<Rightarrow> matrix \<Rightarrow> matrix go" where
  "mark_cell i j mat =
     bind_go (mat_get mat i j) (\<lambda>v.
     if v = 0 then bind_go (mat_set mat i 0 0) (\<lambda>mat. mat_set mat 0 j 0) else Inr mat)"

definition clear_cell :: "nat \<Rightarrow> nat \<Rightarrow> matrix \<Rightarrow> matrix go" where
  "clear_cell i j mat =
     bind_go (mat_get mat 0 j) (\<lambda>u.
     bind_go (if u = 0 then Inr True else bind_go (mat_get mat i 0) (\<lambda>v. Inr (v = 0))) (\<lambda>z.
     if z then mat_set mat i j 0 else Inr mat))"

definition setZeroes :: "matrix \<Rightarrow> matrix go" where
  "setZeroes matrix =
     (if length matrix = 0 then Inr matrix
      else
        let m = length matrix; n = length (matrix ! 0) in
        bind_go (for_go 0 m (\<lambda>i fr. bind_go (mat_get matrix i 0) (\<lambda>v. Inr (if v = 0 then True else fr))) False) (\<lambda>firstRow.
        bind_go (for_go 0 n (\<lambda>j fc. bind_go (mat_get matrix 0 j) (\<lambda>v. Inr (if v = 0 then True else fc))) False) (\<lambda>firstCol.
        bind_go (for_go 1 m (\<lambda>i. for_go 1 n (mark_cell i)) matrix) (\<lambda>matrix.
        bind_go (for_go 1 m (\<lambda>i. for_go 1 n (clear_cell i)) matrix) (\<lambda>matrix.
        bind_go (if firstRow then for_go 0 m (\<lambda>i mat. mat_set mat i 0 0) matrix else Inr matrix) (\<lambda>matrix.
        if firstCol then for_go 0 n (\<lambda>i mat. mat_set mat 0 i 0) matrix else Inr matrix))))))"

declare for_go.simps [simp del]

subsection \<open>Loops and cells\<close>

lemma for_go_inv:
  assumes "a \<le> b" and "Inv a s" and "\<And>i s. a \<le> i \<Longrightarrow> i < b \<Longrightarrow> Inv i s \<Longrightarrow> \<exists>s'. f i s = Inr s' \<and> Inv (Suc i) s'"
  shows "\<exists>s'. for_go a b f s = Inr s' \<and> Inv b s'"
  using assms
proof (induction "b - a" arbitrary: a s)
  case 0
  then show ?case by (subst for_go.simps) auto
next
  case (Suc n)
  then obtain s' where s': "f a s = Inr s'" "Inv (Suc a) s'" by (metis diff_is_0_eq nat.distinct(1) not_le order_refl)
  have "\<exists>s''. for_go (Suc a) b f s' = Inr s'' \<and> Inv b s''"
    using Suc.hyps(2) s'(2) Suc.prems(3) by (intro Suc.hyps(1)) auto
  moreover have "a < b" using Suc.hyps(2) by simp
  ultimately show ?case using s'(1) by (subst for_go.simps) simp
qed

definition rect :: "'a list list \<Rightarrow> nat \<Rightarrow> nat \<Rightarrow> bool" where
  "rect mat m n \<longleftrightarrow> length mat = m \<and> (\<forall>i<m. length (mat ! i) = n)"

lemma mat_get_rect [simp]: "rect mat m n \<Longrightarrow> i < m \<Longrightarrow> j < n \<Longrightarrow> mat_get mat i j = Inr (mat ! i ! j)"
  by (simp add: mat_get_def nth_go_def rect_def)

lemma mat_set_rect: "rect mat m n \<Longrightarrow> i < m \<Longrightarrow> j < n \<Longrightarrow> mat_set mat i j v = Inr (mat[i := (mat ! i)[j := v]])"
  by (simp add: mat_set_def nth_go_def rect_def)

lemma rect_set: "rect mat m n \<Longrightarrow> i < m \<Longrightarrow> rect (mat[i := (mat ! i)[j := v]]) m n"
  by (auto simp: rect_def nth_list_update)

lemma cell_set:
  "rect mat m n \<Longrightarrow> i < m \<Longrightarrow> j < n \<Longrightarrow> a < m \<Longrightarrow> b < n \<Longrightarrow>
    mat[i := (mat ! i)[j := v]] ! a ! b = (if a = i \<and> b = j then v else mat ! a ! b)"
  by (auto simp: rect_def nth_list_update)

text \<open>\<open>has_cells mat m n c\<close>: the matrix is rectangular and has the cells \<open>c\<close>.\<close>

definition has_cells :: "'a list list \<Rightarrow> nat \<Rightarrow> nat \<Rightarrow> (nat \<Rightarrow> nat \<Rightarrow> 'a) \<Rightarrow> bool" where
  "has_cells mat m n c \<longleftrightarrow> rect mat m n \<and> (\<forall>i<m. \<forall>j<n. mat ! i ! j = c i j)"

lemma has_cells_get: "has_cells mat m n c \<Longrightarrow> i < m \<Longrightarrow> j < n \<Longrightarrow> mat_get mat i j = Inr (c i j)"
  by (auto simp: has_cells_def)

lemma has_cells_set:
  assumes "has_cells mat m n c" and "i < m" and "j < n" and "\<And>a b. a < m \<Longrightarrow> b < n \<Longrightarrow> c' a b = (if a = i \<and> b = j then v else c a b)"
  shows "\<exists>mat'. mat_set mat i j v = Inr mat' \<and> has_cells mat' m n c'"
  using assms by (auto simp: has_cells_def mat_set_rect rect_set cell_set)

lemma has_cells_cong: "has_cells mat m n c \<Longrightarrow> (\<And>i j. i < m \<Longrightarrow> j < n \<Longrightarrow> c i j = c' i j) \<Longrightarrow> has_cells mat m n c'"
  by (simp add: has_cells_def)

lemma has_cells_unique: "has_cells mat m n c \<Longrightarrow> mat = map (\<lambda>i. map (c i) [0..<n]) [0..<m]"
  by (auto simp: has_cells_def rect_def intro!: nth_equalityI)

subsection \<open>Rows and columns with a zero\<close>

text \<open>The cells visited by the two nested loops before cell \<open>(i, j)\<close>.\<close>

definition before :: "nat \<Rightarrow> nat \<Rightarrow> nat \<Rightarrow> (nat \<times> nat) set" where
  "before n i j = {(a, b). 1 \<le> a \<and> 1 \<le> b \<and> b < n \<and> (a < i \<or> a = i \<and> b < j)}"

lemma before_Suc: "1 \<le> i \<Longrightarrow> 1 \<le> j \<Longrightarrow> j < n \<Longrightarrow> before n i (Suc j) = insert (i, j) (before n i j)"
  by (auto simp: before_def less_Suc_eq)

lemma before_row: "1 \<le> n \<Longrightarrow> before n i n = before n (Suc i) 1"
  by (auto simp: before_def less_Suc_eq)

lemma nested_loops:
  assumes "1 \<le> m" and "1 \<le> n" and "has_cells mat m n (c {})"
    and "\<And>i j mat. 1 \<le> i \<Longrightarrow> i < m \<Longrightarrow> 1 \<le> j \<Longrightarrow> j < n \<Longrightarrow> has_cells mat m n (c (before n i j)) \<Longrightarrow>
      \<exists>mat'. f i j mat = Inr mat' \<and> has_cells mat' m n (c (insert (i, j) (before n i j)))"
  shows "\<exists>mat'. for_go 1 m (\<lambda>i. for_go 1 n (f i)) mat = Inr mat' \<and> has_cells mat' m n (c (before n m 1))"
proof (rule for_go_inv [OF assms(1), where Inv = "\<lambda>i mat. has_cells mat m n (c (before n i 1))"])
  have "before n 1 1 = {}" by (auto simp: before_def)
  then show "has_cells mat m n (c (before n 1 1))" using assms(3) by simp
  fix i mat assume i: "1 \<le> i" "i < m" "has_cells mat m n (c (before n i 1))"
  have "\<exists>mat'. for_go 1 n (f i) mat = Inr mat' \<and> has_cells mat' m n (c (before n i n))"
  proof (rule for_go_inv [OF assms(2), where Inv = "\<lambda>j mat. has_cells mat m n (c (before n i j))", OF i(3)])
    fix j mat assume "1 \<le> j" "j < n" "has_cells mat m n (c (before n i j))"
    then show "\<exists>mat'. f i j mat = Inr mat' \<and> has_cells mat' m n (c (before n i (Suc j)))" using assms(4) i before_Suc by simp
  qed
  then show "\<exists>mat'. for_go 1 n (f i) mat = Inr mat' \<and> has_cells mat' m n (c (before n (Suc i) 1))" using before_row [OF assms(2)] by simp
qed

text \<open>The cells after the zeros of \<open>D\<close> have been marked in the first row and column, and after those of \<open>D\<close> have been cleared.\<close>

definition zero_marked :: "(nat \<Rightarrow> nat \<Rightarrow> int) \<Rightarrow> (nat \<times> nat) set \<Rightarrow> nat \<Rightarrow> nat \<Rightarrow> int" where
  "zero_marked c D i j =
     (if j = 0 \<and> 1 \<le> i \<and> (\<exists>b. (i, b) \<in> D \<and> c i b = 0) \<or> i = 0 \<and> 1 \<le> j \<and> (\<exists>a. (a, j) \<in> D \<and> c a j = 0) then 0 else c i j)"

definition cleared :: "(nat \<Rightarrow> nat \<Rightarrow> int) \<Rightarrow> (nat \<times> nat) set \<Rightarrow> nat \<Rightarrow> nat \<Rightarrow> int" where
  "cleared c D i j = (if (i, j) \<in> D \<and> (c 0 j = 0 \<or> c i 0 = 0) then 0 else c i j)"

lemma mark_cell_correct:
  assumes "1 \<le> i" and "i < m" and "1 \<le> j" and "j < n" and "has_cells mat m n (zero_marked c D)"
  shows "\<exists>mat'. mark_cell i j mat = Inr mat' \<and> has_cells mat' m n (zero_marked c (insert (i, j) D))"
proof -
  have v: "mat_get mat i j = Inr (c i j)" using has_cells_get [OF assms(5,2,4)] assms(1,3) by (simp add: zero_marked_def)
  show ?thesis
  proof (cases "c i j = 0")
    case False
    have "has_cells mat m n (zero_marked c (insert (i, j) D))" using False by (intro has_cells_cong [OF assms(5)]) (auto simp: zero_marked_def)
    then show ?thesis using v False by (simp add: mark_cell_def)
  next
    case True
    let ?c1 = "\<lambda>a b. if a = i \<and> b = 0 then 0 else zero_marked c D a b"
    obtain mat1 where 1: "mat_set mat i 0 0 = Inr mat1" "has_cells mat1 m n ?c1" using has_cells_set [OF assms(5,2), of 0 ?c1 0] assms(4) by auto
    have "zero_marked c (insert (i, j) D) a b = (if a = 0 \<and> b = j then 0 else ?c1 a b)" for a b using assms(1,3) True by (auto simp: zero_marked_def)
    then obtain mat2 where "mat_set mat1 0 j 0 = Inr mat2" "has_cells mat2 m n (zero_marked c (insert (i, j) D))"
      using has_cells_set [OF 1(2), of 0 j "zero_marked c (insert (i, j) D)" 0] assms(2,4) by auto
    then show ?thesis using v True 1 by (simp add: mark_cell_def)
  qed
qed

lemma clear_cell_correct:
  assumes "1 \<le> i" and "i < m" and "1 \<le> j" and "j < n" and "has_cells mat m n (cleared c D)" and "\<forall>(a, b)\<in>D. 1 \<le> a \<and> 1 \<le> b"
  shows "\<exists>mat'. clear_cell i j mat = Inr mat' \<and> has_cells mat' m n (cleared c (insert (i, j) D))"
proof -
  have m: "0 < m" "0 < n" using assms by auto
  have u: "mat_get mat 0 j = Inr (c 0 j)" "mat_get mat i 0 = Inr (c i 0)"
    using has_cells_get [OF assms(5) m(1) assms(4)] has_cells_get [OF assms(5,2) m(2)] assms(6) by (auto simp: cleared_def)
  show ?thesis
  proof (cases "c 0 j = 0 \<or> c i 0 = 0")
    case False
    have "has_cells mat m n (cleared c (insert (i, j) D))" using False by (intro has_cells_cong [OF assms(5)]) (auto simp: cleared_def)
    then show ?thesis using u False by (simp add: clear_cell_def)
  next
    case True
    then have "cleared c (insert (i, j) D) a b = (if a = i \<and> b = j then 0 else cleared c D a b)" for a b by (auto simp: cleared_def)
    then show ?thesis using u True has_cells_set [OF assms(5,2,4), of "cleared c (insert (i, j) D)" 0] by (auto simp: clear_cell_def)
  qed
qed

lemma any_loop:
  assumes "\<And>i. i < b \<Longrightarrow> get i = Inr (v i)"
  shows "for_go 0 b (\<lambda>i z. bind_go (get i) (\<lambda>x. Inr (if x = (0 :: int) then True else z))) False = Inr (\<exists>i<b. v i = 0)"
proof -
  have "\<exists>z. for_go 0 b (\<lambda>i z. bind_go (get i) (\<lambda>x. Inr (if x = 0 then True else z))) False = Inr z \<and> z = (\<exists>i<b. v i = 0)"
    using assms by (intro for_go_inv [where Inv = "\<lambda>k z. z = (\<exists>i<k. v i = 0)"]) (auto simp: less_Suc_eq)
  then show ?thesis by simp
qed

lemma zero_first_column:
  assumes "has_cells mat m n c" and "0 < n"
  shows "\<exists>mat'. for_go 0 m (\<lambda>i mat. mat_set mat i 0 0) mat = Inr mat' \<and> has_cells mat' m n (\<lambda>i j. if j = 0 then 0 else c i j)"
proof -
  have "\<exists>mat'. for_go 0 m (\<lambda>i mat. mat_set mat i 0 0) mat = Inr mat' \<and> has_cells mat' m n (\<lambda>i j. if j = 0 \<and> i < m then 0 else c i j)"
  proof (rule for_go_inv [where Inv = "\<lambda>k mat. has_cells mat m n (\<lambda>i j. if j = 0 \<and> i < k then 0 else c i j)"])
    fix k mat assume "k < m" "has_cells mat m n (\<lambda>i j. if j = 0 \<and> i < k then 0 else c i j)"
    then show "\<exists>mat'. mat_set mat k 0 0 = Inr mat' \<and> has_cells mat' m n (\<lambda>i j. if j = 0 \<and> i < Suc k then 0 else c i j)"
      using assms(2) by (intro has_cells_set) (auto simp: less_Suc_eq)
  qed (use assms(1) in simp_all)
  then show ?thesis using has_cells_cong by fastforce
qed

lemma zero_first_row:
  assumes "has_cells mat m n c" and "0 < m"
  shows "\<exists>mat'. for_go 0 n (\<lambda>i mat. mat_set mat 0 i 0) mat = Inr mat' \<and> has_cells mat' m n (\<lambda>i j. if i = 0 then 0 else c i j)"
proof -
  have "\<exists>mat'. for_go 0 n (\<lambda>i mat. mat_set mat 0 i 0) mat = Inr mat' \<and> has_cells mat' m n (\<lambda>i j. if i = 0 \<and> j < n then 0 else c i j)"
  proof (rule for_go_inv [where Inv = "\<lambda>k mat. has_cells mat m n (\<lambda>i j. if i = 0 \<and> j < k then 0 else c i j)"])
    fix k mat assume "k < n" "has_cells mat m n (\<lambda>i j. if i = 0 \<and> j < k then 0 else c i j)"
    then show "\<exists>mat'. mat_set mat 0 k 0 = Inr mat' \<and> has_cells mat' m n (\<lambda>i j. if i = 0 \<and> j < Suc k then 0 else c i j)"
      using assms(2) by (intro has_cells_set) (auto simp: less_Suc_eq)
  qed (use assms(1) in simp_all)
  then show ?thesis using has_cells_cong by fastforce
qed

lemma marked_column: "1 \<le> i \<Longrightarrow> i < m \<Longrightarrow> 1 \<le> n \<Longrightarrow> zero_marked c (before n m 1) i 0 = 0 \<longleftrightarrow> (\<exists>b<n. c i b = 0)"
proof -
  assume i: "1 \<le> i" "i < m" "1 \<le> n"
  have "(\<exists>b<n. c i b = 0) \<longleftrightarrow> c i 0 = 0 \<or> (\<exists>b. 1 \<le> b \<and> b < n \<and> c i b = 0)"
    using i(3) by (metis One_nat_def Suc_leI less_eq_Suc_le not_gr0)
  then show ?thesis using i by (auto simp: zero_marked_def before_def)
qed

lemma marked_row: "1 \<le> j \<Longrightarrow> j < n \<Longrightarrow> 1 \<le> m \<Longrightarrow> zero_marked c (before n m 1) 0 j = 0 \<longleftrightarrow> (\<exists>a<m. c a j = 0)"
proof -
  assume j: "1 \<le> j" "j < n" "1 \<le> m"
  have "(\<exists>a<m. c a j = 0) \<longleftrightarrow> c 0 j = 0 \<or> (\<exists>a. 1 \<le> a \<and> a < m \<and> c a j = 0)"
    using j(3) by (metis One_nat_def Suc_leI less_eq_Suc_le not_gr0)
  then show ?thesis using j by (auto simp: zero_marked_def before_def)
qed

lemma marks_decide:
  assumes "1 \<le> m" and "1 \<le> n" and "i < m" and "j < n"
  shows "(if (\<exists>j<n. c 0 j = 0) \<and> i = 0 then 0 else if (\<exists>i<m. c i 0 = 0) \<and> j = 0 then 0
      else cleared (zero_marked c (before n m 1)) (before n m 1) i j) =
    (if (\<exists>b<n. c i b = 0) \<or> (\<exists>a<m. c a j = 0) then 0 else c i j)"
proof -
  let ?D = "before n m 1"
  have same: "zero_marked c ?D i j = c i j" if "i = 0 \<and> j = 0 \<or> 1 \<le> i \<and> 1 \<le> j" using that by (auto simp: zero_marked_def)
  have edge: "cleared (zero_marked c ?D) ?D i j = zero_marked c ?D i j" if "i = 0 \<or> j = 0" using that by (auto simp: cleared_def before_def)
  have kept: "zero_marked c ?D a b = 0 \<or> zero_marked c ?D a b = c a b" for a b by (simp add: zero_marked_def)
  have in_D: "(i, j) \<in> ?D" if "1 \<le> i" "1 \<le> j" using that assms by (auto simp: before_def)
  consider "i = 0" "j = 0" | "i = 0" "1 \<le> j" | "1 \<le> i" "j = 0" | "1 \<le> i" "1 \<le> j" by linarith
  then show ?thesis
  proof cases
    case 1
    then show ?thesis using same edge by auto
  next
    case 2
    have "zero_marked c ?D 0 j = (if \<exists>a<m. c a j = 0 then 0 else c 0 j)"
      using marked_row [OF 2(2) assms(4,1), of c] kept [of 0 j] by auto
    then show ?thesis using 2 edge by auto
  next
    case 3
    have "zero_marked c ?D i 0 = (if \<exists>b<n. c i b = 0 then 0 else c i 0)"
      using marked_column [OF 3(1) assms(3,2), of c] kept [of i 0] by auto
    then show ?thesis using 3 edge by auto
  next
    case 4
    then show ?thesis using in_D same marked_row [OF 4(2) assms(4,1), of c] marked_column [OF 4(1) assms(3,2), of c]
      by (auto simp: cleared_def)
  qed
qed

text \<open>
  \<open>setZeroes\<close> on a matrix of \<open>m\<close> rows of \<open>n > 0\<close> columns returns without panic and leaves exactly the cells that
  have a zero neither in their row nor in their column; the others are 0. It needs no further memory, although it keeps
  its marks in the first row and column.
\<close>
theorem set_zeroes_exact:
  assumes "length matrix = m" and "\<forall>row\<in>set matrix. length row = n" and "0 < n"
  shows "setZeroes matrix = Inr (map (\<lambda>i. map (\<lambda>j.
    if (\<exists>b<n. matrix ! i ! b = 0) \<or> (\<exists>a<m. matrix ! a ! j = 0) then 0 else matrix ! i ! j) [0..<n]) [0..<m])"
proof (cases "m = 0")
  case True
  then show ?thesis using assms(1) by (simp add: setZeroes_def)
next
  case False
  define c where "c = (\<lambda>i j. matrix ! i ! j)"
  have h: "has_cells matrix m n c" using assms(1,2) by (simp add: has_cells_def rect_def c_def)
  have m: "1 \<le> m" "1 \<le> n" "0 < m" using False assms(3) by auto
  have n: "length (matrix ! 0) = n" using h m by (simp add: has_cells_def rect_def)
  have "has_cells matrix m n (zero_marked c {})" using h by (rule has_cells_cong) (simp add: zero_marked_def)
  then obtain mat1 where 1: "for_go 1 m (\<lambda>i. for_go 1 n (mark_cell i)) matrix = Inr mat1" "has_cells mat1 m n (zero_marked c (before n m 1))"
    using nested_loops [OF m(1,2), of matrix "zero_marked c" mark_cell] mark_cell_correct by blast
  let ?c1 = "zero_marked c (before n m 1)"
  have "has_cells mat1 m n (cleared ?c1 {})" using 1(2) by (rule has_cells_cong) (simp add: cleared_def)
  moreover have "\<forall>(a, b)\<in>before n i j. 1 \<le> a \<and> 1 \<le> b" for i j by (auto simp: before_def)
  ultimately obtain mat2 where 2: "for_go 1 m (\<lambda>i. for_go 1 n (clear_cell i)) mat1 = Inr mat2" "has_cells mat2 m n (cleared ?c1 (before n m 1))"
    using nested_loops [OF m(1,2), of mat1 "cleared ?c1" clear_cell] clear_cell_correct by blast
  let ?c2 = "cleared ?c1 (before n m 1)" and ?col = "\<exists>i<m. c i 0 = 0" and ?row = "\<exists>j<n. c 0 j = 0"
  obtain mat3 where 3: "(if ?col then for_go 0 m (\<lambda>i mat. mat_set mat i 0 0) mat2 else Inr mat2) = Inr mat3"
    "has_cells mat3 m n (\<lambda>i j. if ?col \<and> j = 0 then 0 else ?c2 i j)"
    using zero_first_column [OF 2(2) assms(3)] 2(2) by (cases ?col) auto
  obtain mat4 where 4: "(if ?row then for_go 0 n (\<lambda>i mat. mat_set mat 0 i 0) mat3 else Inr mat3) = Inr mat4"
    "has_cells mat4 m n (\<lambda>i j. if ?row \<and> i = 0 then 0 else if ?col \<and> j = 0 then 0 else ?c2 i j)"
    using zero_first_row [OF 3(2) m(3)] 3(2) by (cases ?row) auto
  have "for_go 0 m (\<lambda>i fr. bind_go (mat_get matrix i 0) (\<lambda>v. Inr (if v = 0 then True else fr))) False = Inr ?col"
    using has_cells_get [OF h] assms(3) by (intro any_loop) simp
  moreover have "for_go 0 n (\<lambda>j fc. bind_go (mat_get matrix 0 j) (\<lambda>v. Inr (if v = 0 then True else fc))) False = Inr ?row"
    using has_cells_get [OF h] m by (intro any_loop) simp
  ultimately have "setZeroes matrix = Inr mat4"
    unfolding setZeroes_def Let_def assms(1) n if_not_P [OF False] by (simp only: bind_go_simps 1(1) 2(1) 3(1) 4(1))
  moreover have "has_cells mat4 m n (\<lambda>i j. if (\<exists>b<n. c i b = 0) \<or> (\<exists>a<m. c a j = 0) then 0 else c i j)"
  proof (rule has_cells_cong [OF 4(2)])
    fix i j assume ij: "i < m" "j < n"
    show "(if ?row \<and> i = 0 then 0 else if ?col \<and> j = 0 then 0 else ?c2 i j) =
        (if (\<exists>b<n. c i b = 0) \<or> (\<exists>a<m. c a j = 0) then 0 else c i j)"
      using marks_decide [OF m(1,2) ij] by simp
  qed
  ultimately show ?thesis using has_cells_unique unfolding c_def by blast
qed

theorem set_zeroes_exact_witness:
  "setZeroes [[1, 1, 1], [1, 0, 1], [1, 1, 1]] = Inr [[1, 0, 1], [0, 0, 0], [1, 0, 1]]"
proof -
  let ?m = "[[1, 1, 1], [1, 0, 1], [1, 1, 1]] :: matrix"
  have "map (\<lambda>i. map (\<lambda>j. if (\<exists>b<3. ?m ! i ! b = 0) \<or> (\<exists>a<3. ?m ! a ! j = 0) then 0 else ?m ! i ! j) [0..<3]) [0..<3] =
      [[1, 0, 1], [0, 0, 0], [1, 0, 1]]" by code_simp
  then show ?thesis using set_zeroes_exact [of ?m 3 3] by simp
qed

end
