(* ===== verification/Leet_Spiral.thy ===== *)
theory Leet_Spiral
  imports Leet_Matrix
begin

text \<open>
  The spiral order of \<open>leet/roll.go\<close>: a point walks over the matrix, turning clockwise where the next cell is outside or has
  been visited. \<open>nextPoint\<close> calls itself until there is a free cell ahead, which would never end if there were none; the
  theorem shows that it returns each time and that the walk is the spiral given by its four legs.
\<close>

subsection \<open>roll.go\<close>

datatype Direction = Left | Right | Up | Down

record Point =
  pt_x :: int
  pt_y :: int
  pt_direction :: Direction

definition nextDirection :: "Direction \<Rightarrow> Direction" where
  "nextDirection cur = (if cur = Left then Up else if cur = Right then Down else if cur = Down then Left else Right)"

definition cell_at :: "'a list list \<Rightarrow> int \<Rightarrow> int \<Rightarrow> 'a go" where
  "cell_at mat x y = bind_go (nth_int mat x) (\<lambda>row. nth_int row y)"

text \<open>The conditions of the four branches of \<open>nextPoint\<close>, with \<open>&&\<close> looking at the cell only inside of the bounds, and the moves.\<close>

definition free_ahead :: "bool list list \<Rightarrow> int \<Rightarrow> int \<Rightarrow> Direction \<Rightarrow> bool go" where
  "free_ahead visited x y direction =
     (let m = int (length visited); n = int (length (visited ! 0)) in
      case direction of
        Up \<Rightarrow> if x - 1 \<ge> 0 then bind_go (cell_at visited (x - 1) y) (\<lambda>v. Inr (\<not> v)) else Inr False
      | Down \<Rightarrow> if x + 1 \<le> m - 1 then bind_go (cell_at visited (x + 1) y) (\<lambda>v. Inr (\<not> v)) else Inr False
      | Left \<Rightarrow> if y - 1 \<ge> 0 then bind_go (cell_at visited x (y - 1)) (\<lambda>v. Inr (\<not> v)) else Inr False
      | Right \<Rightarrow> if y + 1 \<le> n - 1 then bind_go (cell_at visited x (y + 1)) (\<lambda>v. Inr (\<not> v)) else Inr False)"

definition ahead :: "Direction \<Rightarrow> int \<times> int \<Rightarrow> int \<times> int" where
  "ahead direction = (\<lambda>(x, y). case direction of Up \<Rightarrow> (x - 1, y) | Down \<Rightarrow> (x + 1, y) | Left \<Rightarrow> (x, y - 1) | Right \<Rightarrow> (x, y + 1))"

partial_function (option) nextPoint :: "Point \<Rightarrow> bool list list \<Rightarrow> Point go option" where
  "nextPoint currentPoint visited =
     (case free_ahead visited (pt_x currentPoint) (pt_y currentPoint) (pt_direction currentPoint) of
        Inl e \<Rightarrow> Some (Inl e)
      | Inr free \<Rightarrow>
          if free then
            Some (Inr (case ahead (pt_direction currentPoint) (pt_x currentPoint, pt_y currentPoint) of
              (x, y) \<Rightarrow> \<lparr>pt_x = x, pt_y = y, pt_direction = pt_direction currentPoint\<rparr>))
          else nextPoint (currentPoint\<lparr>pt_direction := nextDirection (pt_direction currentPoint)\<rparr>) visited)"

text \<open>The read of \<open>matrix[x][y]\<close> comes first, so that the coordinates are not negative where \<open>visited\<close> is set.\<close>

partial_function (option) spiral_loop :: "matrix \<Rightarrow> nat \<Rightarrow> bool list list \<Rightarrow> int list \<Rightarrow> Point \<Rightarrow> int list go option" where
  "spiral_loop matrix cells visited res curPoint =
     (case cell_at matrix (pt_x curPoint) (pt_y curPoint) of
        Inl e \<Rightarrow> Some (Inl e)
      | Inr v \<Rightarrow>
        (case mat_set visited (nat (pt_x curPoint)) (nat (pt_y curPoint)) True of
          Inl e \<Rightarrow> Some (Inl e)
        | Inr visited \<Rightarrow>
            if length (res @ [v]) \<ge> cells then Some (Inr (res @ [v]))
            else Option.bind (nextPoint curPoint visited) (\<lambda>r.
              case r of Inl e \<Rightarrow> Some (Inl e) | Inr curPoint \<Rightarrow> spiral_loop matrix cells visited (res @ [v]) curPoint)))"

definition spiralOrder :: "matrix \<Rightarrow> int list go option" where
  "spiralOrder matrix =
     (let m = length matrix in
      if m = 0 then Some (Inr [])
      else
        let n = length (matrix ! 0) in
        if n = 0 then Some (Inr [])
        else spiral_loop matrix (m * n) (replicate m (replicate n False)) [] \<lparr>pt_x = 0, pt_y = 0, pt_direction = Right\<rparr>)"

subsection \<open>The spiral\<close>

text \<open>What is left of the rectangle of rows \<open>t\<close> to \<open>b\<close> and columns \<open>l\<close> to \<open>r\<close>, one leg after the other.\<close>

function spiral_path :: "int \<Rightarrow> int \<Rightarrow> int \<Rightarrow> int \<Rightarrow> Direction \<Rightarrow> (int \<times> int) list" where
  "spiral_path t b l r d =
     (if t \<le> b \<and> l \<le> r then
        case d of
          Right \<Rightarrow> map (\<lambda>y. (t, y)) [l..r] @ spiral_path (t + 1) b l r Down
        | Down \<Rightarrow> map (\<lambda>x. (x, r)) [t..b] @ spiral_path t b l (r - 1) Left
        | Left \<Rightarrow> map (\<lambda>y. (b, y)) (rev [l..r]) @ spiral_path t (b - 1) l r Up
        | Up \<Rightarrow> map (\<lambda>x. (x, l)) (rev [t..b]) @ spiral_path t b (l + 1) r Right
      else [])"
  by pat_completeness auto
termination by (relation "measure (\<lambda>(t, b, l, r, d). nat (b - t + 1) + nat (r - l + 1))") auto

declare spiral_path.simps [simp del]

lemma spiral_path_covers: "set (spiral_path t b l r d) = {t..b} \<times> {l..r} \<and> distinct (spiral_path t b l r d)"
proof (induction t b l r d rule: spiral_path.induct)
  case (1 t b l r d)
  show ?case
  proof (cases "t \<le> b \<and> l \<le> r")
    case False
    then have "spiral_path t b l r d = []" by (subst spiral_path.simps) auto
    then show ?thesis using False by auto
  next
    case True
    then show ?thesis
    proof (cases d)
      case Left
      then show ?thesis using True 1 by (subst (1 2) spiral_path.simps) (auto simp: distinct_map inj_on_def)
    next
      case Right
      then show ?thesis using True 1 by (subst (1 2) spiral_path.simps) (auto simp: distinct_map inj_on_def)
    next
      case Up
      then show ?thesis using True 1 by (subst (1 2) spiral_path.simps) (auto simp: distinct_map inj_on_def)
    next
      case Down
      then show ?thesis using True 1 by (subst (1 2) spiral_path.simps) (auto simp: distinct_map inj_on_def)
    qed
  qed
qed

subsection \<open>The walk\<close>

text \<open>\<open>U\<close> is the set of the cells that have not been visited.\<close>

definition open_cells :: "bool list list \<Rightarrow> nat \<Rightarrow> nat \<Rightarrow> (int \<times> int) set \<Rightarrow> bool" where
  "open_cells visited m n U \<longleftrightarrow>
     rect visited m n \<and> U \<subseteq> {0..<int m} \<times> {0..<int n} \<and> (\<forall>i<m. \<forall>j<n. visited ! i ! j = ((int i, int j) \<notin> U))"

lemma cell_at_rect:
  "rect mat m n \<Longrightarrow> (x, y) \<in> {0..<int m} \<times> {0..<int n} \<Longrightarrow> cell_at mat x y = Inr (mat ! nat x ! nat y)"
  by (simp add: cell_at_def rect_def nat_less_iff)

lemma visited_cell:
  "open_cells visited m n U \<Longrightarrow> (x, y) \<in> {0..<int m} \<times> {0..<int n} \<Longrightarrow> cell_at visited x y = Inr ((x, y) \<notin> U)"
  unfolding open_cells_def using cell_at_rect [of visited m n x y] by (auto simp: nat_less_iff)

lemma free_ahead_iff:
  assumes "open_cells visited m n U" and "(x, y) \<in> {0..<int m} \<times> {0..<int n}"
  shows "free_ahead visited x y d = Inr (ahead d (x, y) \<in> U)"
proof -
  have len: "length visited = m" "length (visited ! 0) = n" using assms by (auto simp: open_cells_def rect_def)
  have out: "p \<notin> U" if "p \<notin> {0..<int m} \<times> {0..<int n}" for p using assms(1) that by (auto simp: open_cells_def)
  show ?thesis
  proof (cases "ahead d (x, y) \<in> {0..<int m} \<times> {0..<int n}")
    case True
    then show ?thesis using assms(2) visited_cell [OF assms(1)] by (cases d) (auto simp: free_ahead_def Let_def len ahead_def)
  next
    case False
    then show ?thesis using assms(2) out [OF False] by (cases d) (auto simp: free_ahead_def Let_def len ahead_def)
  qed
qed

abbreviation pt :: "int \<times> int \<Rightarrow> Direction \<Rightarrow> Point" where
  "pt p d \<equiv> \<lparr>pt_x = fst p, pt_y = snd p, pt_direction = d\<rparr>"

lemma nextPoint_step:
  assumes "open_cells visited m n U" and "p \<in> {0..<int m} \<times> {0..<int n}"
  shows "nextPoint (pt p d) visited =
    (if ahead d p \<in> U then Some (Inr (pt (ahead d p) d)) else nextPoint (pt p (nextDirection d)) visited)"
  using free_ahead_iff [OF assms(1), of "fst p" "snd p" d] assms(2) by (subst nextPoint.simps) (auto simp: split_beta)

lemma visit:
  assumes "open_cells visited m n U" and "p \<in> U"
  shows "\<exists>visited'. mat_set visited (nat (fst p)) (nat (snd p)) True = Inr visited' \<and> open_cells visited' m n (U - {p})"
proof -
  have p: "p \<in> {0..<int m} \<times> {0..<int n}" using assms by (auto simp: open_cells_def)
  then have ij: "nat (fst p) < m" "nat (snd p) < n" "p = (int (nat (fst p)), int (nat (snd p)))" by (auto simp: nat_less_iff)
  have "has_cells visited m n (\<lambda>i j. (int i, int j) \<notin> U)" using assms(1) by (simp add: has_cells_def open_cells_def)
  then have "\<exists>visited'. mat_set visited (nat (fst p)) (nat (snd p)) True = Inr visited' \<and> has_cells visited' m n (\<lambda>i j. (int i, int j) \<notin> U - {p})"
    using ij(1,2) by (rule has_cells_set) (use ij(3) in \<open>auto simp: prod_eq_iff\<close>)
  then show ?thesis using assms(1) by (auto simp: has_cells_def open_cells_def)
qed

text \<open>The state of the walk: the cell \<open>p\<close> is still to be visited, and the cells seen and unseen together are all cells.\<close>

definition walk_ok :: "matrix \<Rightarrow> nat \<Rightarrow> nat \<Rightarrow> (int \<times> int) set \<Rightarrow> int list \<Rightarrow> bool" where
  "walk_ok matrix m n U res \<longleftrightarrow> rect matrix m n \<and> U \<subseteq> {0..<int m} \<times> {0..<int n} \<and> length res + card U = m * n"

definition value_at :: "matrix \<Rightarrow> int \<times> int \<Rightarrow> int" where
  "value_at matrix p = matrix ! nat (fst p) ! nat (snd p)"

lemma walk_finite: "walk_ok matrix m n U res \<Longrightarrow> finite U"
  unfolding walk_ok_def by (meson finite_SigmaI finite_atLeastLessThan_int finite_subset)

lemma walk_visit: "walk_ok matrix m n U res \<Longrightarrow> p \<in> U \<Longrightarrow> walk_ok matrix m n (U - {p}) (res @ [v])"
  using walk_finite [of matrix m n U res] card_gt_0_iff [of U] by (auto simp: walk_ok_def card_Diff_singleton)

lemma spiral_step:
  assumes "walk_ok matrix m n U res" and "open_cells visited m n U" and "p \<in> U"
  shows "\<exists>visited'. open_cells visited' m n (U - {p}) \<and>
    spiral_loop matrix (m * n) visited res (pt p d) =
      (if U = {p} then Some (Inr (res @ [value_at matrix p]))
       else Option.bind (nextPoint (pt p d) visited') (\<lambda>r. case r of Inl e \<Rightarrow> Some (Inl e)
         | Inr q \<Rightarrow> spiral_loop matrix (m * n) visited' (res @ [value_at matrix p]) q))"
proof -
  have p: "p \<in> {0..<int m} \<times> {0..<int n}" using assms(1,3) by (auto simp: walk_ok_def)
  have v: "cell_at matrix (fst p) (snd p) = Inr (value_at matrix p)"
    using cell_at_rect [of matrix m n "fst p" "snd p"] assms(1) p by (simp add: walk_ok_def value_at_def)
  obtain visited' where vis: "mat_set visited (nat (fst p)) (nat (snd p)) True = Inr visited'" "open_cells visited' m n (U - {p})"
    using visit [OF assms(2,3)] by blast
  have "length (res @ [value_at matrix p]) + card (U - {p}) = m * n"
    using walk_visit [OF assms(1,3), of "value_at matrix p"] by (simp add: walk_ok_def)
  moreover have "card (U - {p}) = 0 \<longleftrightarrow> U = {p}"
    using card_0_eq [OF finite_Diff [OF walk_finite [OF assms(1)]]] by (metis Diff_cancel assms(3) insert_Diff)
  ultimately have stop: "m * n \<le> length (res @ [value_at matrix p]) \<longleftrightarrow> U = {p}" by linarith
  show ?thesis
    by (intro exI [of _ visited'] conjI vis(2), subst spiral_loop.simps) (simp only: v vis(1) stop sum.case simp_thms Point.simps)
qed

lemma spiral_move:
  assumes "walk_ok matrix m n U res" and "open_cells visited m n U" and "p \<in> U" and "U \<noteq> {p}"
    and "\<And>visited'. open_cells visited' m n (U - {p}) \<Longrightarrow> nextPoint (pt p d) visited' = Some (Inr q)"
  shows "\<exists>visited'. open_cells visited' m n (U - {p}) \<and>
    spiral_loop matrix (m * n) visited res (pt p d) = spiral_loop matrix (m * n) visited' (res @ [value_at matrix p]) q"
proof -
  obtain visited' where v: "open_cells visited' m n (U - {p})" and
    s: "spiral_loop matrix (m * n) visited res (pt p d) =
      (if U = {p} then Some (Inr (res @ [value_at matrix p]))
       else Option.bind (nextPoint (pt p d) visited') (\<lambda>r. case r of Inl e \<Rightarrow> Some (Inl e)
         | Inr q \<Rightarrow> spiral_loop matrix (m * n) visited' (res @ [value_at matrix p]) q))"
    using spiral_step [OF assms(1-3)] by blast
  show ?thesis unfolding s if_not_P [OF assms(4)] assms(5) [OF v] using v by auto
qed

text \<open>Along a leg the point keeps its direction; \<open>leg d p k\<close> are the \<open>k\<close> cells from \<open>p\<close> on.\<close>

definition leg :: "Direction \<Rightarrow> int \<times> int \<Rightarrow> nat \<Rightarrow> (int \<times> int) list" where
  "leg d p k = map (\<lambda>i. (ahead d ^^ i) p) [0..<k]"

lemma leg_Suc: "leg d p (Suc k) = p # leg d (ahead d p) k"
  unfolding leg_def by (simp add: upt_conv_Cons map_Suc_upt [symmetric] funpow_swap1 del: upt_Suc)

lemma leg_walk:
  assumes "walk_ok matrix m n U res" and "open_cells visited m n U" and "set (leg d p (Suc k)) \<subseteq> U" and "distinct (leg d p (Suc k))"
  shows "\<exists>visited'. open_cells visited' m n (U - set (leg d p k)) \<and>
    spiral_loop matrix (m * n) visited res (pt p d) =
      spiral_loop matrix (m * n) visited' (res @ map (value_at matrix) (leg d p k)) (pt ((ahead d ^^ k) p) d)"
  using assms
proof (induction k arbitrary: U res visited p)
  case 0
  then show ?case by (auto simp: leg_def)
next
  case (Suc k)
  let ?q = "ahead d p"
  have l: "leg d p (Suc (Suc k)) = p # leg d ?q (Suc k)" "leg d p (Suc k) = p # leg d ?q k" by (rule leg_Suc)+
  have p: "p \<in> U" and q: "?q \<in> U - {p}" using Suc.prems(3,4) unfolding l leg_Suc [of d ?q] by auto
  have bp: "p \<in> {0..<int m} \<times> {0..<int n}" using Suc.prems(1) p by (auto simp: walk_ok_def)
  have ne: "U \<noteq> {p}" using q by blast
  have np: "nextPoint (pt p d) visited' = Some (Inr (pt ?q d))" if "open_cells visited' m n (U - {p})" for visited'
    by (subst nextPoint_step [OF that bp]) (rule if_P [OF q])
  obtain visited1 where 1: "open_cells visited1 m n (U - {p})"
    "spiral_loop matrix (m * n) visited res (pt p d) = spiral_loop matrix (m * n) visited1 (res @ [value_at matrix p]) (pt ?q d)"
    using spiral_move [OF Suc.prems(1,2) p ne np] by blast
  have "set (leg d ?q (Suc k)) \<subseteq> U - {p}" "distinct (leg d ?q (Suc k))" using Suc.prems(3,4) unfolding l by auto
  then obtain visited2 where 2: "open_cells visited2 m n (U - {p} - set (leg d ?q k))"
    "spiral_loop matrix (m * n) visited1 (res @ [value_at matrix p]) (pt ?q d) =
      spiral_loop matrix (m * n) visited2 ((res @ [value_at matrix p]) @ map (value_at matrix) (leg d ?q k)) (pt ((ahead d ^^ k) ?q) d)"
    using Suc.IH [OF walk_visit [OF Suc.prems(1) p] 1(1)] by blast
  have "U - {p} - set (leg d ?q k) = U - set (leg d p (Suc k))" unfolding l by auto
  then show ?case using 1(2) 2 unfolding l by (intro exI [of _ visited2]) (simp add: funpow_swap1)
qed

text \<open>
  A whole leg of \<open>k + 1\<close> cells: either it was the last one, or the point turns and goes on with what is left.
\<close>

lemma leg_turn:
  assumes "walk_ok matrix m n U res" and "open_cells visited m n U" and "set (leg d p (Suc k)) \<subseteq> U" and "distinct (leg d p (Suc k))"
    and "U' = U - set (leg d p (Suc k))" and "q = (ahead d ^^ k) p" and "ahead d q \<notin> U'" and "U' \<noteq> {} \<Longrightarrow> ahead (nextDirection d) q \<in> U'"
  shows "if U' = {} then spiral_loop matrix (m * n) visited res (pt p d) = Some (Inr (res @ map (value_at matrix) (leg d p (Suc k))))
    else \<exists>visited'. open_cells visited' m n U' \<and> spiral_loop matrix (m * n) visited res (pt p d) =
      spiral_loop matrix (m * n) visited' (res @ map (value_at matrix) (leg d p (Suc k))) (pt (ahead (nextDirection d) q) (nextDirection d))"
proof -
  have snoc: "leg d p (Suc k) = leg d p k @ [q]" by (simp add: leg_def assms(6))
  let ?V = "U - set (leg d p k)" and ?res = "res @ map (value_at matrix) (leg d p k)"
  obtain visited1 where 1: "open_cells visited1 m n ?V"
    "spiral_loop matrix (m * n) visited res (pt p d) = spiral_loop matrix (m * n) visited1 ?res (pt q d)"
    using leg_walk [OF assms(1-4)] assms(6) by blast
  have q: "q \<in> ?V" using assms(3,4) unfolding snoc by auto
  have "card ?V = card U - length (leg d p k)" "length (leg d p k) \<le> card U"
    using assms(3,4) walk_finite [OF assms(1)] card_mono [of U "set (leg d p k)"] unfolding snoc
    by (auto simp: card_Diff_subset distinct_card)
  then have ok: "walk_ok matrix m n ?V ?res" using assms(1) by (auto simp: walk_ok_def)
  have U': "U' = ?V - {q}" unfolding assms(5) snoc by auto
  have bq: "q \<in> {0..<int m} \<times> {0..<int n}" using ok q by (auto simp: walk_ok_def)
  show ?thesis
  proof (cases "U' = {}")
    case True
    then have "?V = {q}" using q unfolding U' by (metis insert_Diff)
    then show ?thesis using True spiral_step [OF ok 1(1) q, of d] 1(2) by (simp add: snoc)
  next
    case False
    have np: "nextPoint (pt q d) visited' = Some (Inr (pt (ahead (nextDirection d) q) (nextDirection d)))"
      if "open_cells visited' m n (?V - {q})" for visited'
    proof -
      have "nextPoint (pt q d) visited' = nextPoint (pt q (nextDirection d)) visited'"
        by (subst nextPoint_step [OF that bq]) (rule if_not_P [OF assms(7) [unfolded U']])
      also have "\<dots> = Some (Inr (pt (ahead (nextDirection d) q) (nextDirection d)))"
        by (subst nextPoint_step [OF that bq]) (rule if_P [OF assms(8) [OF False, unfolded U']])
      finally show ?thesis .
    qed
    have "?V \<noteq> {q}" using False unfolding U' by auto
    then show ?thesis using False spiral_move [OF ok 1(1) q _ np] 1(2) unfolding U' by (simp add: snoc)
  qed
qed

lemma upto_from_left: "[l..r] = map (\<lambda>i. l + int i) [0..<nat (r - l + 1)]"
  by (rule nth_equalityI) (auto simp: nth_upto)

lemma upto_from_right: "rev [l..r] = map (\<lambda>i. r - int i) [0..<nat (r - l + 1)]"
  by (rule nth_equalityI) (auto simp: rev_nth nth_upto of_nat_diff)

lemma ahead_funpow:
  "(ahead Right ^^ i) (x, y) = (x, y + int i)" "(ahead Down ^^ i) (x, y) = (x + int i, y)"
  "(ahead Left ^^ i) (x, y) = (x, y - int i)" "(ahead Up ^^ i) (x, y) = (x - int i, y)"
  by (induction i) (auto simp: ahead_def)

text \<open>Where a leg begins, how many cells it has, and the rectangle it leaves.\<close>

fun corner :: "int \<Rightarrow> int \<Rightarrow> int \<Rightarrow> int \<Rightarrow> Direction \<Rightarrow> int \<times> int" where
  "corner t b l r Right = (t, l)"
| "corner t b l r Down = (t, r)"
| "corner t b l r Left = (b, r)"
| "corner t b l r Up = (b, l)"

fun leg_len :: "int \<Rightarrow> int \<Rightarrow> int \<Rightarrow> int \<Rightarrow> Direction \<Rightarrow> nat" where
  "leg_len t b l r Right = nat (r - l)"
| "leg_len t b l r Left = nat (r - l)"
| "leg_len t b l r Down = nat (b - t)"
| "leg_len t b l r Up = nat (b - t)"

fun shrink :: "int \<Rightarrow> int \<Rightarrow> int \<Rightarrow> int \<Rightarrow> Direction \<Rightarrow> int \<times> int \<times> int \<times> int" where
  "shrink t b l r Right = (t + 1, b, l, r)"
| "shrink t b l r Down = (t, b, l, r - 1)"
| "shrink t b l r Left = (t, b - 1, l, r)"
| "shrink t b l r Up = (t, b, l + 1, r)"

lemma spiral_path_leg:
  assumes "t \<le> b" and "l \<le> r" and "shrink t b l r d = (t', b', l', r')"
  shows "spiral_path t b l r d = leg d (corner t b l r d) (Suc (leg_len t b l r d)) @ spiral_path t' b' l' r' (nextDirection d)"
proof -
  have "nat (r - l + 1) = Suc (nat (r - l))" "nat (b - t + 1) = Suc (nat (b - t))" using assms(1,2) by auto
  then have left: "[l..r] = map (\<lambda>i. l + int i) [0..<Suc (nat (r - l))]" "[t..b] = map (\<lambda>i. t + int i) [0..<Suc (nat (b - t))]"
    and right: "rev [l..r] = map (\<lambda>i. r - int i) [0..<Suc (nat (r - l))]" "rev [t..b] = map (\<lambda>i. b - int i) [0..<Suc (nat (b - t))]"
    using upto_from_left [of l r] upto_from_left [of t b] upto_from_right [of l r] upto_from_right [of t b] by (simp_all del: upt_Suc)
  have path: "spiral_path t b l r d = (case d of
          Right \<Rightarrow> map (\<lambda>y. (t, y)) [l..r] @ spiral_path (t + 1) b l r Down
        | Down \<Rightarrow> map (\<lambda>x. (x, r)) [t..b] @ spiral_path t b l (r - 1) Left
        | Left \<Rightarrow> map (\<lambda>y. (b, y)) (rev [l..r]) @ spiral_path t (b - 1) l r Up
        | Up \<Rightarrow> map (\<lambda>x. (x, l)) (rev [t..b]) @ spiral_path t b (l + 1) r Right)"
    using assms(1,2) by (subst spiral_path.simps) simp
  note s = assms(3) path leg_def ahead_funpow nextDirection_def o_def
  show ?thesis
  proof (cases d)
    case Left
    then show ?thesis using s(1,2) unfolding right by (simp add: s(3-) del: upt_Suc)
  next
    case Right
    then show ?thesis using s(1,2) unfolding left by (simp add: s(3-) del: upt_Suc)
  next
    case Up
    then show ?thesis using s(1,2) unfolding right by (simp add: s(3-) del: upt_Suc)
  next
    case Down
    then show ?thesis using s(1,2) unfolding left by (simp add: s(3-) del: upt_Suc)
  qed
qed

lemma leg_cells:
  assumes "t \<le> b" and "l \<le> r" and "shrink t b l r d = (t', b', l', r')"
  shows "set (leg d (corner t b l r d) (Suc (leg_len t b l r d))) \<subseteq> {t..b} \<times> {l..r}"
    and "distinct (leg d (corner t b l r d) (Suc (leg_len t b l r d)))"
    and "{t'..b'} \<times> {l'..r'} = {t..b} \<times> {l..r} - set (leg d (corner t b l r d) (Suc (leg_len t b l r d)))"
proof -
  let ?leg = "leg d (corner t b l r d) (Suc (leg_len t b l r d))"
  note path = spiral_path_leg [OF assms]
  have "set ?leg \<union> {t'..b'} \<times> {l'..r'} = {t..b} \<times> {l..r}" "distinct ?leg" "set ?leg \<inter> {t'..b'} \<times> {l'..r'} = {}"
    using spiral_path_covers [of t b l r d] spiral_path_covers [of t' b' l' r' "nextDirection d"] unfolding path by auto
  then show "set ?leg \<subseteq> {t..b} \<times> {l..r}" "distinct ?leg" "{t'..b'} \<times> {l'..r'} = {t..b} \<times> {l..r} - set ?leg" by blast+
qed

lemma leg_end:
  assumes "t \<le> b" and "l \<le> r" and "shrink t b l r d = (t', b', l', r')" and "q = (ahead d ^^ leg_len t b l r d) (corner t b l r d)"
  shows "ahead d q \<notin> {t'..b'} \<times> {l'..r'}" and "ahead (nextDirection d) q = corner t' b' l' r' (nextDirection d)"
proof -
  have len: "int (nat (r - l)) = r - l" "int (nat (b - t)) = b - t" using assms(1,2) by auto
  have q: "q = (case d of Right \<Rightarrow> (t, r) | Down \<Rightarrow> (b, r) | Left \<Rightarrow> (b, l) | Up \<Rightarrow> (t, l))"
    unfolding assms(4) using assms(1,2) by (cases d) (simp_all add: ahead_funpow len)
  show "ahead d q \<notin> {t'..b'} \<times> {l'..r'}"
    unfolding q using assms(3) by (cases d) (auto simp: ahead_def)
  show "ahead (nextDirection d) q = corner t' b' l' r' (nextDirection d)"
    unfolding q using assms(3) by (cases d) (auto simp: ahead_def nextDirection_def)
qed

lemma corner_mem: "t \<le> b \<Longrightarrow> l \<le> r \<Longrightarrow> corner t b l r d \<in> {t..b} \<times> {l..r}"
  by (cases d) auto

lemma spiral_loop_correct:
  assumes "t \<le> b" and "l \<le> r" and "walk_ok matrix m n ({t..b} \<times> {l..r}) res" and "open_cells visited m n ({t..b} \<times> {l..r})"
  shows "spiral_loop matrix (m * n) visited res (pt (corner t b l r d) d) = Some (Inr (res @ map (value_at matrix) (spiral_path t b l r d)))"
  using assms
proof (induction "nat (b - t + 1) + nat (r - l + 1)" arbitrary: t b l r d res visited rule: less_induct)
  case less
  obtain t' b' l' r' where sh: "shrink t b l r d = (t', b', l', r')" by (cases "shrink t b l r d")
  let ?leg = "leg d (corner t b l r d) (Suc (leg_len t b l r d))" and ?U' = "{t'..b'} \<times> {l'..r'}"
  let ?q = "(ahead d ^^ leg_len t b l r d) (corner t b l r d)"
  note cells = leg_cells [OF less.prems(1,2) sh] and fin = leg_end [OF less.prems(1,2) sh refl]
  note path = spiral_path_leg [OF less.prems(1,2) sh]
  have "ahead (nextDirection d) ?q \<in> ?U'" if "?U' \<noteq> {}"
    unfolding fin(2) using that by (intro corner_mem) auto
  note turn = leg_turn [OF less.prems(3,4) cells(1,2) cells(3) refl fin(1) this]
  show ?case
  proof (cases "?U' = {}")
    case True
    then have "spiral_path t' b' l' r' (nextDirection d) = []"
      using spiral_path_covers [of t' b' l' r' "nextDirection d"] by (metis set_empty)
    then show ?thesis using turn True unfolding path by simp
  next
    case False
    then obtain visited' where v: "open_cells visited' m n ?U'"
      "spiral_loop matrix (m * n) visited res (pt (corner t b l r d) d) =
        spiral_loop matrix (m * n) visited' (res @ map (value_at matrix) ?leg) (pt (corner t' b' l' r' (nextDirection d)) (nextDirection d))"
      using turn fin(2) by auto
    have le: "t' \<le> b'" "l' \<le> r'" using False by auto
    have "length ?leg + card ?U' = card ({t..b} \<times> {l..r})"
      using cells card_Diff_subset [OF _ cells(1)] card_mono [OF _ cells(1)] distinct_card [OF cells(2)] by simp
    then have "walk_ok matrix m n ?U' (res @ map (value_at matrix) ?leg)" using less.prems(3) cells(3) by (auto simp: walk_ok_def)
    moreover have "nat (b' - t' + 1) + nat (r' - l' + 1) < nat (b - t + 1) + nat (r - l + 1)"
      using sh less.prems(1,2) by (cases d) auto
    ultimately show ?thesis unfolding v(2) path using less.hyps [OF _ le _ v(1)] by simp
  qed
qed

text \<open>
  \<open>spiralOrder\<close> on a matrix of \<open>m\<close> rows of \<open>n\<close> columns returns, with no endless turning and no access outside of
  the matrix, the values along the spiral that goes right along the top row, down the right column, left along the
  bottom row, up the left column and so on inwards; this path visits every cell once.
\<close>
theorem spiral_order_exact:
  assumes "length matrix = m" and "\<forall>row\<in>set matrix. length row = n"
  shows "spiralOrder matrix = Some (Inr (map (\<lambda>(x, y). matrix ! nat x ! nat y) (spiral_path 0 (int m - 1) 0 (int n - 1) Right))) \<and>
    distinct (spiral_path 0 (int m - 1) 0 (int n - 1) Right) \<and>
    set (spiral_path 0 (int m - 1) 0 (int n - 1) Right) = {0..<int m} \<times> {0..<int n}"
proof -
  have box: "{0..int m - 1} \<times> {0..int n - 1} = {0..<int m} \<times> {0..<int n}" by auto
  have val: "(\<lambda>(x, y). matrix ! nat x ! nat y) = value_at matrix" by (auto simp: value_at_def)
  have "spiralOrder matrix = Some (Inr (map (value_at matrix) (spiral_path 0 (int m - 1) 0 (int n - 1) Right)))"
  proof (cases "m = 0 \<or> n = 0")
    case True
    then have "spiral_path 0 (int m - 1) 0 (int n - 1) Right = []" by (subst spiral_path.simps) auto
    moreover have "length (matrix ! 0) = n" if "m \<noteq> 0" using assms that by (cases matrix) auto
    ultimately show ?thesis using True assms(1) by (auto simp: spiralOrder_def Let_def)
  next
    case False
    then have n: "length (matrix ! 0) = n" using assms by (cases matrix) auto
    have "walk_ok matrix m n ({0..int m - 1} \<times> {0..int n - 1}) []" unfolding box using assms by (simp add: walk_ok_def rect_def)
    moreover have "open_cells (replicate m (replicate n False)) m n ({0..int m - 1} \<times> {0..int n - 1})"
      unfolding box by (simp add: open_cells_def rect_def)
    ultimately show ?thesis using False n assms(1) spiral_loop_correct [of 0 "int m - 1" 0 "int n - 1" matrix m n "[]" _ Right]
      by (simp add: spiralOrder_def Let_def)
  qed
  then show ?thesis unfolding val using spiral_path_covers box by metis
qed

theorem spiral_order_exact_witness:
  "spiralOrder [[1, 2, 3], [4, 5, 6], [7, 8, 9]] = Some (Inr [1, 2, 3, 6, 9, 8, 7, 4, 5])"
proof -
  have "map (\<lambda>(x, y). [[1, 2, 3], [4, 5, 6], [7, 8, 9 :: int]] ! nat x ! nat y) (spiral_path 0 (int 3 - 1) 0 (int 3 - 1) Right) =
      [1, 2, 3, 6, 9, 8, 7, 4, 5]" by code_simp
  then show ?thesis using spiral_order_exact [of "[[1, 2, 3], [4, 5, 6], [7, 8, 9]]" 3 3] by simp
qed

end
