(* ===== verification/Leet_Decode.thy ===== *)
theory Leet_Decode
  imports Go_Prelude
begin

text \<open>
  The decoder of \<open>leet/str_decode.go\<close>: \<open>k[...]\<close> stands for \<open>k\<close> copies of what is in the brackets. \<open>decode\<close> is a loop with a call of
  itself for the part in brackets; on a closing bracket without an opening one the loop makes no progress and never
  ends, so it is a partial function. The theorem is the round trip with a printer of nested repetitions.
\<close>

subsection \<open>str_decode.go\<close>

text \<open>\<open>string(s[i])\<close> converts a byte to a rune and that to UTF-8.\<close>

definition string_of_byte :: "char \<Rightarrow> string" where
  "string_of_byte c =
     (if of_char c < (128 :: nat) then [c]
      else [char_of (192 + of_char c div 64 :: nat), char_of (128 + of_char c mod 64 :: nat)])"

text \<open>The loop over \<open>j\<close>, which goes down from \<open>i - 1\<close>: the argument is \<open>j + 1\<close>.\<close>

fun num_loop :: "string \<Rightarrow> nat \<Rightarrow> int \<Rightarrow> int \<Rightarrow> nat \<Rightarrow> int \<times> nat" where
  "num_loop s 0 base cnt num = (cnt, num)"
| "num_loop s (Suc j) base cnt num =
     (if \<not> is_digit (s ! j) then (cnt, num)
      else num_loop s j (wrap64 (base * 10)) (wrap64 (cnt + wrap64 (base * int (digit_val (s ! j))))) (num + 1))"

function close_loop :: "string \<Rightarrow> nat \<Rightarrow> int \<Rightarrow> int \<Rightarrow> nat go" where
  "close_loop s index lpNum rpNum =
     (if index < length s then
        let lpNum = (if s ! index = CHR ''['' then lpNum + 1 else lpNum);
            rpNum = (if s ! index = CHR '']'' then rpNum + 1 else rpNum) in
        if lpNum = rpNum then Inr index else close_loop s (index + 1) lpNum rpNum
      else Inl IndexOutOfRange)"
  by pat_completeness auto
termination by (relation "measure (\<lambda>(s, index, l, r). length s - index)") auto

partial_function (option) decode_loop :: "string \<Rightarrow> int \<Rightarrow> int \<Rightarrow> string \<Rightarrow> string go option" where
  "decode_loop s rp i res =
     (if i \<le> rp then
        case nth_int s i of
          Inl e \<Rightarrow> Some (Inl e)
        | Inr c \<Rightarrow>
            if c \<noteq> CHR ''['' \<and> c \<noteq> CHR '']'' then decode_loop s rp (i + 1) (res @ string_of_byte c)
            else if c = CHR ''['' then
              (case num_loop s (nat i) 1 0 0 of (cnt, num) \<Rightarrow>
                if length res < num then Some (Inl SliceOutOfRange)
                else
                  (case close_loop s (nat i + 1) 1 0 of
                    Inl e \<Rightarrow> Some (Inl e)
                  | Inr index \<Rightarrow>
                      Option.bind (decode_loop s (int index - 1) (i + 1) '''') (\<lambda>r.
                        case r of
                          Inl e \<Rightarrow> Some (Inl e)
                        | Inr tmp \<Rightarrow>
                            decode_loop s rp (int index + 1) (take (length res - num) res @ concat (replicate (nat cnt) tmp)))))
            else decode_loop s rp i res
      else Some (Inr res))"

definition decode :: "string \<Rightarrow> int \<Rightarrow> int \<Rightarrow> string go option" where
  "decode s lp rp = decode_loop s rp lp ''''"

definition decodeString :: "string \<Rightarrow> string go option" where
  "decodeString s = decode s 0 (int (length s) - 1)"

declare close_loop.simps [simp del]

subsection \<open>Encoded strings\<close>

datatype enc = Lit char | Rep nat "enc list"

fun print_enc :: "enc \<Rightarrow> string" where
  "print_enc (Lit c) = [c]"
| "print_enc (Rep k es) = dec_string k @ ''['' @ concat (map print_enc es) @ '']''"

fun meaning :: "enc \<Rightarrow> string" where
  "meaning (Lit c) = [c]"
| "meaning (Rep k es) = concat (replicate k (concat (map meaning es)))"

definition plain :: "char \<Rightarrow> bool" where
  "plain c \<longleftrightarrow> c \<noteq> CHR ''['' \<and> c \<noteq> CHR '']'' \<and> \<not> is_digit c \<and> of_char c < (128 :: nat)"

fun wf_enc :: "enc \<Rightarrow> bool" where
  "wf_enc (Lit c) \<longleftrightarrow> plain c"
| "wf_enc (Rep k es) \<longleftrightarrow> k < 2 ^ 63 \<and> (\<forall>e\<in>set es. wf_enc e)"

definition prints :: "enc list \<Rightarrow> string" where
  "prints es = concat (map print_enc es)"

definition meanings :: "enc list \<Rightarrow> string" where
  "meanings es = concat (map meaning es)"

lemma prints_simps [simp]: "prints [] = []" "prints (e # es) = print_enc e @ prints es"
  by (simp_all add: prints_def)

lemma meanings_simps [simp]: "meanings [] = []" "meanings (e # es) = meaning e @ meanings es"
  by (simp_all add: meanings_def)

lemma num_loop_correct:
  assumes "\<forall>c\<in>set ds. is_digit c" and "pre = [] \<or> \<not> is_digit (last pre)"
  shows "num_loop (pre @ ds @ rest) (length (pre @ ds)) (wrap64 base) (wrap64 cnt) num =
    (wrap64 (cnt + base * int (dec_value ds)), num + length ds)"
  using assms(1)
proof (induction ds arbitrary: rest base cnt num rule: rev_induct)
  case Nil
  show ?case
  proof (cases pre rule: rev_cases)
    case (snoc qs q)
    then have "\<not> is_digit ((pre @ [] @ rest) ! length qs)" using assms(2) by (simp add: nth_append)
    then show ?thesis using snoc by (simp add: dec_value_def)
  qed (simp add: dec_value_def)
next
  case (snoc d ds)
  have d: "(pre @ (ds @ [d]) @ rest) ! length (pre @ ds) = d" "is_digit d" using snoc.prems by (auto simp: nth_append)
  have cnt: "wrap64 (wrap64 cnt + wrap64 (wrap64 base * int (digit_val d))) = wrap64 (cnt + base * int (digit_val d))"
    by (metis wrap64_add wrap64_mult)
  have "num_loop (pre @ (ds @ [d]) @ rest) (length (pre @ ds @ [d])) (wrap64 base) (wrap64 cnt) num =
      num_loop (pre @ (ds @ [d]) @ rest) (length (pre @ ds)) (wrap64 (base * 10)) (wrap64 (cnt + base * int (digit_val d))) (num + 1)"
    using d cnt by (simp add: wrap64_mult del: append_assoc)
  also have "\<dots> = (wrap64 (cnt + base * int (digit_val d) + base * 10 * int (dec_value ds)), num + 1 + length ds)"
    using snoc.IH [of "d # rest" "base * 10" "cnt + base * int (digit_val d)" "num + 1"] snoc.prems by simp
  also have "cnt + base * int (digit_val d) + base * 10 * int (dec_value ds) = cnt + base * int (dec_value (ds @ [d]))"
    by (simp add: dec_value_snoc algebra_simps)
  finally show ?case by simp
qed

lemma close_skip:
  assumes "\<forall>c\<in>set ds. c \<noteq> CHR ''['' \<and> c \<noteq> CHR '']''" and "l \<noteq> r"
  shows "close_loop (pre @ ds @ rest) (length pre) l r = close_loop (pre @ ds @ rest) (length pre + length ds) l r"
  using assms(1)
proof (induction ds arbitrary: pre)
  case (Cons d ds)
  have "(pre @ (d # ds) @ rest) ! length pre = d" by (simp add: nth_append)
  then have "close_loop (pre @ (d # ds) @ rest) (length pre) l r = close_loop (pre @ (d # ds) @ rest) (length pre + 1) l r"
    using Cons.prems assms(2) by (subst close_loop.simps) (simp add: Let_def)
  then show ?case using Cons.IH [of "pre @ [d]"] Cons.prems by simp
qed simp

lemma digit_no_bracket: "is_digit c \<Longrightarrow> c \<noteq> CHR ''['' \<and> c \<noteq> CHR '']'' \<and> of_char c < (128 :: nat)"
  by (auto simp: is_digit_def)

lemma close_bracket:
  "r < l \<Longrightarrow> close_loop (pre @ ''['' @ rest) (length pre) l r = close_loop (pre @ ''['' @ rest) (length pre + 1) (l + 1) r"
  "close_loop (pre @ '']'' @ rest) (length pre) l r = (if l = r + 1 then Inr (length pre) else close_loop (pre @ '']'' @ rest) (length pre + 1) l (r + 1))"
  by (subst close_loop.simps; simp add: Let_def nth_append)+

text \<open>The search for the closing bracket passes over a string with matching brackets.\<close>

definition skips :: "string \<Rightarrow> bool" where
  "skips t \<longleftrightarrow> (\<forall>pre rest l r. r < l \<longrightarrow> (\<exists>b. close_loop (pre @ t @ rest) (length pre) l r =
     close_loop (pre @ t @ rest) (length pre + length t) (l + b) (r + b)))"

lemma skipsE:
  assumes "skips t" and "r < l"
  obtains b where "close_loop (pre @ t @ rest) (length pre) l r = close_loop (pre @ t @ rest) (length pre + length t) (l + b) (r + b)"
  using assms unfolding skips_def by metis

lemma skips_plain: "\<forall>c\<in>set ds. c \<noteq> CHR ''['' \<and> c \<noteq> CHR '']'' \<Longrightarrow> skips ds"
  using close_skip unfolding skips_def by (intro allI impI exI [of _ 0]) auto

lemma skips_append:
  assumes "skips t" and "skips u"
  shows "skips (t @ u)"
  unfolding skips_def
proof (intro allI impI)
  fix pre rest and l r :: int
  assume lr: "r < l"
  obtain b where b: "close_loop (pre @ t @ u @ rest) (length pre) l r = close_loop (pre @ t @ u @ rest) (length pre + length t) (l + b) (r + b)"
    by (rule skipsE [OF assms(1) lr])
  have "r + b < l + b" using lr by simp
  then obtain b' where "close_loop ((pre @ t) @ u @ rest) (length (pre @ t)) (l + b) (r + b) =
      close_loop ((pre @ t) @ u @ rest) (length (pre @ t) + length u) (l + b + b') (r + b + b')"
    by (rule skipsE [OF assms(2)])
  then show "\<exists>b. close_loop (pre @ (t @ u) @ rest) (length pre) l r = close_loop (pre @ (t @ u) @ rest) (length pre + length (t @ u)) (l + b) (r + b)"
    using b by (intro exI [of _ "b + b'"]) (simp add: algebra_simps)
qed

lemma skips_brackets:
  assumes "skips t"
  shows "skips (''['' @ t @ '']'')"
  unfolding skips_def
proof (intro allI impI)
  fix pre rest and l r :: int
  assume lr: "r < l"
  let ?s = "pre @ ''['' @ t @ '']'' @ rest"
  have "r < l + 1" using lr by simp
  then obtain b where b: "close_loop ((pre @ ''['') @ t @ '']'' @ rest) (length (pre @ ''['')) (l + 1) r =
      close_loop ((pre @ ''['') @ t @ '']'' @ rest) (length (pre @ ''['') + length t) (l + 1 + b) (r + b)"
    by (rule skipsE [OF assms])
  have "close_loop ?s (length pre) l r = close_loop ?s (length pre + 1) (l + 1) r"
    using close_bracket(1) [OF lr, of pre "t @ '']'' @ rest"] by simp
  also have "\<dots> = close_loop ?s (length pre + 1 + length t) (l + 1 + b) (r + b)" using b by simp
  also have "\<dots> = close_loop ?s (length pre + 1 + length t + 1) (l + 1 + b) (r + b + 1)"
    using close_bracket(2) [of "pre @ ''['' @ t" rest "l + 1 + b" "r + b"] lr by simp
  finally show "\<exists>b. close_loop (pre @ (''['' @ t @ '']'') @ rest) (length pre) l r =
      close_loop (pre @ (''['' @ t @ '']'') @ rest) (length pre + length (''['' @ t @ '']'')) (l + b) (r + b)"
    by (intro exI [of _ "1 + b"]) (simp add: algebra_simps)
qed

lemma skips_concat: "\<forall>t\<in>set ts. skips t \<Longrightarrow> skips (concat ts)"
  using skips_plain [of "[]"] by (induction ts) (auto simp: skips_append)

lemma skips_print: "wf_enc e \<Longrightarrow> skips (print_enc e)"
proof (induction e rule: print_enc.induct)
  case (1 c)
  then show ?case by (simp add: skips_plain plain_def)
next
  case (2 k es)
  have "skips (concat (map print_enc es))" using "2" by (intro skips_concat) auto
  moreover have "skips (dec_string k)" using dec_string_digits [of k] digit_no_bracket by (intro skips_plain) auto
  ultimately show ?case using skips_append skips_brackets by simp
qed

lemma close_found:
  assumes "\<forall>e\<in>set es. wf_enc e"
  shows "close_loop (pre @ prints es @ '']'' @ rest) (length pre) 1 0 = Inr (length pre + length (prints es))"
proof -
  have sk: "skips (prints es)" unfolding prints_def using assms skips_print by (intro skips_concat) auto
  have "(0 :: int) < 1" by simp
  then obtain b where "close_loop (pre @ prints es @ '']'' @ rest) (length pre) 1 0 =
      close_loop (pre @ prints es @ '']'' @ rest) (length pre + length (prints es)) (1 + b) (0 + b)"
    by (rule skipsE [OF sk])
  also have "\<dots> = Inr (length pre + length (prints es))"
    using close_bracket(2) [of "pre @ prints es" rest "1 + b" b] by simp
  finally show ?thesis .
qed

lemma nth_int_mid: "nth_int (xs @ c # ys) (int (length xs)) = Inr c"
  by simp

lemma decode_plain:
  assumes "\<forall>c\<in>set ds. c \<noteq> CHR ''['' \<and> c \<noteq> CHR '']'' \<and> of_char c < (128 :: nat)" and "int (length pre + length ds) \<le> rp + 1"
  shows "decode_loop (pre @ ds @ rest) rp (int (length pre)) res = decode_loop (pre @ ds @ rest) rp (int (length pre + length ds)) (res @ ds)"
  using assms
proof (induction ds arbitrary: pre res)
  case (Cons d ds)
  have "nth_int (pre @ (d # ds) @ rest) (int (length pre)) = Inr d" by (simp add: nth_append)
  then have "decode_loop (pre @ (d # ds) @ rest) rp (int (length pre)) res = decode_loop (pre @ (d # ds) @ rest) rp (int (length (pre @ [d]))) (res @ [d])"
    using Cons.prems by (subst decode_loop.simps) (simp add: string_of_byte_def add.commute)
  then show ?case using Cons.IH [of "pre @ [d]" "res @ [d]"] Cons.prems by simp
qed simp

lemma decode_open:
  assumes "i \<le> rp" and "nth_int s i = Inr (CHR ''['')" and "num_loop s (nat i) 1 0 0 = (cnt, num)" and "num \<le> length res"
    and "close_loop s (nat i + 1) 1 0 = Inr index" and "decode_loop s (int index - 1) (i + 1) [] = Some (Inr tmp)"
  shows "decode_loop s rp i res = decode_loop s rp (int index + 1) (take (length res - num) res @ concat (replicate (nat cnt) tmp))"
  using assms by (subst decode_loop.simps) simp

lemma decode_rep:
  assumes "wf_enc (Rep k es)" and "pre = [] \<or> \<not> is_digit (last pre)" and "int (length pre + length (print_enc (Rep k es))) \<le> rp + 1"
    and "\<And>pre rest. pre = [] \<or> \<not> is_digit (last pre) \<Longrightarrow>
      decode_loop (pre @ prints es @ rest) (int (length pre + length (prints es)) - 1) (int (length pre)) '''' = Some (Inr (meanings es))"
  shows "decode_loop (pre @ print_enc (Rep k es) @ rest) rp (int (length pre)) res =
    decode_loop (pre @ print_enc (Rep k es) @ rest) rp (int (length pre + length (print_enc (Rep k es)))) (res @ meaning (Rep k es))"
proof -
  let ?ds = "dec_string k" and ?in = "prints es"
  let ?tail = "''['' @ ?in @ '']'' @ rest" and ?p = "pre @ ?ds @ ''[''"
  let ?s = "pre @ ?ds @ ?tail" and ?i = "int (length pre + length ?ds)"
  have s: "pre @ print_enc (Rep k es) @ rest = ?s" "?s = ?p @ ?in @ '']'' @ rest" by (simp_all add: prints_def)
  have len: "length (print_enc (Rep k es)) = length ?ds + length ?in + 2" by (simp add: prints_def)
  have "decode_loop ?s rp (int (length pre)) res = decode_loop ?s rp ?i (res @ ?ds)"
    using dec_string_digits [of k] digit_no_bracket assms(3) unfolding len by (intro decode_plain) auto
  also have "\<dots> = decode_loop ?s rp (int (length ?p + length ?in) + 1) (res @ meaning (Rep k es))"
  proof -
    have nth: "nth_int ?s ?i = Inr (CHR ''['')" using nth_int_mid [of "pre @ ?ds" "CHR ''[''" "?in @ '']'' @ rest"] by simp
    have i: "nat ?i = length (pre @ ?ds)" by (simp only: nat_int length_append)
    have num: "num_loop ?s (nat ?i) 1 0 0 = (int k, length ?ds)"
      using num_loop_correct [OF dec_string_digits assms(2), of k ?tail 1 0 0] assms(1) unfolding i by simp
    have close: "close_loop ?s (nat ?i + 1) 1 0 = Inr (length ?p + length ?in)"
      using close_found [of es ?p rest] assms(1) unfolding i by (simp add: add.commute)
    have inner: "decode_loop ?s (int (length ?p + length ?in) - 1) (?i + 1) '''' = Some (Inr (meanings es))"
      using assms(4) [of ?p "'']'' @ rest"] by (simp add: is_digit_def add.commute)
    have le: "?i \<le> rp" using assms(3) unfolding len by simp
    have m: "concat (replicate k (meanings es)) = meaning (Rep k es)" by (simp add: meanings_def)
    have "length ?ds \<le> length (res @ ?ds)" by simp
    then show ?thesis using decode_open [OF le nth num _ close inner, of "res @ ?ds"] m by simp
  qed
  finally show ?thesis unfolding s(1) len by (simp add: algebra_simps)
qed

lemma decode_print:
  assumes "\<forall>e\<in>set es. wf_enc e" and "pre = [] \<or> \<not> is_digit (last pre)"
  shows "decode_loop (pre @ prints es @ rest) (int (length pre + length (prints es)) - 1) (int (length pre)) res = Some (Inr (res @ meanings es))"
  using assms
proof (induction "length (prints es)" arbitrary: es pre rest res rule: less_induct)
  case less
  show ?case
  proof (cases es)
    case Nil
    then show ?thesis by (subst decode_loop.simps) simp
  next
    case (Cons e fs)
    let ?rp = "int (length pre + length (prints es)) - 1"
    have ne: "print_enc e \<noteq> []" by (cases e) auto
    have last: "\<not> is_digit (last (pre @ print_enc e))" using less.prems(1) Cons by (cases e) (auto simp: plain_def is_digit_def)
    have "decode_loop (pre @ print_enc e @ prints fs @ rest) ?rp (int (length pre)) res =
        decode_loop (pre @ print_enc e @ prints fs @ rest) ?rp (int (length pre + length (print_enc e))) (res @ meaning e)"
    proof (cases e)
      case (Lit c)
      then show ?thesis using decode_plain [of "[c]" pre ?rp "prints fs @ rest" res] less.prems(1) Cons by (auto simp: plain_def)
    next
      case (Rep k gs)
      have "length (prints gs) < length (prints es)" using Rep Cons by (simp add: prints_def)
      then have "decode_loop (q @ prints gs @ rest') (int (length q + length (prints gs)) - 1) (int (length q)) '''' = Some (Inr (meanings gs))"
        if "q = [] \<or> \<not> is_digit (last q)" for q rest'
        using less.hyps [of gs q rest' "''''"] less.prems(1) Cons Rep that by simp
      then show ?thesis using decode_rep [of k gs pre ?rp "prints fs @ rest" res] less.prems Cons Rep by simp
    qed
    moreover have "length (prints fs) < length (prints es)" using ne Cons by simp
    then have "decode_loop ((pre @ print_enc e) @ prints fs @ rest) (int (length (pre @ print_enc e) + length (prints fs)) - 1)
        (int (length (pre @ print_enc e))) (res @ meaning e) = Some (Inr ((res @ meaning e) @ meanings fs))"
      using less.prems(1) last Cons by (intro less.hyps) auto
    ultimately show ?thesis using Cons by (simp add: add.assoc)
  qed
qed

text \<open>
  Property C37. \<open>decodeString\<close> returns on every well-formed encoding and undoes it: decoding what is printed for nested
  repetitions of ASCII text with counts below \<open>2 ^ 63\<close> gives the text that they stand for.
\<close>
theorem decode_string_roundtrip:
  assumes "\<forall>e\<in>set es. wf_enc e"
  shows "decodeString (concat (map print_enc es)) = Some (Inr (concat (map meaning es)))"
  using decode_print [OF assms, of "[]" "[]" "[]"] by (simp add: decodeString_def decode_def prints_def meanings_def)

theorem decode_string_roundtrip_witness:
  "decodeString ''3[a2[c]]'' = Some (Inr ''accaccacc'')"
proof -
  let ?es = "[Rep 3 [Lit (CHR ''a''), Rep 2 [Lit (CHR ''c'')]]]"
  have "concat (map print_enc ?es) = ''3[a2[c]]''" by code_simp
  moreover have "concat (map meaning ?es) = ''accaccacc''" by code_simp
  moreover have "\<forall>e\<in>set ?es. wf_enc e" by (simp add: plain_def is_digit_def)
  ultimately show ?thesis using decode_string_roundtrip [of ?es] by metis
qed

text \<open>A closing bracket that was not opened makes the loop spin.\<close>

lemma decode_loop_stuck:
  assumes "decode_loop s rp i res = Some r"
  shows "\<not> (i \<le> rp \<and> nth_int s i = Inr (CHR '']''))"
proof (rule decode_loop.raw_induct [where P = "\<lambda>s rp i res r. \<not> (i \<le> rp \<and> nth_int s i = Inr (CHR '']''))", OF _ assms], goal_cases)
  case (1 f s rp i res r)
  show ?case
  proof
    assume a: "i \<le> rp \<and> nth_int s i = Inr (CHR '']'')"
    then have "f s rp i res = Some r" using 1(2) by simp
    then show False using 1(1) a by blast
  qed
qed

lemma decode_stray_bracket: "decodeString '']'' = None"
  using decode_loop_stuck [of "'']''" 0 0 "[]"] by (cases "decodeString '']''") (auto simp: decodeString_def decode_def)

end
