(* ===== verification/Leet_Heap.thy ===== *)
theory Leet_Heap
  imports Go_Prelude "HOL-Library.Multiset"
begin

text \<open>
  The maxima of a sliding window, \<open>leet/slice.go\<close>, which keeps the window in a heap and removes elements that have left the
  window only when they come to the top. The functions \<open>up\<close> and \<open>down\<close> of the package \<open>container/heap\<close>, which work on the
  heap through its methods \<open>Less\<close> and \<open>Swap\<close>, are modelled too.
\<close>

subsection \<open>slice.go: the heap\<close>

record Item =
  Val :: int
  Index :: int

type_synonym heap = "Item list"

definition Less :: "heap \<Rightarrow> nat \<Rightarrow> nat \<Rightarrow> bool" where
  "Less h i j \<longleftrightarrow> Val (h ! i) > Val (h ! j)"

definition Swap :: "heap \<Rightarrow> nat \<Rightarrow> nat \<Rightarrow> heap" where
  "Swap h i j = h[i := h ! j, j := h ! i]"

definition Peek :: "heap \<Rightarrow> Item" where
  "Peek h = (if length h = 0 then \<lparr>Val = 0, Index = 0\<rparr> else h ! 0)"

text \<open>\<open>(j - 1) / 2\<close> is 0 for \<open>j = 0\<close> in Go as well as here.\<close>

function heap_up :: "heap \<Rightarrow> nat \<Rightarrow> heap" where
  "heap_up h j =
     (let i = (j - 1) div 2 in
      if i = j \<or> \<not> Less h j i then h else heap_up (Swap h i j) i)"
  by pat_completeness auto
termination by (relation "measure snd") auto

function heap_down :: "heap \<Rightarrow> nat \<Rightarrow> nat \<Rightarrow> heap" where
  "heap_down h i n =
     (let j1 = 2 * i + 1 in
      if j1 \<ge> n then h
      else
        let j = (if j1 + 1 < n \<and> Less h (j1 + 1) j1 then j1 + 1 else j1) in
        if \<not> Less h j i then h else heap_down (Swap h i j) j n)"
  by pat_completeness auto
termination by (relation "measure (\<lambda>(h, i, n). n - i)") (auto simp: Let_def split: if_splits)

declare heap_up.simps [simp del] heap_down.simps [simp del]

definition heap_Push :: "heap \<Rightarrow> Item \<Rightarrow> heap" where
  "heap_Push h x = (let h = h @ [x] in heap_up h (length h - 1))"

definition heap_Pop :: "heap \<Rightarrow> heap \<times> Item" where
  "heap_Pop h =
     (let n = length h - 1; h = heap_down (Swap h 0 n) 0 n in
      (take (length h - 1) h, h ! (length h - 1)))"

subsection \<open>slice.go: the window\<close>

function fill_heap :: "int list \<Rightarrow> int \<Rightarrow> heap \<Rightarrow> int \<Rightarrow> heap go" where
  "fill_heap nums k h i =
     (if i < k then bind_go (nth_int nums i) (\<lambda>v. fill_heap nums k (heap_Push h \<lparr>Val = v, Index = i\<rparr>) (i + 1)) else Inr h)"
  by pat_completeness auto
termination by (relation "measure (\<lambda>(nums, k, h, i). nat (k - i))") auto

text \<open>The loop that removes what has left the window; a pop makes the heap shorter.\<close>

lemma length_heap_down [simp]: "length (heap_down h i n) = length h"
  by (induction h i n rule: heap_down.induct) (subst heap_down.simps, auto simp: Let_def Swap_def)

lemma length_heap_Pop: "length (fst (heap_Pop h)) = length h - 1"
  by (simp add: heap_Pop_def Let_def Swap_def)

function expire :: "heap \<Rightarrow> int \<Rightarrow> heap" where
  "expire h i = (if length h > 0 \<and> Index (Peek h) < i then expire (fst (heap_Pop h)) i else h)"
  by pat_completeness auto
termination by (relation "measure (\<lambda>(h, i). length h)") (auto simp: length_heap_Pop)

function max_loop :: "int list \<Rightarrow> int \<Rightarrow> heap \<Rightarrow> int list \<Rightarrow> nat \<Rightarrow> int list go" where
  "max_loop nums k h result i =
     (if i < length result then
        let index = int i + k - 1 in
        bind_go (nth_int nums index) (\<lambda>v.
        let h = expire (heap_Push h \<lparr>Val = v, Index = index\<rparr>) (int i) in
        max_loop nums k h (result[i := Val (Peek h)]) (i + 1))
      else Inr result)"
  by pat_completeness auto
termination by (relation "measure (\<lambda>(nums, k, h, result, i). length result - i)") auto

text \<open>
  \<open>heap.Init\<close> of the empty heap does nothing. \<open>result\<close> is made before the slice is tested for being empty, so that the test
  is not reached for an empty slice and \<open>k > 1\<close>.
\<close>

definition maxSlidingWindow :: "int list \<Rightarrow> int \<Rightarrow> int list go" where
  "maxSlidingWindow nums k =
     bind_go (make_slice (int (length nums) - k + 1)) (\<lambda>result.
     if length nums = 0 then Inr []
     else
       bind_go (fill_heap nums k [] 0) (\<lambda>h.
       bind_go (upd_go result 0 (Val (Peek h))) (\<lambda>result.
       max_loop nums k h result 1)))"

declare fill_heap.simps [simp del] expire.simps [simp del] max_loop.simps [simp del]

subsection \<open>Heap order\<close>

definition parent :: "nat \<Rightarrow> nat" where
  "parent j = (j - 1) div 2"

lemma parent_less: "0 < j \<Longrightarrow> parent j < j"
  by (auto simp: parent_def)

lemma parent_0 [simp]: "parent 0 = 0"
  by (simp add: parent_def)

lemma parent_le: "parent j \<le> j"
  by (auto simp: parent_def)

lemma parent_eq [simp]: "parent j = j \<longleftrightarrow> j = 0"
  using parent_less [of j] by (cases "j = 0") (auto simp: parent_def)

lemma parent_iff: "0 < l \<Longrightarrow> parent l = i \<longleftrightarrow> l = 2 * i + 1 \<or> l = 2 * i + 2"
  by (auto simp: parent_def)

definition heap_ok :: "heap \<Rightarrow> nat \<Rightarrow> bool" where
  "heap_ok h n \<longleftrightarrow> (\<forall>j. 0 < j \<longrightarrow> j < n \<longrightarrow> Val (h ! j) \<le> Val (h ! parent j))"

lemma heap_root: "heap_ok h n \<Longrightarrow> j < n \<Longrightarrow> Val (h ! j) \<le> Val (h ! 0)"
proof (induction j rule: less_induct)
  case (less j)
  show ?case
  proof (cases "j = 0")
    case False
    then have "Val (h ! parent j) \<le> Val (h ! 0)" using less parent_less [of j] by auto
    moreover have "Val (h ! j) \<le> Val (h ! parent j)" using less.prems False by (simp add: heap_ok_def)
    ultimately show ?thesis by simp
  qed simp
qed

lemma mset_Swap: "i < length h \<Longrightarrow> j < length h \<Longrightarrow> mset (Swap h i j) = mset h"
  unfolding Swap_def by (rule mset_swap)

lemma nth_Swap: "i < length h \<Longrightarrow> j < length h \<Longrightarrow> Swap h i j ! k = (if k = i then h ! j else if k = j then h ! i else h ! k)"
  by (auto simp: Swap_def nth_list_update)

text \<open>
  Heap order but for the element at \<open>j\<close>: it may be greater than its parent, and its children are at most its parent. And
  heap order but for the element at \<open>i\<close>, which may be less than its children.
\<close>

definition up_ok :: "heap \<Rightarrow> nat \<Rightarrow> bool" where
  "up_ok h j \<longleftrightarrow> (\<forall>l. 0 < l \<longrightarrow> l < length h \<longrightarrow> l \<noteq> j \<longrightarrow> Val (h ! l) \<le> Val (h ! parent l)) \<and>
     (\<forall>l. 0 < l \<longrightarrow> l < length h \<longrightarrow> parent l = j \<longrightarrow> 0 < j \<longrightarrow> Val (h ! l) \<le> Val (h ! parent j))"

definition down_ok :: "heap \<Rightarrow> nat \<Rightarrow> nat \<Rightarrow> bool" where
  "down_ok h i n \<longleftrightarrow> (\<forall>l. 0 < l \<longrightarrow> l < n \<longrightarrow> parent l \<noteq> i \<longrightarrow> Val (h ! l) \<le> Val (h ! parent l)) \<and>
     (\<forall>l. 0 < l \<longrightarrow> l < n \<longrightarrow> parent l = i \<longrightarrow> 0 < i \<longrightarrow> Val (h ! l) \<le> Val (h ! parent i))"

lemma up_ok_Swap:
  assumes "up_ok h j" and "j < length h" and "0 < j" and "Val (h ! parent j) < Val (h ! j)"
  shows "up_ok (Swap h (parent j) j) (parent j)"
proof -
  let ?i = "parent j" and ?h = "Swap h (parent j) j"
  have i: "?i < j" "?i < length h" using assms(2,3) parent_less [of j] by auto
  have len: "length ?h = length h" by (simp add: Swap_def)
  note nth = nth_Swap [OF i(2) assms(2)]
  have a: "Val (h ! l) \<le> Val (h ! parent l)" if "0 < l" "l < length h" "l \<noteq> j" for l using assms(1) that by (auto simp: up_ok_def)
  have b: "Val (h ! l) \<le> Val (h ! ?i)" if "0 < l" "l < length h" "parent l = j" for l using assms(1,3) that by (auto simp: up_ok_def)
  have c: "Val (h ! l) \<le> Val (h ! ?i)" if "0 < l" "l < length h" "parent l = ?i" "l \<noteq> j" for l using a [OF that(1,2,4)] that(3) by simp
  have "Val (?h ! l) \<le> Val (?h ! parent l)" if l: "0 < l" "l < length h" "l \<noteq> ?i" for l
  proof -
    consider "l = j" | "l \<noteq> j" "parent l = j" | "l \<noteq> j" "parent l = ?i" | "l \<noteq> j" "parent l \<noteq> j" "parent l \<noteq> ?i" by blast
    then show ?thesis
    proof cases
      case 1
      then show ?thesis using assms(4) nth i by simp
    next
      case 2
      then show ?thesis using b [OF l(1,2)] nth l assms(3) parent_eq [of j] by auto
    next
      case 3
      then show ?thesis using c [OF l(1,2)] assms(4) nth l i by simp
    next
      case 4
      then show ?thesis using a [OF l(1,2)] nth l by simp
    qed
  qed
  moreover have "Val (?h ! l) \<le> Val (?h ! parent ?i)" if l: "0 < l" "l < length h" "parent l = ?i" "0 < ?i" for l
  proof -
    have p: "parent ?i \<noteq> ?i" "parent ?i \<noteq> j" "l \<noteq> ?i" using i l parent_less [of ?i] parent_less [of l] by auto
    have "Val (h ! ?i) \<le> Val (h ! parent ?i)" using a [of ?i] i l(4) by auto
    then show ?thesis using c [OF l(1-3)] nth p by (cases "l = j") auto
  qed
  ultimately show ?thesis unfolding up_ok_def len by blast
qed

lemma heap_up_correct: "up_ok h j \<Longrightarrow> j < length h \<Longrightarrow> mset (heap_up h j) = mset h \<and> heap_ok (heap_up h j) (length h)"
proof (induction h j rule: heap_up.induct)
  case (1 h j)
  let ?i = "parent j"
  show ?case
  proof (cases "?i = j \<or> \<not> Less h j ?i")
    case True
    then have e: "heap_up h j = h" by (subst heap_up.simps) (simp add: parent_def)
    have "Val (h ! j) \<le> Val (h ! ?i)" using True by (auto simp: Less_def)
    then show ?thesis unfolding e using "1.prems"(1) by (auto simp: heap_ok_def up_ok_def)
  next
    case False
    then have j: "0 < j" and v: "Val (h ! ?i) < Val (h ! j)" by (auto simp: Less_def)
    have i: "?i < length h" using "1.prems"(2) parent_le [of j] by simp
    have e: "heap_up h j = heap_up (Swap h ?i j) ?i" using False by (subst heap_up.simps) (simp add: Let_def parent_def)
    have "mset (heap_up (Swap h ?i j) ?i) = mset (Swap h ?i j) \<and> heap_ok (heap_up (Swap h ?i j) ?i) (length (Swap h ?i j))"
      using False up_ok_Swap [OF "1.prems" j v] i by (intro "1.IH" [unfolded parent_def [symmetric]]) (auto simp: Swap_def)
    then show ?thesis unfolding e using mset_Swap [OF i "1.prems"(2)] by (simp add: Swap_def)
  qed
qed

lemma heap_Push_correct:
  assumes "heap_ok h (length h)"
  shows "mset (heap_Push h x) = add_mset x (mset h) \<and> heap_ok (heap_Push h x) (length (heap_Push h x))"
proof -
  have "parent l < length h" if "0 < l" "l < Suc (length h)" for l using parent_less [OF that(1)] that(2) by simp
  moreover have "parent l \<noteq> length h" if "0 < l" "l < Suc (length h)" for l using parent_less [OF that(1)] that(2) by linarith
  ultimately have "up_ok (h @ [x]) (length h)" using assms by (auto simp: up_ok_def heap_ok_def nth_append less_Suc_eq)
  then have "mset (heap_up (h @ [x]) (length h)) = mset (h @ [x]) \<and> heap_ok (heap_up (h @ [x]) (length h)) (length (h @ [x]))"
    by (intro heap_up_correct) auto
  moreover from this have "length (heap_up (h @ [x]) (length h)) = length (h @ [x])" by (metis size_mset)
  ultimately show ?thesis by (simp add: heap_Push_def)
qed

text \<open>The greater child of \<open>i\<close>, where there is one.\<close>

definition big_child :: "heap \<Rightarrow> nat \<Rightarrow> nat \<Rightarrow> nat" where
  "big_child h i n = (if 2 * i + 2 < n \<and> Less h (2 * i + 2) (2 * i + 1) then 2 * i + 2 else 2 * i + 1)"

lemma big_child: "2 * i + 1 < n \<Longrightarrow> big_child h i n < n \<and> parent (big_child h i n) = i \<and> i < big_child h i n \<and>
    (\<forall>l. 0 < l \<longrightarrow> l < n \<longrightarrow> parent l = i \<longrightarrow> Val (h ! l) \<le> Val (h ! big_child h i n))"
proof (intro conjI allI impI)
  assume n: "2 * i + 1 < n"
  show "big_child h i n < n" "i < big_child h i n" using n by (auto simp: big_child_def)
  show "parent (big_child h i n) = i" by (auto simp: big_child_def parent_def)
  fix l assume "0 < l" "l < n" "parent l = i"
  then have "l = 2 * i + 1 \<or> l = 2 * i + 2" by (simp add: parent_iff)
  then show "Val (h ! l) \<le> Val (h ! big_child h i n)" using \<open>l < n\<close> by (auto simp: big_child_def Less_def)
qed

lemma down_ok_Swap:
  assumes "down_ok h i n" and "2 * i + 1 < n" and "n \<le> length h" and "j = big_child h i n" and "Val (h ! i) < Val (h ! j)"
  shows "down_ok (Swap h i j) j n"
proof -
  let ?h = "Swap h i j"
  have j: "j < n" "parent j = i" "i < j" and big: "\<And>l. 0 < l \<Longrightarrow> l < n \<Longrightarrow> parent l = i \<Longrightarrow> Val (h ! l) \<le> Val (h ! j)"
    using big_child [OF assms(2), of h] assms(4) by auto
  have "i < length h" "j < length h" using j assms(3) by auto
  note nth = nth_Swap [OF this]
  have a: "Val (h ! l) \<le> Val (h ! parent l)" if "0 < l" "l < n" "parent l \<noteq> i" for l using assms(1) that by (auto simp: down_ok_def)
  have b: "Val (h ! l) \<le> Val (h ! parent i)" if "0 < l" "l < n" "parent l = i" "0 < i" for l using assms(1) that by (auto simp: down_ok_def)
  have "Val (?h ! l) \<le> Val (?h ! parent l)" if l: "0 < l" "l < n" "parent l \<noteq> j" for l
  proof -
    consider "l = j" | "l \<noteq> j" "parent l = i" | "l \<noteq> j" "l = i" "parent l \<noteq> i" | "l \<noteq> j" "l \<noteq> i" "parent l \<noteq> i" by blast
    then show ?thesis
    proof cases
      case 1
      then show ?thesis using assms(5) nth j by simp
    next
      case 2
      then show ?thesis using big [OF l(1,2)] nth j l parent_less [OF l(1)] by auto
    next
      case 3
      then show ?thesis using b [of j] nth j l by auto
    next
      case 4
      then show ?thesis using a [OF l(1,2)] nth l by simp
    qed
  qed
  moreover have "Val (?h ! l) \<le> Val (?h ! parent j)" if l: "0 < l" "l < n" "parent l = j" for l
  proof -
    have "l \<noteq> i" "l \<noteq> j" "parent l \<noteq> i" using l j parent_less [OF l(1)] by auto
    then show ?thesis using a [OF l(1,2)] nth l j by auto
  qed
  ultimately show ?thesis unfolding down_ok_def by blast
qed

lemma heap_down_correct:
  "down_ok h i n \<Longrightarrow> i < n \<Longrightarrow> n \<le> length h \<Longrightarrow>
    mset (heap_down h i n) = mset h \<and> heap_ok (heap_down h i n) n \<and> (\<forall>k. n \<le> k \<longrightarrow> heap_down h i n ! k = h ! k)"
proof (induction "n - i" arbitrary: h i rule: less_induct)
  case less
  let ?j = "big_child h i n"
  have step: "heap_down h i n = (if 2 * i + 1 \<ge> n \<or> \<not> Less h ?j i then h else heap_down (Swap h i ?j) ?j n)"
    by (subst heap_down.simps) (simp add: Let_def big_child_def)
  show ?case
  proof (cases "2 * i + 1 \<ge> n \<or> \<not> Less h ?j i")
    case True
    have "Val (h ! l) \<le> Val (h ! parent l)" if l: "0 < l" "l < n" for l
    proof (cases "parent l = i")
      case p: True
      then have "2 * i + 1 < n" using parent_iff [OF l(1), of i] l(2) by auto
      then have "Val (h ! l) \<le> Val (h ! ?j)" "Val (h ! ?j) \<le> Val (h ! i)"
        using big_child [of i n h] True p l by (blast, simp add: Less_def not_less)
      then show ?thesis using p by simp
    next
      case False
      then show ?thesis using less.prems(1) l by (auto simp: down_ok_def)
    qed
    then show ?thesis using step True by (simp add: heap_ok_def)
  next
    case False
    then have n: "2 * i + 1 < n" and v: "Val (h ! i) < Val (h ! ?j)" by (auto simp: Less_def)
    have j: "?j < n" "i < ?j" using big_child [OF n, of h] by auto
    have ok: "down_ok (Swap h i ?j) ?j n" using down_ok_Swap [OF less.prems(1) n less.prems(3) refl v] .
    have "mset (heap_down (Swap h i ?j) ?j n) = mset (Swap h i ?j) \<and> heap_ok (heap_down (Swap h i ?j) ?j n) n \<and>
        (\<forall>k. n \<le> k \<longrightarrow> heap_down (Swap h i ?j) ?j n ! k = Swap h i ?j ! k)"
      using ok j less.prems(3) by (intro less.hyps) (auto simp: Swap_def)
    moreover have "i < length h" "?j < length h" using j less.prems(2,3) by auto
    ultimately show ?thesis using step False mset_Swap nth_Swap j less.prems(2) by auto
  qed
qed

lemma heap_ok_take: "heap_ok h n \<Longrightarrow> heap_ok (take n h) n"
  unfolding heap_ok_def
proof (intro allI impI)
  fix j assume h: "\<forall>j. 0 < j \<longrightarrow> j < n \<longrightarrow> Val (h ! j) \<le> Val (h ! parent j)" and j: "0 < j" "j < n"
  have "parent j < n" using parent_less [OF j(1)] j(2) by simp
  then show "Val (take n h ! j) \<le> Val (take n h ! parent j)" using h j by simp
qed

lemma heap_Pop_correct:
  assumes "heap_ok h (length h)" and "h \<noteq> []"
  shows "snd (heap_Pop h) = h ! 0 \<and> mset h = add_mset (h ! 0) (mset (fst (heap_Pop h))) \<and>
    heap_ok (fst (heap_Pop h)) (length (fst (heap_Pop h)))"
proof -
  let ?n = "length h - 1" and ?s = "Swap h 0 (length h - 1)"
  let ?d = "heap_down ?s 0 ?n"
  have l: "0 < length h" "?n < length h" using assms(2) by auto
  note nth = nth_Swap [OF l]
  have "parent l \<noteq> ?n" if "0 < l" "l < ?n" for l using parent_less [OF that(1)] that(2) by simp
  then have "down_ok ?s 0 ?n" unfolding down_ok_def
    using assms(1) nth by (auto simp: heap_ok_def)
  then have d: "mset ?d = mset ?s \<and> heap_ok ?d ?n \<and> ?d ! ?n = h ! 0"
  proof (cases "?n = 0")
    case True
    then have "?d = ?s" by (subst heap_down.simps) simp
    then show ?thesis using True nth by (simp add: heap_ok_def)
  next
    case False
    then show ?thesis using heap_down_correct [OF \<open>down_ok ?s 0 ?n\<close>] nth by (auto simp: Swap_def)
  qed
  define d where "d = ?d"
  have len: "length d = length h" by (simp add: d_def Swap_def)
  have pop: "heap_Pop h = (take ?n d, d ! ?n)" by (simp add: heap_Pop_def Let_def d_def Swap_def)
  have "d \<noteq> []" using l len by auto
  then have "mset d = add_mset (d ! ?n) (mset (take ?n d))" unfolding len [symmetric] by (cases d rule: rev_cases) auto
  moreover have "heap_ok (take ?n d) ?n" using d unfolding d_def [symmetric] by (intro heap_ok_take) simp
  ultimately show ?thesis using d pop mset_Swap [OF l] len unfolding d_def [symmetric] by simp
qed

subsection \<open>The window in the heap\<close>

definition item :: "int list \<Rightarrow> nat \<Rightarrow> Item" where
  "item nums j = \<lparr>Val = nums ! j, Index = int j\<rparr>"

text \<open>The heap has the elements from \<open>i\<close> to before \<open>e\<close>, and besides them only earlier ones.\<close>

definition window_ok :: "int list \<Rightarrow> nat \<Rightarrow> nat \<Rightarrow> heap \<Rightarrow> bool" where
  "window_ok nums i e h \<longleftrightarrow> heap_ok h (length h) \<and> set h \<subseteq> item nums ` {..<e} \<and> item nums ` {i..<e} \<subseteq> set h"

lemma window_Push:
  assumes "window_ok nums i e h" and "i \<le> e"
  shows "window_ok nums i (Suc e) (heap_Push h (item nums e))"
proof -
  have p: "mset (heap_Push h (item nums e)) = add_mset (item nums e) (mset h)" "heap_ok (heap_Push h (item nums e)) (length (heap_Push h (item nums e)))"
    using heap_Push_correct [of h] assms(1) by (auto simp: window_ok_def)
  have "set (heap_Push h (item nums e)) = insert (item nums e) (set h)"
    using p(1) by (metis set_mset_add_mset_insert set_mset_mset)
  moreover have "{..<Suc e} = insert e {..<e}" "{i..<Suc e} = insert e {i..<e}" using assms(2) by auto
  ultimately show ?thesis using p(2) assms(1) by (auto simp: window_ok_def)
qed

lemma window_Pop:
  assumes "window_ok nums i e h" and "h \<noteq> []" and "Index (h ! 0) < int i"
  shows "window_ok nums i e (fst (heap_Pop h))"
proof -
  let ?h = "fst (heap_Pop h)"
  have p: "mset h = add_mset (h ! 0) (mset ?h)" "heap_ok ?h (length ?h)"
    using heap_Pop_correct [of h] assms by (auto simp: window_ok_def)
  have set: "set h = insert (h ! 0) (set ?h)" using p(1) by (metis set_mset_add_mset_insert set_mset_mset)
  have w: "set h \<subseteq> item nums ` {..<e}" "item nums ` {i..<e} \<subseteq> set h" using assms(1) by (simp_all add: window_ok_def)
  have "h ! 0 \<notin> item nums ` {i..<e}" using assms(3) by (auto simp: item_def)
  then have "item nums ` {i..<e} \<subseteq> set ?h" using w(2) unfolding set by (rule subset_insert [THEN iffD1])
  moreover have "set ?h \<subseteq> item nums ` {..<e}" using w(1) unfolding set by simp
  ultimately show ?thesis using p(2) by (simp add: window_ok_def)
qed

lemma window_mono: "window_ok nums i e h \<Longrightarrow> i \<le> i' \<Longrightarrow> window_ok nums i' e h"
  unfolding window_ok_def using image_mono [of "{i'..<e}" "{i..<e}" "item nums"] by auto

lemma expire_correct:
  assumes "window_ok nums i e h"
  shows "window_ok nums i e (expire h (int i)) \<and> (expire h (int i) = [] \<or> int i \<le> Index (Peek (expire h (int i))))"
  using assms
proof (induction h "int i" rule: expire.induct)
  case (1 h)
  show ?case
  proof (cases "length h > 0 \<and> Index (Peek h) < int i")
    case False
    then have e: "expire h (int i) = h" by (subst expire.simps) auto
    show ?thesis unfolding e using False 1(2) by auto
  next
    case True
    then have "window_ok nums i e (fst (heap_Pop h))" using 1(2) by (intro window_Pop) (auto simp: Peek_def)
    moreover have "expire h (int i) = expire (fst (heap_Pop h)) (int i)" using True by (subst expire.simps) simp
    ultimately show ?thesis using 1(1) True by simp
  qed
qed

lemma window_Max:
  assumes "window_ok nums i e h" and "i < e" and "int i \<le> Index (Peek h)"
  shows "Val (Peek h) = Max ((!) nums ` {i..<e})"
proof -
  have "item nums i \<in> set h" using assms(1,2) by (auto simp: window_ok_def)
  then have ne: "h \<noteq> []" by auto
  then have root: "Peek h = h ! 0" "h ! 0 \<in> set h" by (auto simp: Peek_def)
  then obtain k where k: "h ! 0 = item nums k" "k < e" using assms(1) by (auto simp: window_ok_def)
  have "Val (h ! 0) \<in> (!) nums ` {i..<e}" using k assms(3) root by (auto simp: item_def)
  moreover have "nums ! j \<le> Val (h ! 0)" if "i \<le> j" "j < e" for j
  proof -
    have "item nums j \<in> set h" using assms(1) that by (auto simp: window_ok_def)
    then obtain l where "l < length h" "h ! l = item nums j" by (metis in_set_conv_nth)
    then show ?thesis using heap_root [of h "length h" l] assms(1) by (simp add: window_ok_def item_def)
  qed
  ultimately show ?thesis unfolding root(1) by (intro Max_eqI [symmetric]) auto
qed

lemma fill_heap_correct:
  assumes "k \<le> length nums" and "window_ok nums 0 i h" and "i \<le> k"
  shows "\<exists>h'. fill_heap nums (int k) h (int i) = Inr h' \<and> window_ok nums 0 k h'"
  using assms(2,3)
proof (induction "k - i" arbitrary: i h)
  case 0
  then show ?case by (subst fill_heap.simps) auto
next
  case (Suc n)
  then have i: "i < k" by simp
  have "fill_heap nums (int k) h (int i) = fill_heap nums (int k) (heap_Push h (item nums i)) (int (Suc i))"
    using i assms(1) by (subst fill_heap.simps) (simp add: item_def add.commute)
  then show ?case using Suc.hyps(1) [of "Suc i" "heap_Push h (item nums i)"] Suc.hyps(2) window_Push [OF Suc.prems(1)] i by simp
qed

lemma max_loop_correct:
  assumes "0 < k" and "k \<le> length nums" and "length result = length nums - k + 1" and "0 < i" and "i \<le> length result"
    and "window_ok nums (i - 1) (i + k - 1) h" and "\<forall>j<i. result ! j = Max ((!) nums ` {j..<j + k})"
  shows "max_loop nums (int k) h result i = Inr (map (\<lambda>j. Max ((!) nums ` {j..<j + k})) [0..<length nums - k + 1])"
  using assms(3-7)
proof (induction "length result - i" arbitrary: i h result)
  case 0
  then have "max_loop nums (int k) h result i = Inr result" by (subst max_loop.simps) simp
  moreover have "result = map (\<lambda>j. Max ((!) nums ` {j..<j + k})) [0..<length nums - k + 1]"
    using 0 by (intro nth_equalityI) (auto simp del: upt_Suc)
  ultimately show ?case by simp
next
  case (Suc n)
  then have i: "i < length result" by simp
  let ?e = "i + k - 1"
  have e: "?e < length nums" "int ?e = int i + int k - 1" using i Suc.prems(1,2) assms(1,2) by (auto simp: of_nat_diff)
  have w: "window_ok nums i (i + k) (heap_Push h (item nums ?e))"
  proof -
    have "window_ok nums (i - 1) (Suc ?e) (heap_Push h (item nums ?e))" using Suc.prems(4) assms(1) by (intro window_Push) auto
    moreover have "Suc ?e = i + k" using assms(1) by simp
    ultimately show ?thesis using window_mono [of nums "i - 1" "i + k" _ i] by simp
  qed
  define h' where "h' = expire (heap_Push h (item nums ?e)) (int i)"
  have h': "window_ok nums i (i + k) h'" "h' = [] \<or> int i \<le> Index (Peek h')" using expire_correct [OF w] by (auto simp: h'_def)
  moreover have "h' \<noteq> []" using h'(1) assms(1) by (auto simp: window_ok_def)
  ultimately have m: "Val (Peek h') = Max ((!) nums ` {i..<i + k})" using window_Max [OF h'(1)] assms(1) by auto
  have step: "max_loop nums (int k) h result i = max_loop nums (int k) h' (result[i := Val (Peek h')]) (i + 1)"
    using i e by (subst max_loop.simps) (simp add: h'_def item_def Let_def e(2) [symmetric] del: of_nat_add)
  have "\<forall>j<i + 1. result[i := Val (Peek h')] ! j = Max ((!) nums ` {j..<j + k})"
    using Suc.prems(5) m i by (auto simp: less_Suc_eq nth_list_update)
  then show ?case unfolding step using Suc h'(1) i by (intro Suc.hyps(1)) auto
qed

text \<open>
  \<open>maxSlidingWindow\<close> with a window of \<open>k\<close> elements, at least one and at most all of them, returns without panic
  the maximum of each window. For a window longer than the slice by more than one it panics, even on an empty slice.
\<close>
theorem max_sliding_window_maxima:
  "(1 \<le> k \<and> k \<le> length nums \<longrightarrow>
      maxSlidingWindow nums (int k) = Inr (map (\<lambda>i. Max (set (take k (drop i nums)))) [0..<length nums - k + 1])) \<and>
   (length nums + 1 < k \<longrightarrow> maxSlidingWindow nums (int k) = Inl MakeSlice)"
proof (intro conjI impI)
  assume "length nums + 1 < k"
  then show "maxSlidingWindow nums (int k) = Inl MakeSlice" by (simp add: maxSlidingWindow_def make_slice_def)
next
  assume "1 \<le> k \<and> k \<le> length nums"
  then have k: "0 < k" "k \<le> length nums" "nums \<noteq> []" by auto
  have "window_ok nums 0 0 []" by (simp add: window_ok_def heap_ok_def)
  then obtain h where h: "fill_heap nums (int k) [] 0 = Inr h" "window_ok nums 0 k h"
    using fill_heap_correct [OF k(2), of 0 "[]"] by auto
  let ?r = "(replicate (length nums - k + 1) 0)[0 := Val (Peek h)]"
  have root: "0 \<le> Index (Peek h)"
  proof -
    have "item nums 0 \<in> set h" using h(2) k(1) by (auto simp: window_ok_def)
    then have "Peek h \<in> set h" by (cases h) (auto simp: Peek_def)
    then show ?thesis using h(2) by (auto simp: window_ok_def item_def)
  qed
  have "\<forall>j<1. ?r ! j = Max ((!) nums ` {j..<j + k})" using window_Max [OF h(2) k(1)] root by auto
  then have "max_loop nums (int k) h ?r 1 = Inr (map (\<lambda>j. Max ((!) nums ` {j..<j + k})) [0..<length nums - k + 1])"
    using k h(2) by (intro max_loop_correct) auto
  moreover have "make_slice (int (length nums) - int k + 1) = Inr (replicate (length nums - k + 1) 0)"
    using k(2) by (simp add: make_slice_def nat_diff_distrib nat_add_distrib)
  ultimately have "maxSlidingWindow nums (int k) = Inr (map (\<lambda>j. Max ((!) nums ` {j..<j + k})) [0..<length nums - k + 1])"
    using h(1) k(3) by (simp add: maxSlidingWindow_def upd_go_def)
  moreover have "(!) nums ` {j..<j + k} = set (take k (drop j nums))" if "j < length nums - k + 1" for j
  proof -
    have "take k (drop j nums) = map ((!) nums) [j..<j + k]" using that k(2) by (intro nth_equalityI) auto
    then show ?thesis by simp
  qed
  ultimately show "maxSlidingWindow nums (int k) = Inr (map (\<lambda>i. Max (set (take k (drop i nums)))) [0..<length nums - k + 1])" by simp
qed

theorem max_sliding_window_maxima_witness:
  "maxSlidingWindow [1, 3, -1, -3, 5, 3, 6, 7] 3 = Inr [3, 3, 5, 5, 6, 7] \<and> maxSlidingWindow [] 2 = Inl MakeSlice"
proof -
  have "map (\<lambda>i. Max (set (take 3 (drop i [1, 3, -1, -3, 5, 3, 6, 7 :: int])))) [0..<6] = [3, 3, 5, 5, 6, 7]" by code_simp
  then show ?thesis using max_sliding_window_maxima [of 3 "[1, 3, -1, -3, 5, 3, 6, 7]"] max_sliding_window_maxima [of 2 "[]"] by simp
qed

end
