(* ===== verification/Leet_Palindrome.thy ===== *)
theory Leet_Palindrome
  imports Go_Prelude "HOL-Library.Multiset"
begin

text \<open>
  \<open>leet/largestPalindromic.go\<close>: the largest number without leading zeros that reads the same both ways and is made of some
  of the given digits. The code ranges over the runes of the string; a byte that is not a digit, alone or as a part of
  a longer rune, makes the index run out of the array, so that going through the bytes gives the same outcome.
\<close>

subsection \<open>largestPalindromic.go\<close>

fun digit_counts :: "string \<Rightarrow> int list \<Rightarrow> int list go" where
  "digit_counts [] cnt = Inr cnt"
| "digit_counts (c # cs) cnt =
     bind_go (nth_int cnt (of_char c - 48)) (\<lambda>v. bind_go (upd_go cnt (of_char c - 48) (v + 1)) (digit_counts cs))"

function take_pairs :: "nat \<Rightarrow> int list \<Rightarrow> string \<Rightarrow> int list \<times> string" where
  "take_pairs i cnt left =
     (if i < length cnt \<and> cnt ! i > 1 then take_pairs i (cnt[i := cnt ! i - 2]) (left @ itoa (int i)) else (cnt, left))"
  by pat_completeness auto
termination by (relation "measure (\<lambda>(i, cnt, left). nat (cnt ! i))") auto

declare take_pairs.simps [simp del]

text \<open>The loops that go down from 9: the first argument is \<open>i + 1\<close>.\<close>

fun left_loop :: "nat \<Rightarrow> int list \<Rightarrow> string \<Rightarrow> int list \<times> string" where
  "left_loop 0 cnt left = (cnt, left)"
| "left_loop (Suc i) cnt left =
     (if i = 0 \<and> length left = 0 then left_loop i cnt left
      else case take_pairs i cnt left of (cnt, left) \<Rightarrow> left_loop i cnt left)"

fun mid_loop :: "nat \<Rightarrow> int list \<Rightarrow> string" where
  "mid_loop 0 cnt = ''''"
| "mid_loop (Suc i) cnt = (if cnt ! i > 0 then itoa (int i) else mid_loop i cnt)"

text \<open>\<open>reverseString\<close> is called with digits only, whose runes are their bytes.\<close>

function swap_loop :: "string \<Rightarrow> int \<Rightarrow> int \<Rightarrow> string" where
  "swap_loop r i j = (if i < j then swap_loop (r[nat i := r ! nat j, nat j := r ! nat i]) (i + 1) (j - 1) else r)"
  by pat_completeness auto
termination by (relation "measure (\<lambda>(r, i, j). nat (j - i))") auto

declare swap_loop.simps [simp del]

definition reverseString :: "string \<Rightarrow> string" where
  "reverseString s = swap_loop s 0 (int (length s) - 1)"

definition largestPalindromic :: "string \<Rightarrow> string go" where
  "largestPalindromic num =
     bind_go (digit_counts num (replicate 10 0)) (\<lambda>cnt.
     case left_loop 10 cnt '''' of (cnt, leftPart) \<Rightarrow>
       let mid = mid_loop 10 cnt in
       if leftPart = '''' \<and> mid = '''' then Inr ''0''
       else Inr (leftPart @ mid @ reverseString leftPart))"

subsection \<open>What the loops compute\<close>

lemma swap_mid:
  "swap_loop (xs @ m @ ys) (int (length xs)) (int (length xs) + int (length m) - 1) = xs @ rev m @ ys"
proof (induction "length m" arbitrary: m xs ys rule: less_induct)
  case less
  show ?case
  proof (cases "length m < 2")
    case True
    then have "rev m = m" by (cases m; cases "tl m") auto
    then show ?thesis using True by (subst swap_loop.simps) simp
  next
    case False
    then obtain a t where "m = a # t" "t \<noteq> []" by (cases m) auto
    then obtain m' b where m: "m = a # m' @ [b]" by (metis rev_exhaust)
    let ?r = "xs @ m @ ys" and ?i = "length xs" and ?j = "length xs + length m' + 1"
    have nth: "?r ! ?i = a" "?r ! ?j = b" using m by (simp_all add: nth_append)
    have upd: "?r[?i := b, ?j := a] = (xs @ [b]) @ m' @ (a # ys)" using m by (simp add: list_update_append)
    have "swap_loop ?r (int ?i) (int ?j) = swap_loop (?r[?i := b, ?j := a]) (int ?i + 1) (int ?j - 1)"
      using nth by (subst swap_loop.simps) (simp add: nat_add_distrib)
    also have "\<dots> = swap_loop ((xs @ [b]) @ m' @ (a # ys)) (int (length (xs @ [b]))) (int (length (xs @ [b])) + int (length m') - 1)"
      unfolding upd by (simp add: algebra_simps)
    also have "\<dots> = (xs @ [b]) @ rev m' @ (a # ys)" by (rule less.hyps) (simp add: m)
    finally show ?thesis using m by (simp add: algebra_simps)
  qed
qed

lemma reverseString_rev: "reverseString s = rev s"
  using swap_mid [of "[]" s "[]"] by (simp add: reverseString_def)

lemma itoa_digit: "i < 10 \<Longrightarrow> itoa (int i) = [digit_char i]"
  by (simp add: itoa_def dec_string.simps)

lemma half_step:
  fixes x :: int
  assumes "1 < x"
  shows "nat (x div 2) = Suc (nat ((x - 2) div 2))" and "(x - 2) mod 2 = x mod 2"
proof -
  have "x div 2 = (x - 2) div 2 + 1" "0 \<le> (x - 2) div 2" using assms by auto
  then show "nat (x div 2) = Suc (nat ((x - 2) div 2))" by linarith
  show "(x - 2) mod 2 = x mod 2" by presburger
qed

lemma take_pairs_eq:
  assumes "i < length cnt" and "i < 10" and "0 \<le> cnt ! i"
  shows "take_pairs i cnt left = (cnt[i := cnt ! i mod 2], left @ replicate (nat (cnt ! i div 2)) (digit_char i))"
  using assms
proof (induction i cnt left rule: take_pairs.induct)
  case (1 i cnt left)
  show ?case
  proof (cases "cnt ! i > 1")
    case True
    have "take_pairs i (cnt[i := cnt ! i - 2]) (left @ itoa (int i)) =
        (cnt[i := (cnt ! i - 2) mod 2], (left @ [digit_char i]) @ replicate (nat ((cnt ! i - 2) div 2)) (digit_char i))"
      using "1.IH" "1.prems" True by (simp add: itoa_digit)
    moreover note half_step [OF True]
    ultimately show ?thesis using "1.prems" True by (subst take_pairs.simps) simp
  next
    case False
    then have "cnt ! i = 0 \<or> cnt ! i = 1" using "1.prems" by auto
    then show ?thesis using False "1.prems" by (subst take_pairs.simps) auto
  qed
qed

text \<open>The pairs of the digits below \<open>k\<close>, the greatest digit first.\<close>

definition pairs_below :: "int list \<Rightarrow> nat \<Rightarrow> string" where
  "pairs_below cnt k = concat (map (\<lambda>i. replicate (nat (cnt ! i div 2)) (digit_char i)) (rev [0..<k]))"

lemma pairs_below_Suc: "pairs_below cnt (Suc k) = replicate (nat (cnt ! k div 2)) (digit_char k) @ pairs_below cnt k"
  by (simp add: pairs_below_def)

lemma left_loop_eq:
  assumes "length cnt = 10" and "k \<le> 10" and "\<forall>i < 10. 0 \<le> cnt ! i"
  shows "left_loop k cnt left =
    (if k > 0 \<and> left = [] \<and> (\<forall>i \<in> {1..<k}. cnt ! i < 2)
     then (cnt, [])
     else (map (\<lambda>i. if i < k then cnt ! i mod 2 else cnt ! i) [0..<10], left @ pairs_below cnt k))"
  using assms
proof (induction k arbitrary: cnt left)
  case 0
  have "map (\<lambda>i. cnt ! i) [0..<10] = cnt" using "0.prems"(1) map_nth [of cnt] by simp
  then show ?case by (simp add: pairs_below_def)
next
  case (Suc k)
  let ?n = "nat (cnt ! k div 2)"
  have k: "k < 10" "0 \<le> cnt ! k" using Suc.prems by simp_all
  show ?case
  proof (cases "k = 0 \<and> left = []")
    case True
    then show ?thesis by simp
  next
    case False
    let ?cnt = "cnt[k := cnt ! k mod 2]" and ?left = "left @ replicate ?n (digit_char k)"
    have nn: "\<forall>i < 10. 0 \<le> ?cnt ! i" using Suc.prems by (auto simp: nth_list_update)
    have step: "left_loop (Suc k) cnt left = left_loop k ?cnt ?left" using False take_pairs_eq [of k cnt left] Suc.prems k by auto
    have ih: "left_loop k ?cnt ?left = (if k > 0 \<and> ?left = [] \<and> (\<forall>i \<in> {1..<k}. ?cnt ! i < 2) then (?cnt, [])
        else (map (\<lambda>i. if i < k then ?cnt ! i mod 2 else ?cnt ! i) [0..<10], ?left @ pairs_below ?cnt k))"
      by (rule Suc.IH) (use Suc.prems nn in auto)
    have below: "pairs_below ?cnt k = pairs_below cnt k" unfolding pairs_below_def by (intro arg_cong [of _ _ concat] map_cong) auto
    have n0: "?n = 0 \<longleftrightarrow> cnt ! k < 2" using k(2) by auto
    show ?thesis
    proof (cases "left = [] \<and> (\<forall>i \<in> {1..<Suc k}. cnt ! i < 2)")
      case True
      then have "k > 0" "cnt ! k < 2" using False by auto
      moreover then have "cnt ! k mod 2 = cnt ! k" using k(2) by simp
      ultimately show ?thesis using True step ih n0 by simp
    next
      case no: False
      have nb: "\<not> (k > 0 \<and> ?left = [] \<and> (\<forall>i \<in> {1..<k}. ?cnt ! i < 2))"
        using no n0 by (auto simp: less_Suc_eq split: if_splits)
      have "left_loop (Suc k) cnt left = (map (\<lambda>i. if i < k then ?cnt ! i mod 2 else ?cnt ! i) [0..<10], ?left @ pairs_below cnt k)"
        unfolding step ih if_not_P [OF nb] below ..
      moreover have "map (\<lambda>i. if i < k then ?cnt ! i mod 2 else ?cnt ! i) [0..<10] = map (\<lambda>i. if i < Suc k then cnt ! i mod 2 else cnt ! i) [0..<10]"
        using Suc.prems(1) k(1) by (intro map_cong) (auto simp: nth_list_update less_Suc_eq)
      ultimately show ?thesis using no by (auto simp: pairs_below_Suc)
    qed
  qed
qed

lemma mid_loop_eq:
  "(\<exists>d < k. cnt ! d > 0 \<and> (\<forall>e. d < e \<and> e < k \<longrightarrow> cnt ! e \<le> 0) \<and> mid_loop k cnt = itoa (int d)) \<or>
   (\<forall>d < k. cnt ! d \<le> 0) \<and> mid_loop k cnt = []"
proof (induction k)
  case (Suc k)
  show ?case
  proof (cases "cnt ! k > 0")
    case True
    then show ?thesis by (intro disjI1 exI [of _ k]) auto
  next
    case False
    then show ?thesis using Suc by (auto simp: less_Suc_eq)
  qed
qed simp

lemma digit_char_val: "is_digit c \<Longrightarrow> digit_char (digit_val c) = c \<and> digit_val c < 10"
  by (auto simp: is_digit_def digit_char_def digit_val_def)

lemma digit_char_eq [simp]: "d < 10 \<Longrightarrow> e < 10 \<Longrightarrow> digit_char d = digit_char e \<longleftrightarrow> d = e"
  by (metis digit_val_char)

lemma digit_counts_eq:
  assumes "length cnt = 10" and "\<forall>c\<in>set s. is_digit c"
  shows "digit_counts s cnt = Inr (map (\<lambda>d. cnt ! d + int (count (mset s) (digit_char d))) [0..<10])"
  using assms
proof (induction s arbitrary: cnt)
  case Nil
  then show ?case using map_nth [of cnt] by simp
next
  case (Cons c s)
  have c: "digit_char (digit_val c) = c" "digit_val c < 10" using Cons.prems digit_char_val by auto
  have ix: "(of_char c :: int) - 48 = int (digit_val c)" using Cons.prems(2)
    by (auto simp: is_digit_def digit_val_def of_nat_of_char [symmetric, where 'a=int] simp del: of_nat_of_char)
  let ?cnt = "cnt[digit_val c := cnt ! digit_val c + 1]"
  have "digit_counts (c # s) cnt = digit_counts s ?cnt"
    using c(2) Cons.prems(1) by (simp add: ix nth_int_def upd_go_def)
  also have "\<dots> = Inr (map (\<lambda>d. ?cnt ! d + int (count (mset s) (digit_char d))) [0..<10])" by (rule Cons.IH) (use Cons.prems in auto)
  also have "map (\<lambda>d. ?cnt ! d + int (count (mset s) (digit_char d))) [0..<10] =
      map (\<lambda>d. cnt ! d + int (count (mset (c # s)) (digit_char d))) [0..<10]"
    using c Cons.prems(1) by (intro map_cong) (auto simp: nth_list_update)
  finally show ?case .
qed

subsection \<open>Values of digit strings\<close>

lemma dec_value_append: "dec_value (xs @ ys) = dec_value xs * 10 ^ length ys + dec_value ys"
proof (induction ys rule: rev_induct)
  case Nil
  then show ?case by (simp add: dec_value_def)
next
  case (snoc y ys)
  then show ?case using dec_value_snoc [of "xs @ ys" y] dec_value_snoc [of ys y] by (simp add: algebra_simps)
qed

lemma dec_value_bound: "\<forall>c\<in>set s. is_digit c \<Longrightarrow> dec_value s < 10 ^ length s"
proof (induction s rule: rev_induct)
  case Nil
  then show ?case by (simp add: dec_value_def)
next
  case (snoc c s)
  then have "dec_value s < 10 ^ length s" "digit_val c < 10" using digit_char_val by auto
  then show ?case by (simp add: dec_value_snoc)
qed

lemma dec_value_Cons: "dec_value (c # s) = digit_val c * 10 ^ length s + dec_value s"
  using dec_value_append [of "[c]" s] by (simp add: dec_value_def)

lemma digit_char_0: "digit_char 0 = CHR ''0''"
  by (simp add: digit_char_def char_of_def bit_iff_odd)

lemma digit_val_nonzero: "is_digit c \<Longrightarrow> c \<noteq> CHR ''0'' \<Longrightarrow> digit_val c \<noteq> 0"
  using digit_char_val [of c] digit_char_0 by metis

lemma dec_value_lead: "is_digit c \<Longrightarrow> c \<noteq> CHR ''0'' \<Longrightarrow> 10 ^ length s \<le> dec_value (c # s)"
proof -
  assume "is_digit c" "c \<noteq> CHR ''0''"
  then have "digit_val c \<noteq> 0" by (rule digit_val_nonzero)
  then have "1 * 10 ^ length s \<le> digit_val c * 10 ^ length s" by (intro mult_le_mono1) simp
  then show ?thesis unfolding dec_value_Cons by linarith
qed

lemma desc_greatest:
  assumes "mset h = mset l" and "sorted_wrt (\<lambda>a b. digit_val b \<le> digit_val a) l" and "\<forall>c\<in>set l. is_digit c"
  shows "h = l \<or> dec_value h < dec_value l"
  using assms
proof (induction l arbitrary: h)
  case (Cons x l)
  then obtain y h' where h: "h = y # h'" by (cases h) auto
  have len: "length h' = length l" using Cons.prems(1) h mset_eq_length by fastforce
  have digits: "\<forall>c\<in>set h. is_digit c" using Cons.prems(1,3) by (metis set_mset_mset)
  show ?case
  proof (cases "y = x")
    case True
    then have "h' = l \<or> dec_value h' < dec_value l" using Cons h by auto
    then show ?thesis using True h len by (auto simp: dec_value_Cons)
  next
    case False
    have "y \<in> set l" using Cons.prems(1) h False by (metis list.set_intros(1) set_ConsD set_mset_mset)
    then have "digit_val y \<le> digit_val x" "is_digit y" "is_digit x" using Cons.prems(2,3) by auto
    then have "digit_val y < digit_val x" using False digit_char_val by (metis le_neq_implies_less)
    moreover have "dec_value h' < 10 ^ length h'" using digits h by (intro dec_value_bound) simp
    ultimately have "dec_value h < digit_val x * 10 ^ length l"
      using h len mult_le_mono1 [of "digit_val y + 1" "digit_val x" "10 ^ length l"] by (simp add: dec_value_Cons)
    then show ?thesis by (simp add: dec_value_Cons)
  qed
qed simp

lemma palindrome_halves:
  assumes "q = rev q"
  shows "\<exists>h m. q = h @ m @ rev h \<and> length m \<le> 1"
proof -
  let ?k = "length q div 2"
  let ?h = "take ?k q" and ?m = "take (length q - 2 * ?k) (drop ?k q)"
  have "drop (length q - ?k) q = rev ?h" using assms rev_take [of ?k q] by simp
  moreover have "q = ?h @ ?m @ drop (length q - ?k) q"
  proof -
    have "drop (length q - 2 * ?k) (drop ?k q) = drop (length q - ?k) q" by (simp add: algebra_simps)
    then show ?thesis by (metis append_take_drop_id)
  qed
  moreover have "length ?m \<le> 1" by simp
  ultimately show ?thesis by metis
qed

subsection \<open>The halves of a palindrome\<close>

lemma pairs_below_set: "set (pairs_below cnt k) \<subseteq> digit_char ` {..<k}"
  by (auto simp: pairs_below_def split: if_splits)

lemma desc_replicate: "sorted_wrt (\<lambda>a b. digit_val b \<le> digit_val a) (replicate n c)"
  by (induction n) auto

lemma pairs_below_desc:
  "k \<le> 10 \<Longrightarrow> sorted_wrt (\<lambda>a b. digit_val b \<le> digit_val a) (pairs_below cnt k)"
proof (induction k)
  case (Suc k)
  have "\<forall>c\<in>set (pairs_below cnt k). digit_val c \<le> k" using pairs_below_set [of cnt k] Suc.prems by force
  then show ?case using Suc by (simp add: pairs_below_Suc sorted_wrt_append desc_replicate)
qed (simp add: pairs_below_def)

lemma pairs_below_count:
  "k \<le> 10 \<Longrightarrow> d < 10 \<Longrightarrow> count (mset (pairs_below cnt k)) (digit_char d) = (if d < k then nat (cnt ! d div 2) else 0)"
proof (induction k)
  case (Suc k)
  then show ?case by (auto simp: pairs_below_Suc less_Suc_eq)
qed (simp add: pairs_below_def)

text \<open>The palindromes that \<open>num\<close> can form: some of its digits, at least one, without leading zeros.\<close>

definition forms :: "string \<Rightarrow> string \<Rightarrow> bool" where
  "forms num q \<longleftrightarrow> q \<noteq> [] \<and> q = rev q \<and> mset q \<subseteq># mset num \<and> (q = ''0'' \<or> hd q \<noteq> CHR ''0'')"

lemma half_counts:
  assumes "mset (h @ m @ rev h) \<subseteq># mset num"
  shows "2 * count (mset h) c + count (mset m) c \<le> count (mset num) c"
  using mset_subset_eq_count [OF assms, of c] by simp

lemma sub_digits: "mset q \<subseteq># mset num \<Longrightarrow> \<forall>c\<in>set num. is_digit c \<Longrightarrow> \<forall>c\<in>set q. is_digit c"
  by (metis mset_subset_eqD set_mset_mset)

lemma longer_is_greater:
  assumes "\<forall>c\<in>set q. is_digit c" and "\<forall>c\<in>set p. is_digit c" and "length q < length p" and "hd p \<noteq> CHR ''0''"
  shows "dec_value q < dec_value p"
proof -
  obtain c s where p: "p = c # s" using assms(3) by (cases p) auto
  have "dec_value q < 10 ^ length q" by (rule dec_value_bound) (use assms in simp)
  also have "(10::nat) ^ length q \<le> 10 ^ length s" using assms(3) p by (simp add: power_increasing)
  also have "\<dots> \<le> dec_value p" using dec_value_lead [of c s] assms(2,4) p by simp
  finally show ?thesis .
qed

lemma same_length_greater:
  assumes "length h = length l" and "length s = length t" and "\<forall>c\<in>set s. is_digit c" and "dec_value h < dec_value l"
  shows "dec_value (h @ s) < dec_value (l @ t)"
proof -
  have "dec_value s < 10 ^ length t" using dec_value_bound [OF assms(3)] assms(2) by simp
  then have "dec_value (h @ s) < (dec_value h + 1) * 10 ^ length t" using assms(2) by (simp add: dec_value_append)
  also have "\<dots> \<le> dec_value l * 10 ^ length t" using assms(4) by (intro mult_le_mono1) simp
  finally show ?thesis by (simp add: dec_value_append)
qed

text \<open>
  A palindrome from the digits of \<open>num\<close> has a half \<open>h\<close> taken from the pairs \<open>l\<close>. When it uses them all, its middle
  digit is one that is left over after the pairs.
\<close>

lemma half_below:
  assumes "mset (h @ m @ rev h) \<subseteq># mset num" and "\<forall>c\<in>set num. is_digit c"
    and "\<forall>d < 10. count (mset l) (digit_char d) = count (mset num) (digit_char d) div 2"
  shows "mset h \<subseteq># mset l"
proof (rule mset_subset_eqI)
  fix c
  show "count (mset h) c \<le> count (mset l) c"
  proof (cases "c \<in> set num")
    case True
    then have "digit_char (digit_val c) = c" "digit_val c < 10" using assms(2) digit_char_val by auto
    then have "count (mset l) c = count (mset num) c div 2" using assms(3) by metis
    then show ?thesis using half_counts [OF assms(1), of c] by linarith
  next
    case False
    then have "count (mset num) c = 0" by (simp add: count_eq_zero_iff)
    then show ?thesis using half_counts [OF assms(1), of c] by linarith
  qed
qed

lemma pairs_best:
  assumes q: "q = h @ m @ rev h" "length m \<le> 1" "mset q \<subseteq># mset num" and num: "\<forall>c\<in>set num. is_digit c"
    and l: "\<forall>d < 10. count (mset l) (digit_char d) = count (mset num) (digit_char d) div 2" "\<forall>c\<in>set l. is_digit c"
      "sorted_wrt (\<lambda>a b. digit_val b \<le> digit_val a) l" "l \<noteq> []" "hd l \<noteq> CHR ''0''"
    and m': "length m' \<le> 1" "\<forall>c\<in>set m'. is_digit c"
      "\<forall>d < 10. odd (count (mset num) (digit_char d)) \<longrightarrow> m' \<noteq> [] \<and> d \<le> digit_val (hd m')"
  shows "dec_value q \<le> dec_value (l @ m' @ rev l)"
proof -
  let ?p = "l @ m' @ rev l"
  have sub: "mset h \<subseteq># mset l" using half_below [of h m num l] q(1,3) num l(1) by blast
  have dq: "\<forall>c\<in>set q. is_digit c" using sub_digits [OF q(3) num] .
  have dp: "\<forall>c\<in>set ?p. is_digit c" using l(2) m'(2) by auto
  have hdp: "hd ?p \<noteq> CHR ''0''" using l(4,5) by simp
  show ?thesis
  proof (cases "length q < length ?p")
    case True
    then show ?thesis using longer_is_greater [OF dq dp True hdp] by simp
  next
    case False
    have "length h \<le> length l" using size_mset_mono [OF sub] by simp
    then have len: "length h = length l" using False q(1,2) by simp
    have eq: "mset h = mset l"
      using sub len by (metis size_mset subset_mset.le_imp_less_or_eq mset_subset_size less_irrefl)
    have mid: "length m = length m' \<and> dec_value m \<le> dec_value m'"
    proof (cases m)
      case Nil
      then show ?thesis using False len q(1) by simp
    next
      case (Cons c cs)
      then have c: "m = [c]" "is_digit c" using q(1,2) dq by auto
      have d: "digit_char (digit_val c) = c" "digit_val c < 10" using digit_char_val [OF c(2)] by auto
      have "2 * (count (mset num) c div 2) + 1 \<le> count (mset num) c"
        using half_counts [of h m num c] q(1,3) c(1) eq l(1) d by fastforce
      then have "odd (count (mset num) c)" by presburger
      then have "m' \<noteq> []" "digit_val c \<le> digit_val (hd m')" using m'(3) d by metis+
      then show ?thesis using c(1) m'(1) by (cases m') (auto simp: dec_value_def)
    qed
    consider "h = l" | "dec_value h < dec_value l" using desc_greatest [OF eq l(3,2)] by blast
    then show ?thesis
    proof cases
      case 1
      then show ?thesis using mid q(1) by (simp add: dec_value_append)
    next
      case 2
      then show ?thesis using same_length_greater [of h l "m @ rev h" "m' @ rev l"] mid len q(1) dq by simp
    qed
  qed
qed

definition occurrences :: "string \<Rightarrow> int list" where
  "occurrences num = map (\<lambda>d. int (count (mset num) (digit_char d))) [0..<10]"

lemma occurrences_nth: "d < 10 \<Longrightarrow> occurrences num ! d = int (count (mset num) (digit_char d))"
  by (simp add: occurrences_def)

lemma digit_counts_occurrences: "\<forall>c\<in>set num. is_digit c \<Longrightarrow> digit_counts num (replicate 10 0) = Inr (occurrences num)"
  by (simp add: digit_counts_eq occurrences_def)

text \<open>Without a pair of a digit other than zero the result is the greatest digit.\<close>

lemma single_digit_best:
  assumes "forms num q" and "\<forall>c\<in>set num. is_digit c" and "\<forall>d \<in> {1..<10}. count (mset num) (digit_char d) < 2"
  shows "\<exists>c \<in> set num. q = [c]"
proof -
  obtain h m where q: "q = h @ m @ rev h" "length m \<le> 1" using palindrome_halves assms(1) unfolding forms_def by blast
  have sub: "mset q \<subseteq># mset num" and ne: "q \<noteq> []" and lead: "q = ''0'' \<or> hd q \<noteq> CHR ''0''"
    using assms(1) unfolding forms_def by auto
  have "h = []"
  proof (rule ccontr)
    assume h: "h \<noteq> []"
    let ?c = "hd h"
    have "0 < count (mset h) ?c" using h by simp
    moreover have "2 * count (mset h) ?c + count (mset m) ?c \<le> count (mset num) ?c"
      by (rule half_counts) (use sub q(1) in simp)
    ultimately have two: "2 \<le> count (mset num) ?c" by linarith
    have "q \<noteq> ''0''" using h q(1) by (cases h) (auto simp: append_eq_Cons_conv)
    then have "?c \<noteq> CHR ''0''" using lead q(1) h by simp
    moreover have "is_digit ?c" using sub_digits [OF sub assms(2)] q(1) h by simp
    ultimately have dc: "digit_char (digit_val ?c) = ?c" "digit_val ?c < 10" "digit_val ?c \<noteq> 0"
      using digit_char_val digit_val_nonzero by auto
    then have "count (mset num) (digit_char (digit_val ?c)) < 2" by (intro bspec [OF assms(3)]) simp
    then show False using two dc(1) by simp
  qed
  then obtain c where "q = [c]" using q ne by (cases m) auto
  moreover then have "c \<in> set num" using sub by (simp add: in_multiset_in_set)
  ultimately show ?thesis by blast
qed

lemma pairs_half_facts:
  assumes "d \<in> {1..<10}" and "2 \<le> count (mset num) (digit_char d)"
  defines "l \<equiv> pairs_below (occurrences num) 10"
  shows "l \<noteq> []" and "hd l \<noteq> CHR ''0''" and "\<forall>c\<in>set l. is_digit c"
    and "\<forall>d < 10. count (mset l) (digit_char d) = count (mset num) (digit_char d) div 2"
proof -
  show cl: "\<forall>d < 10. count (mset l) (digit_char d) = count (mset num) (digit_char d) div 2"
    by (simp add: l_def pairs_below_count occurrences_nth nat_div_distrib)
  show "\<forall>c\<in>set l. is_digit c" using pairs_below_set [of "occurrences num" 10] by (auto simp: l_def)
  have "0 < count (mset l) (digit_char d)" using cl assms(1,2) by simp
  then have dl: "digit_char d \<in> set l" by simp
  then obtain x xs where l: "l = x # xs" by (cases l) auto
  then show "l \<noteq> []" by simp
  have "sorted_wrt (\<lambda>a b. digit_val b \<le> digit_val a) l" unfolding l_def by (rule pairs_below_desc) simp
  then have "digit_val (digit_char d) \<le> digit_val x" using dl l by auto
  then have "digit_val x \<noteq> digit_val (digit_char 0)" using assms(1) by simp
  then show "hd l \<noteq> CHR ''0''" using l digit_char_0 by auto
qed

lemma forms_pairs:
  assumes "length m \<le> 1" and "l \<noteq> []" and "hd l \<noteq> CHR ''0''" and "mset (l @ m @ rev l) \<subseteq># mset num"
  shows "forms num (l @ m @ rev l)"
proof -
  have "rev m = m" using assms(1) by (cases m) auto
  then show ?thesis using assms by (simp add: forms_def)
qed

lemma left_loop_pairs:
  assumes "\<exists>d \<in> {1..<10}. 2 \<le> count (mset num) (digit_char d)"
  shows "left_loop 10 (occurrences num) [] =
    (map (\<lambda>i. occurrences num ! i mod 2) [0..<10], pairs_below (occurrences num) 10)"
proof -
  have "\<not> (\<forall>i \<in> {1..<10}. occurrences num ! i < 2)" using assms by (force simp: occurrences_nth)
  then show ?thesis using left_loop_eq [of "occurrences num" 10 "[]"] by (auto simp: occurrences_def)
qed

lemma left_loop_single:
  assumes "\<forall>d \<in> {1..<10}. count (mset num) (digit_char d) < 2"
  shows "left_loop 10 (occurrences num) [] = (occurrences num, [])"
  using assms left_loop_eq [of "occurrences num" 10 "[]"] by (simp add: occurrences_def)

lemma largest_single:
  assumes "num \<noteq> []" and "\<forall>c\<in>set num. is_digit c" and "\<forall>d \<in> {1..<10}. count (mset num) (digit_char d) < 2"
  shows "\<exists>p. largestPalindromic num = Inr p \<and> forms num p \<and> (\<forall>q. forms num q \<longrightarrow> dec_value q \<le> dec_value p)"
proof -
  obtain c where c: "c \<in> set num" using assms(1) by (cases num) auto
  have val: "\<And>c. c \<in> set num \<Longrightarrow> digit_val c < 10 \<and> 0 < occurrences num ! digit_val c"
    using assms(2) digit_char_val by (auto simp: occurrences_nth)
  then obtain d where d: "d < 10" "0 < occurrences num ! d" "\<forall>e. d < e \<and> e < 10 \<longrightarrow> occurrences num ! e \<le> 0"
      "mid_loop 10 (occurrences num) = itoa (int d)"
    using mid_loop_eq [of 10 "occurrences num"] c by (metis not_less)
  have p: "largestPalindromic num = Inr [digit_char d]"
    using d(1,4) by (simp add: largestPalindromic_def digit_counts_occurrences [OF assms(2)] left_loop_single [OF assms(3)]
        itoa_digit reverseString_rev)
  have in_num: "digit_char d \<in> set num" using d(1,2) by (simp add: occurrences_nth)
  then have "forms num [digit_char d]" by (auto simp: forms_def)
  moreover have "dec_value q \<le> dec_value [digit_char d]" if q: "forms num q" for q
  proof -
    obtain c where "c \<in> set num" "q = [c]" using single_digit_best [OF q assms(2,3)] by blast
    moreover then have "digit_val c \<le> d" using d(3) val [of c] by (metis not_less)
    ultimately show ?thesis using d(1) by (simp add: dec_value_def)
  qed
  ultimately show ?thesis using p by blast
qed

text \<open>What is left after the pairs: one of each digit that occurs an odd number of times, of which the greatest is chosen.\<close>

lemma mid_leftover:
  fixes num :: string
  defines "m \<equiv> mid_loop 10 (map (\<lambda>i. occurrences num ! i mod 2) [0..<10])"
  shows "m = [] \<or> (\<exists>d < 10. m = [digit_char d] \<and> odd (count (mset num) (digit_char d)))"
    and "\<forall>d < 10. odd (count (mset num) (digit_char d)) \<longrightarrow> m \<noteq> [] \<and> d \<le> digit_val (hd m)"
proof -
  let ?left = "map (\<lambda>i. occurrences num ! i mod 2) [0..<10]"
  have left: "0 < ?left ! d \<longleftrightarrow> odd (count (mset num) (digit_char d))" if "d < 10" for d
    using that by (simp add: occurrences_nth) presburger
  consider d where "d < 10" "0 < ?left ! d" "\<forall>e. d < e \<and> e < 10 \<longrightarrow> ?left ! e \<le> 0" "m = itoa (int d)"
    | "\<forall>d < 10. ?left ! d \<le> 0" "m = []"
    using mid_loop_eq [of 10 ?left] m_def by blast
  then have both: "(m = [] \<or> (\<exists>d < 10. m = [digit_char d] \<and> odd (count (mset num) (digit_char d)))) \<and>
      (\<forall>d < 10. odd (count (mset num) (digit_char d)) \<longrightarrow> m \<noteq> [] \<and> d \<le> digit_val (hd m))"
  proof cases
    case 1
    then have "\<forall>e < 10. odd (count (mset num) (digit_char e)) \<longrightarrow> e \<le> d" using left by (metis not_less)
    then show ?thesis using 1 left [of d] by (auto simp: itoa_digit)
  next
    case 2
    then show ?thesis using left by (metis not_less)
  qed
  then show "m = [] \<or> (\<exists>d < 10. m = [digit_char d] \<and> odd (count (mset num) (digit_char d)))" by (rule conjunct1)
  show "\<forall>d < 10. odd (count (mset num) (digit_char d)) \<longrightarrow> m \<noteq> [] \<and> d \<le> digit_val (hd m)"
    using both by (rule conjunct2)
qed

lemma largest_pairs:
  assumes digits: "\<forall>c\<in>set num. is_digit c" and pair: "d \<in> {1..<10}" "2 \<le> count (mset num) (digit_char d)"
  shows "\<exists>p. largestPalindromic num = Inr p \<and> forms num p \<and> (\<forall>q. forms num q \<longrightarrow> dec_value q \<le> dec_value p)"
proof -
  let ?l = "pairs_below (occurrences num) 10" and ?m = "mid_loop 10 (map (\<lambda>i. occurrences num ! i mod 2) [0..<10])"
  let ?p = "?l @ ?m @ rev ?l"
  note l = pairs_half_facts [OF pair] and m = mid_leftover [of num]
  have some_pair: "\<exists>d \<in> {1..<10}. 2 \<le> count (mset num) (digit_char d)" using pair by blast
  have p: "largestPalindromic num = Inr ?p"
    using l(1) by (simp add: largestPalindromic_def digit_counts_occurrences [OF digits] left_loop_pairs [OF some_pair]
        reverseString_rev Let_def)
  have short: "length ?m \<le> 1" and md: "\<forall>c\<in>set ?m. is_digit c" using m(1) by auto
  have "mset ?p \<subseteq># mset num"
  proof (rule mset_subset_eqI)
    fix c
    show "count (mset ?p) c \<le> count (mset num) c"
    proof (cases "is_digit c")
      case True
      then have d: "digit_char (digit_val c) = c" "digit_val c < 10" using digit_char_val by auto
      have "count (mset ?l) c = count (mset num) c div 2" using l(4) d by metis
      moreover have "count (mset ?m) c \<le> count (mset num) c mod 2" using m(1) by (auto simp: odd_iff_mod_2_eq_one)
      ultimately show ?thesis by simp presburger
    next
      case False
      then have "c \<notin> set ?p" using l(3) md by auto
      then have "count (mset ?p) c = 0" by (metis count_eq_zero_iff set_mset_mset)
      then show ?thesis by (rule ord_eq_le_trans) simp
    qed
  qed
  then have "forms num ?p" by (rule forms_pairs [OF short l(1,2)])
  moreover have "dec_value q \<le> dec_value ?p" if q: "forms num q" for q
  proof -
    obtain h k where "q = h @ k @ rev h" "length k \<le> 1" using palindrome_halves q unfolding forms_def by blast
    then show ?thesis
      using pairs_best [OF _ _ _ digits l(4,3) pairs_below_desc l(1,2) short md m(2)] q unfolding forms_def by simp
  qed
  ultimately show ?thesis using p by blast
qed

text \<open>
  \<open>largestPalindromic\<close>: on a string of digits, not empty, the result can be formed from the digits, and no number that can
  be formed is greater.
\<close>

theorem largest_palindromic_greatest:
  assumes "num \<noteq> []" and "\<forall>c\<in>set num. is_digit c"
  shows "\<exists>p. largestPalindromic num = Inr p \<and> forms num p \<and> (\<forall>q. forms num q \<longrightarrow> dec_value q \<le> dec_value p)"
proof (cases "\<forall>d \<in> {1..<10}. count (mset num) (digit_char d) < 2")
  case True
  then show ?thesis by (rule largest_single [OF assms])
next
  case False
  then show ?thesis using largest_pairs [OF assms(2)] by (auto simp: not_less)
qed

theorem largest_palindromic_witness:
  "largestPalindromic ''00990'' = Inr ''90009''"
  by code_simp

end
