(* ===== verification/Mr_Timing.thy ===== *)
theory Mr_Timing
  imports Mr_Worker
begin

text \<open>
  The MapReduce applications that observe the workers: \<open>mrapps/jobcount.go\<close> counts how often a map task was carried out,
  \<open>mrapps/mtiming.go\<close> and \<open>mrapps/rtiming.go\<close> count how many workers are inside a task at the same time. They talk through
  files in the working directory, which is the list of its names; the process id, whether the calls of the operating system
  succeed and which processes exist are arguments. The second half lets any number of workers enter and leave \<open>nparallel\<close>,
  die inside it, and write other files in between.
\<close>

subsection \<open>Files\<close>

definition WriteFile :: "bool \<Rightarrow> string \<Rightarrow> string list \<Rightarrow> string list go" where
  "WriteFile ok f d = (if ok then Inr (if f \<in> set d then d else d @ [f]) else Inl PanicErr)"

definition Remove_file :: "string \<Rightarrow> string list \<Rightarrow> string list go" where
  "Remove_file f d = (if f \<in> set d then Inr (removeAll f d) else Inl PanicErr)"

subsection \<open>jobcount.go\<close>

text \<open>\<open>n\<close> is the variable \<open>count\<close> of the process.\<close>

definition jobcount_Map :: "bool \<Rightarrow> int \<Rightarrow> int \<Rightarrow> string list \<Rightarrow> (KeyValue list \<times> int \<times> string list) go" where
  "jobcount_Map ok pid n d =
     (let f = ''mr-worker-jobcount-'' @ itoa pid @ ''-'' @ itoa n;
          n = wrap64 (n + 1) in
      bind_go (WriteFile ok f d) (\<lambda>d. Inr ([\<lparr>Key = ''a'', Value = ''x''\<rparr>], n, d)))"

definition HasPrefix :: "string \<Rightarrow> string \<Rightarrow> bool" where
  "HasPrefix s p \<longleftrightarrow> take (length p) s = p"

fun count_jobs :: "string list \<Rightarrow> int \<Rightarrow> int" where
  "count_jobs [] invocations = invocations"
| "count_jobs (f # fs) invocations =
     count_jobs fs (if HasPrefix f ''mr-worker-jobcount'' then invocations + 1 else invocations)"

definition jobcount_Reduce :: "bool \<Rightarrow> string list \<Rightarrow> string \<Rightarrow> string list \<Rightarrow> string go" where
  "jobcount_Reduce ok d key values = (if ok then Inr (itoa (count_jobs d 0)) else Inl PanicErr)"

subsection \<open>mtiming.go and rtiming.go\<close>

text \<open>
  \<open>fmt.Sscanf\<close> with the pattern \<open>mr-worker-<phase>-%d\<close> on an ASCII name: the literal text, then blanks (a line feed ends the
  scan with an error), a sign and digits, whose number must fit into 64 bits. What follows is not looked at.
\<close>

fun skip_literal :: "string \<Rightarrow> string \<Rightarrow> string option" where
  "skip_literal [] s = Some s"
| "skip_literal (c # cs) [] = None"
| "skip_literal (c # cs) (x # xs) = (if c = x then skip_literal cs xs else None)"

definition is_blank :: "char \<Rightarrow> bool" where
  "is_blank c \<longleftrightarrow> (of_char c :: nat) \<in> {9, 11, 12, 13, 32}"

definition scan_int :: "string \<Rightarrow> int option" where
  "scan_int s =
     (let s = dropWhile is_blank s;
          neg = (case s of c # _ \<Rightarrow> c = CHR ''-'' | [] \<Rightarrow> False);
          s = (case s of c # r \<Rightarrow> if c = CHR ''-'' \<or> c = CHR ''+'' then r else s | [] \<Rightarrow> s);
          ds = takeWhile is_digit s;
          v = (if neg then - int (dec_value ds) else int (dec_value ds)) in
      if ds = [] \<or> v < - (2 ^ 63) \<or> 2 ^ 63 \<le> v then None else Some v)"

definition Sscanf :: "string \<Rightarrow> string \<Rightarrow> int option" where
  "Sscanf phase name = (case skip_literal (''mr-worker-'' @ phase @ ''-'') name of None \<Rightarrow> None | Some s \<Rightarrow> scan_int s)"

definition myfilename :: "string \<Rightarrow> int \<Rightarrow> string" where
  "myfilename phase pid = ''mr-worker-'' @ phase @ ''-'' @ itoa pid"

text \<open>The loop over the names; \<open>kill0\<close> says for which processes \<open>syscall.Kill(xpid, 0)\<close> succeeds.\<close>

fun count_running :: "(int \<Rightarrow> bool) \<Rightarrow> string \<Rightarrow> string list \<Rightarrow> int \<Rightarrow> int" where
  "count_running kill0 phase [] ret = ret"
| "count_running kill0 phase (name # names) ret =
     (case Sscanf phase name of
        Some xpid \<Rightarrow> count_running kill0 phase names (if kill0 xpid then ret + 1 else ret)
      | None \<Rightarrow> count_running kill0 phase names ret)"

text \<open>
  \<open>nparallel\<close> up to its \<open>Sleep\<close>, and what follows it. \<open>Readdirnames\<close> returns at most \<open>1000000\<close> names, and an error when there
  are none.
\<close>

definition nparallel_enter :: "bool \<Rightarrow> bool \<Rightarrow> (int \<Rightarrow> bool) \<Rightarrow> string \<Rightarrow> int \<Rightarrow> string list \<Rightarrow> (int \<times> string list) go" where
  "nparallel_enter wrote opened kill0 phase pid d =
     bind_go (WriteFile wrote (myfilename phase pid) d) (\<lambda>d.
       if \<not> opened then Inl PanicErr
       else
         let names = take 1000000 d in
         if names = [] then Inl PanicErr
         else Inr (count_running kill0 phase names 0, d))"

definition nparallel_leave :: "string \<Rightarrow> int \<Rightarrow> string list \<Rightarrow> string list go" where
  "nparallel_leave phase pid d = Remove_file (myfilename phase pid) d"

definition nparallel :: "bool \<Rightarrow> bool \<Rightarrow> (int \<Rightarrow> bool) \<Rightarrow> (string list \<Rightarrow> string list) \<Rightarrow> string \<Rightarrow> int \<Rightarrow> string list \<Rightarrow>
    (int \<times> string list) go" where
  "nparallel wrote opened kill0 sleep phase pid d =
     bind_go (nparallel_enter wrote opened kill0 phase pid d) (\<lambda>(ret, d).
       bind_go (nparallel_leave phase pid (sleep d)) (\<lambda>d. Inr (ret, d)))"

text \<open>\<open>ts\<close> is the time, already formatted with \<open>%.1f\<close>.\<close>

definition mtiming_Map :: "bool \<Rightarrow> bool \<Rightarrow> (int \<Rightarrow> bool) \<Rightarrow> (string list \<Rightarrow> string list) \<Rightarrow> int \<Rightarrow> string \<Rightarrow> string list \<Rightarrow>
    (KeyValue list \<times> string list) go" where
  "mtiming_Map wrote opened kill0 sleep pid ts d =
     bind_go (nparallel wrote opened kill0 sleep ''map'' pid d) (\<lambda>(n, d).
       Inr ([\<lparr>Key = ''times-'' @ itoa pid, Value = ts\<rparr>, \<lparr>Key = ''parallel-'' @ itoa pid, Value = itoa n\<rparr>], d))"

definition mtiming_Reduce :: "string \<Rightarrow> string list \<Rightarrow> string" where
  "mtiming_Reduce key values = (let vv = sort values in Join_strings vv '' '')"

text \<open>The function \<open>nparallel\<close> of \<open>rtiming.go\<close> is the same text as that of \<open>mtiming.go\<close>.\<close>

definition rtiming_nparallel :: "bool \<Rightarrow> bool \<Rightarrow> (int \<Rightarrow> bool) \<Rightarrow> (string list \<Rightarrow> string list) \<Rightarrow> string \<Rightarrow> int \<Rightarrow> string list \<Rightarrow>
    (int \<times> string list) go" where
  "rtiming_nparallel wrote opened kill0 sleep phase pid d =
     bind_go (nparallel_enter wrote opened kill0 phase pid d) (\<lambda>(ret, d).
       bind_go (nparallel_leave phase pid (sleep d)) (\<lambda>d. Inr (ret, d)))"

definition rtiming_Reduce :: "bool \<Rightarrow> bool \<Rightarrow> (int \<Rightarrow> bool) \<Rightarrow> (string list \<Rightarrow> string list) \<Rightarrow> int \<Rightarrow> string list \<Rightarrow> string \<Rightarrow>
    string list \<Rightarrow> (string \<times> string list) go" where
  "rtiming_Reduce wrote opened kill0 sleep pid d key values =
     bind_go (rtiming_nparallel wrote opened kill0 sleep ''reduce'' pid d) (\<lambda>(n, d). Inr (itoa n, d))"

subsection \<open>What the scan reads\<close>

lemma skip_literal_append: "skip_literal p (p @ s) = Some s"
  by (induction p) auto

lemma skip_literal_Some: "skip_literal p s = Some r \<longleftrightarrow> s = p @ r"
  by (induction p s rule: skip_literal.induct) auto

lemma digit_not_blank: "is_digit c \<Longrightarrow> \<not> is_blank c"
  by (auto simp: is_digit_def is_blank_def)

lemma digit_no_sign: "is_digit c \<Longrightarrow> c \<noteq> CHR ''-'' \<and> c \<noteq> CHR ''+''"
  by (auto simp: is_digit_def)

lemma scan_itoa:
  assumes "0 \<le> i" and "i < 2 ^ 63"
  shows "scan_int (itoa i) = Some i"
proof -
  obtain c cs where c: "dec_string (nat i) = c # cs" using dec_string_nonempty by (cases "dec_string (nat i)") auto
  have d: "\<forall>x\<in>set (c # cs). is_digit x" using dec_string_digits [of "nat i"] c by simp
  then have tw: "takeWhile is_digit cs = cs" by (intro takeWhile_eq_all_conv [THEN iffD2]) simp
  have "dec_value (c # cs) = nat i" using c dec_value_string by metis
  then show ?thesis
    using assms c d digit_not_blank [of c] digit_no_sign [of c] by (simp add: scan_int_def itoa_def Let_def tw)
qed

lemma Sscanf_file:
  assumes "0 \<le> pid" and "pid < 2 ^ 63"
  shows "Sscanf phase (myfilename phase pid) = Some pid"
  using scan_itoa [OF assms] skip_literal_append [of "''mr-worker-'' @ phase @ ''-''" "itoa pid"]
  by (simp add: Sscanf_def myfilename_def)

lemma count_running_eq:
  "count_running kill0 phase names ret =
    ret + int (length (filter (\<lambda>name. case Sscanf phase name of Some p \<Rightarrow> kill0 p | None \<Rightarrow> False) names))"
  by (induction names arbitrary: ret) (auto split: option.splits)

lemma count_jobs_eq: "count_jobs fs n = n + int (length (filter (\<lambda>f. HasPrefix f ''mr-worker-jobcount'') fs))"
  by (induction fs arbitrary: n) auto

subsection \<open>Counting map tasks\<close>

text \<open>A run of \<open>jobcount\<close>: the processes in the order in which they carry out a map task, each with its own \<open>count\<close>.\<close>

fun jobcount_run :: "int list \<Rightarrow> (int \<Rightarrow> int) \<times> string list \<Rightarrow> ((int \<Rightarrow> int) \<times> string list) go" where
  "jobcount_run [] st = Inr st"
| "jobcount_run (pid # pids) (cnt, d) =
     bind_go (jobcount_Map True pid (cnt pid) d) (\<lambda>(kva, n, d). jobcount_run pids (cnt(pid := n), d))"

definition job_name :: "int \<Rightarrow> int \<Rightarrow> string" where
  "job_name pid n = ''mr-worker-jobcount-'' @ itoa pid @ ''-'' @ itoa n"

lemma job_name_inject: "0 \<le> p \<Longrightarrow> 0 \<le> q \<Longrightarrow> job_name p m = job_name q n \<longleftrightarrow> p = q \<and> m = n"
  using append_split [OF itoa_no_dash [of p] itoa_no_dash [of q], of "itoa m" "itoa n"] by (simp add: job_name_def)

lemma job_name_prefix: "HasPrefix (job_name p n) ''mr-worker-jobcount''"
  by (simp add: HasPrefix_def job_name_def)

definition job_files :: "string list \<Rightarrow> nat" where
  "job_files d = length (filter (\<lambda>f. HasPrefix f ''mr-worker-jobcount'') d)"

lemma jobcount_run_files:
  assumes "\<forall>p\<in>set pids. 0 \<le> p" and "\<forall>p. 0 \<le> cnt p \<and> cnt p + int (length pids) < 2 ^ 63"
    and "\<forall>p n. 0 \<le> p \<longrightarrow> cnt p \<le> n \<longrightarrow> job_name p n \<notin> set d"
  shows "\<exists>cnt' d'. jobcount_run pids (cnt, d) = Inr (cnt', d') \<and> job_files d' = job_files d + length pids"
  using assms
proof (induction pids arbitrary: cnt d)
  case (Cons pid pids)
  let ?f = "job_name pid (cnt pid)" and ?cnt = "cnt(pid := cnt pid + 1)"
  have w: "wrap64 (cnt pid + 1) = cnt pid + 1" using Cons.prems(2) [rule_format, of pid] by (intro wrap64_id) auto
  have f: "?f \<notin> set d" using Cons.prems(1,3) by simp
  have step: "jobcount_run (pid # pids) (cnt, d) = jobcount_run pids (?cnt, d @ [?f])"
    using f w by (simp add: jobcount_Map_def WriteFile_def job_name_def Let_def)
  have "\<exists>cnt' d'. jobcount_run pids (?cnt, d @ [?f]) = Inr (cnt', d') \<and> job_files d' = job_files (d @ [?f]) + length pids"
  proof (rule Cons.IH)
    show "\<forall>p\<in>set pids. 0 \<le> p" using Cons.prems(1) by simp
    show "\<forall>p. 0 \<le> ?cnt p \<and> ?cnt p + int (length pids) < 2 ^ 63" 
    proof
      fix p
      show "0 \<le> ?cnt p \<and> ?cnt p + int (length pids) < 2 ^ 63" using Cons.prems(2) [rule_format, of p] by auto
    qed
    show "\<forall>p n. 0 \<le> p \<longrightarrow> ?cnt p \<le> n \<longrightarrow> job_name p n \<notin> set (d @ [?f])"
      using Cons.prems(1,3) by (auto simp: job_name_inject fun_upd_def split: if_splits)
  qed
  then show ?case using step by (auto simp: job_files_def job_name_prefix)
qed simp

text \<open>
  When any number of worker processes carry out map tasks of \<open>jobcount\<close> in a directory without files of an
  earlier run, in any order and several each, no call panics and \<open>Reduce\<close> reports the number of map tasks that were carried
  out.
\<close>
theorem jobcount_exact:
  assumes "\<forall>p\<in>set pids. 0 \<le> p" and "length pids < 2 ^ 63" and "\<forall>f\<in>set d. \<not> HasPrefix f ''mr-worker-jobcount''"
  shows "\<exists>cnt d'. jobcount_run pids (\<lambda>_. 0, d) = Inr (cnt, d') \<and>
    jobcount_Reduce True d' key values = Inr (itoa (int (length pids)))"
proof -
  have "job_files d = 0" using assms(3) by (simp add: job_files_def filter_empty_conv)
  moreover have "\<forall>p n. 0 \<le> p \<longrightarrow> (0 :: int) \<le> n \<longrightarrow> job_name p n \<notin> set d" using assms(3) job_name_prefix by blast
  moreover have "\<forall>p :: int. 0 \<le> (0 :: int) \<and> 0 + int (length pids) < 2 ^ 63" using assms(2) by simp
  ultimately show ?thesis
    using jobcount_run_files [of pids "\<lambda>_. 0" d] assms(1) by (auto simp: jobcount_Reduce_def count_jobs_eq job_files_def)
qed

theorem jobcount_exact_witness:
  "\<exists>cnt d'. jobcount_run [7, 8, 7] (\<lambda>_. 0, [''pg-1.txt'']) = Inr (cnt, d') \<and>
    jobcount_Reduce True d' ''a'' [''x'', ''x'', ''x''] = Inr ''3''"
proof -
  have "itoa 3 = ''3''" by code_simp
  then show ?thesis
    using jobcount_exact [of "[7, 8, 7]" "[''pg-1.txt'']" "''a''" "[''x'', ''x'', ''x'']"] by (simp add: HasPrefix_def)
qed

subsection \<open>Workers that enter and leave\<close>

text \<open>
  The directory, for every process the phase of the \<open>nparallel\<close> it sleeps in, the processes that exist and all that ever
  did. The \<open>n\<close> of a step is what \<open>nparallel\<close> will return.
\<close>

record tworld =
  files :: "string list"
  inside :: "int \<Rightarrow> string option"
  live :: "int set"
  seen :: "int set"

datatype tevent = Enter int string int | Leave int | Die int | Spawn int | Write string | Unlink string

definition phases :: "string set" where
  "phases = {''map'', ''reduce''}"

inductive tstep :: "tworld \<Rightarrow> tevent \<Rightarrow> tworld \<Rightarrow> bool" where
  enter: "pid \<in> live w \<Longrightarrow> inside w pid = None \<Longrightarrow> phase \<in> phases \<Longrightarrow>
    nparallel_enter True True (\<lambda>p. p \<in> live w) phase pid (files w) = Inr (n, d) \<Longrightarrow>
    tstep w (Enter pid phase n) (w\<lparr>files := d, inside := (inside w)(pid \<mapsto> phase)\<rparr>)"
| leave: "pid \<in> live w \<Longrightarrow> inside w pid = Some phase \<Longrightarrow> nparallel_leave phase pid (files w) = Inr d \<Longrightarrow>
    tstep w (Leave pid) (w\<lparr>files := d, inside := (inside w)(pid := None)\<rparr>)"
| die: "pid \<in> live w \<Longrightarrow> tstep w (Die pid) (w\<lparr>live := live w - {pid}, inside := (inside w)(pid := None)\<rparr>)"
| spawn: "pid \<notin> seen w \<Longrightarrow> 0 < pid \<Longrightarrow> pid < 2 ^ 31 \<Longrightarrow>
    tstep w (Spawn pid) (w\<lparr>live := insert pid (live w), seen := insert pid (seen w), inside := (inside w)(pid := None)\<rparr>)"
| other: "\<forall>phase\<in>phases. Sscanf phase name = None \<Longrightarrow> WriteFile True name (files w) = Inr d \<Longrightarrow> tstep w (Write name) (w\<lparr>files := d\<rparr>)"
| unlink: "\<forall>phase\<in>phases. Sscanf phase name = None \<Longrightarrow> Remove_file name (files w) = Inr d \<Longrightarrow> tstep w (Unlink name) (w\<lparr>files := d\<rparr>)"

definition tstart :: "string list \<Rightarrow> tworld" where
  "tstart d = \<lparr>files = d, inside = (\<lambda>_. None), live = {}, seen = {}\<rparr>"

definition parallel_inv :: "tworld \<Rightarrow> bool" where
  "parallel_inv w \<longleftrightarrow> distinct (files w) \<and> live w \<subseteq> seen w \<and> (\<forall>p\<in>seen w. 0 < p \<and> p < 2 ^ 31) \<and>
     (\<forall>p. inside w p \<noteq> None \<longrightarrow> p \<in> live w) \<and>
     (\<forall>p phase. p \<in> live w \<longrightarrow> phase \<in> phases \<longrightarrow> (myfilename phase p \<in> set (files w) \<longleftrightarrow> inside w p = Some phase)) \<and>
     (\<forall>name\<in>set (files w). \<forall>phase\<in>phases. \<forall>p. Sscanf phase name = Some p \<longrightarrow> name = myfilename phase p \<and> p \<in> seen w) \<and>
     ran (inside w) \<subseteq> phases"

lemma parallel_invD:
  assumes "parallel_inv w"
  shows "distinct (files w)" and "p \<in> live w \<Longrightarrow> p \<in> seen w" and "p \<in> seen w \<Longrightarrow> 0 < p \<and> p < 2 ^ 31"
    and "inside w p = Some phase \<Longrightarrow> p \<in> live w" and "inside w p = Some phase \<Longrightarrow> phase \<in> phases"
    and "p \<in> live w \<Longrightarrow> phase \<in> phases \<Longrightarrow> myfilename phase p \<in> set (files w) \<longleftrightarrow> inside w p = Some phase"
    and "name \<in> set (files w) \<Longrightarrow> phase \<in> phases \<Longrightarrow> Sscanf phase name = Some p \<Longrightarrow> name = myfilename phase p \<and> p \<in> seen w"
  using assms unfolding parallel_inv_def by (simp_all add: subset_iff) (blast intro: ranI)+

lemma parallel_invI:
  assumes "distinct (files w)" and "\<And>p. p \<in> live w \<Longrightarrow> p \<in> seen w" and "\<And>p. p \<in> seen w \<Longrightarrow> 0 < p \<and> p < 2 ^ 31"
    and "\<And>p phase. inside w p = Some phase \<Longrightarrow> p \<in> live w \<and> phase \<in> phases"
    and "\<And>p phase. p \<in> live w \<Longrightarrow> phase \<in> phases \<Longrightarrow> myfilename phase p \<in> set (files w) \<longleftrightarrow> inside w p = Some phase"
    and "\<And>name phase p. name \<in> set (files w) \<Longrightarrow> phase \<in> phases \<Longrightarrow> Sscanf phase name = Some p \<Longrightarrow>
           name = myfilename phase p \<and> p \<in> seen w"
  shows "parallel_inv w"
  using assms unfolding parallel_inv_def ran_def by blast

lemma parallel_inv_live: "parallel_inv w \<Longrightarrow> p \<in> live w \<Longrightarrow> 0 \<le> p \<and> 0 < p \<and> p < 2 ^ 31"
  using parallel_invD(2,3) [of w p] by simp

lemma myfilename_phases: "phase \<in> phases \<Longrightarrow> phase' \<in> phases \<Longrightarrow>
    myfilename phase p = myfilename phase' q \<longleftrightarrow> phase = phase' \<and> p = q"
  by (auto simp: myfilename_def phases_def)

lemma Sscanf_phases:
  assumes "phase \<in> phases" and "phase' \<in> phases" and "0 < p" and "p < 2 ^ 31"
  shows "Sscanf phase' (myfilename phase p) = (if phase = phase' then Some p else None)"
  using assms Sscanf_file [of p phase]
  by (auto simp: phases_def) (simp_all add: Sscanf_def myfilename_def)

text \<open>The number that \<open>nparallel\<close> counts is that of the live processes inside.\<close>

lemma count_running_inside:
  assumes "distinct d" and phase: "phase \<in> phases" and small: "\<And>p. p \<in> L \<Longrightarrow> 0 < p \<and> p < 2 ^ 31"
    and scan: "\<And>name p. name \<in> set d \<Longrightarrow> Sscanf phase name = Some p \<Longrightarrow> name = myfilename phase p"
  shows "count_running (\<lambda>p. p \<in> L) phase d 0 = int (card {p \<in> L. myfilename phase p \<in> set d})"
proof -
  let ?hit = "\<lambda>name. case Sscanf phase name of Some p \<Rightarrow> p \<in> L | None \<Rightarrow> False"
  have "x \<in> set (filter ?hit d) \<longleftrightarrow> x \<in> myfilename phase ` {p \<in> L. myfilename phase p \<in> set d}" for x
  proof
    assume x: "x \<in> set (filter ?hit d)"
    then obtain p where "Sscanf phase x = Some p" "p \<in> L" "x \<in> set d" by (auto split: option.splits)
    then show "x \<in> myfilename phase ` {p \<in> L. myfilename phase p \<in> set d}" using scan [of x p] by auto
  next
    assume "x \<in> myfilename phase ` {p \<in> L. myfilename phase p \<in> set d}"
    then obtain p where "p \<in> L" "x = myfilename phase p" "x \<in> set d" by blast
    then show "x \<in> set (filter ?hit d)" using Sscanf_phases [OF phase phase] small by simp
  qed
  then have "set (filter ?hit d) = myfilename phase ` {p \<in> L. myfilename phase p \<in> set d}" by blast
  moreover have "inj_on (myfilename phase) {p \<in> L. myfilename phase p \<in> set d}"
    using myfilename_phases [OF phase phase] by (simp add: inj_on_def)
  moreover have "length (filter ?hit d) = card (set (filter ?hit d))" using assms(1) by (intro distinct_card [symmetric]) simp
  ultimately show ?thesis by (simp add: count_running_eq card_image)
qed

lemma parallel_inv_enter:
  assumes inv: "parallel_inv w" and pid: "pid \<in> live w" "inside w pid = None" and phase: "phase \<in> phases"
    and wr: "WriteFile True (myfilename phase pid) (files w) = Inr d"
  shows "parallel_inv (w\<lparr>files := d, inside := (inside w)(pid \<mapsto> phase)\<rparr>)" and "myfilename phase pid \<notin> set (files w)"
proof -
  show new: "myfilename phase pid \<notin> set (files w)" using parallel_invD(6) [OF inv pid(1) phase] pid(2) by simp
  then have d: "d = files w @ [myfilename phase pid]" using wr by (simp add: WriteFile_def)
  show "parallel_inv (w\<lparr>files := d, inside := (inside w)(pid \<mapsto> phase)\<rparr>)"
  proof (rule parallel_invI, goal_cases)
    case (5 p phase')
    then show ?case using parallel_invD(6) [OF inv, of p phase'] myfilename_phases [of phase' phase p pid] phase pid new d by auto
  next
    case (6 name phase' p)
    then show ?case
      using parallel_invD(7) [OF inv, of name phase' p] Sscanf_phases [OF phase, of phase' pid] parallel_inv_live [OF inv pid(1)]
        parallel_invD(2) [OF inv pid(1)] d by (auto split: if_splits)
  qed (use parallel_invD [OF inv] d new pid phase in \<open>auto split: if_splits\<close>)
qed

lemma parallel_inv_leave:
  assumes inv: "parallel_inv w" and pid: "inside w pid = Some phase" and leave: "nparallel_leave phase pid (files w) = Inr d"
  shows "parallel_inv (w\<lparr>files := d, inside := (inside w)(pid := None)\<rparr>)"
proof -
  have d: "d = removeAll (myfilename phase pid) (files w)" using leave by (simp add: nparallel_leave_def Remove_file_def split: if_splits)
  have phase: "phase \<in> phases" using parallel_invD(5) [OF inv pid] .
  show ?thesis
  proof (rule parallel_invI, goal_cases)
    case (5 p phase')
    then show ?case using parallel_invD(6) [OF inv, of p phase'] myfilename_phases [of phase' phase p pid] phase pid d by auto
  next
    case (6 name phase' p)
    then show ?case using parallel_invD(7) [OF inv, of name phase' p] d by simp
  qed (use parallel_invD [OF inv] d in \<open>auto simp: distinct_removeAll split: if_splits\<close>)
qed

lemma parallel_inv_other:
  assumes inv: "parallel_inv w" and name: "\<forall>phase\<in>phases. Sscanf phase name = None" and d: "distinct d"
    and same: "\<And>x. x \<noteq> name \<Longrightarrow> x \<in> set d \<longleftrightarrow> x \<in> set (files w)"
  shows "parallel_inv (w\<lparr>files := d\<rparr>)"
proof (rule parallel_invI, goal_cases)
  case (5 p phase)
  then have "Sscanf phase (myfilename phase p) = Some p" using Sscanf_phases [of phase phase p] parallel_inv_live [OF inv, of p] by simp
  then have "myfilename phase p \<noteq> name" using name 5(2) by auto
  then show ?case using parallel_invD(6) [OF inv, of p phase] same 5 by simp
next
  case (6 x phase p)
  then have "x \<noteq> name" using name by auto
  then show ?case using parallel_invD(7) [OF inv, of x phase p] same 6 by simp
qed (use parallel_invD [OF inv] d in auto)

lemma parallel_inv_spawn:
  assumes inv: "parallel_inv w" and pid: "pid \<notin> seen w" "0 < pid" "pid < 2 ^ 31"
  shows "parallel_inv (w\<lparr>live := insert pid (live w), seen := insert pid (seen w), inside := (inside w)(pid := None)\<rparr>)"
proof (rule parallel_invI, goal_cases)
  case (5 p phase)
  have "myfilename phase pid \<notin> set (files w)"
    using parallel_invD(7) [OF inv, of "myfilename phase pid" phase pid] Sscanf_phases [of phase phase pid] pid 5(2) by auto
  then show ?case using parallel_invD(6) [OF inv, of p phase] 5 by auto
next
  case (6 name phase p)
  then show ?case using parallel_invD(7) [OF inv, of name phase p] by simp
qed (use parallel_invD [OF inv] pid in \<open>auto split: if_splits\<close>)

lemma parallel_inv_die:
  assumes inv: "parallel_inv w"
  shows "parallel_inv (w\<lparr>live := live w - {pid}, inside := (inside w)(pid := None)\<rparr>)"
  by (rule parallel_invI) (use parallel_invD [OF inv] in \<open>auto split: if_splits\<close>)

lemma parallel_inv_step:
  assumes "tstep w e w'" and inv: "parallel_inv w"
  shows "parallel_inv w'"
  using assms(1)
proof cases
  case (enter pid phase n d)
  then show ?thesis using parallel_inv_enter(1) [OF inv, of pid phase d]
    by (auto simp: nparallel_enter_def bind_go_def WriteFile_def Let_def split: if_splits)
next
  case (leave pid phase d)
  then show ?thesis using parallel_inv_leave [OF inv] by simp
next
  case (die pid)
  then show ?thesis using parallel_inv_die [OF inv] by simp
next
  case (spawn pid)
  then show ?thesis using parallel_inv_spawn [OF inv] by simp
next
  case (other name d)
  show ?thesis unfolding other(2)
    by (rule parallel_inv_other [OF inv other(3)]) (use other(4) parallel_invD(1) [OF inv] in \<open>auto simp: WriteFile_def split: if_splits\<close>)
next
  case (unlink name d)
  show ?thesis unfolding unlink(2)
    by (rule parallel_inv_other [OF inv unlink(3)])
      (use unlink(4) parallel_invD(1) [OF inv] in \<open>auto simp: Remove_file_def distinct_removeAll split: if_splits\<close>)
qed

interpretation timing: step_invariant "\<lambda>w w'. \<exists>e. tstep w e w'" parallel_inv "\<lambda>w w'. seen w \<subseteq> seen w'"
  by unfold_locales (auto intro: parallel_inv_step elim: tstep.cases)

lemma tstep_reach: "tstep w e w' \<Longrightarrow> (\<lambda>w w'. \<exists>e. tstep w e w')\<^sup>*\<^sup>* w' v \<Longrightarrow> (\<lambda>w w'. \<exists>e. tstep w e w')\<^sup>*\<^sup>* w v"
  by (rule converse_rtranclp_into_rtranclp) blast

lemma tstart_inv: "distinct d \<Longrightarrow> \<forall>name\<in>set d. \<forall>phase\<in>phases. Sscanf phase name = None \<Longrightarrow> parallel_inv (tstart d)"
  by (auto simp: parallel_inv_def tstart_def ran_def)

lemma enter_counts:
  assumes inv: "parallel_inv w" and pid: "pid \<in> live w" "inside w pid = None" and phase: "phase \<in> phases"
    and room: "length (files w) < 1000000"
  shows "\<exists>d. nparallel_enter True True (\<lambda>p. p \<in> live w) phase pid (files w) =
      Inr (1 + int (card {p. inside w p = Some phase}), d) \<and> myfilename phase pid \<in> set d"
proof -
  let ?d = "files w @ [myfilename phase pid]" and ?w = "w\<lparr>files := files w @ [myfilename phase pid], inside := (inside w)(pid \<mapsto> phase)\<rparr>"
  have new: "myfilename phase pid \<notin> set (files w)" using parallel_invD(6) [OF inv pid(1) phase] pid(2) by simp
  then have wr: "WriteFile True (myfilename phase pid) (files w) = Inr ?d" by (simp add: WriteFile_def)
  have inv': "parallel_inv ?w" using parallel_inv_enter(1) [OF inv pid phase wr] by simp
  have "count_running (\<lambda>p. p \<in> live w) phase ?d 0 = int (card {p \<in> live w. myfilename phase p \<in> set ?d})"
  proof (rule count_running_inside [OF _ phase])
    show "distinct ?d" using parallel_invD(1) [OF inv'] by simp
    show "0 < p \<and> p < 2 ^ 31" if "p \<in> live w" for p using parallel_inv_live [OF inv that] by simp
    show "name = myfilename phase p" if "name \<in> set ?d" "Sscanf phase name = Some p" for name p
      using parallel_invD(7) [OF inv', of name phase p] that phase by simp
  qed
  moreover have "p \<in> live w \<and> myfilename phase p \<in> set ?d \<longleftrightarrow> p = pid \<or> inside w p = Some phase" for p
  proof (cases "p \<in> live w")
    case True
    then have "myfilename phase p \<in> set (files w) \<longleftrightarrow> inside w p = Some phase" by (rule parallel_invD(6) [OF inv _ phase])
    then show ?thesis using True myfilename_phases [OF phase phase, of p pid] by simp
  next
    case False
    then show ?thesis using parallel_invD(4) [OF inv, of p phase] pid(1) by blast
  qed
  then have "{p \<in> live w. myfilename phase p \<in> set ?d} = insert pid {p. inside w p = Some phase}" by blast
  moreover have "finite {p. inside w p = Some phase}"
  proof (rule finite_subset)
    show "{p. inside w p = Some phase} \<subseteq> {0..2 ^ 31}" using parallel_invD(4) [OF inv] parallel_inv_live [OF inv] by force
  qed simp
  ultimately have "count_running (\<lambda>p. p \<in> live w) phase ?d 0 = 1 + int (card {p. inside w p = Some phase})" using pid by simp
  then show ?thesis using wr room by (simp add: nparallel_enter_def)
qed

text \<open>
  Property C38. The timing applications count correctly: however worker processes start, enter and leave \<open>nparallel\<close> of either
  phase, die inside it and leave their files behind, and other files come and go, a process that enters gets the number of
  living processes inside the same phase, itself included, and one that leaves finds its file; neither panics as long as the
  directory has fewer than \<open>1000000\<close> names.
\<close>
theorem nparallel_exact:
  assumes "distinct d" and "\<forall>name\<in>set d. \<forall>phase\<in>phases. Sscanf phase name = None"
    and "(\<lambda>w w'. \<exists>e. tstep w e w')\<^sup>*\<^sup>* (tstart d) w" and "pid \<in> live w" and "phase \<in> phases"
  shows "(inside w pid = None \<and> length (files w) < 1000000 \<longrightarrow>
      (\<exists>d. nparallel_enter True True (\<lambda>p. p \<in> live w) phase pid (files w) = Inr (1 + int (card {p. inside w p = Some phase}), d))) \<and>
    (inside w pid = Some phase \<longrightarrow> (\<exists>d. nparallel_leave phase pid (files w) = Inr d \<and> myfilename phase pid \<notin> set d))"
proof (intro conjI impI; (elim conjE)?)
  have inv: "parallel_inv w" using timing.reach_inv [OF assms(3) tstart_inv [OF assms(1,2)]] .
  show "\<exists>d. nparallel_enter True True (\<lambda>p. p \<in> live w) phase pid (files w) = Inr (1 + int (card {p. inside w p = Some phase}), d)"
    if "inside w pid = None" "length (files w) < 1000000"
    using enter_counts [OF inv assms(4) that(1) assms(5) that(2)] by blast
  show "\<exists>d. nparallel_leave phase pid (files w) = Inr d \<and> myfilename phase pid \<notin> set d" if "inside w pid = Some phase"
    using parallel_invD(6) [OF inv assms(4,5)] that by (simp add: nparallel_leave_def Remove_file_def)
qed

theorem nparallel_exact_witness:
  "nparallel_enter True True (\<lambda>p. p \<in> {7, 9}) ''map'' 9 [''mr-worker-map-8'', ''mr-worker-map-7''] =
    Inr (2, [''mr-worker-map-8'', ''mr-worker-map-7'', ''mr-worker-map-9'']) \<and>
   (\<exists>d. nparallel_leave ''map'' 7 [''mr-worker-map-8'', ''mr-worker-map-7''] = Inr d \<and> myfilename ''map'' 7 \<notin> set d)"
proof
  let ?w1 = "(tstart [])\<lparr>live := {8}, seen := {8}\<rparr>"
  let ?w2 = "?w1\<lparr>files := [myfilename ''map'' 8], inside := [8 \<mapsto> ''map'']\<rparr>"
  let ?w3 = "?w2\<lparr>live := {}, inside := Map.empty\<rparr>"
  let ?w4 = "?w3\<lparr>live := {7}, seen := {7, 8}\<rparr>"
  let ?w5 = "?w4\<lparr>files := [myfilename ''map'' 8, myfilename ''map'' 7], inside := [7 \<mapsto> ''map'']\<rparr>"
  let ?w = "?w5\<lparr>live := {7, 9}, seen := {7, 8, 9}\<rparr>"
  have names: "myfilename ''map'' 7 = ''mr-worker-map-7''" "myfilename ''map'' 8 = ''mr-worker-map-8''"
    "myfilename ''map'' 9 = ''mr-worker-map-9''" by code_simp+
  have map: "''map'' \<in> phases" by (simp add: phases_def)
  have s1: "tstep (tstart []) (Spawn 8) ?w1" using tstep.spawn [of 8 "tstart []"] by (simp add: tstart_def)
  have s2: "tstep ?w1 (Enter 8 ''map'' n) ?w2" if "n = count_running (\<lambda>p. p \<in> {8}) ''map'' [myfilename ''map'' 8] 0" for n
    using tstep.enter [of 8 ?w1 "''map''" n "[myfilename ''map'' 8]"] map that
    by (simp add: tstart_def nparallel_enter_def WriteFile_def)
  have s3: "tstep ?w2 (Die 8) ?w3" using tstep.die [of 8 ?w2] by (simp add: tstart_def)
  have s4: "tstep ?w3 (Spawn 7) ?w4" using tstep.spawn [of 7 ?w3] by (simp add: tstart_def)
  have s5: "tstep ?w4 (Enter 7 ''map'' n) ?w5"
    if "n = count_running (\<lambda>p. p \<in> {7}) ''map'' [myfilename ''map'' 8, myfilename ''map'' 7] 0" for n
    using tstep.enter [of 7 ?w4 "''map''" n "[myfilename ''map'' 8, myfilename ''map'' 7]"] map that names
    by (simp add: tstart_def nparallel_enter_def WriteFile_def)
  have s6: "tstep ?w5 (Spawn 9) ?w" using tstep.spawn [of 9 ?w5] by (simp add: tstart_def insert_commute fun_upd_twist)
  have reach: "(\<lambda>w w'. \<exists>e. tstep w e w')\<^sup>*\<^sup>* (tstart []) ?w"
    by (rule tstep_reach [OF s1], rule tstep_reach [OF s2 [OF refl]], rule tstep_reach [OF s3], rule tstep_reach [OF s4],
        rule tstep_reach [OF s5 [OF refl]], rule tstep_reach [OF s6], rule rtranclp.rtrancl_refl)
  have one: "{p. (if p = 7 then Some ''map'' else None) = Some ''map''} = {7 :: int}" by auto
  have "\<exists>d. nparallel_enter True True (\<lambda>p. p \<in> {7, 9}) ''map'' 9 [''mr-worker-map-8'', ''mr-worker-map-7''] = Inr (2, d)"
    using nparallel_exact [OF _ _ reach _ map, of 9] by (simp add: names tstart_def one)
  then show "nparallel_enter True True (\<lambda>p. p \<in> {7, 9}) ''map'' 9 [''mr-worker-map-8'', ''mr-worker-map-7''] =
    Inr (2, [''mr-worker-map-8'', ''mr-worker-map-7'', ''mr-worker-map-9''])"
    by (auto simp: nparallel_enter_def WriteFile_def names)
  show "\<exists>d. nparallel_leave ''map'' 7 [''mr-worker-map-8'', ''mr-worker-map-7''] = Inr d \<and> myfilename ''map'' 7 \<notin> set d"
    using nparallel_exact [OF _ _ reach _ map, of 7] by (simp add: names tstart_def)
qed

end
