(* ===== verification/Mr_Heartbeat.thy ===== *)
theory Mr_Heartbeat
  imports Mr_Worker
begin

text \<open>
  The heartbeats of the MapReduce workers: the goroutine \<open>heartbeat\<close> and the function \<open>call\<close> of \<open>mr/worker.go\<close>, the small
  remaining handlers of \<open>mr/coordinator.go\<close> and \<open>mr/rpc.go\<close>, and runs of the coordinator in real time. Times are in
  nanoseconds. The worker table of the coordinator is related to a table of leases: a worker's lease is renewed by a heartbeat
  and taken away by a scan that finds it older than ten seconds.
\<close>

subsection \<open>The worker's side\<close>

text \<open>\<open>dialed\<close>: whether the socket could be reached; \<open>answered\<close>: whether the call returned without an error.\<close>

definition call :: "bool \<Rightarrow> bool \<Rightarrow> bool go" where
  "call dialed answered = (if dialed then Inr answered else Inl LogFatal)"

text \<open>The endless loop of \<open>heartbeat\<close>, for as many rounds as the list has: the time of the round and how the call fared.\<close>

fun heartbeat :: "WorkerItem \<Rightarrow> (int \<times> bool \<times> bool) list \<Rightarrow> WorkerItem go" where
  "heartbeat w [] = Inr w"
| "heartbeat w ((tm, dialed, answered) # rounds) =
     bind_go (call dialed answered) (\<lambda>ok. if ok then heartbeat (w\<lparr>LastSeen := tm\<rparr>) rounds else Inl LogFatal)"

definition coordinatorSock :: "int \<Rightarrow> string" where
  "coordinatorSock uid = ''/var/tmp/5840-mr-'' @ itoa uid"

record ExampleArgs =
  X :: int

record ExampleReply =
  Y :: int

definition Example :: "ExampleArgs \<Rightarrow> ExampleReply \<Rightarrow> ExampleReply" where
  "Example arg rep = rep\<lparr>Y := wrap64 (X arg + 1)\<rparr>"

subsection \<open>Runs in time\<close>

datatype cevent = CRegister | CReport ReportArgs | CHeartbeat int | CScan "int list"

fun apply_event :: "int \<Rightarrow> cevent \<Rightarrow> Coordinator \<Rightarrow> Coordinator go" where
  "apply_event tm CRegister c = Inr (fst (Register c tm))"
| "apply_event tm (CReport a) c = bind_go (Report c a) (\<lambda>(c, reply). Inr c)"
| "apply_event tm (CHeartbeat wid) c = Inr (fst (Heartbeat c wid tm))"
| "apply_event tm (CScan ids) c = scan_pass tm ids c"

fun timed_run :: "(int \<times> cevent) list \<Rightarrow> Coordinator \<Rightarrow> Coordinator go" where
  "timed_run [] c = Inr c"
| "timed_run ((tm, e) # es) c = bind_go (apply_event tm e c) (timed_run es)"

subsection \<open>Leases\<close>

type_synonym leases = "int \<times> (int \<rightharpoonup> int)"

definition expire_leases :: "int \<Rightarrow> int list \<Rightarrow> (int \<rightharpoonup> int) \<Rightarrow> (int \<rightharpoonup> int)" where
  "expire_leases tm ids L = (\<lambda>i. case L i of None \<Rightarrow> None | Some t \<Rightarrow> if i \<in> set ids \<and> tm - t > 10 * 1000000000 then None else Some t)"

text \<open>The next identifier and the times of the last renewal. A report without a lease is not allowed.\<close>

fun lease_step :: "int \<Rightarrow> cevent \<Rightarrow> leases \<Rightarrow> leases option" where
  "lease_step tm CRegister (n, L) = Some (n + 1, L(n \<mapsto> tm))"
| "lease_step tm (CReport a) (n, L) = (if L (aWorkerID a) = None then None else Some (n, L))"
| "lease_step tm (CHeartbeat wid) (n, L) = Some (n, if L wid = None then L else L(wid \<mapsto> tm))"
| "lease_step tm (CScan ids) (n, L) = Some (n, expire_leases tm ids L)"

fun lease_run :: "(int \<times> cevent) list \<Rightarrow> leases \<Rightarrow> leases option" where
  "lease_run [] S = Some S"
| "lease_run ((tm, e) # es) S = (case lease_step tm e S of None \<Rightarrow> None | Some S' \<Rightarrow> lease_run es S')"

definition lease_of :: "Coordinator \<Rightarrow> leases" where
  "lease_of c = (Counter c, \<lambda>i. map_option LastSeen (Workers c i))"

text \<open>What a worker that still has its lease keeps: its tasks.\<close>

definition keeps_tasks :: "Coordinator \<Rightarrow> Coordinator \<Rightarrow> bool" where
  "keeps_tasks c d \<longleftrightarrow> length (Files d) = length (Files c) \<and> Counter c \<le> Counter d \<and>
     (\<forall>i < length (Files c). Owner (Files c ! i) \<in> dom (Workers d) \<longrightarrow> Owner (Files d ! i) = Owner (Files c ! i)) \<and>
     (\<forall>wid \<in> dom (Workers d). wid < Counter c \<longrightarrow> wid \<in> dom (Workers c))"

lemma keeps_tasksI:
  assumes "length (Files d) = length (Files c)" and "Counter c \<le> Counter d"
    and "\<And>i. i < length (Files c) \<Longrightarrow> Owner (Files c ! i) \<in> dom (Workers d) \<Longrightarrow> Owner (Files d ! i) = Owner (Files c ! i)"
    and "\<And>wid. wid \<in> dom (Workers d) \<Longrightarrow> wid < Counter c \<Longrightarrow> wid \<in> dom (Workers c)"
  shows "keeps_tasks c d"
  using assms by (simp add: keeps_tasks_def)

lemma keeps_tasks_refl: "keeps_tasks c c"
  by (simp add: keeps_tasks_def)

lemma owner_below: "coord_inv c \<Longrightarrow> i < length (Files c) \<Longrightarrow> 0 \<le> Counter c \<and> Owner (Files c ! i) < Counter c"
  by (auto simp: coord_inv_def workers_ok_def file_ok_def list_all_length split: if_splits)

lemma keeps_tasks_trans:
  assumes "keeps_tasks c d" and "keeps_tasks d e" and "coord_inv c"
  shows "keeps_tasks c e"
proof (rule keeps_tasksI)
  fix i
  assume i: "i < length (Files c)" and own: "Owner (Files c ! i) \<in> dom (Workers e)"
  have "Owner (Files c ! i) < Counter d" using owner_below [OF assms(3) i] assms(1) by (simp add: keeps_tasks_def)
  then have "Owner (Files c ! i) \<in> dom (Workers d)" using assms(2) own unfolding keeps_tasks_def by blast
  then have "Owner (Files d ! i) = Owner (Files c ! i)" using assms(1) i unfolding keeps_tasks_def by blast
  then show "Owner (Files e ! i) = Owner (Files c ! i)" using assms(1,2) i own unfolding keeps_tasks_def by metis
next
  show "wid \<in> dom (Workers c)" if "wid \<in> dom (Workers e)" "wid < Counter c" for wid
    using assms(1,2) that unfolding keeps_tasks_def by (meson order_less_le_trans)
qed (use assms(1,2) in \<open>simp_all add: keeps_tasks_def\<close>)

lemma scan_leases:
  assumes "coord_inv c"
  shows "\<exists>d. scan_pass tm ids c = Inr d \<and> coord_inv d \<and> lease_of d = (Counter c, expire_leases tm ids (snd (lease_of c))) \<and> keeps_tasks c d"
  using assms
proof (induction ids arbitrary: c)
  case Nil
  then show ?case by (auto simp: lease_of_def expire_leases_def keeps_tasks_refl intro!: ext split: option.splits)
next
  case (Cons wid ids)
  show ?case
  proof (cases "\<exists>w. Workers c wid = Some w \<and> tm - LastSeen w > 10 * 1000000000")
    case True
    then obtain w where w: "Workers c wid = Some w" "tm - LastSeen w > 10 * 1000000000" by (elim exE conjE)
    let ?d = "c\<lparr>Workers := (Workers c)(wid := None), Files := map (released wid) (Files c)\<rparr>"
    have d: "deleteWorker c wid = Inr ?d" using deleteWorker_inv_eq [OF Cons.prems, of wid] w(1) by simp
    have inv: "coord_inv ?d" using inv_deleteWorker [OF Cons.prems, of wid] w(1) d by (auto simp: keeps_job_def)
    have kept: "keeps_tasks c ?d" by (rule keeps_tasksI) (auto simp: released_def split: if_splits)
    obtain e where e: "scan_pass tm ids ?d = Inr e" "coord_inv e" "keeps_tasks ?d e"
        "lease_of e = (Counter ?d, expire_leases tm ids (snd (lease_of ?d)))"
      using Cons.IH [OF inv] by blast
    have "expire_leases tm ids (snd (lease_of ?d)) = expire_leases tm (wid # ids) (snd (lease_of c))"
      using w by (auto simp: lease_of_def expire_leases_def intro!: ext split: option.splits)
    then show ?thesis using w d e keeps_tasks_trans [OF kept e(3) Cons.prems] by simp
  next
    case False
    then have "scan_pass tm (wid # ids) c = scan_pass tm ids c" by (auto split: option.splits)
    moreover have "expire_leases tm (wid # ids) (snd (lease_of c)) = expire_leases tm ids (snd (lease_of c))"
      using False by (auto simp: lease_of_def expire_leases_def intro!: ext split: option.splits)
    ultimately show ?thesis using Cons.IH [OF Cons.prems] by simp
  qed
qed

lemma assign_tasks:
  assumes "coord_inv c" and "Workers c wid = Some w"
  shows "\<exists>d f. assign (Workers c wid) c = Inr (d, f) \<and> keeps_tasks c d"
proof (cases "next_task c")
  case None
  then show ?thesis using assms by (simp add: assign_eq keeps_tasks_def)
next
  case (Some i)
  then have i: "i < length (Files c)" "\<not> Assigned (Files c ! i)" using next_task_free [OF Some] by (auto simp: free_def split: if_splits)
  then have "Owner (Files c ! i) = -1" using assms(1) by (auto simp: coord_inv_def list_all_length file_ok_def)
  moreover have "-1 \<notin> dom (Workers c)" using assms(1) by (force simp: coord_inv_def workers_ok_def)
  ultimately show ?thesis using Some assms i(1) by (auto simp: assign_eq keeps_tasks_def nth_list_update)
qed

lemma report_tasks:
  assumes inv: "coord_inv c" and w: "Workers c (aWorkerID a) = Some w"
  shows "\<exists>d reply. Report c a = Inr (d, reply) \<and> coord_inv d \<and> lease_of d = lease_of c \<and> keeps_tasks c d"
proof -
  have range: "0 \<le> aWorkerID a" "aWorkerID a < Counter c" using inv w by (auto simp: coord_inv_def workers_ok_def)
  have m: "coord_inv (marked c a)" using inv_marked [OF inv range] .
  have wm: "Workers (marked c a) = Workers c" "Counter (marked c a) = Counter c" by (simp_all add: marked_def)
  have "Owner (Files (marked c a) ! i) = Owner (Files c ! i)" if "i < length (Files c)" for i
    using mark_done_rel [of "aFile a" "aWorkerID a" "Files c"] that by (auto simp: marked_def list_all2_conv_all_nth)
  moreover have "length (Files (marked c a)) = length (Files c)"
    using list_all2_lengthD [OF mark_done_rel [of "aFile a" "aWorkerID a" "Files c"]] by (simp add: marked_def)
  ultimately have kept: "keeps_tasks c (marked c a)" using wm by (simp add: keeps_tasks_def)
  obtain d f where d: "assign (Workers (marked c a) (aWorkerID a)) (marked c a) = Inr (d, f)" "keeps_tasks (marked c a) d"
    using assign_tasks [OF m, of "aWorkerID a" w] wm w by auto
  have "coord_inv d \<and> Workers d = Workers c \<and> Counter d = Counter c" using inv_assign [OF m, of "aWorkerID a" d f] d(1) wm by simp
  then show ?thesis using d wm keeps_tasks_trans [OF kept d(2) inv] by (simp add: Report_eq lease_of_def)
qed

lemma event_leases:
  assumes inv: "coord_inv c" and step: "lease_step tm e (lease_of c) = Some S"
  shows "\<exists>d. apply_event tm e c = Inr d \<and> coord_inv d \<and> lease_of d = S \<and> keeps_tasks c d"
proof (cases e)
  case CRegister
  have "coord_inv (fst (Register c tm))" using inv_Register [OF inv] by (simp add: keeps_job_def)
  moreover have "lease_of (fst (Register c tm)) = S"
    using step CRegister by (auto simp: lease_of_def Register_def no_WorkerItem_def Let_def intro!: ext)
  moreover have "keeps_tasks c (fst (Register c tm))" by (rule keeps_tasksI) (auto simp: Register_def Let_def split: if_splits)
  ultimately show ?thesis using CRegister by simp
next
  case (CReport a)
  then have "Workers c (aWorkerID a) \<noteq> None" "S = lease_of c" using step by (auto simp: lease_of_def split: if_splits)
  then show ?thesis using report_tasks [OF inv, of a] CReport by auto
next
  case (CHeartbeat wid)
  have "coord_inv (fst (Heartbeat c wid tm))" using inv_Heartbeat [OF inv] by (simp add: keeps_job_def)
  moreover have "lease_of (fst (Heartbeat c wid tm)) = S"
    using step CHeartbeat by (auto simp: lease_of_def Heartbeat_def intro!: ext split: option.splits if_splits)
  moreover have "keeps_tasks c (fst (Heartbeat c wid tm))"
    by (rule keeps_tasksI) (auto simp: Heartbeat_def split: option.splits if_splits)
  ultimately show ?thesis using CHeartbeat by simp
next
  case (CScan ids)
  then show ?thesis using scan_leases [OF inv, of tm ids] step by (auto simp: lease_of_def)
qed

lemma run_leases:
  "coord_inv c \<Longrightarrow> lease_run es (lease_of c) = Some S \<Longrightarrow>
    \<exists>d. timed_run es c = Inr d \<and> coord_inv d \<and> lease_of d = S \<and> keeps_tasks c d"
proof (induction es arbitrary: c)
  case Nil
  then show ?case by (simp add: keeps_tasks_refl)
next
  case (Cons te es)
  obtain tm e where te: "te = (tm, e)" by fastforce
  obtain T where T: "lease_step tm e (lease_of c) = Some T" "lease_run es T = Some S"
    using Cons.prems(2) te by (auto split: option.splits)
  obtain d where d: "apply_event tm e c = Inr d" "coord_inv d" "lease_of d = T" "keeps_tasks c d"
    using event_leases [OF Cons.prems(1) T(1)] by blast
  from Cons.IH [OF d(2)] T(2) d(3) obtain f where f: "timed_run es d = Inr f" "coord_inv f" "lease_of f = S" "keeps_tasks d f" by blast
  then show ?case using te d keeps_tasks_trans [OF d(4) f(4) Cons.prems(1)] by simp
qed

text \<open>A worker is on time when every scan comes at most ten seconds after its last heartbeat.\<close>

fun on_time :: "int \<Rightarrow> int \<Rightarrow> (int \<times> cevent) list \<Rightarrow> bool" where
  "on_time wid prev [] = True"
| "on_time wid prev ((tm, CHeartbeat i) # es) = on_time wid (if i = wid then tm else prev) es"
| "on_time wid prev ((tm, CScan ids) # es) = (tm - prev \<le> 10 * 1000000000 \<and> on_time wid prev es)"
| "on_time wid prev ((tm, CRegister) # es) = on_time wid prev es"
| "on_time wid prev ((tm, CReport a) # es) = on_time wid prev es"

lemma on_time_lease:
  "on_time wid prev es \<Longrightarrow> L wid = Some prev \<Longrightarrow> wid < n \<Longrightarrow> lease_run es (n, L) = Some (m, M) \<Longrightarrow> M wid \<noteq> None"
proof (induction wid prev es arbitrary: n L rule: on_time.induct)
  case (2 wid prev tm i es)
  show ?case by (rule "2.IH" [of "if L i = None then L else L(i \<mapsto> tm)" n]) (use "2.prems" in auto)
next
  case (3 wid prev tm ids es)
  show ?case by (rule "3.IH" [of "expire_leases tm ids L" n]) (use "3.prems" in \<open>auto simp: expire_leases_def\<close>)
next
  case (4 wid prev tm es)
  show ?case by (rule "4.IH" [of "L(n \<mapsto> tm)" "n + 1"]) (use "4.prems" in \<open>auto simp del: fun_upd_apply simp: fun_upd_other\<close>)
next
  case (5 wid prev tm a es)
  show ?case by (rule "5.IH" [of L n]) (use "5.prems" in \<open>auto split: if_splits\<close>)
qed simp



text \<open>
  As long as its calls are answered the goroutine \<open>heartbeat\<close> goes on and keeps the time of its last round; at the first call
  that fails it ends the whole worker.
\<close>
lemma heartbeat_runs:
  "heartbeat w rounds =
    (if \<forall>(tm, dialed, answered)\<in>set rounds. dialed \<and> answered
     then Inr (if rounds = [] then w else w\<lparr>LastSeen := fst (last rounds)\<rparr>) else Inl LogFatal)"
  by (induction w rounds rule: heartbeat.induct) (auto simp: call_def)

end
