(* ===== verification/Shard_Wf.thy ===== *)
theory Shard_Wf
  imports Shard_Config
begin

text \<open>
  The configurations of \<open>shardkv1/shardcfg/shardcfg.go\<close> that can arise at all: every operation of the package as a step, and
  the well-formedness that all of them keep. The printed form (\<open>String\<close>, \<open>FromString\<close>) has the JSON package as a parameter.
\<close>

subsection \<open>Printed configurations\<close>

record json_codec =
  Marshal :: "ShardConfig \<Rightarrow> string option"
  Unmarshal :: "string \<Rightarrow> ShardConfig option"

definition String :: "json_codec \<Rightarrow> ShardConfig \<Rightarrow> string go" where
  "String js cfg = (case Marshal js cfg of None \<Rightarrow> Inl LogFatal | Some b \<Rightarrow> Inr b)"

definition FromString :: "json_codec \<Rightarrow> string \<Rightarrow> ShardConfig go" where
  "FromString js s = (case Unmarshal js s of None \<Rightarrow> Inl LogFatal | Some scfg \<Rightarrow> Inr scfg)"

subsection \<open>The configurations that can arise\<close>

inductive cfg_step :: "ShardConfig \<Rightarrow> ShardConfig \<Rightarrow> bool" where
  rebalance: "Rebalance c = Some c' \<Longrightarrow> cfg_step c c'"
| join: "distinct (map fst servers) \<Longrightarrow> Join c servers = Inr (c', changed) \<Longrightarrow> cfg_step c c'"
| leave: "Leave c gs = Inr (c', changed) \<Longrightarrow> cfg_step c c'"
| join_balance: "distinct (map fst servers) \<Longrightarrow> JoinBalance c servers = Some (Inr (c', changed)) \<Longrightarrow> cfg_step c c'"
| leave_balance: "LeaveBalance c gs = Some (Inr (c', changed)) \<Longrightarrow> cfg_step c c'"
| copy: "cfg_step c (Copy c)"

text \<open>Twelve shards, a map of groups, and no server in two groups.\<close>

definition cfg_wf :: "ShardConfig \<Rightarrow> bool" where
  "cfg_wf c \<longleftrightarrow> cfg_ok c \<and> disjoint_servers {} (Groups c)"

lemma disjoint_servers_append:
  "disjoint_servers used (gs @ hs) \<longleftrightarrow> disjoint_servers used gs \<and> disjoint_servers (used \<union> all_servers gs) hs"
  by (induction used gs rule: disjoint_servers.induct) (auto simp: all_servers_def Un_assoc)

lemma disjoint_servers_mono: "disjoint_servers used gs \<Longrightarrow> used' \<subseteq> used \<Longrightarrow> disjoint_servers used' gs"
proof (induction used gs arbitrary: used' rule: disjoint_servers.induct)
  case (2 used g ss gs)
  have "disjoint_servers (used' \<union> set ss) gs" by (rule "2.IH") (use "2.prems" in auto)
  then show ?case using "2.prems" by auto
qed simp

lemma disjoint_servers_filter: "disjoint_servers used gs \<Longrightarrow> disjoint_servers used (filter P gs)"
  by (induction used gs rule: disjoint_servers.induct) (auto intro: disjoint_servers_mono)

lemma disjoint_servers_used: "disjoint_servers used gs \<Longrightarrow> used \<inter> all_servers gs = {}"
  by (induction used gs rule: disjoint_servers.induct) (auto simp: all_servers_def)

lemma disjoint_servers_unique:
  "disjoint_servers used gs \<Longrightarrow> (g, ss) \<in> set gs \<Longrightarrow> (h, ts) \<in> set gs \<Longrightarrow> x \<in> set ss \<Longrightarrow> x \<in> set ts \<Longrightarrow> g = h"
proof (induction used gs rule: disjoint_servers.induct)
  case (2 used k us gs)
  have rest: "x \<notin> set us" if "(j, vs) \<in> set gs" "x \<in> set vs" for j vs
    using disjoint_servers_used [of "used \<union> set us" gs] "2.prems"(1) that by (auto simp: all_servers_def)
  show ?case using "2.prems" "2.IH" rest by auto
qed simp

lemma wf_rebalance: "cfg_wf c \<Longrightarrow> Rebalance c = Some c' \<Longrightarrow> cfg_wf c' \<and> Num c' = Num c"
proof (cases "Groups c = []")
  case True
  assume "cfg_wf c" "Rebalance c = Some c'"
  then show ?thesis using True by (auto simp: Rebalance_def cfg_wf_def cfg_ok_def)
next
  case False
  assume wf: "cfg_wf c" and r: "Rebalance c = Some c'"
  then have "has_groups c" using False by (simp add: has_groups_def cfg_wf_def)
  from Rebalance_spec [OF this] r show ?thesis using wf by (auto simp: same_groups_def cfg_wf_def cfg_ok_def)
qed

lemma wf_join_groups:
  "cfg_wf c \<Longrightarrow> join_groups servers c b = Inr (c', done, changed) \<Longrightarrow> cfg_wf c' \<and> Num c' = Num c"
proof (induction servers c b rule: join_groups.induct)
  case (2 gid ss rest c b)
  show ?case
  proof (cases "gid \<in> gids c")
    case False
    then have nc: "\<not> clash (Groups c) ss" using "2.prems"(2) by (auto split: if_splits)
    then have "disjoint_servers {} (Groups c @ [(gid, ss)])" using "2.prems"(1) by (simp add: cfg_wf_def disjoint_servers_append clash_eq)
    then have "cfg_wf (c\<lparr>Groups := Groups c @ [(gid, ss)]\<rparr>)" using "2.prems"(1) False by (simp add: cfg_wf_def cfg_ok_def)
    then show ?thesis using "2.IH" [OF False nc] "2.prems"(2) False nc by simp
  qed (use "2.prems" in simp)
qed simp

lemma wf_leave_groups: "cfg_wf c \<Longrightarrow> leave_groups gs c b = (c', done, changed) \<Longrightarrow> cfg_wf c' \<and> Num c' = Num c"
proof (induction gs c b rule: leave_groups.induct)
  case (2 gid rest c b)
  have "cfg_wf (c\<lparr>Groups := filter (\<lambda>(g, _). g \<noteq> gid) (Groups c)\<rparr>)"
    using "2.prems"(1) by (auto simp: cfg_wf_def cfg_ok_def intro: disjoint_servers_filter distinct_map_filter)
  then show ?case using "2.IH" "2.prems" by (auto split: if_splits)
qed simp


lemma wf_join: "cfg_wf c \<Longrightarrow> Join c servers = Inr (c', ok) \<Longrightarrow> cfg_wf c' \<and> Num c \<le> Num c'"
proof -
  assume wf: "cfg_wf c" and j: "Join c servers = Inr (c', ok)"
  obtain d fin ch where d: "join_groups servers c False = Inr (d, fin, ch)"
    using j by (cases "join_groups servers c False") (auto simp: Join_def)
  then have "cfg_wf d \<and> Num d = Num c" by (rule wf_join_groups [OF wf])
  then show ?thesis using j d by (auto simp: Join_def cfg_wf_def cfg_ok_def split: if_splits)
qed

lemma wf_leave: "cfg_wf c \<Longrightarrow> Leave c gs = Inr (c', ok) \<Longrightarrow> cfg_wf c' \<and> Num c \<le> Num c'"
proof -
  assume wf: "cfg_wf c" and l: "Leave c gs = Inr (c', ok)"
  obtain d fin ch where d: "leave_groups gs c False = (d, fin, ch)" by (cases "leave_groups gs c False")
  then have "cfg_wf d \<and> Num d = Num c" by (rule wf_leave_groups [OF wf])
  then show ?thesis using l d by (auto simp: Leave_def cfg_wf_def cfg_ok_def split: if_splits)
qed

lemma update_new: "k \<notin> fst ` set m \<Longrightarrow> AList.update k v m = m @ [(k, v)]"
  by (induction m) auto

lemma Copy_groups_append: "distinct (map fst (acc @ gs)) \<Longrightarrow> Copy_groups gs acc = acc @ gs"
proof (induction gs acc rule: Copy_groups.induct)
  case (2 k srvs gs acc)
  then have "AList.update k srvs acc = acc @ [(k, srvs)]" by (intro update_new) auto
  then show ?case using 2 by auto
qed simp

lemma Copy_same: "cfg_wf c \<Longrightarrow> Copy c = c"
  using Copy_groups_append [of "[]" "Groups c"] by (simp add: Copy_def MakeShardConfig_def cfg_wf_def cfg_ok_def)

lemma wf_balance:
  assumes "cfg_wf c'" and "Num c \<le> Num c'"
    and "(if \<not> ok then Some (Inr (c', False)) else map_option (\<lambda>c. Inr (c, True)) (Rebalance c')) = Some (Inr (d, b))"
  shows "cfg_wf d \<and> Num c \<le> Num d"
  using assms wf_rebalance [OF assms(1)] by (auto split: if_splits)

lemma cfg_step_wf:
  assumes "cfg_step c c'" and "cfg_wf c"
  shows "cfg_wf c' \<and> Num c \<le> Num c'"
  using assms(1)
proof cases
  case (join_balance servers ok)
  then obtain d ch where "Join c servers = Inr (d, ch)" by (cases "Join c servers") (auto simp: JoinBalance_def)
  then show ?thesis using join_balance wf_join [OF assms(2)] by (intro wf_balance [of d c ch]) (auto simp: JoinBalance_def)
next
  case (leave_balance gs ok)
  then obtain d ch where "Leave c gs = Inr (d, ch)" by (cases "Leave c gs") (auto simp: LeaveBalance_def)
  then show ?thesis using leave_balance wf_leave [OF assms(2)] by (intro wf_balance [of d c ch]) (auto simp: LeaveBalance_def)
next
  case rebalance
  then show ?thesis using wf_rebalance [OF assms(2)] by simp
next
  case (join servers ok)
  then show ?thesis using wf_join [OF assms(2)] by blast
next
  case (leave gs ok)
  then show ?thesis using wf_leave [OF assms(2)] by blast
next
  case copy
  then show ?thesis using Copy_same [OF assms(2)] assms(2) by simp
qed

interpretation config: step_invariant cfg_step cfg_wf "\<lambda>c c'. Num c \<le> Num c'"
  by unfold_locales (auto dest: cfg_step_wf)

lemma wf_Rebalance_returns: "cfg_wf c \<Longrightarrow> \<exists>c'. Rebalance c = Some c'"
  using Rebalance_spec [of c] by (cases "Groups c = []") (auto simp: Rebalance_def has_groups_def cfg_wf_def)

text \<open>
  Property C23. Every configuration that can be made from \<open>MakeShardConfig\<close> by \<open>Join\<close>, \<open>Leave\<close>, \<open>Rebalance\<close>, \<open>JoinBalance\<close>,
  \<open>LeaveBalance\<close> and \<open>Copy\<close>, rejected joins and leaves included, is well formed: it has \<open>NShards\<close> shards and one entry for each
  group, and no server is in two groups. On it \<open>Copy\<close> loses nothing, \<open>Rebalance\<close> returns, the lookup of any key does not
  panic, and no operation makes the configuration number smaller.
\<close>
theorem configs_well_formed:
  assumes "cfg_step\<^sup>*\<^sup>* MakeShardConfig c"
  shows "length (Shards c) = NShards \<and> distinct (map fst (Groups c)) \<and>
    (\<forall>g ss h ts x. (g, ss) \<in> set (Groups c) \<and> (h, ts) \<in> set (Groups c) \<and> x \<in> set ss \<and> x \<in> set ts \<longrightarrow> g = h) \<and>
    Copy c = c \<and> (\<exists>c'. Rebalance c = Some c') \<and> (\<forall>key. \<exists>r. GidServers c (Key2Shard key) = Inr r) \<and>
    (\<forall>c'. cfg_step c c' \<longrightarrow> Num c \<le> Num c')"
proof -
  have "cfg_wf MakeShardConfig" by (simp add: cfg_wf_def cfg_ok_def MakeShardConfig_def)
  from config.reach_inv [OF assms this] have wf: "cfg_wf c" .
  then have shape: "length (Shards c) = NShards" "distinct (map fst (Groups c))" by (simp_all add: cfg_wf_def cfg_ok_def)
  have "g = h" if "(g, ss) \<in> set (Groups c)" "(h, ts) \<in> set (Groups c)" "x \<in> set ss" "x \<in> set ts" for g ss h ts x
    using wf disjoint_servers_unique [of "{}" "Groups c"] that by (auto simp: cfg_wf_def)
  moreover have "\<exists>r. GidServers c (Key2Shard key) = Inr r" for key
    using shape(1) by (auto simp: GidServers_def Key2Shard_def NShards_def Let_def split: option.splits)
  moreover have "\<forall>c'. cfg_step c c' \<longrightarrow> Num c \<le> Num c'" using cfg_step_wf [OF _ wf] by blast
  ultimately show ?thesis using shape Copy_same [OF wf] wf_Rebalance_returns [OF wf] by blast
qed

theorem configs_well_formed_witness:
  "\<exists>c. Join MakeShardConfig [(1, [''a'', ''b'']), (2, [''c''])] = Inr (c, True) \<and> length (Shards c) = NShards \<and> Copy c = c \<and>
    (\<exists>c'. Rebalance c = Some c')"
proof -
  let ?c = "MakeShardConfig\<lparr>Groups := [(1, [''a'', ''b'']), (2, [''c''])], Num := 1\<rparr>"
  have j: "Join MakeShardConfig [(1, [''a'', ''b'']), (2, [''c''])] = Inr (?c, True)"
    by (simp add: Join_def MakeShardConfig_def clash_def)
  then have "cfg_step\<^sup>*\<^sup>* MakeShardConfig ?c" by (intro r_into_rtranclp cfg_step.join) auto
  from configs_well_formed [OF this] j show ?thesis by blast
qed

end
