(* ===== verification/Shard_Group.thy ===== *)
theory Shard_Group
  imports Shard_Wf Rsm Tester_Clnts Kv_Model
begin

text \<open>
  The sharded key/value service on top of the shard configurations. The shard groups (\<open>shardkv1/shardgrp\<close>), the controller
  (\<open>shardkv1/shardctrler\<close>) and the clerks of \<open>shardkv1/client.go\<close> and \<open>kvraft1/client.go\<close> are placeholders in the repository
  and are modelled as such: their handlers change nothing and their methods return zero values. The empty error is \<open>NoErr\<close>.
\<close>

subsection \<open>shardrpc.go\<close>

record FreezeShardArgs =
  fz_Shard :: int
  fz_Num :: int

record FreezeShardReply =
  fz_State :: "nat list option"
  fzr_Num :: int
  fz_Err :: err

record InstallShardArgs =
  in_Shard :: int
  in_State :: "nat list option"
  in_Num :: int

record InstallShardReply =
  in_Err :: err

record DeleteShardArgs =
  dl_Shard :: int
  dl_Num :: int

record DeleteShardReply =
  dl_Err :: err

subsection \<open>shardgrp/server.go\<close>

record ShardGrpServer =
  sgs_me :: nat
  sgs_dead :: "32 word"
  sgs_rsm :: "RSM option"
  sgs_gid :: Tgid

definition shardgrp_DoOp :: "ShardGrpServer \<Rightarrow> 'req \<Rightarrow> (ShardGrpServer \<times> 'rep option) go" where
  "shardgrp_DoOp s q = Inr (s, None)"

definition shardgrp_Snapshot :: "ShardGrpServer \<Rightarrow> nat list option" where
  "shardgrp_Snapshot s = None"

definition shardgrp_Restore :: "ShardGrpServer \<Rightarrow> nat list option \<Rightarrow> ShardGrpServer go" where
  "shardgrp_Restore s data = Inr s"

definition shardgrp_Get :: "ShardGrpServer \<Rightarrow> GetArgs \<Rightarrow> GetReply \<Rightarrow> ShardGrpServer \<times> GetReply" where
  "shardgrp_Get s arg rep = (s, rep)"

definition shardgrp_Put :: "ShardGrpServer \<Rightarrow> PutArgs \<Rightarrow> PutReply \<Rightarrow> ShardGrpServer \<times> PutReply" where
  "shardgrp_Put s arg rep = (s, rep)"

definition shardgrp_FreezeShard :: "ShardGrpServer \<Rightarrow> FreezeShardArgs \<Rightarrow> FreezeShardReply \<Rightarrow> ShardGrpServer \<times> FreezeShardReply" where
  "shardgrp_FreezeShard s arg rep = (s, rep)"

definition shardgrp_InstallShard :: "ShardGrpServer \<Rightarrow> InstallShardArgs \<Rightarrow> InstallShardReply \<Rightarrow> ShardGrpServer \<times> InstallShardReply" where
  "shardgrp_InstallShard s arg rep = (s, rep)"

definition shardgrp_DeleteShard :: "ShardGrpServer \<Rightarrow> DeleteShardArgs \<Rightarrow> DeleteShardReply \<Rightarrow> ShardGrpServer \<times> DeleteShardReply" where
  "shardgrp_DeleteShard s arg rep = (s, rep)"

definition shardgrp_Kill :: "ShardGrpServer \<Rightarrow> ShardGrpServer" where
  "shardgrp_Kill s = s\<lparr>sgs_dead := 1\<rparr>"

definition shardgrp_killed :: "ShardGrpServer \<Rightarrow> bool" where
  "shardgrp_killed s = (let z = sgs_dead s in z = 1)"

text \<open>The registrations with gob at the start of the function only concern that package.\<close>

definition StartServerShardGrp :: "nat \<Rightarrow> Tgid \<Rightarrow> nat \<Rightarrow> Persister \<Rightarrow> int \<Rightarrow> ShardGrpServer \<times> Raft option" where
  "StartServerShardGrp npeers gid i ps maxrs =
     (let s = \<lparr>sgs_me = i, sgs_dead = 0, sgs_rsm = None, sgs_gid = gid\<rparr>; r = MakeRSM npeers i ps maxrs in
      (s\<lparr>sgs_rsm := Some r\<rparr>, rsm_Raft r))"

subsection \<open>The clerks\<close>

text \<open>The clerks of \<open>shardgrp/client.go\<close> and \<open>kvraft1/client.go\<close> have the same fields and placeholders.\<close>

record GrpClerk =
  gck_clnt :: Clnt
  gck_servers :: "string list"

definition shardgrp_MakeClerk :: "Clnt \<Rightarrow> string list \<Rightarrow> GrpClerk" where
  "shardgrp_MakeClerk c ns = \<lparr>gck_clnt = c, gck_servers = ns\<rparr>"

definition shardgrp_ck_Get :: "GrpClerk \<Rightarrow> string \<Rightarrow> string \<times> Tversion \<times> err" where
  "shardgrp_ck_Get ck key = ('''', 0, NoErr)"

definition shardgrp_ck_Put :: "GrpClerk \<Rightarrow> string \<Rightarrow> string \<Rightarrow> Tversion \<Rightarrow> err" where
  "shardgrp_ck_Put ck key val ver = NoErr"

definition shardgrp_ck_FreezeShard :: "GrpClerk \<Rightarrow> int \<Rightarrow> int \<Rightarrow> nat list option \<times> err" where
  "shardgrp_ck_FreezeShard ck sh num = (None, NoErr)"

definition shardgrp_ck_InstallShard :: "GrpClerk \<Rightarrow> int \<Rightarrow> nat list option \<Rightarrow> int \<Rightarrow> err" where
  "shardgrp_ck_InstallShard ck sh st num = NoErr"

definition shardgrp_ck_DeleteShard :: "GrpClerk \<Rightarrow> int \<Rightarrow> int \<Rightarrow> err" where
  "shardgrp_ck_DeleteShard ck sh num = NoErr"

definition kvraft_MakeClerk :: "Clnt \<Rightarrow> string list \<Rightarrow> GrpClerk" where
  "kvraft_MakeClerk c ns = \<lparr>gck_clnt = c, gck_servers = ns\<rparr>"

definition kvraft_ck_Get :: "GrpClerk \<Rightarrow> string \<Rightarrow> string \<times> Tversion \<times> err" where
  "kvraft_ck_Get ck key = ('''', 0, NoErr)"

definition kvraft_ck_Put :: "GrpClerk \<Rightarrow> string \<Rightarrow> string \<Rightarrow> Tversion \<Rightarrow> err" where
  "kvraft_ck_Put ck key val ver = NoErr"

text \<open>\<open>kvsrv1/client.go\<close>: the clerk that the controller embeds.\<close>

record KvClerk =
  ck_clnt :: Clnt
  ck_server :: string

definition kvsrv_MakeClerk :: "Clnt \<Rightarrow> string \<Rightarrow> KvClerk" where
  "kvsrv_MakeClerk c srv = \<lparr>ck_clnt = c, ck_server = srv\<rparr>"

definition StartKVServer_kvsrv :: "nat \<Rightarrow> Tgid \<Rightarrow> nat \<Rightarrow> Persister \<Rightarrow> KVServer list" where
  "StartKVServer_kvsrv npeers gid srv ps = [MakeKVServer]"

subsection \<open>shardctrler.go and shardkv1/client.go\<close>

record ShardCtrler =
  sck_clnt :: Clnt
  sck_clerk :: "KvClerk option"
  sck_killed :: "32 word"

definition MakeShardCtrler :: "Clnt \<Rightarrow> ShardCtrler" where
  "MakeShardCtrler c =
     (let sck = \<lparr>sck_clnt = c, sck_clerk = None, sck_killed = 0\<rparr>; srv = ServerName GRP0 0 in
      sck\<lparr>sck_clerk := Some (kvsrv_MakeClerk c srv)\<rparr>)"

definition InitController :: "ShardCtrler \<Rightarrow> ShardCtrler" where
  "InitController sck = sck"

definition InitConfig :: "ShardCtrler \<Rightarrow> ShardConfig \<Rightarrow> ShardCtrler" where
  "InitConfig sck cfg = sck"

definition ChangeConfigTo :: "ShardCtrler \<Rightarrow> ShardConfig \<Rightarrow> ShardCtrler" where
  "ChangeConfigTo sck new = sck"

definition Query :: "ShardCtrler \<Rightarrow> ShardConfig option" where
  "Query sck = None"

record ShardKvClerk =
  skv_clnt :: Clnt
  skv_sck :: ShardCtrler

definition shardkv_MakeClerk :: "Clnt \<Rightarrow> ShardCtrler \<Rightarrow> ShardKvClerk" where
  "shardkv_MakeClerk c sck = \<lparr>skv_clnt = c, skv_sck = sck\<rparr>"

definition shardkv_ck_Get :: "ShardKvClerk \<Rightarrow> string \<Rightarrow> string \<times> Tversion \<times> err" where
  "shardkv_ck_Get ck key = ('''', 0, NoErr)"

definition shardkv_ck_Put :: "ShardKvClerk \<Rightarrow> string \<Rightarrow> string \<Rightarrow> Tversion \<Rightarrow> err" where
  "shardkv_ck_Put ck key val ver = NoErr"

interpretation shardgrp_service: state_machine shardgrp_DoOp shardgrp_Snapshot shardgrp_Restore "\<lambda>_. ()"
  by unfold_locales (simp_all add: shardgrp_DoOp_def shardgrp_Restore_def)

text \<open>
  What the placeholders cost: the sequential model of the tests refuses every put of such a clerk, in every state, so no
  history with one is accepted.
\<close>
lemma placeholder_put_refused:
  "\<not> fst (Step st \<lparr>ki_Op = 1, ki_Key = key, ki_Value = val, ki_Version = ver\<rparr>
      \<lparr>ko_Value = '''', ko_Version = 0, ko_Err = err_string (shardkv_ck_Put ck key val ver)\<rparr>)"
  by (simp add: Step_def shardkv_ck_Put_def)

end
