(* ===== verification/Kvtest_Spawn.thy ===== *)
theory Kvtest_Spawn
  imports Kvtest
begin

text \<open>
  \<open>SpawnClientsAndWait\<close> and \<open>runClient\<close> of \<open>kvtest1/kvtest.go\<close> as a system of goroutines and unbuffered channels. A client
  makes its clerk, works in turns until it receives from \<open>done\<close>, sends its result on a channel of its own and deletes its clerk. The
  test goroutine sends once on \<open>done\<close> for every client, whichever client takes it, and then receives the results in order. A
  handshake on an unbuffered channel is one step of both sides. The function that a client runs is the parameter \<open>fn\<close>: what client
  \<open>i\<close> returns when it is stopped after a number of turns.
\<close>

subsection \<open>State and steps\<close>

datatype goroutine = Starting | Running nat | Returning ClntRes | Deleting | Gone

datatype main_pc = Signalling nat | Collecting nat | Returned

record spawn =
  clients :: "goroutine list"
  main_at :: main_pc
  rs :: "ClntRes list"

definition no_ClntRes :: ClntRes where
  "no_ClntRes = \<lparr>Nok = 0, Nmaybe = 0\<rparr>"

text \<open>The state after the loop that starts the goroutines; without clients both loops are skipped.\<close>

definition SpawnClientsAndWait :: "nat \<Rightarrow> spawn" where
  "SpawnClientsAndWait nclnt =
     \<lparr>clients = replicate nclnt Starting, main_at = (if nclnt = 0 then Returned else Signalling 0), rs = replicate nclnt no_ClntRes\<rparr>"

datatype spawn_event = MakeClerkOf nat | Turn nat | Signal nat | Collect | DeleteClerkOf nat

definition next_signal :: "nat \<Rightarrow> nat \<Rightarrow> main_pc" where
  "next_signal nclnt i = (if i + 1 < nclnt then Signalling (i + 1) else Collecting 0)"

definition next_collect :: "nat \<Rightarrow> nat \<Rightarrow> main_pc" where
  "next_collect nclnt i = (if i + 1 < nclnt then Collecting (i + 1) else Returned)"

fun spawn_step :: "(nat \<Rightarrow> nat \<Rightarrow> ClntRes) \<Rightarrow> spawn_event \<Rightarrow> spawn \<Rightarrow> spawn option" where
  "spawn_step fn (MakeClerkOf c) s =
     (if c < length (clients s) then
        case clients s ! c of Starting \<Rightarrow> Some (s\<lparr>clients := (clients s)[c := Running 0]\<rparr>) | _ \<Rightarrow> None
      else None)"
| "spawn_step fn (Turn c) s =
     (if c < length (clients s) then
        case clients s ! c of Running n \<Rightarrow> Some (s\<lparr>clients := (clients s)[c := Running (n + 1)]\<rparr>) | _ \<Rightarrow> None
      else None)"
| "spawn_step fn (Signal c) s =
     (if c < length (clients s) then
        case (main_at s, clients s ! c) of
          (Signalling i, Running n) \<Rightarrow>
            Some (s\<lparr>clients := (clients s)[c := Returning (fn c n)], main_at := next_signal (length (clients s)) i\<rparr>)
        | _ \<Rightarrow> None
      else None)"
| "spawn_step fn Collect s =
     (case main_at s of
        Collecting i \<Rightarrow>
          (if i < length (clients s) then
             case clients s ! i of
               Returning v \<Rightarrow>
                 Some (s\<lparr>clients := (clients s)[i := Deleting], rs := (rs s)[i := v], main_at := next_collect (length (clients s)) i\<rparr>)
             | _ \<Rightarrow> None
           else None)
      | _ \<Rightarrow> None)"
| "spawn_step fn (DeleteClerkOf c) s =
     (if c < length (clients s) then
        case clients s ! c of Deleting \<Rightarrow> Some (s\<lparr>clients := (clients s)[c := Gone]\<rparr>) | _ \<Rightarrow> None
      else None)"

fun spawn_run :: "(nat \<Rightarrow> nat \<Rightarrow> ClntRes) \<Rightarrow> spawn_event list \<Rightarrow> spawn \<Rightarrow> spawn option" where
  "spawn_run fn [] s = Some s"
| "spawn_run fn (e # es) s = (case spawn_step fn e s of None \<Rightarrow> None | Some s' \<Rightarrow> spawn_run fn es s')"

subsection \<open>The invariant\<close>

definition waiting :: "goroutine \<Rightarrow> bool" where
  "waiting c \<longleftrightarrow> (c = Starting \<or> (\<exists>n. c = Running n))"

definition collected :: "goroutine \<Rightarrow> bool" where
  "collected c \<longleftrightarrow> c = Deleting \<or> c = Gone"

definition returning :: "goroutine \<Rightarrow> bool" where
  "returning c \<longleftrightarrow> (\<exists>v. c = Returning v)"

lemma client_kinds [simp]:
  "waiting Starting" "waiting (Running n)" "\<not> waiting (Returning v)" "\<not> waiting Deleting" "\<not> waiting Gone"
  "collected Deleting" "collected Gone" "\<not> collected Starting" "\<not> collected (Running n)" "\<not> collected (Returning v)"
  "returning (Returning v)" "\<not> returning Starting" "\<not> returning (Running n)" "\<not> returning Deleting" "\<not> returning Gone"
  by (simp_all add: waiting_def collected_def returning_def)

text \<open>Where the test goroutine is says which clients are still waiting for the signal.\<close>

definition main_ok :: "spawn \<Rightarrow> bool" where
  "main_ok s =
     (case main_at s of
        Signalling i \<Rightarrow> i < length (clients s) \<and> length (filter waiting (clients s)) = length (clients s) - i \<and> list_all (\<lambda>c. \<not> collected c) (clients s)
      | Collecting i \<Rightarrow> i < length (clients s) \<and> list_all collected (take i (clients s)) \<and> list_all returning (drop i (clients s))
      | Returned \<Rightarrow> list_all collected (clients s))"

text \<open>\<open>k\<close> is the number of turns of the client so far.\<close>

definition goroutine_ok :: "(nat \<Rightarrow> nat \<Rightarrow> ClntRes) \<Rightarrow> nat \<Rightarrow> nat \<Rightarrow> ClntRes \<Rightarrow> goroutine \<Rightarrow> bool" where
  "goroutine_ok fn c k r cl =
     (case cl of Starting \<Rightarrow> k = 0 | Running n \<Rightarrow> k = n | Returning v \<Rightarrow> v = fn c k | _ \<Rightarrow> r = fn c k)"

definition spawn_inv :: "(nat \<Rightarrow> nat \<Rightarrow> ClntRes) \<Rightarrow> nat \<Rightarrow> (nat \<Rightarrow> nat) \<Rightarrow> spawn \<Rightarrow> bool" where
  "spawn_inv fn n k s \<longleftrightarrow> length (clients s) = n \<and> length (rs s) = n \<and> main_ok s \<and> (\<forall>c < n. goroutine_ok fn c (k c) (rs s ! c) (clients s ! c))"

lemma filter_update_length:
  assumes "c < length xs"
  shows "length (filter P (xs[c := x])) + (if P (xs ! c) then 1 else 0) = length (filter P xs) + (if P x then 1 else 0)"
  using assms
proof (induction xs arbitrary: c)
  case (Cons y ys)
  then show ?case by (cases c) auto
qed simp

lemma main_ok_same:
  assumes "main_ok s" and "c < length (clients s)" and "waiting x = waiting (clients s ! c)" and "collected x = collected (clients s ! c)"
    and "returning x = returning (clients s ! c)"
  shows "main_ok (s\<lparr>clients := (clients s)[c := x]\<rparr>)"
  using assms filter_update_length [OF assms(2), of waiting x]
  by (cases "main_at s") (auto simp: main_ok_def list_all_length nth_list_update)

definition count_turn :: "(nat \<Rightarrow> nat) \<Rightarrow> spawn_event \<Rightarrow> nat \<Rightarrow> nat" where
  "count_turn k e = (case e of Turn c \<Rightarrow> k(c := k c + 1) | _ \<Rightarrow> k)"

lemma main_ok_signal:
  assumes "main_ok s" and "main_at s = Signalling i" and "c < length (clients s)" and "clients s ! c = Running n"
  shows "main_ok (s\<lparr>clients := (clients s)[c := Returning v], main_at := next_signal (length (clients s)) i\<rparr>)"
proof -
  let ?cs = "(clients s)[c := Returning v]"
  have count: "length (filter waiting ?cs) + 1 = length (clients s) - i" "i < length (clients s)"
    using filter_update_length [OF assms(3), of waiting "Returning v"] assms by (auto simp: main_ok_def)
  have nc: "list_all (\<lambda>c. \<not> collected c) ?cs" using assms by (auto simp: main_ok_def list_all_length nth_list_update)
  show ?thesis
  proof (cases "i + 1 < length (clients s)")
    case True
    then show ?thesis using count nc by (simp add: main_ok_def next_signal_def)
  next
    case False
    then have "length (filter waiting ?cs) = 0" using count by linarith
    then have "\<forall>x\<in>set ?cs. \<not> waiting x" by (simp add: filter_empty_conv)
    moreover have "returning x" if "\<not> waiting x" "\<not> collected x" for x using that by (cases x) auto
    ultimately have "list_all returning ?cs" using nc by (simp add: list_all_iff)
    moreover have "clients s \<noteq> []" using assms(3) by auto
    ultimately show ?thesis using False by (simp add: main_ok_def next_signal_def)
  qed
qed

lemma main_ok_collect:
  assumes "main_ok s" and "main_at s = Collecting i" and "i < length (clients s)"
  shows "main_ok (s\<lparr>clients := (clients s)[i := Deleting], rs := r, main_at := next_collect (length (clients s)) i\<rparr>)"
proof -
  have "list_all collected (take (i + 1) ((clients s)[i := Deleting]))"
    using assms by (auto simp: main_ok_def list_all_length nth_list_update less_Suc_eq)
  moreover have "list_all returning (drop (i + 1) ((clients s)[i := Deleting]))" 
    using assms set_drop_subset_set_drop [of i "i + 1" "clients s"] by (auto simp: main_ok_def list_all_iff)
  ultimately show ?thesis using assms by (auto simp: main_ok_def next_collect_def)
qed

lemma spawn_inv_step:
  assumes "spawn_inv fn n k s" and "spawn_step fn e s = Some s'"
  shows "spawn_inv fn n (count_turn k e) s'"
proof (cases e)
  case (MakeClerkOf c)
  then have "c < n" "clients s ! c = Starting" "s' = s\<lparr>clients := (clients s)[c := Running 0]\<rparr>"
    using assms by (auto simp: spawn_inv_def split: if_splits goroutine.splits)
  then show ?thesis using assms(1) main_ok_same [of s c "Running 0"] MakeClerkOf
    by (auto simp: spawn_inv_def count_turn_def goroutine_ok_def nth_list_update)
next
  case (Turn c)
  then obtain m where "c < n" "clients s ! c = Running m" "s' = s\<lparr>clients := (clients s)[c := Running (m + 1)]\<rparr>"
    using assms by (auto simp: spawn_inv_def split: if_splits goroutine.splits)
  then show ?thesis using assms(1) main_ok_same [of s c "Running (m + 1)"] Turn
    by (auto simp: spawn_inv_def count_turn_def goroutine_ok_def nth_list_update)
next
  case (Signal c)
  then obtain i m where "c < n" "main_at s = Signalling i" "clients s ! c = Running m"
      "s' = s\<lparr>clients := (clients s)[c := Returning (fn c m)], main_at := next_signal (length (clients s)) i\<rparr>"
    using assms by (auto simp: spawn_inv_def split: if_splits goroutine.splits main_pc.splits)
  then show ?thesis using assms(1) main_ok_signal [of s i c m "fn c m"] Signal
    by (auto simp: spawn_inv_def count_turn_def goroutine_ok_def nth_list_update)
next
  case Collect
  then obtain i v where "main_at s = Collecting i" "i < n" "clients s ! i = Returning v"
      "s' = s\<lparr>clients := (clients s)[i := Deleting], rs := (rs s)[i := v], main_at := next_collect (length (clients s)) i\<rparr>"
    using assms by (auto simp: spawn_inv_def split: if_splits goroutine.splits main_pc.splits)
  then show ?thesis using assms(1) main_ok_collect [of s i "(rs s)[i := v]"] Collect
    by (auto simp: spawn_inv_def count_turn_def goroutine_ok_def nth_list_update)
next
  case (DeleteClerkOf c)
  then have "c < n" "clients s ! c = Deleting" "s' = s\<lparr>clients := (clients s)[c := Gone]\<rparr>"
    using assms by (auto simp: spawn_inv_def split: if_splits goroutine.splits)
  then show ?thesis using assms(1) main_ok_same [of s c Gone] DeleteClerkOf
    by (auto simp: spawn_inv_def count_turn_def goroutine_ok_def nth_list_update)
qed

lemma spawn_inv_run: "spawn_inv fn n k s \<Longrightarrow> spawn_run fn es s = Some s' \<Longrightarrow> spawn_inv fn n (\<lambda>c. k c + count_list es (Turn c)) s'"
proof (induction es arbitrary: k s)
  case (Cons e es)
  then obtain t where t: "spawn_step fn e s = Some t" "spawn_run fn es t = Some s'" by (auto split: option.splits)
  have "(\<lambda>c. count_turn k e c + count_list es (Turn c)) = (\<lambda>c. k c + count_list (e # es) (Turn c))"
    by (cases e) (auto simp: count_turn_def intro!: ext)
  then show ?case using Cons.IH [OF spawn_inv_step [OF Cons.prems(1) t(1)] t(2)] by simp
qed simp

lemma spawn_inv_start: "spawn_inv fn n (\<lambda>_. 0) (SpawnClientsAndWait n)"
  by (auto simp: spawn_inv_def SpawnClientsAndWait_def main_ok_def goroutine_ok_def list_all_length)

subsection \<open>No deadlock, and the end\<close>

text \<open>What the goroutines have left to do, turns not counted.\<close>

fun left_of :: "goroutine \<Rightarrow> nat" where
  "left_of Starting = 4"
| "left_of (Running n) = 3"
| "left_of (Returning v) = 2"
| "left_of Deleting = 1"
| "left_of Gone = 0"

definition left :: "spawn \<Rightarrow> nat" where
  "left s = sum_list (map left_of (clients s))"

definition is_turn :: "spawn_event \<Rightarrow> bool" where
  "is_turn e \<longleftrightarrow> (\<exists>c. e = Turn c)"

lemma left_update:
  assumes "c < length xs"
  shows "sum_list (map left_of (xs[c := x])) + left_of (xs ! c) = sum_list (map left_of xs) + left_of x"
  using assms
proof (induction xs arbitrary: c)
  case (Cons y ys)
  then show ?case by (cases c) auto
qed simp

lemma left_step: "spawn_step fn e s = Some s' \<Longrightarrow> left s' + (if is_turn e then 0 else 1) = left s"
proof (cases e)
  case (MakeClerkOf c)
  assume "spawn_step fn e s = Some s'"
  then show ?thesis using MakeClerkOf left_update [of c "clients s" "Running 0"] by (auto simp: left_def is_turn_def split: if_splits goroutine.splits)
next
  case (Turn c)
  assume "spawn_step fn e s = Some s'"
  then obtain m where "c < length (clients s)" "clients s ! c = Running m" "s' = s\<lparr>clients := (clients s)[c := Running (m + 1)]\<rparr>"
    using Turn by (auto split: if_splits goroutine.splits)
  then show ?thesis using Turn left_update [of c "clients s" "Running (m + 1)"] by (simp add: left_def is_turn_def)
next
  case (Signal c)
  assume "spawn_step fn e s = Some s'"
  then obtain i m where "c < length (clients s)" "clients s ! c = Running m" "s' = s\<lparr>clients := (clients s)[c := Returning (fn c m)], main_at := i\<rparr>"
    using Signal by (auto split: if_splits goroutine.splits main_pc.splits)
  then show ?thesis using Signal left_update [of c "clients s" "Returning (fn c m)"] by (simp add: left_def is_turn_def)
next
  case Collect
  assume "spawn_step fn e s = Some s'"
  then obtain i v r p where "i < length (clients s)" "clients s ! i = Returning v" "s' = s\<lparr>clients := (clients s)[i := Deleting], rs := r, main_at := p\<rparr>"
    using Collect by (auto split: if_splits goroutine.splits main_pc.splits)
  then show ?thesis using Collect left_update [of i "clients s" Deleting] by (simp add: left_def is_turn_def)
next
  case (DeleteClerkOf c)
  assume "spawn_step fn e s = Some s'"
  then show ?thesis using DeleteClerkOf left_update [of c "clients s" Gone] by (auto simp: left_def is_turn_def split: if_splits goroutine.splits)
qed

lemma left_run: "spawn_run fn es s = Some s' \<Longrightarrow> left s' + length (filter (\<lambda>e. \<not> is_turn e) es) = left s"
proof (induction es arbitrary: s)
  case (Cons e es)
  then obtain t where t: "spawn_step fn e s = Some t" "spawn_run fn es t = Some s'" by (auto split: option.splits)
  then show ?case using Cons.IH [OF t(2)] left_step [OF t(1)] by auto
qed simp

lemma not_stuck:
  assumes "spawn_inv fn n k s" and "main_at s \<noteq> Returned"
  shows "\<exists>e s'. \<not> is_turn e \<and> spawn_step fn e s = Some s'"
proof (cases "main_at s")
  case (Signalling i)
  then have "length (filter waiting (clients s)) > 0" using assms by (auto simp: spawn_inv_def main_ok_def)
  then obtain c where c: "c < length (clients s)" "waiting (clients s ! c)" by (auto simp: filter_empty_conv in_set_conv_nth)
  show ?thesis
  proof (cases "clients s ! c")
    case Starting
    then show ?thesis using c by (intro exI [of _ "MakeClerkOf c"]) (simp add: is_turn_def)
  next
    case (Running m)
    then show ?thesis using c Signalling by (intro exI [of _ "Signal c"]) (simp add: is_turn_def)
  qed (use c in auto)
next
  case (Collecting i)
  then have i: "i < length (clients s)" "list_all returning (drop i (clients s))" using assms by (auto simp: spawn_inv_def main_ok_def)
  then have "returning (clients s ! i)" using Cons_nth_drop_Suc [of i "clients s"] by (metis list.pred_inject(2))
  then show ?thesis using i(1) Collecting by (intro exI [of _ Collect]) (auto simp: returning_def is_turn_def)
qed (use assms in simp)

lemma can_finish:
  assumes "spawn_inv fn n k s"
  shows "\<exists>es s'. spawn_run fn es s = Some s' \<and> main_at s' = Returned \<and> list_all (\<lambda>e. \<not> is_turn e) es"
  using assms
proof (induction "left s" arbitrary: s k rule: less_induct)
  case less
  show ?case
  proof (cases "main_at s = Returned")
    case True
    then show ?thesis by (intro exI [of _ "[]"]) simp
  next
    case False
    then obtain e t where e: "\<not> is_turn e" "spawn_step fn e s = Some t" using not_stuck [OF less.prems] by blast
    have "left t < left s" using left_step [OF e(2)] e(1) by simp
    then obtain es s' where "spawn_run fn es t = Some s'" "main_at s' = Returned" "list_all (\<lambda>e. \<not> is_turn e) es"
      using less.hyps spawn_inv_step [OF less.prems e(2)] by blast
    then have "spawn_run fn (e # es) s = Some s'" "list_all (\<lambda>e. \<not> is_turn e) (e # es)" using e by simp_all
    then show ?thesis using \<open>main_at s' = Returned\<close> by blast
  qed
qed

text \<open>
  Property C21. \<open>SpawnClientsAndWait\<close> with any number of clients, under every interleaving of their goroutines: apart from the
  turns of the clients a run has at most four steps per client; it never deadlocks, since from every state it reaches the goroutines
  can bring it to its return without another turn; and when it returns, each client has been stopped and the result in slot \<open>i\<close> is
  the one client \<open>i\<close> returned after the turns it took.
\<close>
theorem spawn_returns_results:
  assumes "spawn_run fn es (SpawnClientsAndWait n) = Some s"
  shows "length (filter (\<lambda>e. \<not> is_turn e) es) \<le> 4 * n \<and>
    (\<exists>es' s'. spawn_run fn es' s = Some s' \<and> main_at s' = Returned \<and> list_all (\<lambda>e. \<not> is_turn e) es') \<and>
    (main_at s = Returned \<longrightarrow>
      list_all collected (clients s) \<and> rs s = map (\<lambda>c. fn c (count_list es (Turn c))) [0..<n])"
proof -
  have inv: "spawn_inv fn n (\<lambda>c. count_list es (Turn c)) s" using spawn_inv_run [OF spawn_inv_start assms] by simp
  have "left (SpawnClientsAndWait n) = 4 * n" by (simp add: left_def SpawnClientsAndWait_def sum_list_replicate)
  then have bound: "length (filter (\<lambda>e. \<not> is_turn e) es) \<le> 4 * n" using left_run [OF assms] by simp
  have "list_all collected (clients s) \<and> rs s = map (\<lambda>c. fn c (count_list es (Turn c))) [0..<n]" if "main_at s = Returned"
  proof
    show col: "list_all collected (clients s)" using inv that by (simp add: spawn_inv_def main_ok_def)
    have "rs s ! c = fn c (count_list es (Turn c))" if "c < n" for c
    proof -
      have "collected (clients s ! c)" "goroutine_ok fn c (count_list es (Turn c)) (rs s ! c) (clients s ! c)"
        using col inv that by (simp_all add: spawn_inv_def list_all_length)
      then show ?thesis by (auto simp: collected_def goroutine_ok_def)
    qed
    then show "rs s = map (\<lambda>c. fn c (count_list es (Turn c))) [0..<n]" using inv by (intro nth_equalityI) (auto simp: spawn_inv_def)
  qed
  then show ?thesis using bound can_finish [OF inv] by blast
qed

theorem spawn_returns_results_witness:
  "\<exists>s. spawn_run (\<lambda>c k. \<lparr>Nok = int k, Nmaybe = int c\<rparr>)
      [MakeClerkOf 1, MakeClerkOf 0, Turn 1, Turn 0, Turn 1, Signal 1, Turn 0, Signal 0, Collect, Collect]
      (SpawnClientsAndWait 2) = Some s \<and> rs s = [\<lparr>Nok = 2, Nmaybe = 0\<rparr>, \<lparr>Nok = 2, Nmaybe = 1\<rparr>]"
proof -
  let ?fn = "\<lambda>c k. \<lparr>Nok = int k, Nmaybe = int c\<rparr>"
  let ?es = "[MakeClerkOf 1, MakeClerkOf 0, Turn 1, Turn 0, Turn 1, Signal 1, Turn 0, Signal 0, Collect, Collect]"
  obtain s where s: "spawn_run ?fn ?es (SpawnClientsAndWait 2) = Some s" "main_at s = Returned"
    by (simp add: SpawnClientsAndWait_def next_signal_def next_collect_def numeral_2_eq_2)
  from spawn_returns_results [OF s(1)] s(2) have "rs s = map (\<lambda>c. ?fn c (count_list ?es (Turn c))) [0..<2]" by blast
  then show ?thesis using s(1) by (simp add: numeral_2_eq_2)
qed

text \<open>
  The clerk of a client is deleted after its result was taken, so \<open>SpawnClientsAndWait\<close> can return while a clerk still exists.
\<close>
lemma returned_before_delete:
  "\<exists>s. spawn_run fn [MakeClerkOf 0, Signal 0, Collect] (SpawnClientsAndWait 1) = Some s \<and> main_at s = Returned \<and> clients s = [Deleting]"
  by (simp add: SpawnClientsAndWait_def next_signal_def next_collect_def)

end
