(* ===== verification/Kvtest_Driver.thy ===== *)
theory Kvtest_Driver
  imports Kvtest
begin

text \<open>
  What drives a key/value test: the rest of \<open>kvtest1/kvtest.go\<close>, the linearizability check of \<open>kvtest1/porcupine.go\<close> and the
  reporting functions of \<open>tester1/config.go\<close>. The porcupine checker is a parameter: a function from a history to its verdict. The
  environment variables, whether the visualization file can be opened and written, clock readings, stack frames and random bytes are
  arguments. A call that ends the goroutine of the test is \<open>Inl LogFatal\<close>.
\<close>

subsection \<open>config.go\<close>

text \<open>\<open>failed\<close>: whether the test has already been marked as failed; \<open>since\<close>: nanoseconds since it started.\<close>

definition CheckTimeout :: "bool \<Rightarrow> int \<Rightarrow> unit go" where
  "CheckTimeout failed since = (if \<not> failed \<and> since > 120 * 1000000000 then Inl LogFatal else Inr ())"

text \<open>The line that \<open>End\<close> prints: number of peers, RPCs since \<open>Begin\<close>, operations.\<close>

definition End_test :: "bool \<Rightarrow> int \<Rightarrow> ('s, 'b) Config \<Rightarrow> (nat \<times> int \<times> 32 word) option go" where
  "End_test failed since cfg =
     bind_go (CheckTimeout failed since) (\<lambda>_.
       if failed then Inr None
       else
         case Group cfg GRP0 of
           None \<Rightarrow> Inl NilDeref
         | Some sg \<Rightarrow> let npeers = N sg; nrpc = RpcTotal cfg - rpcs0 cfg in Inr (Some (npeers, nrpc, ops cfg)))"

fun Contains :: "string \<Rightarrow> string \<Rightarrow> bool" where
  "Contains [] p = (p = [])"
| "Contains (c # s) p = (take (length p) (c # s) = p \<or> Contains s p)"

text \<open>A stack frame is its file and line; at most 50 are kept. The value is what is printed and how the call ends.\<close>

definition Fatalf :: "string \<Rightarrow> (string \<times> int) list \<Rightarrow> string \<times> go_panic" where
  "Fatalf msg stack =
     (let head = ''Fatal: '' @ msg @ [CHR 0x0A]; pc = take 50 stack in
      if pc = [] then (head, PanicErr)
      else (head @ concat (map (\<lambda>(file, ln). ''        '' @ file @ '':'' @ itoa ln @ [CHR 0x0A]) (filter (\<lambda>(file, ln). Contains file ''test.go'') pc)), LogFatal))"

definition base64_alphabet :: string where
  "base64_alphabet = ''ABCDEFGHIJKLMNOPQRSTUVWXYZabcdefghijklmnopqrstuvwxyz0123456789-_''"

definition sextet :: "nat \<Rightarrow> char" where
  "sextet v = base64_alphabet ! (v mod 64)"

text \<open>\<open>base64.URLEncoding.EncodeToString\<close>: three bytes are four characters, the rest is padded.\<close>

fun EncodeToString :: "nat list \<Rightarrow> string" where
  "EncodeToString [] = []"
| "EncodeToString [a] = [sextet (a div 4), sextet (a * 16), CHR ''='', CHR ''='']"
| "EncodeToString [a, b] = [sextet (a div 4), sextet (a * 16 + b div 16), sextet (b * 4), CHR ''='']"
| "EncodeToString (a # b # c # bs) =
     [sextet (a div 4), sextet (a * 16 + b div 16), sextet (b * 4 + c div 64), sextet c] @ EncodeToString bs"

definition Randstring :: "nat \<Rightarrow> nat list \<Rightarrow> string go" where
  "Randstring n b = (let s = EncodeToString (take (2 * n) b) in if n \<le> length s then Inr (take n s) else Inl SliceOutOfRange)"

subsection \<open>kvtest.go\<close>

fun ConnectClnts :: "('s, 'b) Network \<Rightarrow> Clnt list \<Rightarrow> ('s, 'b) Network \<times> Clnt list" where
  "ConnectClnts net [] = (net, [])"
| "ConnectClnts net (c # cs) =
     (let (net, c) = clnt_ConnectAll net c; (net, cs) = ConnectClnts net cs in (net, c # cs))"

definition ts_Cleanup :: "bool \<Rightarrow> int \<Rightarrow> ('s, 'b) Config \<Rightarrow> ('s, 'b) Config go" where
  "ts_Cleanup failed since cfg = bind_go (End_test failed since cfg) (\<lambda>_. cfg_Cleanup cfg)"

text \<open>\<open>SpreadPuts\<close>: the values are random strings of length 20.\<close>

fun rand_values :: "nat \<Rightarrow> nat list list \<Rightarrow> string list go" where
  "rand_values sz [] = Inr []"
| "rand_values sz (b # bs) = bind_go (Randstring sz b) (\<lambda>v. bind_go (rand_values sz bs) (\<lambda>vs. Inr (v # vs)))"

definition SpreadPuts :: "int \<Rightarrow> int \<Rightarrow> 'w IKVClerk \<Rightarrow> nat list list \<Rightarrow> 'w Test \<Rightarrow> ((string list \<times> string list) \<times> 'w Test) go" where
  "SpreadPuts t t' ck bs ts = bind_go (rand_values 20 bs) (\<lambda>va. SpreadPutsSize t t' ck va ts)"

text \<open>The loop of \<open>Partitioner\<close>: the random bits of each turn before the channel is signalled.\<close>

fun Partitioner :: "int \<Rightarrow> nat list list \<Rightarrow> ('s, 'b) state \<Rightarrow> globals \<Rightarrow> (('s, 'b) state \<times> globals) go" where
  "Partitioner t [] st g = Inr (st, g)"
| "Partitioner t (bits # turns) st g = bind_go (Partitioner_turn t bits st g) (\<lambda>(st, g). Partitioner t turns st g)"

subsection \<open>porcupine.go\<close>

datatype CheckResult = Legal | Illegal | Unknown

text \<open>
  The value: whether the test goes on (\<open>Fatal\<close> otherwise), the globals, and the annotations of the visualization files that were
  written. \<open>t\<close> and \<open>t'\<close> are the clock readings of \<open>FinalizeAnnotations\<close>.
\<close>

definition visualize :: "bool \<Rightarrow> int \<Rightarrow> int \<Rightarrow> string \<Rightarrow> globals \<Rightarrow> globals \<times> porcupine_Annotation list list" where
  "visualize write_ok t t' txt g = (let (g, as) = FinalizeAnnotations t t' txt g in (g, if write_ok then [as] else []))"

definition checkPorcupine :: "(Operation list \<Rightarrow> CheckResult) \<Rightarrow> string \<Rightarrow> bool \<Rightarrow> bool \<Rightarrow> int \<Rightarrow> int \<Rightarrow> OpLog \<Rightarrow> globals \<Rightarrow>
    bool \<times> globals \<times> porcupine_Annotation list list" where
  "checkPorcupine chk vis_enable open_ok write_ok t t' opLog g =
     (let res = chk (OpLog_Read opLog) in
      if res = Illegal then
        (False, if \<not> open_ok then (g, [])
                else if vis_enable \<noteq> ''never'' then visualize write_ok t t' ''test failed'' g
                else (g, []))
      else if vis_enable = ''always'' \<and> GetAnnotationFinalized g then
        (True, if \<not> open_ok then (g, []) else visualize write_ok t t' ''test passed'' g)
      else (True, g, []))"

definition CheckPorcupineT :: "(Operation list \<Rightarrow> CheckResult) \<Rightarrow> string \<Rightarrow> bool \<Rightarrow> bool \<Rightarrow> int \<Rightarrow> int \<Rightarrow> 'w Test \<Rightarrow>
    ('w Test \<times> porcupine_Annotation list list) go" where
  "CheckPorcupineT chk vis_enable open_ok write_ok t t' ts =
     (case oplog ts of
        None \<Rightarrow> Inl NilDeref
      | Some log \<Rightarrow>
          (case checkPorcupine chk vis_enable open_ok write_ok t t' log (glob ts) of
             (goes_on, g, vis) \<Rightarrow> if goes_on then Inr (ts\<lparr>glob := g\<rparr>, vis) else Inl LogFatal))"

text \<open>\<open>CheckPorcupine\<close> gives the checker one second; a checker is a family of functions, one for each limit in nanoseconds.\<close>

definition linearizabilityCheckTimeout :: int where
  "linearizabilityCheckTimeout = 1000000000"

definition CheckPorcupine :: "(int \<Rightarrow> Operation list \<Rightarrow> CheckResult) \<Rightarrow> string \<Rightarrow> bool \<Rightarrow> bool \<Rightarrow> int \<Rightarrow> int \<Rightarrow> 'w Test \<Rightarrow>
    ('w Test \<times> porcupine_Annotation list list) go" where
  "CheckPorcupine chk = CheckPorcupineT (chk linearizabilityCheckTimeout)"

subsection \<open>Random strings\<close>

lemma base64_length: "length base64_alphabet = 64"
  by (simp add: base64_alphabet_def)

lemma sextet_alphabet: "sextet v \<in> set base64_alphabet"
  by (simp add: sextet_def base64_length)

text \<open>The characters before the padding; there are enough of them for half as many bytes.\<close>

lemma EncodeToString_prefix:
  "n \<le> length (EncodeToString b) \<and> set (take n (EncodeToString b)) \<subseteq> set base64_alphabet" if "n \<le> length b"
  using that
proof (induction b arbitrary: n rule: EncodeToString.induct)
  case (4 a b c bs)
  show ?case
  proof (cases "n \<le> 4")
    case True
    have "take n (EncodeToString (a # b # c # bs)) =
        take n [sextet (a div 4), sextet (a * 16 + b div 16), sextet (b * 4 + c div 64), sextet c]"
      unfolding EncodeToString.simps take_append using True by simp
    then have "set (take n (EncodeToString (a # b # c # bs))) =
        set (take n [sextet (a div 4), sextet (a * 16 + b div 16), sextet (b * 4 + c div 64), sextet c])" by (rule arg_cong)
    also have "\<dots> \<subseteq> set base64_alphabet" using set_take_subset sextet_alphabet by fastforce
    finally show ?thesis using True by simp
  next
    case False
    have rest: "n - 4 \<le> length (EncodeToString bs) \<and> set (take (n - 4) (EncodeToString bs)) \<subseteq> set base64_alphabet"
      by (rule "4.IH") (use "4.prems" in simp)
    have four: "n - Suc (Suc (Suc (Suc 0))) = n - 4" by simp
    moreover have "take n (EncodeToString (a # b # c # bs)) =
        [sextet (a div 4), sextet (a * 16 + b div 16), sextet (b * 4 + c div 64), sextet c] @ take (n - 4) (EncodeToString bs)"
      unfolding EncodeToString.simps take_append using False four by simp
    ultimately show ?thesis using rest False sextet_alphabet by auto
  qed
next
  case (2 a)
  then show ?case by (cases n) (auto simp: sextet_alphabet)
next
  case (3 a b)
  then consider "n = 0" | "n = 1" | "n = 2" by fastforce
  then show ?case by cases (auto simp: sextet_alphabet numeral_2_eq_2)
qed simp

text \<open>
  \<open>Randstring n\<close> never panics and returns \<open>n\<close> characters of the URL alphabet, padding excluded.
\<close>
theorem randstring_shape:
  assumes "length b = 2 * n"
  shows "\<exists>s. Randstring n b = Inr s \<and> length s = n \<and> set s \<subseteq> set base64_alphabet"
  using EncodeToString_prefix [of n b] assms by (auto simp: Randstring_def Let_def)

subsection \<open>The check at the end of a test\<close>

text \<open>A client that talks to the server directly, and a sequence of its operations through the logging methods of the test.\<close>

definition direct_clerk :: "KVServer IKVClerk" where
  "direct_clerk = \<lparr>ck_Get = (\<lambda>k s. (Get s \<lparr>ga_Key = k\<rparr>, s)),
     ck_Put = (\<lambda>k v n s. let a = \<lparr>pa_Key = k, pa_Value = v, pa_Version = n\<rparr> in (Put_err s a, Put_state s a))\<rparr>"

fun run_ops :: "'w IKVClerk \<Rightarrow> kv_op list \<Rightarrow> 'w Test \<Rightarrow> 'w Test" where
  "run_ops ck [] ts = ts"
| "run_ops ck (GetOp k # acts) ts = run_ops ck acts (snd (ts_Get ck k ts))"
| "run_ops ck (PutOp a # acts) ts = run_ops ck acts (snd (ts_Put ck (pa_Key a) (pa_Value a) (pa_Version a) ts))"

lemma run_ops_log:
  "oplog ts = Some log \<Longrightarrow>
    oplog (run_ops direct_clerk acts ts) = Some (log @ history (world ts) acts) \<and> glob (run_ops direct_clerk acts ts) = glob ts"
proof (induction acts arbitrary: ts log)
  case (Cons x acts)
  show ?case
  proof (cases x)
    case (GetOp k)
    then show ?thesis
      using Cons.IH [of "snd (ts_Get direct_clerk k ts)" "log @ [log_Get k (Get (world ts) \<lparr>ga_Key = k\<rparr>)]"] Cons.prems
      by (simp add: ts_Get_def direct_clerk_def OpLog_Append_def)
  next
    case (PutOp a)
    have a: "\<lparr>pa_Key = pa_Key a, pa_Value = pa_Value a, pa_Version = pa_Version a\<rparr> = a" by simp
    show ?thesis
      using Cons.IH [of "snd (ts_Put direct_clerk (pa_Key a) (pa_Value a) (pa_Version a) ts)" "log @ [log_Put a (Put_err (world ts) a)]"]
        Cons.prems PutOp by (simp add: ts_Put_def direct_clerk_def OpLog_Append_def a Let_def)
  qed
qed simp


text \<open>Witness, with the model itself as the checker.\<close>

definition model_check :: "Operation list \<Rightarrow> CheckResult" where
  "model_check h = (if list_all (accepts Init) (Kv_Model.Partition h) then Legal else Illegal)"


text \<open>
  With \<open>VIS_ENABLE=always\<close> a passing history is not drawn here unless the annotations were finalized before; the cleanup
  of the test then writes a file that has no operations in it.
\<close>
lemma passing_history_not_drawn:
  assumes "chk log \<noteq> Illegal" and "\<not> finalized (annotation g)"
  shows "checkPorcupine chk ''always'' True True t t' log g = (True, g, [])"
    and "snd (finalize t (annotation g)) \<noteq> [] \<Longrightarrow> snd (annotation_cleanup ''always'' True t False ''test passed'' (annotation g)) \<noteq> None"
  using assms by (auto simp: checkPorcupine_def OpLog_Read_def GetAnnotationFinalized_def annotation_cleanup_def Let_def split: prod.splits)

end
