(* ===== verification/Raft_Heartbeat.thy ===== *)
theory Raft_Heartbeat
  imports Raft_Peer
begin

text \<open>
  The heartbeats of a Raft leader over time: \<open>sendHeartbeats\<close> and the two functions that send an RPC (\<open>raft1/raft.go\<close>), and a
  follower that receives them between the turns of its \<open>ticker\<close>. The RPC itself is a parameter. Times are in milliseconds.
\<close>

subsection \<open>The senders\<close>

text \<open>\<open>rpc\<close>: what a call to a peer returns, the reply being written only when it is answered.\<close>

definition sendRequestVote :: "(nat \<Rightarrow> RequestVoteArgs \<Rightarrow> RequestVoteReply option) \<Rightarrow> Raft \<Rightarrow> nat \<Rightarrow> RequestVoteArgs \<Rightarrow> RequestVoteReply \<Rightarrow>
    (bool \<times> RequestVoteReply) go" where
  "sendRequestVote rpc rf server arg rep =
     (if server < peers rf then Inr (case rpc server arg of None \<Rightarrow> (False, rep) | Some r \<Rightarrow> (True, r)) else Inl IndexOutOfRange)"

definition sendAppendEntries :: "(nat \<Rightarrow> AppendEntriesArgs \<Rightarrow> AppendEntriesReply option) \<Rightarrow> Raft \<Rightarrow> nat \<Rightarrow> AppendEntriesArgs \<Rightarrow> AppendEntriesReply \<Rightarrow>
    (bool \<times> AppendEntriesReply) go" where
  "sendAppendEntries rpc rf server arg rep =
     (if server < peers rf then Inr (case rpc server arg of None \<Rightarrow> (False, rep) | Some r \<Rightarrow> (True, r)) else Inl IndexOutOfRange)"

text \<open>
  The loop of \<open>sendHeartbeats\<close>: for each round the state of the peer when it sends, and whether the \<open>select\<close> after it finds the
  context cancelled. The value is the messages of each round.
\<close>

fun sendHeartbeats :: "(Raft \<times> bool) list \<Rightarrow> (nat \<times> AppendEntriesArgs) list list" where
  "sendHeartbeats [] = []"
| "sendHeartbeats ((rf, cancelled) # rounds) =
     broadcastHeartbeat rf # (if cancelled then [] else sendHeartbeats rounds)"

lemma sendHeartbeats_reach:
  assumes "list_all (\<lambda>(rf, cancelled). Role rf = Leader \<and> me rf = l \<and> peers rf = n \<and> \<not> cancelled) rounds" and "i < n" and "i \<noteq> l"
  shows "length (sendHeartbeats rounds) = length rounds \<and>
    list_all (\<lambda>ms. \<exists>a. (i, a) \<in> set ms \<and> LeaderID a = l \<and> Entries a = []) (sendHeartbeats rounds)"
  using assms
proof (induction rounds rule: sendHeartbeats.induct)
  case (2 rf cancelled rounds)
  then show ?case by (auto simp: broadcastHeartbeat_def)
qed simp

subsection \<open>A follower in time\<close>

text \<open>
  What happens to a peer: an \<open>AppendEntries\<close>, a \<open>RequestVote\<close>, or a turn of the ticker, which starts an election or does not. The
  second component counts the elections started.
\<close>

datatype fevent = FAppend AppendEntriesArgs | FVote RequestVoteArgs | FTick

definition follower_step :: "int \<Rightarrow> fevent \<Rightarrow> Raft \<times> nat \<Rightarrow> Raft \<times> nat" where
  "follower_step tm e st =
     (case st of (rf, n) \<Rightarrow>
       (case e of
          FAppend a \<Rightarrow> (fst (AppendEntries rf a tm), n)
        | FVote a \<Rightarrow> (fst (RequestVote rf a), n)
        | FTick \<Rightarrow> if ticker_iter rf tm = Some True then (fst (Elect_begin rf), n + 1) else (rf, n)))"

fun follower_run :: "(int \<times> fevent) list \<Rightarrow> Raft \<times> nat \<Rightarrow> Raft \<times> nat" where
  "follower_run [] st = st"
| "follower_run ((tm, e) # es) st = follower_run es (follower_step tm e st)"

definition is_beat :: "nat \<Rightarrow> fevent \<Rightarrow> bool" where
  "is_beat l e \<longleftrightarrow> (\<exists>a. e = FAppend a \<and> Entries a = [] \<and> LeaderID a = l)"

text \<open>Every turn of the ticker comes at most \<open>HeartbeatTimeout\<close> after a heartbeat of the leader \<open>l\<close>, the first one at \<open>b\<close>.\<close>

fun timely :: "nat \<Rightarrow> int \<Rightarrow> (int \<times> fevent) list \<Rightarrow> bool" where
  "timely l b [] = True"
| "timely l b ((tm, e) # es) =
     ((e = FTick \<longrightarrow> tm - b \<le> HeartbeatTimeout) \<and> timely l (if is_beat l e then tm else b) es)"

lemma append_follower:
  assumes "Role rf = Follower"
  shows "fst (AppendEntries rf a tm) = (if Entries a = [] \<and> LeaderID a = currentLeader rf then rf\<lparr>lastHeartbeat := tm\<rparr> else rf)"
  using assms by (auto simp: AppendEntries_def Let_def)

lemma vote_keeps:
  "Role (fst (RequestVote rf a)) = Role rf" "currentLeader (fst (RequestVote rf a)) = currentLeader rf"
  "lastHeartbeat (fst (RequestVote rf a)) = lastHeartbeat rf" "raft_term (fst (RequestVote rf a)) = raft_term rf"
  by (simp_all add: RequestVote_def RequestVote_grant_def Let_def split: option.split)


definition demo_follower :: Raft where
  "demo_follower = (Make 3 1 MakePersister)\<lparr>Role := Follower, raft_term := 4, currentLeader := 2, lastHeartbeat := 1000\<rparr>"


text \<open>Without heartbeats the ticker does start an election, in the next term.\<close>

lemma silent_leader_challenged:
  assumes "Role rf = Follower" and "\<not> killed rf" and "tm - lastHeartbeat rf > HeartbeatTimeout"
  shows "\<exists>rf'. follower_run [(tm, FTick)] (rf, n) = (rf', n + 1) \<and> Role rf' = Candidate \<and> raft_term rf' = raft_term rf + 1"
  using assms by (simp add: follower_step_def ticker_iter_def HeartbeatExpire_def Elect_begin_def Let_def)

end
