(* ===== verification/Raft_Agree.thy ===== *)
theory Raft_Agree
  imports Raft_Checks
begin

text \<open>
  \<open>one\<close> and \<open>wait\<close> of the Raft tests (\<open>raft1/test.go\<close>), which poll the servers against the clock. What they read is an
  argument: a list of the rounds that begin before the time is up, each with what it finds. \<open>one\<close> submits through
  the interface \<open>raftapi.Raft\<close>, so that \<open>Start\<close> is an argument; the \<open>Start\<close> of the repository is \<^term>\<open>Start\<close>. The
  commands print as ASCII, of which \<open>%.8s\<close> keeps the first eight characters.
\<close>

subsection \<open>one\<close>

text \<open>A round: per server whether it is connected and the entry of \<open>ts.srvs\<close>, and the states read while it waits.\<close>

record 'v one_round =
  rd_servers :: "(bool \<times> 'v rfsrv option) list"
  rd_polls :: "'v rftest list"

fun try_starts :: "(Raft \<Rightarrow> 'v option \<Rightarrow> int \<times> int \<times> bool) \<Rightarrow> 'v option \<Rightarrow> (bool \<times> 'v rfsrv option) list \<Rightarrow> nat \<Rightarrow> nat \<Rightarrow> (nat \<times> int) go" where
  "try_starts start cmd ss 0 starts = Inr (starts, -1)"
| "try_starts start cmd ss (Suc k) starts =
     (let starts = (starts + 1) mod length ss in
      bind_go (nth_go ss starts) (\<lambda>(conn, srv).
        bind_go (if conn then case srv of None \<Rightarrow> Inl NilDeref | Some rs \<Rightarrow> Inr (rs_raft rs) else Inr None) (\<lambda>rf.
          case rf of
            None \<Rightarrow> try_starts start cmd ss k starts
          | Some rf \<Rightarrow> (case start rf cmd of (index1, _, ok) \<Rightarrow>
              if ok then Inr (starts, index1) else try_starts start cmd ss k starts))))"

fun poll_commits :: "int \<Rightarrow> ('v option \<Rightarrow> string) \<Rightarrow> 'v option \<Rightarrow> int \<Rightarrow> int \<Rightarrow> 'v rftest list \<Rightarrow> globals \<Rightarrow> bool checked" where
  "poll_commits tm sh cmd expectedServers index [] g = Inr (g, Inr False)"
| "poll_commits tm sh cmd expectedServers index (ts # polls) g =
     bind_go (nCommitted tm sh index ts g) (\<lambda>(g, res).
       case res of
         Inl e \<Rightarrow> Inr (g, Inl e)
       | Inr (nd, cmd1) \<Rightarrow>
           if nd > 0 \<and> int nd \<ge> expectedServers \<and> cmd1 = cmd then
             check_success tm (''agreement of '' @ take 8 (sh cmd) @ '' reached'') ''OK'' True g
           else poll_commits tm sh cmd expectedServers index polls g)"

fun one_rounds :: "int \<Rightarrow> (Raft \<Rightarrow> 'v option \<Rightarrow> int \<times> int \<times> bool) \<Rightarrow> ('v option \<Rightarrow> string) \<Rightarrow> 'v option \<Rightarrow> int \<Rightarrow> bool \<Rightarrow> bool \<Rightarrow>
    nat \<Rightarrow> 'v one_round list \<Rightarrow> globals \<Rightarrow> int checked" where
  "one_rounds tm start sh cmd expectedServers retry finished starts [] g =
     (if \<not> finished then
        check_fatal tm (''agreement of '' @ take 8 (sh cmd) @ '' failed'') ''failed after 10-second timeout'' NoAgreement g
      else Inr (g, Inr (-1)))"
| "one_rounds tm start sh cmd expectedServers retry finished starts (rd # rounds) g =
     bind_go (try_starts start cmd (rd_servers rd) (length (rd_servers rd)) starts) (\<lambda>(starts, index).
       if index \<noteq> -1 then
         bind_go (poll_commits tm sh cmd expectedServers index (rd_polls rd) g) (\<lambda>(g, res).
           case res of
             Inl e \<Rightarrow> Inr (g, Inl e)
           | Inr True \<Rightarrow> Inr (g, Inr index)
           | Inr False \<Rightarrow>
               if \<not> retry then
                 check_fatal tm (''agreement of '' @ take 8 (sh cmd) @ '' failed'') ''failed after submitting command'' NoAgreement g
               else one_rounds tm start sh cmd expectedServers retry finished starts rounds g)
       else one_rounds tm start sh cmd expectedServers retry finished starts rounds g)"

text \<open>\<open>finished\<close>: what \<open>checkFinished\<close> answers after the loop.\<close>

definition one :: "int \<Rightarrow> (Raft \<Rightarrow> 'v option \<Rightarrow> int \<times> int \<times> bool) \<Rightarrow> ('v option \<Rightarrow> string) \<Rightarrow> 'v option \<Rightarrow> int \<Rightarrow> bool \<Rightarrow> bool \<Rightarrow>
    'v one_round list \<Rightarrow> globals \<Rightarrow> int checked" where
  "one tm start sh cmd expectedServers retry finished rounds g =
     bind_go (AnnotateCheckerBegin tm (''checking agreement of '' @ take 8 (sh cmd) @ '' by at least '' @ itoa expectedServers
         @ '' servers '' @ (if retry then ''with'' else ''without'') @ '' retry'') g)
       (one_rounds tm start sh cmd expectedServers retry finished 0 rounds)"

definition checkFinished :: "32 word \<Rightarrow> bool" where
  "checkFinished finished = (let z = finished in z \<noteq> 0)"

subsection \<open>wait\<close>

datatype 'v wait_end = Moved | Committed "'v option"

fun term_moved :: "int \<Rightarrow> 'v rfsrv option list \<Rightarrow> bool go" where
  "term_moved startTerm [] = Inr False"
| "term_moved startTerm (rso # rss) =
     (case rso of
        None \<Rightarrow> Inl NilDeref
      | Some rs \<Rightarrow> bind_go (rs_GetState rs) (\<lambda>(t, _). if t > startTerm then Inr True else term_moved startTerm rss))"

text \<open>
  An iteration reads a state for \<open>nCommitted\<close>, sleeps \<open>tmo\<close> milliseconds, and reads the servers again for their
  terms. The total time slept is part of the result.
\<close>

fun wait_loop :: "int \<Rightarrow> ('v option \<Rightarrow> string) \<Rightarrow> int \<Rightarrow> int \<Rightarrow> int \<Rightarrow> ('v rftest \<times> 'v rfsrv option list) list \<Rightarrow> int \<Rightarrow> int \<Rightarrow> globals \<Rightarrow>
    (globals \<times> int \<times> (check_end + bool)) go" where
  "wait_loop tm sh index n startTerm [] tmo slept g = Inr (g, slept, Inr False)"
| "wait_loop tm sh index n startTerm ((ts, ss) # rounds) tmo slept g =
     bind_go (nCommitted tm sh index ts g) (\<lambda>(g, res).
       case res of
         Inl e \<Rightarrow> Inr (g, slept, Inl e)
       | Inr (nd, _) \<Rightarrow>
           if int nd \<ge> n then Inr (g, slept, Inr False)
           else
             let slept = slept + tmo; tmo = (if tmo < 1000 then tmo * 2 else tmo) in
             bind_go (if startTerm > -1 then term_moved startTerm ss else Inr False) (\<lambda>moved.
               if moved then Inr (g, slept, Inr True)
               else wait_loop tm sh index n startTerm rounds tmo slept g))"

definition wait :: "int \<Rightarrow> ('v option \<Rightarrow> string) \<Rightarrow> int \<Rightarrow> int \<Rightarrow> int \<Rightarrow> ('v rftest \<times> 'v rfsrv option list) list \<Rightarrow> 'v rftest \<Rightarrow> globals \<Rightarrow>
    (globals \<times> int \<times> (check_end + 'v wait_end)) go" where
  "wait tm sh index n startTerm rounds final g =
     bind_go (wait_loop tm sh index n startTerm (take 30 rounds) 10 0 g) (\<lambda>(g, slept, res).
       case res of
         Inl e \<Rightarrow> Inr (g, slept, Inl e)
       | Inr True \<Rightarrow> Inr (g, slept, Inr Moved)
       | Inr False \<Rightarrow>
           bind_go (nCommitted tm sh index final g) (\<lambda>(g, res).
             case res of
               Inl e \<Rightarrow> Inr (g, slept, Inl e)
             | Inr (nd, cmd) \<Rightarrow>
                 if int nd < n then
                   bind_go (check_fatal tm (''less than '' @ itoa n @ '' servers commit index '' @ itoa index)
                       (''only '' @ itoa (int nd) @ '' (< '' @ itoa n @ '') servers commit index '' @ itoa index @ '' at term '' @ itoa startTerm)
                       (TooFew nd) g)
                     (\<lambda>(g, r). Inr (g, slept, r))
                 else Inr (g, slept, Inr (Committed cmd))))"

subsection \<open>Agreement as the polls see it\<close>

definition calm :: "'v rftest \<Rightarrow> bool" where
  "calm ts \<longleftrightarrow> all_up ts \<and> logs_agree ts \<and> (\<forall>rs. Some rs \<in> set (rsrvs ts) \<longrightarrow> applyErr rs = '''')"

definition holders :: "int \<Rightarrow> 'v rftest \<Rightarrow> nat" where
  "holders index ts = length (filter (holds_index index) (rsrvs ts))"

definition agreed :: "'v option \<Rightarrow> int \<Rightarrow> int \<Rightarrow> 'v rftest \<Rightarrow> bool" where
  "agreed cmd expectedServers index ts \<longleftrightarrow> expectedServers \<le> int (holders index ts) \<and> (\<exists>i. log_at ts i index = Some cmd)"

lemma holders_pos: "0 < holders index ts \<longleftrightarrow> (\<exists>i v. log_at ts i index = Some v)"
proof
  assume "0 < holders index ts"
  then obtain rso where "rso \<in> set (rsrvs ts)" "holds_index index rso" by (auto simp: holders_def filter_empty_conv)
  then obtain i rs v where "i < length (rsrvs ts)" "rsrvs ts ! i = Some rs" "logs rs index = Some v"
    by (auto simp: holds_index_def in_set_conv_nth split: option.splits)
  then show "\<exists>i v. log_at ts i index = Some v" by (auto simp: log_at_def intro!: exI [of _ i])
next
  assume "\<exists>i v. log_at ts i index = Some v"
  then obtain i rs where "i < length (rsrvs ts)" "rsrvs ts ! i = Some rs" "logs rs index \<noteq> None"
    by (auto simp: log_at_def split: if_splits option.splits)
  then have "Some rs \<in> set (rsrvs ts)" "holds_index index (Some rs)" by (auto simp: holds_index_def in_set_conv_nth intro!: exI [of _ i])
  then show "0 < holders index ts" by (auto simp: holders_def filter_empty_conv)
qed

lemma nCommitted_calm:
  assumes "calm ts"
  obtains c where "nCommitted tm sh index ts g = Inr (g, Inr (holders index ts, c))"
    and "\<And>i v. log_at ts i index = Some v \<Longrightarrow> c = v"
  using nCommitted_agrees [of ts tm sh index g] assms unfolding calm_def holders_def by blast

lemma check_success_keeps:
  "finfo g \<noteq> None \<Longrightarrow> \<exists>g'. finfo g' \<noteq> None \<and> check_success tm desp details v g = Inr (g', Inr v)"
  by (auto simp: check_success_def AnnotateCheckerSuccess_def AnnotateCheckerEnd_def AnnotatePointColor_def AnnotateIntervalColor_def on_log_def
      with_finfo_def Let_def split: option.splits)

lemma poll_commits_calm:
  assumes "\<forall>ts\<in>set polls. calm ts" and "finfo g \<noteq> None"
  shows "\<exists>g'. finfo g' \<noteq> None \<and>
    poll_commits tm sh cmd expectedServers index polls g = Inr (g', Inr (\<exists>ts\<in>set polls. agreed cmd expectedServers index ts))"
  using assms
proof (induction polls)
  case (Cons ts polls)
  obtain c where c: "nCommitted tm sh index ts g = Inr (g, Inr (holders index ts, c))" "\<And>i v. log_at ts i index = Some v \<Longrightarrow> c = v"
    using nCommitted_calm Cons.prems(1) by (metis list.set_intros(1))
  have iff: "0 < holders index ts \<and> expectedServers \<le> int (holders index ts) \<and> c = cmd \<longleftrightarrow> agreed cmd expectedServers index ts"
    using c(2) holders_pos [of index ts] unfolding agreed_def by metis
  show ?case
  proof (cases "agreed cmd expectedServers index ts")
    case True
    then show ?thesis using c(1) iff check_success_keeps [OF Cons.prems(2)] by auto
  next
    case False
    then have "\<not> (0 < holders index ts \<and> expectedServers \<le> int (holders index ts) \<and> c = cmd)" using iff by simp
    then show ?thesis using c(1) False Cons by auto
  qed
qed auto

text \<open>
  What the command is submitted to: the rounds in which some server takes it, with the index it gives and the states
  read while waiting for it.
\<close>

fun submissions :: "(Raft \<Rightarrow> 'v option \<Rightarrow> int \<times> int \<times> bool) \<Rightarrow> 'v option \<Rightarrow> nat \<Rightarrow> 'v one_round list \<Rightarrow> (int \<times> 'v rftest list) list" where
  "submissions start cmd starts [] = []"
| "submissions start cmd starts (rd # rounds) =
     (case try_starts start cmd (rd_servers rd) (length (rd_servers rd)) starts of
        Inl e \<Rightarrow> []
      | Inr (starts, index) \<Rightarrow> (if index \<noteq> -1 then [(index, rd_polls rd)] else []) @ submissions start cmd starts rounds)"

definition one_outcome :: "'v option \<Rightarrow> int \<Rightarrow> bool \<Rightarrow> bool \<Rightarrow> (int \<times> 'v rftest list) list \<Rightarrow> check_end + int" where
  "one_outcome cmd expectedServers retry finished subs =
     (case List.find (\<lambda>(index, polls). \<exists>ts\<in>set polls. agreed cmd expectedServers index ts) (if retry then subs else take 1 subs) of
        Some (index, _) \<Rightarrow> Inr index
      | None \<Rightarrow> if (\<not> retry \<and> subs \<noteq> []) \<or> \<not> finished then Inl NoAgreement else Inr (-1))"

definition round_ok :: "'v one_round \<Rightarrow> bool" where
  "round_ok rd \<longleftrightarrow> (\<forall>(conn, srv)\<in>set (rd_servers rd). conn \<longrightarrow> srv \<noteq> None) \<and> (\<forall>ts\<in>set (rd_polls rd). calm ts)"

lemma try_starts_total:
  assumes "\<forall>(conn, srv)\<in>set ss. conn \<longrightarrow> srv \<noteq> None" and "k \<le> length ss"
  shows "\<exists>r. try_starts start cmd ss k starts = Inr r"
  using assms(2)
proof (induction k arbitrary: starts)
  case (Suc k)
  let ?i = "(starts + 1) mod length ss"
  obtain conn srv where s: "ss ! ?i = (conn, srv)" by fastforce
  have i: "?i < length ss" by (rule mod_less_divisor) (use Suc.prems in linarith)
  then have "(conn, srv) \<in> set ss" using s by (metis nth_mem)
  then have "conn \<longrightarrow> srv \<noteq> None" using assms(1) by auto
  then show ?case using Suc s i by (auto simp: nth_go_def Let_def split: option.splits prod.splits)
qed simp

lemma one_outcome_skip:
  assumes "\<forall>ts\<in>set polls. \<not> agreed cmd expectedServers index ts"
  shows "one_outcome cmd expectedServers retry finished ((index, polls) # subs) =
    (if retry then one_outcome cmd expectedServers retry finished subs else Inl NoAgreement)"
  using assms by (auto simp: one_outcome_def)

lemma one_rounds_outcome:
  assumes "\<forall>rd\<in>set rounds. round_ok rd" and "finfo g \<noteq> None"
  shows "\<exists>g'. one_rounds tm start sh cmd expectedServers retry finished starts rounds g =
    Inr (g', one_outcome cmd expectedServers retry finished (submissions start cmd starts rounds))"
  using assms
proof (induction rounds arbitrary: starts g)
  case Nil
  then show ?case using check_ends(1) [OF Nil.prems(2)] by (auto simp: one_outcome_def)
next
  case (Cons rd rounds)
  have ok: "round_ok rd" "\<forall>rd\<in>set rounds. round_ok rd" using Cons.prems(1) by simp_all
  obtain starts' index where t: "try_starts start cmd (rd_servers rd) (length (rd_servers rd)) starts = Inr (starts', index)"
    using try_starts_total [OF _ order_refl, of "rd_servers rd" start cmd starts] ok(1) unfolding round_ok_def
    by (metis surj_pair)
  show ?case
  proof (cases "index = -1")
    case True
    then show ?thesis using t Cons.IH [OF ok(2) Cons.prems(2)] by simp
  next
    case False
    have polls: "\<forall>ts\<in>set (rd_polls rd). calm ts" using ok(1) unfolding round_ok_def by blast
    obtain g1 where g1: "finfo g1 \<noteq> None" "poll_commits tm sh cmd expectedServers index (rd_polls rd) g =
        Inr (g1, Inr (\<exists>ts\<in>set (rd_polls rd). agreed cmd expectedServers index ts))"
      using poll_commits_calm [OF polls Cons.prems(2), of tm sh cmd expectedServers index] by blast
    show ?thesis
    proof (cases "\<exists>ts\<in>set (rd_polls rd). agreed cmd expectedServers index ts")
      case True
      then show ?thesis using t False g1 by (simp add: one_outcome_def)
    next
      case no: False
      then show ?thesis using t False g1 Cons.IH [OF ok(2) g1(1), of starts'] check_ends(1) [OF g1(1)]
        by (cases retry) (simp_all add: one_outcome_skip)
    qed
  qed
qed

lemma one_outcome_of:
  assumes "\<forall>rd\<in>set rounds. round_ok rd" and "finfo g \<noteq> None"
  shows "\<exists>g'. one tm start sh cmd expectedServers retry finished rounds g =
    Inr (g', one_outcome cmd expectedServers retry finished (submissions start cmd 0 rounds))"
proof -
  obtain g1 where "AnnotateCheckerBegin tm (''checking agreement of '' @ take 8 (sh cmd) @ '' by at least '' @ itoa expectedServers
         @ '' servers '' @ (if retry then ''with'' else ''without'') @ '' retry'') g = Inr g1" "finfo g1 \<noteq> None"
    using assms(2) by (auto simp: AnnotateCheckerBegin_def with_finfo_def)
  then show ?thesis using one_rounds_outcome [OF assms(1)] by (simp add: one_def)
qed

text \<open>The states that the appliers reach from a test just made are calm.\<close>

definition fresh_test :: "'v rftest \<Rightarrow> bool" where
  "fresh_test ts \<longleftrightarrow> (\<forall>rso\<in>set (rsrvs ts). \<exists>rs. rso = Some rs \<and> logs rs = Map.empty \<and> applyErr rs = '''')"

definition no_errors :: "'v rftest \<Rightarrow> bool" where
  "no_errors ts \<longleftrightarrow> (\<forall>rs. Some rs \<in> set (rsrvs ts) \<longrightarrow> applyErr rs = '''')"

lemma after_apply_no_errors:
  assumes "no_errors ts" and "all_up ts" and "i < length (rsrvs ts)"
  shows "no_errors (after_apply i m ts)"
proof -
  obtain rs where rs: "rsrvs ts ! i = Some rs" using all_up_nth [OF assms(2,3)] by blast
  then have "Some rs \<in> set (rsrvs ts)" using assms(3) by (metis nth_mem)
  then show ?thesis using assms(1) rs
    by (auto simp: no_errors_def after_apply_def dest!: set_update_subset_insert [THEN subsetD])
qed

lemma apply_step_no_errors: "apply_step env gl ts ts' \<Longrightarrow> apply_inv ts \<Longrightarrow> no_errors ts \<Longrightarrow> no_errors ts'"
proof (induction rule: apply_step.induct)
  case (message i ts m ts')
  then show ?case using applier_iff [of ts i m env gl ts'] after_apply_no_errors [of ts i m]
    by (cases "CommandValid m") (auto simp: apply_inv_def applier_def)
next
  case (restart n i ps s ts)
  then have "applyErr s = ''''" by (auto simp: newRfsrv_def Let_def)
  then show ?case using restart.prems by (auto simp: no_errors_def dest!: set_update_subset_insert [THEN subsetD])
qed

lemma reached_calm:
  assumes "fresh_test ts0" and "(apply_step env gl)\<^sup>*\<^sup>* ts0 ts"
  shows "calm ts"
proof -
  have start: "apply_inv ts0" using assms(1) by (intro apply_start) (auto simp: fresh_test_def)
  have "apply_inv ts \<and> no_errors ts"
    using assms(2)
  proof (induction rule: rtranclp_induct)
    case base
    then show ?case using start assms(1) by (force simp: no_errors_def fresh_test_def)
  qed (auto intro: apply_step_inv apply_step_no_errors)
  then show ?thesis by (auto simp: calm_def apply_inv_def no_errors_def)
qed


text \<open>With the \<open>Start\<close> of the repository, which gives the index \<open>-1\<close>, \<open>one\<close> never finds an agreement.\<close>

lemma submissions_Start: "submissions Start cmd starts rounds = []"
proof (induction rounds arbitrary: starts)
  case (Cons rd rounds)
  have "try_starts Start cmd ss k s = Inr (s', i) \<Longrightarrow> i = -1" for ss k s s' i
    by (induction k arbitrary: s) (auto simp: Start_def Let_def split: option.splits prod.splits if_splits)
  then show ?case using Cons by (auto split: sum.splits)
qed simp

lemma one_fails_without_replication:
  assumes "\<forall>rd\<in>set rounds. round_ok rd" and "finfo g \<noteq> None"
  shows "\<exists>g'. one tm Start sh cmd expectedServers retry finished rounds g = Inr (g', if finished then Inr (-1) else Inl NoAgreement)"
  using one_outcome_of [OF assms, of tm Start sh cmd expectedServers retry finished] by (cases retry; cases finished) (simp_all add: submissions_Start one_outcome_def)

subsection \<open>How long wait sleeps and what it returns\<close>

text \<open>The pause doubles until it is a second or more: the total over \<open>k\<close> iterations that begin with the pause \<open>d\<close>.\<close>

fun backoff :: "nat \<Rightarrow> int \<Rightarrow> int" where
  "backoff 0 d = 0"
| "backoff (Suc k) d = d + backoff k (if d < 1000 then d * 2 else d)"

lemma backoff_nonneg: "0 \<le> d \<Longrightarrow> 0 \<le> backoff k d"
  by (induction k d rule: backoff.induct) auto

lemma backoff_mono: "0 \<le> d \<Longrightarrow> k \<le> l \<Longrightarrow> backoff k d \<le> backoff l d"
proof (induction k d arbitrary: l rule: backoff.induct)
  case (1 d)
  then show ?case by (simp add: backoff_nonneg)
next
  case (2 k d)
  then show ?case by (cases l) auto
qed

lemma backoff_30: "backoff 30 10 = 30710"
  by (simp add: eval_nat_numeral)

definition srvs_running :: "'v rfsrv option list \<Rightarrow> bool" where
  "srvs_running ss \<longleftrightarrow> (\<forall>rso\<in>set ss. \<exists>rs rf. rso = Some rs \<and> rs_raft rs = Some rf)"

definition beyond :: "int \<Rightarrow> 'v rfsrv option list \<Rightarrow> bool" where
  "beyond startTerm ss \<longleftrightarrow> (\<exists>rs rf. Some rs \<in> set ss \<and> rs_raft rs = Some rf \<and> startTerm < fst (GetState rf))"

lemma term_moved_running: "srvs_running ss \<Longrightarrow> term_moved startTerm ss = Inr (beyond startTerm ss)"
proof (induction ss)
  case (Cons rso ss)
  then obtain rs rf where "rso = Some rs" "rs_raft rs = Some rf" "srvs_running ss" by (auto simp: srvs_running_def)
  then show ?case using Cons.IH by (cases "GetState rf") (auto simp: rs_GetState_def beyond_def)
qed (simp add: beyond_def)

lemma wait_loop_calm:
  assumes "\<forall>(ts, ss)\<in>set rounds. calm ts \<and> srvs_running ss" and "0 \<le> tmo"
  shows "\<exists>slept' b. wait_loop tm sh index n startTerm rounds tmo slept g = Inr (g, slept', Inr b) \<and>
    slept \<le> slept' \<and> slept' \<le> slept + backoff (length rounds) tmo \<and>
    (b \<longrightarrow> -1 < startTerm \<and> (\<exists>(ts, ss)\<in>set rounds. beyond startTerm ss))"
  using assms
proof (induction rounds arbitrary: tmo slept)
  case (Cons r rounds)
  obtain ts ss where r: "r = (ts, ss)" by (cases r)
  have ok: "calm ts" "srvs_running ss" "\<forall>(ts, ss)\<in>set rounds. calm ts \<and> srvs_running ss" using Cons.prems(1) r by auto
  obtain c where c: "nCommitted tm sh index ts g = Inr (g, Inr (holders index ts, c))" using nCommitted_calm [OF ok(1)] by metis
  let ?tmo = "if tmo < 1000 then tmo * 2 else tmo"
  have tmo: "0 \<le> ?tmo" using Cons.prems(2) by simp
  note nonneg = backoff_nonneg [OF tmo, of "length rounds"]
  show ?case
  proof (cases "n \<le> int (holders index ts)")
    case True
    then show ?thesis using c r nonneg Cons.prems(2) by (intro exI [of _ slept] exI [of _ False]) simp
  next
    case False
    show ?thesis
    proof (cases "-1 < startTerm \<and> beyond startTerm ss")
      case True
      then show ?thesis using c r False nonneg Cons.prems(2) term_moved_running [OF ok(2)]
        by (intro exI [of _ "slept + tmo"] exI [of _ True]) simp
    next
      case stay: False
      then have "wait_loop tm sh index n startTerm (r # rounds) tmo slept g = wait_loop tm sh index n startTerm rounds ?tmo (slept + tmo) g"
        using c r False term_moved_running [OF ok(2)] by (simp add: Let_def)
      then show ?thesis using Cons.IH [OF ok(3) tmo, of "slept + tmo"] Cons.prems(2) by fastforce
    qed
  qed
qed (auto intro: exI [of _ False])

text \<open>
  \<open>wait\<close>, while the logs agree and every server runs: it returns after at most 30.71 seconds of sleep. It answers \<open>-1\<close>
  only if a term beyond \<open>startTerm\<close> was seen, fails the test only if fewer than \<open>n\<close> servers hold the index at the end,
  and otherwise returns the command they hold.
\<close>
theorem wait_is_bounded:
  fixes final :: "'v rftest"
  assumes "\<forall>(ts, ss)\<in>set rounds. calm ts \<and> srvs_running ss" and "calm final" and "finfo g \<noteq> None"
  shows "\<exists>g' slept r. wait tm sh index n startTerm rounds final g = Inr (g', slept, r) \<and> 0 \<le> slept \<and> slept \<le> 30710 \<and>
    (case r of
       Inr Moved \<Rightarrow> -1 < startTerm \<and> (\<exists>(ts, ss)\<in>set rounds. beyond startTerm ss)
     | Inr (Committed cmd) \<Rightarrow> n \<le> int (holders index final) \<and> (\<forall>i v. log_at final i index = Some v \<longrightarrow> cmd = v)
     | Inl e \<Rightarrow> e = TooFew (holders index final) \<and> int (holders index final) < n)"
proof -
  have ok: "\<forall>(ts, ss)\<in>set (take 30 rounds). calm ts \<and> srvs_running ss" using assms(1) by (auto dest: in_set_takeD)
  obtain slept b where w: "wait_loop tm sh index n startTerm (take 30 rounds) 10 0 g = Inr (g, slept, Inr b)"
      "0 \<le> slept" "slept \<le> backoff (length (take 30 rounds)) 10"
      "b \<longrightarrow> -1 < startTerm \<and> (\<exists>(ts, ss)\<in>set (take 30 rounds). beyond startTerm ss)"
    using wait_loop_calm [OF ok, of 10 tm sh index n startTerm 0 g] by auto
  have bound: "slept \<le> 30710" using w(3) backoff_mono [of 10 "length (take 30 rounds)" 30] backoff_30 by simp
  obtain c where c: "nCommitted tm sh index final g = Inr (g, Inr (holders index final, c))" "\<And>i v. log_at final i index = Some v \<Longrightarrow> c = v"
    using nCommitted_calm [OF assms(2)] by metis
  show ?thesis
  proof (cases b)
    case True
    then show ?thesis using w bound by (auto simp: wait_def dest!: in_set_takeD)
  next
    case False
    let ?fatal = "\<lambda>d t. check_fatal tm d t (TooFew (holders index final)) g :: 'v wait_end checked"
    have "\<forall>d t. \<exists>g'. ?fatal d t = Inr (g', Inl (TooFew (holders index final)))" by (intro allI check_ends(1) assms(3))
    then obtain F where "\<And>d t. ?fatal d t = Inr (F d t, Inl (TooFew (holders index final)))" by metis
    then show ?thesis using False w(1,2) bound c by (simp add: wait_def)
  qed
qed

subsection \<open>Witnesses\<close>

text \<open>A leader that takes the command at index 1, and two states: before and after the entry is applied.\<close>

definition demo_start :: "Raft \<Rightarrow> nat option \<Rightarrow> int \<times> int \<times> bool" where
  "demo_start rf cmd = (1, 1, True)"

definition demo_rounds :: "nat one_round list" where
  "demo_rounds =
     [\<lparr>rd_servers = [(False, None)], rd_polls = []\<rparr>,
      \<lparr>rd_servers = [(True, Some (demo_srv 0 Map.empty))],
       rd_polls = [demo_rftest 0 Map.empty, after_apply 0 (demo_cmd 1 5) (demo_rftest 0 Map.empty)]\<rparr>]"

lemma calm_demo: "calm (demo_rftest k lg)"
  by (auto simp: calm_def demo_rftest_def demo_srv_def all_up_def logs_agree_def log_at_def split: if_splits)

lemma demo_applies:
  "(apply_step demo_env no_log)\<^sup>*\<^sup>* (demo_rftest 0 Map.empty) (after_apply 0 (demo_cmd 1 5) (demo_rftest 0 Map.empty))"
proof (rule r_into_rtranclp, rule apply_step.message [of 0 _ _ _ "demo_cmd 1 5"])
  show "applier demo_env no_log 0 (demo_cmd 1 5) (demo_rftest 0 Map.empty) = Inr (after_apply 0 (demo_cmd 1 5) (demo_rftest 0 Map.empty))"
    by (subst applier_iff) (auto simp: demo_defs all_up_def acceptable_def log_at_def split: if_splits)
qed (simp add: demo_rftest_def)


theorem wait_is_bounded_witness:
  "\<exists>g' slept r. wait 0 (\<lambda>_. ''5'') 1 1 0 [(demo_rftest 0 Map.empty, [Some (demo_srv 0 Map.empty)])] (demo_rftest 1 [1 \<mapsto> Some 5]) demo_log
      = Inr (g', slept, r) \<and> slept \<le> 30710"
  using wait_is_bounded [of "[(demo_rftest 0 Map.empty, [Some (demo_srv 0 Map.empty)])]" "demo_rftest 1 [1 \<mapsto> Some 5]" demo_log 0
      "\<lambda>_. ''5''" 1 1 0] calm_demo
  by (auto simp: demo_log_def srvs_running_def demo_srv_def)

end
