(* ===== verification/Rsm_Test.thy ===== *)
theory Rsm_Test
  imports Rsm Raft_Agree
begin

text \<open>
  The driver of the tests of the replicated state machine (\<open>kvraft1/rsm/test.go\<close>): \<open>onePartition\<close> looks for the leader,
  beginning with the server that led last, and \<open>checkCounter\<close> waits until enough servers have counter_reached. What the rounds
  read is an argument, as in \<open>Raft_Agree\<close>; \<open>Submit\<close> is an argument because it depends on the other servers.
\<close>

definition inPartition :: "nat \<Rightarrow> nat list option \<Rightarrow> bool" where
  "inPartition s p = (case p of None \<Rightarrow> True | Some p \<Rightarrow> s \<in> set p)"

text \<open>A pass over the servers: per server whether it is connected, and the entry of \<open>ts.srvs\<close>. \<open>k\<close> servers are left.\<close>

fun try_submit :: "(RSM \<Rightarrow> 'req \<Rightarrow> err \<times> 'rep option) \<Rightarrow> nat list option \<Rightarrow> 'req \<Rightarrow> (bool \<times> rsmSrv option) list \<Rightarrow> nat \<Rightarrow> nat \<Rightarrow>
    (nat \<times> 'rep option) option go" where
  "try_submit submit p req ss 0 index = Inr None"
| "try_submit submit p req ss (Suc k) index =
     bind_go (nth_go ss index) (\<lambda>(conn, srv).
       let again = try_submit submit p req ss k ((index + 1) mod length ss) in
       if conn then
         case srv of
           None \<Rightarrow> Inl NilDeref
         | Some s \<Rightarrow>
             (case rsm s of
                None \<Rightarrow> again
              | Some r \<Rightarrow>
                  if inPartition index p then
                    case submit r req of (err, rep) \<Rightarrow> if err = OK then Inr (Some (index, rep)) else again
                  else again)
       else again)"

text \<open>
  The rounds that begin within ten seconds, each with the leader it reads, because other calls of \<open>onePartition\<close> may set
  it meanwhile. The result is the reply and the leader to remember, or nil.
\<close>

fun onePartition :: "(RSM \<Rightarrow> 'req \<Rightarrow> err \<times> 'rep option) \<Rightarrow> nat list option \<Rightarrow> 'req \<Rightarrow> (nat \<times> (bool \<times> rsmSrv option) list) list \<Rightarrow>
    (nat \<times> 'rep option) option go" where
  "onePartition submit p req [] = Inr None"
| "onePartition submit p req ((leader, ss) # rounds) =
     bind_go (try_submit submit p req ss (length ss) leader) (\<lambda>r.
       case r of Some x \<Rightarrow> Inr (Some x) | None \<Rightarrow> onePartition submit p req rounds)"

text \<open>The type assertions on the reply: the request and the reply of the counter service.\<close>

definition oneInc :: "(RSM \<Rightarrow> creq \<Rightarrow> err \<times> crep option) \<Rightarrow> (nat \<times> (bool \<times> rsmSrv option) list) list \<Rightarrow> int option go" where
  "oneInc submit rounds =
     bind_go (onePartition submit None Inc rounds) (\<lambda>r.
       case r of
         None \<Rightarrow> Inr None
       | Some (_, None) \<Rightarrow> Inr None
       | Some (_, Some (IncRep n)) \<Rightarrow> Inr (Some n)
       | Some (_, Some NullRep) \<Rightarrow> Inl TypeAssertion)"

definition oneNull :: "(RSM \<Rightarrow> creq \<Rightarrow> err \<times> crep option) \<Rightarrow> (nat \<times> (bool \<times> rsmSrv option) list) list \<Rightarrow> unit option go" where
  "oneNull submit rounds =
     bind_go (onePartition submit None Null rounds) (\<lambda>r.
       case r of
         None \<Rightarrow> Inr None
       | Some (_, None) \<Rightarrow> Inr None
       | Some (_, Some NullRep) \<Rightarrow> Inr (Some ())
       | Some (_, Some (IncRep n)) \<Rightarrow> Inl TypeAssertion)"

fun countValue :: "64 word \<Rightarrow> rsmSrv option list \<Rightarrow> nat go" where
  "countValue v [] = Inr 0"
| "countValue v (s # ss) =
     (case s of None \<Rightarrow> Inl NilDeref
      | Some s \<Rightarrow> bind_go (countValue v ss) (\<lambda>i. Inr (if counter s = v then i + 1 else i)))"

text \<open>The result: the time slept and the reason of the failure or the success.\<close>

fun counter_rounds :: "int \<Rightarrow> 64 word \<Rightarrow> int \<Rightarrow> rsmSrv option list list \<Rightarrow> nat \<Rightarrow> int \<Rightarrow> int \<Rightarrow> globals \<Rightarrow> (globals \<times> int \<times> (check_end + unit)) go" where
  "counter_rounds tm v nsrv [] n tmo slept g =
     (let err = ''checkCounter: only '' @ itoa (int n) @ '' srvs have '' @ itoa (sint v) @ '' instead of '' @ itoa nsrv in
      bind_go (check_fatal tm err err (TooFew n) g) (\<lambda>(g, r). Inr (g, slept, r)))"
| "counter_rounds tm v nsrv (ss # rounds) n tmo slept g =
     bind_go (countValue v ss) (\<lambda>n.
       if int n \<ge> nsrv then
         let t = ''all '' @ itoa nsrv @ '' servers have counter value '' @ itoa (sint v) in
         bind_go (check_success tm t t () g) (\<lambda>(g, r). Inr (g, slept, r))
       else counter_rounds tm v nsrv rounds n (if tmo < 1000 then tmo * 2 else tmo) (slept + tmo) g)"

definition checkCounter :: "int \<Rightarrow> 64 word \<Rightarrow> int \<Rightarrow> rsmSrv option list list \<Rightarrow> globals \<Rightarrow> (globals \<times> int \<times> (check_end + unit)) go" where
  "checkCounter tm v nsrv rounds g = counter_rounds tm v nsrv (take 30 rounds) 0 10 0 g"

text \<open>The services of a server: those that implement \<open>raftapi.Raft\<close>, and others.\<close>

datatype service = RaftService Raft | OtherService

fun leader_of :: "service list \<Rightarrow> bool" where
  "leader_of [] = False"
| "leader_of (s # ss) = (case s of RaftService r \<Rightarrow> (let (_, isLeader) = GetState r in if isLeader then True else leader_of ss)
     | OtherService \<Rightarrow> leader_of ss)"

fun leader_from :: "nat \<Rightarrow> service list list \<Rightarrow> bool \<times> nat" where
  "leader_from i [] = (False, 0)"
| "leader_from i (ss # sss) = (if leader_of ss then (True, i) else leader_from (i + 1) sss)"

definition Leader :: "service list list \<Rightarrow> bool \<times> nat" where
  "Leader services = leader_from 0 services"

subsection \<open>Which server answers\<close>

definition takes_req :: "(RSM \<Rightarrow> 'req \<Rightarrow> err \<times> 'rep option) \<Rightarrow> nat list option \<Rightarrow> 'req \<Rightarrow> (bool \<times> rsmSrv option) list \<Rightarrow> nat \<Rightarrow> 'rep option option" where
  "takes_req submit p req ss i =
     (case ss ! i of
        (True, Some s) \<Rightarrow>
          (case rsm s of
             Some r \<Rightarrow> if inPartition i p \<and> fst (submit r req) = OK then Some (snd (submit r req)) else None
           | None \<Rightarrow> None)
      | _ \<Rightarrow> None)"

text \<open>The servers in the order in which a pass that begins with \<open>index\<close> tries the next \<open>k\<close> of \<open>n\<close>.\<close>

definition cyclic :: "nat \<Rightarrow> nat \<Rightarrow> nat \<Rightarrow> nat list" where
  "cyclic n k index = map (\<lambda>j. (index + j) mod n) [0..<k]"

lemma cyclic_Suc: "index < n \<Longrightarrow> cyclic n (Suc k) index = index # cyclic n k ((index + 1) mod n)"
  by (simp add: cyclic_def upt_conv_Cons map_Suc_upt [symmetric] mod_simps del: upt_Suc)

lemma cyclic_all: "index < n \<Longrightarrow> set (cyclic n n index) = {..<n}"
proof
  assume i: "index < n"
  then show "set (cyclic n n index) \<subseteq> {..<n}" by (auto simp: cyclic_def)
  show "{..<n} \<subseteq> set (cyclic n n index)"
  proof
    fix j assume j: "j \<in> {..<n}"
    let ?d = "if index \<le> j then j - index else n - index + j"
    have "?d < n" "(index + ?d) mod n = j" using i j by auto
    then show "j \<in> set (cyclic n n index)" by (auto simp: cyclic_def intro!: image_eqI [of _ _ ?d])
  qed
qed

fun first_taker :: "(nat \<Rightarrow> 'rep option option) \<Rightarrow> nat list \<Rightarrow> (nat \<times> 'rep option) option" where
  "first_taker f [] = None"
| "first_taker f (i # is) = (case f i of Some rep \<Rightarrow> Some (i, rep) | None \<Rightarrow> first_taker f is)"

lemma first_taker_Some:
  "first_taker f is = Some (i, rep) \<Longrightarrow> i \<in> set is \<and> f i = Some rep"
  by (induction "is") (auto split: option.splits)

lemma first_taker_None: "first_taker f is = None \<longleftrightarrow> (\<forall>i\<in>set is. f i = None)"
  by (induction "is") (auto split: option.splits)

lemma try_submit_eq:
  assumes "index < length ss" and "\<forall>(conn, srv)\<in>set ss. conn \<longrightarrow> srv \<noteq> None"
  shows "try_submit submit p req ss k index = Inr (first_taker (takes_req submit p req ss) (cyclic (length ss) k index))"
  using assms(1)
proof (induction k arbitrary: index)
  case (Suc k)
  obtain conn srv where s: "ss ! index = (conn, srv)" by fastforce
  then have "(conn, srv) \<in> set ss" using Suc.prems by (metis nth_mem)
  then have up: "conn \<longrightarrow> srv \<noteq> None" using assms(2) by auto
  have next_ok: "(index + 1) mod length ss < length ss" by (rule mod_less_divisor) (use Suc.prems in linarith)
  show ?case
    using s up Suc.prems Suc.IH [OF next_ok]
    by (cases conn; cases srv) (auto simp: nth_go_def cyclic_Suc takes_req_def Let_def split: option.splits prod.splits)
qed (simp add: cyclic_def)

text \<open>
  \<open>onePartition\<close> answers with a reply that a connected, running server of the partition gave with \<open>OK\<close>, and remembers
  this server; a round fails only if no such server accepts, and a leader that still accepts is asked first.
\<close>

definition rsm_round_ok :: "nat \<times> (bool \<times> rsmSrv option) list \<Rightarrow> bool" where
  "rsm_round_ok rd = (case rd of (leader, ss) \<Rightarrow> leader < length ss \<and> (\<forall>(conn, srv)\<in>set ss. conn \<longrightarrow> srv \<noteq> None))"

theorem one_partition_finds_leader:
  assumes "\<forall>rd\<in>set rounds. rsm_round_ok rd"
  shows "\<exists>r. onePartition submit p req rounds = Inr r \<and>
    (r = None \<longleftrightarrow> (\<forall>(leader, ss)\<in>set rounds. \<forall>i<length ss. takes_req submit p req ss i = None)) \<and>
    (\<forall>i rep. r = Some (i, rep) \<longrightarrow> (\<exists>(leader, ss)\<in>set rounds. i < length ss \<and> takes_req submit p req ss i = Some rep)) \<and>
    (\<forall>leader ss rest rep. rounds = (leader, ss) # rest \<and> takes_req submit p req ss leader = Some rep \<longrightarrow> r = Some (leader, rep))"
  using assms
proof (induction rounds)
  case (Cons rd rounds)
  obtain leader ss where rd: "rd = (leader, ss)" by (cases rd)
  have ok: "leader < length ss" "\<forall>(conn, srv)\<in>set ss. conn \<longrightarrow> srv \<noteq> None" using Cons.prems rd by (auto simp: rsm_round_ok_def)
  let ?f = "takes_req submit p req ss" and ?cyc = "cyclic (length ss) (length ss) leader"
  note t = try_submit_eq [OF ok, of submit p req "length ss"] and all = cyclic_all [OF ok(1)]
  have lead: "takes_req submit p req ss leader = Some rep \<Longrightarrow> first_taker ?f ?cyc = Some (leader, rep)" for rep
    using ok(1) cyclic_Suc [of leader "length ss" "length ss - 1"] by (cases "length ss") auto
  have rest_ok: "\<forall>rd\<in>set rounds. rsm_round_ok rd" using Cons.prems by simp
  obtain r where r: "onePartition submit p req rounds = Inr r"
      "r = None \<longleftrightarrow> (\<forall>(leader, ss)\<in>set rounds. \<forall>i<length ss. takes_req submit p req ss i = None)"
      "\<forall>i rep. r = Some (i, rep) \<longrightarrow> (\<exists>(leader, ss)\<in>set rounds. i < length ss \<and> takes_req submit p req ss i = Some rep)"
    using Cons.IH [OF rest_ok] by (elim exE conjE) (rule that; assumption)
  show ?case
  proof (cases "first_taker ?f ?cyc")
    case None
    then have "\<forall>i<length ss. ?f i = None" using first_taker_None [of ?f ?cyc] all by auto
    then show ?thesis using None t rd r lead by auto
  next
    case (Some x)
    then obtain i rep where x: "first_taker ?f ?cyc = Some (i, rep)" by (cases x) auto
    then have "i < length ss" "?f i = Some rep" using first_taker_Some [OF x] all by auto
    then show ?thesis using x t rd lead by fastforce
  qed
qed simp

text \<open>With the \<open>Submit\<close> of the repository no server accepts.\<close>

lemma one_partition_Submit:
  fixes req :: 'req
  shows "\<forall>rd\<in>set rounds. rsm_round_ok rd \<Longrightarrow> onePartition (Submit :: RSM \<Rightarrow> 'req \<Rightarrow> err \<times> 'rep option) p req rounds = Inr None"
proof (induction rounds)
  case (Cons rd rounds)
  obtain leader ss where rd: "rd = (leader, ss)" by (cases rd)
  let ?submit = "Submit :: RSM \<Rightarrow> 'req \<Rightarrow> err \<times> 'rep option"
  have "takes_req ?submit p req ss i = None" for i by (auto simp: takes_req_def Submit_def split: prod.splits bool.splits option.splits)
  then have "first_taker (takes_req ?submit p req ss) is = None" for "is" by (simp add: first_taker_None)
  then show ?case using Cons rd try_submit_eq [of leader ss ?submit p req "length ss"] by (simp add: rsm_round_ok_def)
qed simp

subsection \<open>Waiting for the counter\<close>

lemma countValue_eq:
  "\<forall>s\<in>set ss. s \<noteq> None \<Longrightarrow> countValue v ss = Inr (length (filter (\<lambda>s. counter (the s) = v) ss))"
  by (induction ss) auto

definition counter_reached :: "64 word \<Rightarrow> int \<Rightarrow> rsmSrv option list \<Rightarrow> bool" where
  "counter_reached v nsrv ss \<longleftrightarrow> nsrv \<le> int (length (filter (\<lambda>s. counter (the s) = v) ss))"

lemma counter_rounds_spec:
  assumes "\<forall>ss\<in>set rounds. \<forall>s\<in>set ss. s \<noteq> None" and "finfo g \<noteq> None" and "0 \<le> tmo"
  shows "\<exists>g' slept' r. counter_rounds tm v nsrv rounds n tmo slept g = Inr (g', slept', r) \<and>
    slept \<le> slept' \<and> slept' \<le> slept + backoff (length rounds) tmo \<and> (r = Inr () \<longleftrightarrow> (\<exists>ss\<in>set rounds. counter_reached v nsrv ss))"
  using assms
proof (induction rounds arbitrary: n tmo slept)
  case Nil
  let ?fatal = "\<lambda>d t. check_fatal tm d t (TooFew n) g :: unit checked"
  have "\<forall>d t. \<exists>g'. ?fatal d t = Inr (g', Inl (TooFew n))" by (intro allI check_ends(1) Nil.prems(2))
  then obtain F where "\<And>d t. ?fatal d t = Inr (F d t, Inl (TooFew n))" by metis
  then show ?case by (simp add: Let_def)
next
  case (Cons ss rounds)
  let ?n = "length (filter (\<lambda>s. counter (the s) = v) ss)" and ?tmo = "if tmo < 1000 then tmo * 2 else tmo"
  have n: "countValue v ss = Inr ?n" using countValue_eq Cons.prems(1) by auto
  have tmo: "0 \<le> ?tmo" using Cons.prems(3) by simp
  have rest_ok: "\<forall>ss\<in>set rounds. \<forall>s\<in>set ss. s \<noteq> None" using Cons.prems(1) by simp
  show ?case
  proof (cases "counter_reached v nsrv ss")
    case True
    let ?good = "\<lambda>d t. check_success tm d t () g"
    have "\<forall>d t. \<exists>g'. ?good d t = Inr (g', Inr ())" by (intro allI check_ends(2) Cons.prems(2))
    then obtain F where "\<And>d t. ?good d t = Inr (F d t, Inr ())" by metis
    then show ?thesis using True n Cons.prems(3) backoff_nonneg [OF tmo, of "length rounds"] by (simp add: counter_reached_def Let_def)
  next
    case False
    then have "counter_rounds tm v nsrv (ss # rounds) n tmo slept g = counter_rounds tm v nsrv rounds ?n ?tmo (slept + tmo) g"
      using n by (simp add: counter_reached_def)
    moreover obtain g' slept' r where "counter_rounds tm v nsrv rounds ?n ?tmo (slept + tmo) g = Inr (g', slept', r)"
        "slept + tmo \<le> slept'" "slept' \<le> slept + tmo + backoff (length rounds) ?tmo" "r = Inr () \<longleftrightarrow> (\<exists>ss\<in>set rounds. counter_reached v nsrv ss)"
      using Cons.IH [OF rest_ok Cons.prems(2) tmo, of ?n "slept + tmo"] by blast
    ultimately show ?thesis using False Cons.prems(3) by (intro exI [of _ g'] exI [of _ slept'] exI [of _ r]) auto
  qed
qed

text \<open>\<open>checkCounter\<close> sleeps at most 30.71 seconds and succeeds exactly if one of its readings has enough servers at the value.\<close>

theorem check_counter_exact:
  assumes "\<forall>ss\<in>set rounds. \<forall>s\<in>set ss. s \<noteq> None" and "finfo g \<noteq> None"
  shows "\<exists>g' slept r. checkCounter tm v nsrv rounds g = Inr (g', slept, r) \<and> slept \<le> 30710 \<and>
    (r = Inr () \<longleftrightarrow> (\<exists>ss\<in>set (take 30 rounds). counter_reached v nsrv ss))"
proof -
  have ok: "\<forall>ss\<in>set (take 30 rounds). \<forall>s\<in>set ss. s \<noteq> None" using assms(1) by (meson in_set_takeD)
  obtain g' slept r where c: "counter_rounds tm v nsrv (take 30 rounds) 0 10 0 g = Inr (g', slept, r)"
      "slept \<le> 0 + backoff (length (take 30 rounds)) 10" "r = Inr () \<longleftrightarrow> (\<exists>ss\<in>set (take 30 rounds). counter_reached v nsrv ss)"
    using counter_rounds_spec [OF ok assms(2), of 10 tm v nsrv 0 0] by auto
  moreover have "slept \<le> 30710" using c(2) backoff_mono [of 10 "length (take 30 rounds)" 30] backoff_30 by simp
  ultimately show ?thesis by (simp add: checkCounter_def)
qed

subsection \<open>Leader\<close>

lemma leader_of_iff: "leader_of ss \<longleftrightarrow> (\<exists>r. RaftService r \<in> set ss \<and> snd (GetState r))"
  by (induction ss) (auto split: service.splits prod.splits)

lemma leader_from_spec:
  "leader_from k sss = (if \<exists>i<length sss. leader_of (sss ! i) then (True, k + (LEAST i. i < length sss \<and> leader_of (sss ! i))) else (False, 0))"
proof (induction sss arbitrary: k)
  case (Cons ss sss)
  show ?case
  proof (cases "leader_of ss")
    case True
    then have "(LEAST i. i < length (ss # sss) \<and> leader_of ((ss # sss) ! i)) = 0" by (intro Least_equality) auto
    then show ?thesis using True by auto
  next
    case False
    have ex: "(\<exists>i<length (ss # sss). leader_of ((ss # sss) ! i)) \<longleftrightarrow> (\<exists>i<length sss. leader_of (sss ! i))"
      using False by (auto simp: less_Suc_eq_0_disj)
    show ?thesis
    proof (cases "\<exists>i<length sss. leader_of (sss ! i)")
      case True
      then obtain i where "Suc i < length (ss # sss) \<and> leader_of ((ss # sss) ! Suc i)" by auto
      then have "(LEAST i. i < length (ss # sss) \<and> leader_of ((ss # sss) ! i)) = Suc (LEAST i. Suc i < length (ss # sss) \<and> leader_of ((ss # sss) ! Suc i))"
        by (rule Least_Suc) (use False in simp)
      then show ?thesis using True False ex Cons by simp
    next
      case no: False
      then have "\<not> (\<exists>i<length (ss # sss). leader_of ((ss # sss) ! i))" using ex by simp
      then show ?thesis using no False Cons by (simp only: leader_from.simps if_False)
    qed
  qed
qed simp

text \<open>\<open>Leader\<close> returns the first server one of whose peers claims to lead.\<close>

lemma Leader_first:
  "Leader sss = (True, i) \<longleftrightarrow> i < length sss \<and> leader_of (sss ! i) \<and> (\<forall>j<i. \<not> leader_of (sss ! j))"
proof -
  have "(LEAST i. i < length sss \<and> leader_of (sss ! i)) = i \<longleftrightarrow> i < length sss \<and> leader_of (sss ! i) \<and> (\<forall>j<i. \<not> leader_of (sss ! j))"
    if "\<exists>i<length sss. leader_of (sss ! i)"
  proof -
    from that obtain k where "k < length sss \<and> leader_of (sss ! k)" by blast
    then have least: "(LEAST i. i < length sss \<and> leader_of (sss ! i)) < length sss \<and> leader_of (sss ! (LEAST i. i < length sss \<and> leader_of (sss ! i)))"
      by (rule LeastI)
    then show ?thesis using not_less_Least [of _ "\<lambda>i. i < length sss \<and> leader_of (sss ! i)"]
      by (metis (mono_tags, lifting) Least_equality less_trans not_less)
  qed
  then show ?thesis by (auto simp: Leader_def leader_from_spec)
qed

subsection \<open>Witnesses\<close>

definition demo_submit :: "RSM \<Rightarrow> creq \<Rightarrow> err \<times> crep option" where
  "demo_submit r req = (if rsm_me r = 1 then (OK, Some (IncRep 1)) else (ErrWrongLeader, None))"

definition demo_rsrvs :: "(bool \<times> rsmSrv option) list" where
  "demo_rsrvs = map (\<lambda>i. (True, Some (makeRsmSrv 3 i MakePersister (-1)))) [0..<3]"

theorem one_partition_finds_leader_witness:
  "onePartition demo_submit None Inc [(2, demo_rsrvs)] \<noteq> Inr None"
proof -
  have "\<forall>rd\<in>set [(2, demo_rsrvs)]. rsm_round_ok rd" by (auto simp: rsm_round_ok_def demo_rsrvs_def)
  moreover have "takes_req demo_submit None Inc demo_rsrvs 1 = Some (Some (IncRep 1))"
    by (simp add: takes_req_def demo_rsrvs_def makeRsmSrv_def MakeRSM_def demo_submit_def inPartition_def Let_def)
  moreover have "1 < length demo_rsrvs" by (simp add: demo_rsrvs_def)
  ultimately show ?thesis using one_partition_finds_leader [of "[(2, demo_rsrvs)]" demo_submit None Inc] by fastforce
qed

theorem check_counter_exact_witness:
  "\<exists>g' slept. checkCounter 0 0 3 [map snd demo_rsrvs] demo_log = Inr (g', slept, Inr ())"
proof -
  have "\<forall>ss\<in>set [map snd demo_rsrvs]. \<forall>s\<in>set ss. s \<noteq> None" by (auto simp: demo_rsrvs_def)
  moreover have "counter_reached 0 3 (map snd demo_rsrvs)" by (simp add: counter_reached_def demo_rsrvs_def makeRsmSrv_def Let_def)
  ultimately show ?thesis using check_counter_exact [of "[map snd demo_rsrvs]" demo_log 0 0 3] by (fastforce simp: demo_log_def)
qed

end
