(* ===== verification/Spec2Isabelle.thy ===== *)
theory Spec2Isabelle
  imports Kv_Model Kv_Lock Shard_Config Mr_Worker Raft_Cluster Kv_Network Labgob Tester_Clnts Tester_Annotation Kvtest_Append Raft_Apply Raft_Checks Rsm Leet_Search Leet_Dp
    Leet_Lists Leet_Trees Leet_Windows Leet_Intervals Leet_Sums Leet_Spiral Leet_Decode Leet_Heap Leet_Palindrome
    Mr_Timing Mr_Heartbeat Shard_Group Kvtest_Spawn Kvtest_Driver Raft_Heartbeat Raft_Agree Rsm_Test
begin

text \<open>
  \<^bold>\<open>A verification of the 6.5840 labs.\<close>

  The repository (Go, under \<open>src/src\<close>) holds the distributed systems labs of one author: a MapReduce
  (\<open>mr\<close>, \<open>mrapps\<close>, \<open>main/mrsequential.go\<close>), a versioned key/value server with its clerk and a lock built on it
  (\<open>kvsrv1\<close>), Raft as far as leader election (\<open>raft1\<close>), a replicated state machine that is only begun
  (\<open>kvraft1\<close>), shard configurations (\<open>shardkv1/shardcfg\<close>), and the frame they all run and are tested in: a
  simulated network (\<open>labrpc\<close>), the checked gob encoder (\<open>labgob\<close>), groups of servers and clients that are
  crashed, restarted and partitioned (\<open>tester1\<close>), the sequential model that histories are checked against
  (\<open>models1\<close>) and the shared test clients (\<open>kvtest1\<close>). Beside them stands a package of programming exercises
  (\<open>leet\<close>) that no other package uses.

  \<^bold>\<open>Theories and sources.\<close>

  \<^item> \<open>Go_Prelude\<close>: panics as values (\<open>go\<close>, \<open>bind_go\<close>, \<open>nth_go\<close>), Go maps and strings, 64-bit words, and the locale
    \<open>step_invariant\<close> (an invariant and an order kept by every step) used wherever a run is a sequence of steps.
  \<^item> \<open>Kv_Server\<close> (\<open>kvsrv1/server.go\<close>, \<open>rpc/rpc.go\<close>): \<open>Get\<close> and \<open>Put\<close>; the locale \<open>versioned_store\<close> is what clients
    rely on. \<open>Kv_Clerk\<close> (\<open>kvsrv1/client.go\<close>): the retry loops over a schedule of attempts. \<open>Kv_Model\<close>
    (\<open>models1/kv.go\<close>, \<open>kvtest1/porcupine.go\<close>): the sequential specification, its partition by key, and the
    refinement of clerk and server to it. \<open>Kv_Lock\<close> (\<open>kvsrv1/lock/lock.go\<close>): any number of lock clients
    interleaved at the granularity of RPCs; mutual exclusion. \<open>Kv_Network\<close>: the clerk over the simulated network.
  \<^item> \<open>Labrpc\<close> (\<open>labrpc/labrpc.go\<close>): ends, servers, services, the network and \<open>processReq\<close>, with the random choices
    as an argument. \<open>Labgob\<close> (\<open>labgob/labgob.go\<close>): the walks over types and values.
  \<^item> \<open>Tester_Group\<close>, \<open>Tester_Clnts\<close>, \<open>Tester_Annotation\<close> (\<open>tester1/group.go\<close>, \<open>srv.go\<close>, \<open>clnts.go\<close>, \<open>config.go\<close>,
    \<open>annotation.go\<close>): starting, stopping, connecting and partitioning servers, the ends of clients, and the log of
    annotations. \<open>Kvtest\<close>, \<open>Kvtest_Append\<close> (\<open>kvtest1/kvtest.go\<close>): the shared test clients and their checkers.
    \<open>Kvtest_Spawn\<close>: the goroutines and channels of \<open>SpawnClientsAndWait\<close>. \<open>Kvtest_Driver\<close> (\<open>kvtest1/porcupine.go\<close>,
    the end of a test in \<open>tester1/config.go\<close>): how a run is logged and handed to the checker.
  \<^item> \<open>Mr_Coordinator\<close>, \<open>Mr_Worker\<close> (\<open>mr/coordinator.go\<close>, \<open>mr/rpc.go\<close>, \<open>mr/worker.go\<close>, \<open>main/mrsequential.go\<close>,
    \<open>mrapps\<close>): the phase machine with its RPC handlers, and map and reduce tasks on a directory of files.
    \<open>Mr_Heartbeat\<close>: the heartbeats of workers and the leases the coordinator keeps. \<open>Mr_Timing\<close>
    (\<open>mrapps/jobcount.go\<close>, \<open>mtiming.go\<close>, \<open>rtiming.go\<close>): the plugins that count each other through files.
  \<^item> \<open>Raft_Peer\<close>, \<open>Raft_Cluster\<close> (\<open>raft1/raft.go\<close>, \<open>tester1/persister.go\<close>): one peer, and a cluster of them with
    messages delayed, reordered and lost. \<open>Raft_Apply\<close> (\<open>raft1/server.go\<close>, \<open>checkLogs\<close> of \<open>raft1/test.go\<close>): the
    appliers and snapshots of the servers around the peers. \<open>Raft_Heartbeat\<close>: the heartbeats of a leader and the
    ticker of a follower on a common clock. \<open>Raft_Checks\<close>, \<open>Raft_Agree\<close> (\<open>raft1/test.go\<close>): what the checks on
    leaders, terms and commits, and the polls of \<open>one\<close> and \<open>wait\<close>, report on such clusters and servers.
  \<^item> \<open>Rsm\<close> (\<open>kvraft1/rsm\<close>, \<open>kvraft1/server.go\<close>): the state machine interface as a locale, the counter service, and
    the handlers that are still empty. \<open>Rsm_Test\<close> (\<open>kvraft1/rsm/test.go\<close>): the search for the leader.
  \<^item> \<open>Shard_Config\<close>, \<open>Shard_Wf\<close> (\<open>shardkv1/shardcfg/shardcfg.go\<close>): \<open>Join\<close>, \<open>Leave\<close>, \<open>Rebalance\<close>, \<open>CheckConfig\<close> and
    the JSON form. \<open>Shard_Group\<close> (\<open>shardkv1/client.go\<close>, \<open>shardgrp\<close>, \<open>shardctrler\<close>): the placeholders, as they are.
  \<^item> \<open>Leet_Search\<close>, \<open>Leet_Scan\<close>, \<open>Leet_Dp\<close>, \<open>Leet_Lists\<close>, \<open>Leet_Trees\<close>, \<open>Leet_Strings\<close>, \<open>Leet_Windows\<close>, \<open>Leet_Intervals\<close>,
    \<open>Leet_Sums\<close>, \<open>Leet_Matrix\<close>, \<open>Leet_Spiral\<close>, \<open>Leet_Decode\<close>, \<open>Leet_Heap\<close>, \<open>Leet_Palindrome\<close>: every exercise of
    \<open>leet\<close>, with Go's wrap-around, panics and nodes in a store.

  A Go struct is a record with the same fields, a method a function from the receiver to the changed receiver and
  the results. A handler that holds its mutex is one step; where the code gives the mutex up (\<open>Elect\<close>, the lock,
  the appending clients), each stretch between two RPCs is one step of an interleaving.

  \<^bold>\<open>What is shown.\<close>

  \<^item> Key/value and lock: the server refines the sequential model; a \<open>Put\<close> of the clerk is performed at most once
    whatever the network loses, and has a linearization point; the retry loops return once one attempt is
    answered; at most one client holds the lock, and its release is accepted.
  \<^item> Network and tester: a call that returns true was executed once by the server registered under its name; on a
    reliable network it returns; clerks over the network behave as on the abstract schedule; partitions cut
    exactly the ends between the sides; a restarted server keeps its persisted state; annotations follow the
    faults; the checkers of the shared tests accept every interleaving of correct clients; waiting for spawned
    clients never deadlocks and yields each client's result; a sequential client passes the porcupine check.
  \<^item> MapReduce: tasks are handed out safely, progress is monotone, one live worker finishes the job, and the
    result is that of the sequential program. Heartbeats keep the tasks of live workers, and the worker table
    refines a table of leases.
  \<^item> Raft: one leader per term for up to three peers in runs without the races that the code leaves open, and runs
    in which these races give two leaders; one heartbeat goroutine per leader; applied logs agree; snapshots
    restore what they were made from; a follower that hears its leader in time starts no election;
    \<open>checkOneLeader\<close> and \<open>one\<close> report what the cluster and the appliers have reached, \<open>wait\<close> sleeps at most 30.71 s.
  \<^item> Shards: \<open>Rebalance\<close> terminates and balances; \<open>JoinBalance\<close> and \<open>LeaveBalance\<close> give configurations that pass
    \<open>CheckConfig\<close>; every configuration is well formed. Replicated counter: restored replicas continue alike, and the count is exact below \<open>2 ^ 63\<close>.
  \<^item> Exercises: each against its specification, among them the entry of a cycle, least edits, longest common
    subsequences, encoded strings decoded again, merged intervals, and the greatest palindrome of some digits.

  \<^bold>\<open>Bounds and schedules.\<close> A retry loop runs over a finite schedule of attempts and is \<open>None\<close> when the schedule ends
  first; the termination theorems say which schedules are enough. Versions are 64-bit words; mutual exclusion of
  the lock is stated for runs of fewer than \<open>2 ^ 64 - 1\<close> steps, so that no version wraps. \<open>Rebalance\<close> and the
  walk of \<open>checkValue\<close> are total functions with a termination measure. Clocks, random numbers, file contents and
  the gob encoding are arguments; where a theorem needs the encoding to be invertible, that is a hypothesis with
  a concrete encoding as witness.

  \<^bold>\<open>Not modelled.\<close> Log replication, persistence of the Raft state and the body of \<open>Submit\<close> do not exist in the
  repository; the empty handlers and clerks of \<open>kvraft1\<close>, \<open>shardgrp\<close> and \<open>shardctrler\<close> are modelled as the placeholders
  they are, and nothing is claimed of a service built on them. The commands under \<open>main\<close> other than \<open>mrsequential\<close> start
  processes, several for packages that are not there. Sockets, signal handlers, plugin loading, debug output and the
  visualization files are input and output. The test drivers that only put the framework together (\<open>kvsrv1/test.go\<close>,
  \<open>kvraft1/test.go\<close>, \<open>shardkv1/test.go\<close>) are left out. The porcupine checker and gob are code outside the repository.
\<close>

end
